(* ===== verification/Lin_Prelude.thy ===== *)
theory Lin_Prelude
  imports Main "HOL-Library.Word" "HOL-Library.Signed_Division"
begin

text \<open>
  Shared vocabulary of the development: the machine integer types of the C sources, the
  result type of the fallible functions, and the generic facts on results, lists and
  little-endian byte strings that the component theories use.

  \<^item> \<open>uint8_t\<close> .. \<open>uint64_t\<close> are words of that width; \<open>int64_t\<close> is the same
    64-bit word read through \<open>sint\<close>, so a C cast between \<open>int64_t\<close> and
    \<open>uint64_t\<close> is the identity and \<open>(size_t)x\<close> is \<open>unat x\<close>.
  \<^item> A C function \<open>E f(.., T *out)\<close> becomes a function into \<open>E + T\<close>: \<open>Inl e\<close>
    is the error return, \<open>Inr x\<close> the \<open>OK\<close> return with \<open>*out = x\<close>.
  \<^item> \<open>and_then\<close> is the idiom \<open>e = f(); if (e) return e;\<close>.
\<close>

unbundle bit_operations_syntax

type_synonym u8 = "8 word"
type_synonym u16 = "16 word"
type_synonym u32 = "32 word"
type_synonym u64 = "64 word"
type_synonym i64 = "64 word"
type_synonym bytes = "u8 list"

named_theorems wrap_simps \<open>wrapping 64-bit arithmetic\<close>
named_theorems codec_simps \<open>encoders and decoders of fixed-width fields\<close>

section \<open>Results\<close>

fun and_then :: "'e + 'a \<Rightarrow> ('a \<Rightarrow> 'e + 'b) \<Rightarrow> 'e + 'b" where
  "and_then (Inl e) f = Inl e"
| "and_then (Inr x) f = f x"

lemma and_then_eq_Inr [simp]:
  "and_then m f = Inr y \<longleftrightarrow> (\<exists>x. m = Inr x \<and> f x = Inr y)"
  by (cases m) auto

lemma and_then_eq_Inl [simp]:
  "and_then m f = Inl e \<longleftrightarrow> m = Inl e \<or> (\<exists>x. m = Inr x \<and> f x = Inl e)"
  by (cases m) auto

lemma and_then_cong [fundef_cong]:
  "m = m' \<Longrightarrow> (\<And>x. m' = Inr x \<Longrightarrow> f x = f' x) \<Longrightarrow> and_then m f = and_then m' f'"
  by (cases m') auto

text \<open>The same idiom for a function that may also fail to return (\<^const>\<open>None\<close>).\<close>

fun opt_then :: "('e + 'a) option \<Rightarrow> ('a \<Rightarrow> ('e + 'b) option) \<Rightarrow> ('e + 'b) option" where
  "opt_then None f = None"
| "opt_then (Some (Inl e)) f = Some (Inl e)"
| "opt_then (Some (Inr x)) f = f x"

lemma opt_then_alt: "opt_then m f = Option.bind m (\<lambda>r. case r of Inl e \<Rightarrow> Some (Inl e) | Inr x \<Rightarrow> f x)"
  by (cases "(m, f)" rule: opt_then.cases) auto

lemma opt_then_eq_Inr [simp]:
  "opt_then m f = Some (Inr y) \<longleftrightarrow> (\<exists>x. m = Some (Inr x) \<and> f x = Some (Inr y))"
  by (cases "(m, f)" rule: opt_then.cases) auto

lemma opt_then_eq_None [simp]:
  "opt_then m f = None \<longleftrightarrow> m = None \<or> (\<exists>x. m = Some (Inr x) \<and> f x = None)"
  by (cases "(m, f)" rule: opt_then.cases) auto

lemma opt_then_eq_Some:
  "opt_then m f = Some r \<longleftrightarrow> (\<exists>e. m = Some (Inl e) \<and> r = Inl e) \<or> (\<exists>x. m = Some (Inr x) \<and> f x = Some r)"
  by (cases "(m, f)" rule: opt_then.cases) auto

lemma opt_then_not_None:
  "m \<noteq> None \<Longrightarrow> (\<And>x. m = Some (Inr x) \<Longrightarrow> f x \<noteq> None) \<Longrightarrow> opt_then m f \<noteq> None"
  by auto

text \<open>\<open>opt_le m m'\<close>: a run that may have stopped for lack of fuel, and one with more fuel.\<close>

definition opt_le :: "'a option \<Rightarrow> 'a option \<Rightarrow> bool" where
  "opt_le m m' = (m = None \<or> m' = m)"

named_theorems fuel_mono \<open>more fuel never changes a result\<close>

lemma opt_le_refl [fuel_mono, simp]: "opt_le m m"
  by (simp add: opt_le_def)

lemma opt_le_None [fuel_mono, simp]: "opt_le None m"
  by (simp add: opt_le_def)

lemma opt_le_trans: "opt_le a b \<Longrightarrow> opt_le b c \<Longrightarrow> opt_le a c"
  by (auto simp: opt_le_def)

lemma opt_leD: "opt_le m m' \<Longrightarrow> m = Some r \<Longrightarrow> m' = Some r"
  by (auto simp: opt_le_def)

lemma opt_le_then [fuel_mono]:
  "opt_le m m' \<Longrightarrow> (\<And>x. opt_le (f x) (f' x)) \<Longrightarrow> opt_le (opt_then m f) (opt_then m' f')"
  by (cases "(m, f)" rule: opt_then.cases) (auto simp: opt_le_def)

lemma opt_le_if [fuel_mono]:
  "(b \<Longrightarrow> opt_le m m') \<Longrightarrow> (\<not> b \<Longrightarrow> opt_le k k') \<Longrightarrow> opt_le (if b then m else k) (if b then m' else k')"
  by simp

lemma opt_le_prod [fuel_mono]:
  "(\<And>x y. opt_le (f x y) (f' x y)) \<Longrightarrow> opt_le (case_prod f z) (case_prod f' z)"
  by (cases z) simp

lemma opt_le_sum [fuel_mono]:
  "(\<And>x. opt_le (f x) (f' x)) \<Longrightarrow> (\<And>y. opt_le (g y) (g' y)) \<Longrightarrow>
   opt_le (case_sum f g z) (case_sum f' g' z)"
  by (cases z) simp_all

lemma opt_le_fuel:
  assumes step: "\<And>n. opt_le (f n) (f (Suc n))" and "n \<le> m"
  shows "opt_le (f n) (f m)"
  using \<open>n \<le> m\<close> by (induction m rule: dec_induct) (auto intro: opt_le_trans step)

text \<open>
  The interface of a fuelled evaluator: one more unit of fuel never changes a result. What its
  clients need follows once and for all: results are stable, unique and independent of the
  fuel that was enough to reach them.
\<close>

locale fuelled =
  fixes run :: "nat \<Rightarrow> 'a \<Rightarrow> 'b option"
  assumes more_fuel: "opt_le (run n x) (run (Suc n) x)"
begin

lemma stable: "run n x = Some r \<Longrightarrow> n \<le> m \<Longrightarrow> run m x = Some r"
  by (rule opt_leD [OF opt_le_fuel [where f = "\<lambda>k. run k x"]]) (simp_all add: more_fuel)

lemma deterministic: "run n x = Some r \<Longrightarrow> run m x = Some r' \<Longrightarrow> r = r'"
proof -
  assume r: "run n x = Some r" "run m x = Some r'"
  have "run (max n m) x = Some r" "run (max n m) x = Some r'"
    by (rule stable [OF r(1)], simp) (rule stable [OF r(2)], simp)
  then show "r = r'" by simp
qed

lemma enough: "run n x \<noteq> None \<Longrightarrow> n \<le> m \<Longrightarrow> run m x = run n x"
proof -
  assume "run n x \<noteq> None" and le: "n \<le> m"
  then obtain r where r: "run n x = Some r" by blast
  from stable [OF r le] r show "run m x = run n x" by (rule trans [OF _ sym])
qed

end

lemma opt_then_cong [fundef_cong]:
  "m = m' \<Longrightarrow> (\<And>x. m' = Some (Inr x) \<Longrightarrow> f x = f' x) \<Longrightarrow> opt_then m f = opt_then m' f'"
  by (cases "(m', f)" rule: opt_then.cases) auto

lemma opt_then_mono [partial_function_mono]:
  assumes m: "mono_option (\<lambda>g. m g)" and f: "\<And>x. mono_option (\<lambda>g. f x g)"
  shows "mono_option (\<lambda>g. opt_then (m g) (\<lambda>x. f x g))"
proof -
  have "mono_option (\<lambda>g. Option.bind (m g) (\<lambda>r. case r of Inl e \<Rightarrow> Some (Inl e) | Inr x \<Rightarrow> f x g))"
  proof (rule bind_mono [OF m])
    fix r :: "'c + 'd"
    show "mono_option (\<lambda>g. case r of Inl e \<Rightarrow> Some (Inl e) | Inr x \<Rightarrow> f x g)"
      by (cases r) (simp_all add: f option.const_mono)
  qed
  then show ?thesis by (simp add: opt_then_alt)
qed

definition require :: "'e \<Rightarrow> bool \<Rightarrow> 'e + unit" where
  "require e b = (if b then Inr () else Inl e)"

lemma require_eq_Inr [simp]: "require e b = Inr u \<longleftrightarrow> b"
  by (simp add: require_def)

lemma require_eq_Inl [simp]: "require e b = Inl e' \<longleftrightarrow> \<not> b \<and> e' = e"
  by (auto simp: require_def)

lemma require_True [simp]: "require e True = Inr ()"
  by (simp add: require_def)

lemma require_False [simp]: "require e False = Inl e"
  by (simp add: require_def)

section \<open>Text and bytes\<close>

text \<open>A C string literal or source text as the bytes the C code reads.\<close>

definition bytes_of_string :: "string \<Rightarrow> bytes" where
  "bytes_of_string s = map of_char s"

lemma length_bytes_of_string [simp]: "length (bytes_of_string s) = length s"
  by (simp add: bytes_of_string_def)

lemma bytes_of_string_append [simp]:
  "bytes_of_string (s @ t) = bytes_of_string s @ bytes_of_string t"
  by (simp add: bytes_of_string_def)

section \<open>Decimal text\<close>

text \<open>The decimal digits of a number, most significant first, and their value.\<close>

definition digit_char :: "nat \<Rightarrow> char" where
  "digit_char d = char_of (48 + d)"

fun dec_digits :: "nat \<Rightarrow> string" where
  "dec_digits n = (if n < 10 then [digit_char n] else dec_digits (n div 10) @ [digit_char (n mod 10)])"

declare dec_digits.simps [simp del]

definition dec_step :: "'a::semiring_1 \<Rightarrow> char \<Rightarrow> 'a" where
  "dec_step acc c = acc * 10 + of_nat (of_char c - 48)"

lemma of_char_digit_char [simp]: "d < 10 \<Longrightarrow> of_char (digit_char d) = 48 + d"
  by (simp add: digit_char_def of_char_of)

lemma dec_step_digit_char [simp]: "d < 10 \<Longrightarrow> dec_step acc (digit_char d) = acc * 10 + of_nat d"
  by (simp add: dec_step_def)

lemma dec_digits_nonempty [simp]: "dec_digits n \<noteq> []"
  by (subst dec_digits.simps) simp

lemma dec_digits_value: "foldl dec_step 0 (dec_digits n) = (of_nat n :: 'a::comm_semiring_1)"
proof (induction n rule: dec_digits.induct)
  case (1 n)
  show ?case
  proof (cases "n < 10")
    case True
    then show ?thesis by (subst dec_digits.simps) simp
  next
    case False
    have "of_nat (n div 10) * 10 + of_nat (n mod 10) = (of_nat (n div 10 * 10 + n mod 10) :: 'a)"
      by (simp only: of_nat_add of_nat_mult of_nat_numeral)
    also have "n div 10 * 10 + n mod 10 = n" by (rule div_mult_mod_eq)
    finally show ?thesis using False 1 by (subst dec_digits.simps) simp
  qed
qed

lemma dec_digits_are_digits:
  "c \<in> set (dec_digits n) \<Longrightarrow> \<exists>d < 10. c = digit_char d"
proof (induction n rule: dec_digits.induct)
  case (1 n)
  show ?case
  proof (cases "n < 10")
    case True
    with "1.prems" show ?thesis by (subst (asm) dec_digits.simps) auto
  next
    case False
    then have "set (dec_digits n) = insert (digit_char (n mod 10)) (set (dec_digits (n div 10)))"
      by (subst dec_digits.simps) simp
    with False 1 show ?thesis by (auto intro: exI [of _ "n mod 10"])
  qed
qed

section \<open>Searching and C strings\<close>

text \<open>An index or \<open>-1\<close>, as an option.\<close>

fun index_from :: "nat \<Rightarrow> ('a \<Rightarrow> bool) \<Rightarrow> 'a list \<Rightarrow> nat option" where
  "index_from i P [] = None"
| "index_from i P (x # xs) = (if P x then Some i else index_from (Suc i) P xs)"

lemma index_from_Some: "index_from i P xs = Some k \<Longrightarrow> i \<le> k \<and> k < i + length xs \<and> P (xs ! (k - i))"
proof (induction xs arbitrary: i)
  case (Cons x xs)
  show ?case
  proof (cases "P x")
    case False
    with Cons.prems have "index_from (Suc i) P xs = Some k" by simp
    from Cons.IH [OF this] show ?thesis by (auto simp: nth_Cons' Suc_diff_le)
  qed (use Cons.prems in auto)
qed simp

lemma index_from_first: "index_from i P xs = Some k \<Longrightarrow> j < k - i \<Longrightarrow> \<not> P (xs ! j)"
proof (induction xs arbitrary: i j)
  case (Cons x xs)
  show ?case
  proof (cases j)
    case (Suc j')
    with Cons.prems have "index_from (Suc i) P xs = Some k" "j' < k - Suc i" by (auto split: if_splits)
    with Cons.IH Suc show ?thesis by simp
  qed (use Cons.prems in \<open>auto split: if_splits\<close>)
qed simp

lemma index_from_None: "index_from i P xs = None \<longleftrightarrow> \<not> list_ex P xs"
  by (induction xs arbitrary: i) auto

text \<open>What a C function reads of a buffer: the text up to the first NUL.\<close>

definition cstr :: "string \<Rightarrow> string" where
  "cstr s = takeWhile (\<lambda>c. c \<noteq> CHR 0x00) s"

definition is_blank :: "char \<Rightarrow> bool" where
  "is_blank c = (c = CHR '' '' \<or> c = CHR 0x09)"

end
