(* ===== verification/Lin_Common.thy ===== *)
theory Lin_Common
  imports Lin_Prelude
begin

text \<open>
  \<open>transpile/c/lin_c/lin_common.h\<close> and \<open>lin_common.c\<close>: the error enumeration shared
  by the parser, the evaluator, the lowerer and the VM, its display names, the limits of the
  pipeline and the wrapping 64-bit arithmetic (\<open>lin_wadd\<close> .. \<open>lin_wrem\<close>) that gives
  signed overflow a defined meaning.
\<close>

section \<open>Errors\<close>

datatype LinErr =
    LIN_OK
  | LIN_ERR_ARENA_OOM
  | LIN_ERR_MISSING_CLOSE_PAREN
  | LIN_ERR_UNEXPECTED_PRIMARY
  | LIN_ERR_INVALID_BINARY_OP
  | LIN_ERR_TRAILING_TOKENS
  | LIN_ERR_INVALID_NODE
  | LIN_ERR_DIV_ZERO
  | LIN_ERR_UNDEF_VAR
  | LIN_ERR_VM_STEP_LIMIT
  | LIN_ERR_VM_STACK_OVERFLOW
  | LIN_ERR_VM_STACK_UNDERFLOW
  | LIN_ERR_VM_BAD_FN
  | LIN_ERR_VM_DEPTH
  | LIN_ERR_VM_ARITY
  | LIN_ERR_VM_DIV_ZERO
  | LIN_ERR_PARSE_TOO_DEEP

fun lin_err_name :: "LinErr \<Rightarrow> string" where
  "lin_err_name LIN_OK = ''error.Success''"
| "lin_err_name LIN_ERR_ARENA_OOM = ''error.ArenaOutOfMemory''"
| "lin_err_name LIN_ERR_MISSING_CLOSE_PAREN = ''error.MissingClosingParen''"
| "lin_err_name LIN_ERR_UNEXPECTED_PRIMARY = ''error.UnexpectedTokenInPrimary''"
| "lin_err_name LIN_ERR_INVALID_BINARY_OP = ''error.InvalidBinaryOperator''"
| "lin_err_name LIN_ERR_TRAILING_TOKENS = ''error.TrailingTokens''"
| "lin_err_name LIN_ERR_INVALID_NODE = ''error.InvalidNodeIndex''"
| "lin_err_name LIN_ERR_DIV_ZERO = ''error.DivisionByZero''"
| "lin_err_name LIN_ERR_UNDEF_VAR = ''error.UndefinedVariable''"
| "lin_err_name LIN_ERR_VM_STEP_LIMIT = ''error.VmStepLimit''"
| "lin_err_name LIN_ERR_VM_STACK_OVERFLOW = ''error.VmStackOverflow''"
| "lin_err_name LIN_ERR_VM_STACK_UNDERFLOW = ''error.VmStackUnderflow''"
| "lin_err_name LIN_ERR_VM_BAD_FN = ''error.VmBadFunction''"
| "lin_err_name LIN_ERR_VM_DEPTH = ''error.VmDepth''"
| "lin_err_name LIN_ERR_VM_ARITY = ''error.VmArity''"
| "lin_err_name LIN_ERR_VM_DIV_ZERO = ''error.VmDivisionByZero''"
| "lin_err_name LIN_ERR_PARSE_TOO_DEEP = ''error.ParseTooDeep''"

section \<open>Limits\<close>

definition LIN_ARENA_CAP :: nat where "LIN_ARENA_CAP = 256"
definition LIN_PARSER_MAX_DEPTH :: nat where "LIN_PARSER_MAX_DEPTH = 64"
definition LIN_MAX_ARGS :: nat where "LIN_MAX_ARGS = 16"
definition LIN_VM_MAX_LOCALS :: nat where "LIN_VM_MAX_LOCALS = 64"
definition LIN_VM_MAX_STACK :: nat where "LIN_VM_MAX_STACK = 256"
definition LIN_VM_MAX_DEPTH :: nat where "LIN_VM_MAX_DEPTH = 192"
definition LIN_VM_STEP_LIMIT :: u64 where "LIN_VM_STEP_LIMIT = 200000000"
definition LIN_VM_MAX_ARRS :: nat where "LIN_VM_MAX_ARRS = 8"
definition LIN_VM_MAX_ARR_LEN :: nat where "LIN_VM_MAX_ARR_LEN = 256"
definition LIN_LOWER_CAP :: nat where "LIN_LOWER_CAP = 512"

lemmas lin_limits =
  LIN_ARENA_CAP_def LIN_PARSER_MAX_DEPTH_def LIN_MAX_ARGS_def LIN_VM_MAX_LOCALS_def
  LIN_VM_MAX_STACK_def LIN_VM_MAX_DEPTH_def LIN_VM_STEP_LIMIT_def LIN_VM_MAX_ARRS_def
  LIN_VM_MAX_ARR_LEN_def LIN_LOWER_CAP_def

section \<open>Strings and wrapping arithmetic\<close>

text \<open>
  A \<open>LinStr\<close> slice is only ever compared or copied, so it is modelled by its contents.
  \<open>lin_str_eq_cstr\<close> compares the length and the bytes.
\<close>

definition lin_str_eq_cstr :: "string \<Rightarrow> string \<Rightarrow> bool" where
  "lin_str_eq_cstr a b = (length a = length b \<and> (length b = 0 \<or> take (length b) a = b))"

definition INT64_MIN :: i64 where
  "INT64_MIN = 0x8000000000000000"

definition lin_wadd :: "i64 \<Rightarrow> i64 \<Rightarrow> i64" where
  "lin_wadd a b = a + b"

definition lin_wsub :: "i64 \<Rightarrow> i64 \<Rightarrow> i64" where
  "lin_wsub a b = a - b"

definition lin_wmul :: "i64 \<Rightarrow> i64 \<Rightarrow> i64" where
  "lin_wmul a b = a * b"

text \<open>
  C's \<open>/\<close> and \<open>%\<close> truncate towards zero; the one quotient that does not fit is
  answered before the division is executed.
\<close>

definition lin_wdiv :: "i64 \<Rightarrow> i64 \<Rightarrow> i64" where
  "lin_wdiv x y =
     (if x = INT64_MIN \<and> y = -1 then INT64_MIN else word_of_int (sint x sdiv sint y))"

definition lin_wrem :: "i64 \<Rightarrow> i64 \<Rightarrow> i64" where
  "lin_wrem x y =
     (if x = INT64_MIN \<and> y = -1 then 0 else word_of_int (sint x smod sint y))"

section \<open>Facts\<close>

lemma lin_str_eq_cstr_iff [simp]: "lin_str_eq_cstr a b \<longleftrightarrow> a = b"
  by (auto simp: lin_str_eq_cstr_def)

lemma sint_INT64_MIN: "sint INT64_MIN = - (2 ^ 63)"
  by (simp add: INT64_MIN_def)

lemma sint_minus_one_i64: "sint (- 1 :: i64) = - 1"
  by simp

lemma i64_range: "- (2 ^ 63) \<le> sint (x :: i64)" "sint (x :: i64) < 2 ^ 63"
  using sint_ge [of x] sint_lt [of x] by simp_all

lemma i64_of_sint: "word_of_int (sint (x :: i64)) = x"
  by simp

lemma sint_small: "unat (x :: i64) < 2 ^ 63 \<Longrightarrow> sint x = int (unat x)"
proof -
  assume "unat x < 2 ^ 63"
  then have "int (unat x) < int (2 ^ 63)" by (simp only: of_nat_less_iff)
  then have "uint x < 2 ^ 63" by simp
  moreover have "- (2 ^ 63) \<le> uint x"
    by (rule order_trans [OF _ uint_nonnegative]) simp
  ultimately have "signed_take_bit 63 (uint x) = uint x" by (intro signed_take_bit_int_eq_self)
  then show ?thesis by (simp add: sint_uint)
qed

lemma sint_nonneg: "0 \<le> sint (x :: i64) \<Longrightarrow> sint x = int (unat x)"
  using i64_range [of x] by (simp add: uint_sint take_bit_int_eq_self)

text \<open>The truncated quotient of two 64-bit values fits, but for \<open>INT64_MIN / -1\<close>.\<close>

lemma sdiv_range:
  assumes a: "- (2 ^ 63) \<le> a" "a < 2 ^ 63" and no: "\<not> (a = - (2 ^ 63) \<and> b = - 1)"
  shows "- (2 ^ 63) \<le> a sdiv b" "a sdiv b < (2 ^ 63 :: int)"
proof -
  have r: "- \<bar>a\<bar> \<le> a sdiv b" "a sdiv b \<le> \<bar>a\<bar>" using sdiv_int_range [of a b] by simp_all
  with a show "- (2 ^ 63) \<le> a sdiv b" by linarith
  show "a sdiv b < 2 ^ 63"
  proof (rule ccontr)
    assume "\<not> a sdiv b < 2 ^ 63"
    with r(2) a have "a = - (2 ^ 63)" "a sdiv b = - a" by linarith+
    then have "b = - 1" using int_sdiv_negated_is_minus1 [of a b] by simp
    with no \<open>a = - (2 ^ 63)\<close> show False by simp
  qed
qed

lemma smod_range:
  assumes "- (2 ^ 63) \<le> b" "b < 2 ^ 63" "b \<noteq> 0"
  shows "- (2 ^ 63) \<le> a smod b" "a smod b < (2 ^ 63 :: int)"
proof -
  have "1 - \<bar>b\<bar> \<le> a smod b" "a smod b < \<bar>b\<bar>" using smod_int_range [of b a] assms(3) by auto
  with assms show "- (2 ^ 63) \<le> a smod b" "a smod b < (2 ^ 63 :: int)" by linarith+
qed

lemma sint_of_int_i64: "- (2 ^ 63) \<le> k \<Longrightarrow> k < 2 ^ 63 \<Longrightarrow> sint (word_of_int k :: i64) = k"
  by (simp add: signed_of_int signed_take_bit_int_eq_self)

section \<open>Properties\<close>

text \<open>
  Division is total and lawful. For every non-zero divisor the wrapping quotient and
  remainder satisfy \<open>x = q * y + r\<close> modulo 2^64, the overflowing \<open>INT64_MIN / -1\<close>
  included, and on every other pair they are the exact truncated quotient and remainder.
\<close>
theorem wrapping_division_law:
  assumes "y \<noteq> 0"
  shows "lin_wadd (lin_wmul (lin_wdiv x y) y) (lin_wrem x y) = x \<and>
    (\<not> (x = INT64_MIN \<and> y = - 1) \<longrightarrow>
      sint (lin_wdiv x y) = sint x sdiv sint y \<and> sint (lin_wrem x y) = sint x smod sint y)"
proof (cases "x = INT64_MIN \<and> y = - 1")
  case True
  then show ?thesis by (simp add: lin_wadd_def lin_wmul_def lin_wdiv_def lin_wrem_def INT64_MIN_def)
next
  case False
  let ?a = "sint x" and ?b = "sint y"
  have no: "\<not> (?a = - (2 ^ 63) \<and> ?b = - 1)"
    using False sint_INT64_MIN sint_minus_one_i64 by (metis signed_word_eqI)
  have b: "?b \<noteq> 0" using assms by (metis signed_0 signed_word_eqI)
  have q: "sint (lin_wdiv x y) = ?a sdiv ?b" and r: "sint (lin_wrem x y) = ?a smod ?b"
    unfolding lin_wdiv_def lin_wrem_def if_not_P [OF False]
    by (intro sint_of_int_i64 sdiv_range smod_range i64_range no b)+
  have "lin_wadd (lin_wmul (lin_wdiv x y) y) (lin_wrem x y) = word_of_int (?a sdiv ?b * ?b + ?a smod ?b)"
    unfolding lin_wadd_def lin_wmul_def q [symmetric] r [symmetric] by simp
  also have "\<dots> = x" by (simp only: sdiv_mult_smod_eq i64_of_sint)
  finally show ?thesis using q r by blast
qed

theorem wrapping_division_law_witness:
  "lin_wadd (lin_wmul (lin_wdiv INT64_MIN (- 1)) (- 1)) (lin_wrem INT64_MIN (- 1)) = INT64_MIN"
  using wrapping_division_law [of "- 1" INT64_MIN] by simp

text \<open>The display name determines the error: \<open>lin_err_name\<close> never maps two codes to one text.\<close>
theorem lin_err_name_injective: "inj lin_err_name"
proof (rule injI)
  fix x y
  assume "lin_err_name x = lin_err_name y"
  then show "x = y" by (cases x; cases y) simp_all
qed

end
