(* ===== verification/Lin_Token.thy ===== *)
theory Lin_Token
  imports Lin_Common "HOL-Library.Char_ord"
begin

text \<open>
  \<open>transpile/c/lin_c/lin_token.h\<close> and \<open>lin_token.c\<close>: the tokenizer of the C-expression
  pipeline. The source buffer is a \<^typ>\<open>string\<close> (one \<open>char\<close> per byte), a position is an
  index into it, and the \<open>while\<close> loops of \<open>lin_next_token\<close> are the recursive
  functions \<open>skip_ws\<close>, \<open>scan_digits\<close> and \<open>scan_ident\<close>. \<open>token_stream\<close> is the token
  stream a client that calls \<open>lin_next_token\<close> until \<open>TOK_EOF\<close> sees.
\<close>

section \<open>Data\<close>

datatype TokKind =
    TOK_INT_LIT | TOK_IDENT | TOK_PLUS | TOK_MINUS | TOK_MUL | TOK_DIV | TOK_MOD
  | TOK_EQ | TOK_NEQ | TOK_LT | TOK_LTE | TOK_GT | TOK_GTE
  | TOK_LPAREN | TOK_RPAREN | TOK_COMMA | TOK_EOF | TOK_INVALID

record Token =
  kind :: TokKind
  val :: i64
  name :: string
  pos :: nat

section \<open>The tokenizer\<close>

definition is_digit :: "char \<Rightarrow> bool" where
  "is_digit c = (CHR ''0'' \<le> c \<and> c \<le> CHR ''9'')"

definition is_alpha :: "char \<Rightarrow> bool" where
  "is_alpha c = ((CHR ''a'' \<le> c \<and> c \<le> CHR ''z'') \<or> (CHR ''A'' \<le> c \<and> c \<le> CHR ''Z''))"

definition is_ident_start :: "char \<Rightarrow> bool" where
  "is_ident_start c = (is_alpha c \<or> c = CHR ''_'')"

definition is_ident :: "char \<Rightarrow> bool" where
  "is_ident c = (is_alpha c \<or> is_digit c \<or> c = CHR ''_'')"

definition is_ws :: "char \<Rightarrow> bool" where
  "is_ws c = (c = CHR '' '' \<or> c = CHR 0x09 \<or> c = CHR 0x0D \<or> c = CHR 0x0A)"

function skip_ws :: "string \<Rightarrow> nat \<Rightarrow> nat" where
  "skip_ws src p = (if p < length src \<and> is_ws (src ! p) then skip_ws src (p + 1) else p)"
  by pat_completeness auto
termination
  by (relation "measure (\<lambda>(src, p). length src - p)") auto

function scan_digits :: "string \<Rightarrow> nat \<Rightarrow> u64 \<Rightarrow> u64 \<times> nat" where
  "scan_digits src p num =
     (if p < length src \<and> is_digit (src ! p)
      then scan_digits src (p + 1) (num * 10 + of_nat (of_char (src ! p) - of_char (CHR ''0'')))
      else (num, p))"
  by pat_completeness auto
termination
  by (relation "measure (\<lambda>(src, p, num). length src - p)") auto

function scan_ident :: "string \<Rightarrow> nat \<Rightarrow> nat" where
  "scan_ident src p = (if p < length src \<and> is_ident (src ! p) then scan_ident src (p + 1) else p)"
  by pat_completeness auto
termination
  by (relation "measure (\<lambda>(src, p). length src - p)") auto

declare skip_ws.simps [simp del] scan_digits.simps [simp del] scan_ident.simps [simp del]

definition single_char_op :: "char \<Rightarrow> TokKind" where
  "single_char_op c =
     (if c = CHR ''+'' then TOK_PLUS
      else if c = CHR ''-'' then TOK_MINUS
      else if c = CHR ''*'' then TOK_MUL
      else if c = CHR ''/'' then TOK_DIV
      else if c = CHR ''%'' then TOK_MOD
      else if c = CHR ''<'' then TOK_LT
      else if c = CHR ''>'' then TOK_GT
      else if c = CHR ''('' then TOK_LPAREN
      else if c = CHR '')'' then TOK_RPAREN
      else if c = CHR '','' then TOK_COMMA
      else TOK_INVALID)"

definition followed_by_eq :: "string \<Rightarrow> nat \<Rightarrow> bool" where
  "followed_by_eq src p = (p + 1 < length src \<and> src ! (p + 1) = CHR ''='')"

definition plain_token :: "TokKind \<Rightarrow> nat \<Rightarrow> Token" where
  "plain_token k start = \<lparr>kind = k, val = 0, name = [], pos = start\<rparr>"

definition lin_next_token :: "string \<Rightarrow> nat \<Rightarrow> Token \<times> nat" where
  "lin_next_token src pos0 =
     (let p = skip_ws src pos0 in
      if p \<ge> length src then (plain_token TOK_EOF p, p)
      else let start = p; c = src ! p in
      if is_digit c then
        let (num, p) = scan_digits src p 0 in
        if p < length src \<and> (is_alpha (src ! p) \<or> src ! p = CHR ''_'')
        then (plain_token TOK_INVALID start, p)
        else (\<lparr>kind = TOK_INT_LIT, val = num, name = [], pos = start\<rparr>, p)
      else if is_ident_start c then
        let q = scan_ident src p in
        (\<lparr>kind = TOK_IDENT, val = 0, name = take (q - p) (drop p src), pos = start\<rparr>, q)
      else if c = CHR ''='' \<and> followed_by_eq src p then (plain_token TOK_EQ start, p + 2)
      else if c = CHR ''!'' \<and> followed_by_eq src p then (plain_token TOK_NEQ start, p + 2)
      else if c = CHR ''<'' \<and> followed_by_eq src p then (plain_token TOK_LTE start, p + 2)
      else if c = CHR ''>'' \<and> followed_by_eq src p then (plain_token TOK_GTE start, p + 2)
      else (plain_token (single_char_op c) start, p + 1))"

definition lin_peek_token :: "string \<Rightarrow> nat \<Rightarrow> Token" where
  "lin_peek_token src p = fst (lin_next_token src p)"

section \<open>Positions: every call makes progress inside the buffer\<close>

lemma skip_ws_ge: "p \<le> skip_ws src p"
  by (induction src p rule: skip_ws.induct) (subst skip_ws.simps, auto)

lemma skip_ws_le: "p \<le> length src \<Longrightarrow> skip_ws src p \<le> length src"
  by (induction src p rule: skip_ws.induct) (subst skip_ws.simps, auto)

lemma scan_digits_bounds:
  "p \<le> length src \<Longrightarrow> p \<le> snd (scan_digits src p n) \<and> snd (scan_digits src p n) \<le> length src"
  by (induction src p n rule: scan_digits.induct) (subst (1 2) scan_digits.simps, auto)

lemma scan_digits_progress:
  "p < length src \<Longrightarrow> is_digit (src ! p) \<Longrightarrow> p < snd (scan_digits src p n)"
  using scan_digits_bounds [of "p + 1" src]
  by (subst scan_digits.simps) (auto intro: Suc_le_lessD)

lemma scan_ident_bounds:
  "p \<le> length src \<Longrightarrow> p \<le> scan_ident src p \<and> scan_ident src p \<le> length src"
  by (induction src p rule: scan_ident.induct) (subst (1 2) scan_ident.simps, auto)

lemma is_ident_startD: "is_ident_start c \<Longrightarrow> is_ident c"
  by (auto simp: is_ident_start_def is_ident_def)

lemma scan_ident_progress:
  "p < length src \<Longrightarrow> is_ident (src ! p) \<Longrightarrow> p < scan_ident src p"
  using scan_ident_bounds [of "p + 1" src]
  by (subst scan_ident.simps) (auto intro: Suc_le_lessD)

lemma single_char_op_kinds [simp]:
  "single_char_op c \<noteq> TOK_EOF" "single_char_op c \<noteq> TOK_INT_LIT" "single_char_op c \<noteq> TOK_IDENT"
  by (simp_all add: single_char_op_def)

lemma plain_token_sel [simp]:
  "kind (plain_token k s) = k" "val (plain_token k s) = 0"
  "name (plain_token k s) = []" "pos (plain_token k s) = s"
  by (simp_all add: plain_token_def)

lemma next_token_progress:
  assumes "lin_next_token src p = (t, q)" "kind t \<noteq> TOK_EOF"
  shows "p < q" "q \<le> length src"
proof -
  let ?s = "skip_ws src p"
  have s: "p \<le> ?s" by (rule skip_ws_ge)
  from assms have lt: "?s < length src"
    by (auto simp: lin_next_token_def Let_def split: if_splits)
  have "?s < q \<and> q \<le> length src"
    using assms lt scan_digits_bounds [of ?s src 0] scan_digits_progress [of ?s src 0]
      scan_ident_bounds [of ?s src] scan_ident_progress [of ?s src]
    by (auto simp: lin_next_token_def Let_def followed_by_eq_def is_ident_startD
        split: if_splits prod.splits)
  with s show "p < q" "q \<le> length src" by auto
qed

lemma next_token_eof:
  assumes "lin_next_token src p = (t, q)" "kind t = TOK_EOF"
  shows "q = skip_ws src p" "length src \<le> q" "p \<le> q"
  using assms skip_ws_ge [of p src]
  by (auto simp: lin_next_token_def Let_def split: if_splits prod.splits)

lemma next_token_mono: "lin_next_token src p = (t, q) \<Longrightarrow> p \<le> q"
  using next_token_progress(1) [of src p t q] next_token_eof(3) [of src p t q]
  by (cases "kind t = TOK_EOF") auto

section \<open>The token stream\<close>

function token_stream :: "string \<Rightarrow> nat \<Rightarrow> Token list" where
  "token_stream src p =
     (let (t, q) = lin_next_token src p in if kind t = TOK_EOF then [] else t # token_stream src q)"
  by pat_completeness auto
termination
proof (relation "measure (\<lambda>(src, p). length src - p)")
  fix src p x and t :: Token and q
  assume "x = lin_next_token src p" "(t, q) = x" "kind t \<noteq> TOK_EOF"
  then have "p < q" "q \<le> length src"
    using next_token_progress [of src p t q] by simp_all
  then show "((src, q), src, p) \<in> measure (\<lambda>(src, p). length src - p)" by simp
qed simp

declare token_stream.simps [simp del]

lemma token_stream_cons: "lin_next_token src p = (t, q) \<Longrightarrow> kind t \<noteq> TOK_EOF \<Longrightarrow> token_stream src p = t # token_stream src q"
  by (subst token_stream.simps) simp

lemma token_stream_nil: "lin_next_token src p = (t, q) \<Longrightarrow> kind t = TOK_EOF \<Longrightarrow> token_stream src p = []"
  by (subst token_stream.simps) simp

subsection \<open>Tokens as text\<close>

text \<open>
  \<open>tok_text\<close> writes one token, \<open>tok_ok\<close> says which tokens a source text can denote.
  Laying tokens out separated by blanks and tokenizing the result gives the tokens back.
\<close>

fun kind_text :: "TokKind \<Rightarrow> string" where
  "kind_text TOK_PLUS = ''+''"
| "kind_text TOK_MINUS = ''-''"
| "kind_text TOK_MUL = ''*''"
| "kind_text TOK_DIV = ''/''"
| "kind_text TOK_MOD = ''%''"
| "kind_text TOK_EQ = ''==''"
| "kind_text TOK_NEQ = ''!=''"
| "kind_text TOK_LT = ''<''"
| "kind_text TOK_LTE = ''<=''"
| "kind_text TOK_GT = ''>''"
| "kind_text TOK_GTE = ''>=''"
| "kind_text TOK_LPAREN = ''(''"
| "kind_text TOK_RPAREN = '')''"
| "kind_text TOK_COMMA = '',''"
| "kind_text _ = []"

definition tok_text :: "Token \<Rightarrow> string" where
  "tok_text t = (if kind t = TOK_INT_LIT then dec_digits (unat (val t))
                 else if kind t = TOK_IDENT then name t else kind_text (kind t))"

definition ident_ok :: "string \<Rightarrow> bool" where
  "ident_ok s = (s \<noteq> [] \<and> is_ident_start (hd s) \<and> list_all is_ident s)"

definition tok_ok :: "Token \<Rightarrow> bool" where
  "tok_ok t = (if kind t = TOK_INT_LIT then name t = []
               else if kind t = TOK_IDENT then val t = 0 \<and> ident_ok (name t)
               else kind t \<noteq> TOK_EOF \<and> kind t \<noteq> TOK_INVALID \<and> val t = 0 \<and> name t = [])"

definition erase_pos :: "Token \<Rightarrow> Token" where
  "erase_pos t = t\<lparr>pos := 0\<rparr>"

definition tok_line :: "Token list \<Rightarrow> string" where
  "tok_line ts = concat (map (\<lambda>t. tok_text t @ '' '') ts)"

lemma is_digit_digit_char [simp]: "d < 10 \<Longrightarrow> is_digit (digit_char d)"
  by (simp add: is_digit_def less_eq_char_def)

lemma is_digit_dec_digits: "c \<in> set (dec_digits n) \<Longrightarrow> is_digit c"
  using dec_digits_are_digits is_digit_digit_char by blast

lemma is_digit_classes: "is_digit c \<Longrightarrow> \<not> is_alpha c" "is_digit c \<Longrightarrow> c \<noteq> CHR ''_''"
  "is_digit c \<Longrightarrow> \<not> is_ws c" "is_ident_start c \<Longrightarrow> \<not> is_ws c" "is_ident_start c \<Longrightarrow> \<not> is_digit c"
  by (auto simp: is_digit_def is_alpha_def is_ws_def is_ident_start_def less_eq_char_def)

lemma space_classes: "is_ws (CHR '' '')" "\<not> is_digit (CHR '' '')" "\<not> is_alpha (CHR '' '')"
  "\<not> is_ident (CHR '' '')"
  by (auto simp: is_digit_def is_alpha_def is_ws_def is_ident_def less_eq_char_def)

lemma skip_ws_stop: "p < length src \<Longrightarrow> \<not> is_ws (src ! p) \<Longrightarrow> skip_ws src p = p"
  by (subst skip_ws.simps) simp

lemma scan_digits_run:
  assumes "list_all is_digit ds" "\<not> is_digit c"
  shows "scan_digits (pre @ ds @ c # rest) (length pre) n
         = (foldl dec_step n ds, length pre + length ds)"
  using assms
proof (induction ds arbitrary: pre n)
  case Nil
  then show ?case by (subst scan_digits.simps) simp
next
  case (Cons d ds)
  have "scan_digits (pre @ (d # ds) @ c # rest) (length pre) n
      = scan_digits ((pre @ [d]) @ ds @ c # rest) (length (pre @ [d])) (dec_step n d)"
    using Cons.prems by (subst scan_digits.simps) (simp add: dec_step_def)
  with Cons.prems Cons.IH [of "pre @ [d]" "dec_step n d"] show ?case by simp
qed

lemma scan_ident_run:
  assumes "list_all is_ident ds" "\<not> is_ident c"
  shows "scan_ident (pre @ ds @ c # rest) (length pre) = length pre + length ds"
  using assms
proof (induction ds arbitrary: pre)
  case Nil
  then show ?case by (subst scan_ident.simps) simp
next
  case (Cons d ds)
  from Cons.prems Cons.IH [of "pre @ [d]"]
  show ?case by (subst scan_ident.simps) (simp add: nth_append)
qed

lemma next_token_number:
  "lin_next_token (pre @ dec_digits n @ '' '' @ rest) (length pre)
   = (\<lparr>kind = TOK_INT_LIT, val = of_nat n, name = [], pos = length pre\<rparr>,
      length pre + length (dec_digits n))"
proof -
  let ?src = "pre @ dec_digits n @ '' '' @ rest"
  have all: "list_all is_digit (dec_digits n)"
    by (simp add: list_all_iff is_digit_dec_digits)
  have run: "scan_digits ?src (length pre) 0 = (of_nat n, length pre + length (dec_digits n))"
    using scan_digits_run [OF all space_classes(2)] by (simp add: dec_digits_value)
  have c: "?src ! length pre = hd (dec_digits n)"
    by (cases "dec_digits n") (auto simp: nth_append)
  have d: "is_digit (hd (dec_digits n))"
    by (rule is_digit_dec_digits [OF hd_in_set]) simp
  have s: "skip_ws ?src (length pre) = length pre"
    using c d by (intro skip_ws_stop) (auto simp: is_digit_classes)
  have e: "?src ! (length pre + length (dec_digits n)) = CHR '' ''"
    by (simp add: nth_append)
  show ?thesis
    using s c d run e by (simp add: lin_next_token_def Let_def space_classes)
qed

lemma next_token_ident:
  assumes "ident_ok s"
  shows "lin_next_token (pre @ s @ '' '' @ rest) (length pre)
   = (\<lparr>kind = TOK_IDENT, val = 0, name = s, pos = length pre\<rparr>, length pre + length s)"
proof -
  let ?src = "pre @ s @ '' '' @ rest"
  from assms have ne: "s \<noteq> []" and st: "is_ident_start (hd s)" and all: "list_all is_ident s"
    by (auto simp: ident_ok_def)
  have run: "scan_ident ?src (length pre) = length pre + length s"
    using scan_ident_run [OF all space_classes(4)] by simp
  have c: "?src ! length pre = hd s"
    using ne by (cases s) (auto simp: nth_append)
  have sk: "skip_ws ?src (length pre) = length pre"
    using c st by (intro skip_ws_stop) (auto simp: is_digit_classes)
  show ?thesis
    using sk c st run by (simp add: lin_next_token_def Let_def is_digit_classes)
qed

lemma next_token_op:
  assumes "kind_text k \<noteq> []"
  shows "lin_next_token (pre @ kind_text k @ '' '' @ rest) (length pre)
   = (plain_token k (length pre), length pre + length (kind_text k))"
proof -
  let ?src = "pre @ kind_text k @ '' '' @ rest"
  have sk: "skip_ws ?src (length pre) = length pre"
    using assms by (intro skip_ws_stop) (cases k; simp add: nth_append is_ws_def)+
  show ?thesis
    using sk assms
    by (cases k) (simp_all add: lin_next_token_def Let_def nth_append followed_by_eq_def
        single_char_op_def is_digit_def is_ident_start_def is_alpha_def less_eq_char_def)
qed

lemma next_token_text:
  assumes "tok_ok t"
  shows "lin_next_token (pre @ tok_text t @ '' '' @ rest) (length pre)
   = (t\<lparr>pos := length pre\<rparr>, length pre + length (tok_text t))"
proof -
  consider (int) "kind t = TOK_INT_LIT" | (ident) "kind t = TOK_IDENT"
    | (op) "kind_text (kind t) \<noteq> []" "kind t \<noteq> TOK_INT_LIT" "kind t \<noteq> TOK_IDENT"
    using assms by (cases "kind t") (auto simp: tok_ok_def)
  then show ?thesis
  proof cases
    case int
    with assms show ?thesis
      using next_token_number [of pre "unat (val t)" rest]
      by (cases t) (simp add: tok_text_def tok_ok_def)
  next
    case ident
    with assms show ?thesis
      using next_token_ident [of "name t" pre rest]
      by (cases t) (simp add: tok_text_def tok_ok_def)
  next
    case op
    with assms show ?thesis
      using next_token_op [of "kind t" pre rest]
      by (cases t) (simp add: tok_text_def tok_ok_def plain_token_def)
  qed
qed

lemma skip_one_space:
  "skip_ws (pre @ '' '' @ rest) (length pre) = skip_ws (pre @ '' '' @ rest) (Suc (length pre))"
  by (subst skip_ws.simps) (simp add: nth_append space_classes)

lemma next_token_skips_space:
  "lin_next_token (pre @ '' '' @ rest) (length pre) = lin_next_token (pre @ '' '' @ rest) (Suc (length pre))"
  unfolding lin_next_token_def by (simp only: skip_one_space)

lemma token_stream_skips_space:
  "token_stream (pre @ '' '' @ rest) (length pre) = token_stream (pre @ '' '' @ rest) (Suc (length pre))"
  by (subst (1 2) token_stream.simps) (simp only: next_token_skips_space)

lemma token_stream_tok_line_from:
  assumes "list_all tok_ok ts"
  shows "map erase_pos (token_stream (pre @ tok_line ts) (length pre)) = map erase_pos ts"
  using assms
proof (induction ts arbitrary: pre)
  case Nil
  then show ?case
    by (subst token_stream.simps) (simp add: tok_line_def lin_next_token_def skip_ws.simps Let_def)
next
  case (Cons t ts)
  let ?src = "pre @ tok_text t @ '' '' @ tok_line ts"
  have src: "pre @ tok_line (t # ts) = ?src" by (simp add: tok_line_def)
  from Cons.prems have ok: "tok_ok t" by simp
  then have ne: "kind t \<noteq> TOK_EOF" by (auto simp: tok_ok_def split: if_splits)
  have "token_stream ?src (length pre) = t\<lparr>pos := length pre\<rparr> # token_stream ?src (length pre + length (tok_text t))"
    using next_token_text [OF ok] ne by (intro token_stream_cons) auto
  also have "token_stream ?src (length pre + length (tok_text t))
      = token_stream ((pre @ tok_text t @ '' '') @ tok_line ts) (length (pre @ tok_text t @ '' ''))"
    using token_stream_skips_space [of "pre @ tok_text t" "tok_line ts"] by simp
  finally show ?case
    using Cons.IH [of "pre @ tok_text t @ '' ''"] Cons.prems src by (simp add: erase_pos_def)
qed

section \<open>Properties\<close>

text \<open>
  Print and re-tokenize. Any list of well-formed tokens, written out with a space after
  each, is tokenized back into the same kinds, values and names: no operator swallows its
  neighbour and no literal loses a digit, for all 2^64 literal values.
\<close>
theorem tokenizer_round_trip:
  assumes "list_all tok_ok ts"
  shows "map erase_pos (token_stream (tok_line ts) 0) = map erase_pos ts"
  using token_stream_tok_line_from [OF assms, of "[]"] by simp

theorem tokenizer_round_trip_witness:
  "map erase_pos (token_stream ''x <= 10 '' 0) =
    [\<lparr>kind = TOK_IDENT, val = 0, name = ''x'', pos = 0\<rparr>, \<lparr>kind = TOK_LTE, val = 0, name = [], pos = 0\<rparr>,
     \<lparr>kind = TOK_INT_LIT, val = 10, name = [], pos = 0\<rparr>]"
proof -
  let ?ts = "[\<lparr>kind = TOK_IDENT, val = 0, name = ''x'', pos = 0\<rparr>, \<lparr>kind = TOK_LTE, val = 0, name = [], pos = 0\<rparr>,
     \<lparr>kind = TOK_INT_LIT, val = 10, name = [], pos = 0\<rparr>]"
  have "tok_line ?ts = ''x <= 10 ''" "list_all tok_ok ?ts" "map erase_pos ?ts = ?ts" by code_simp+
  with tokenizer_round_trip [of ?ts] show ?thesis by simp
qed

end
