(* ===== verification/Lin_Ast.thy ===== *)
theory Lin_Ast
  imports Lin_Common
begin

text \<open>
  \<open>transpile/c/lin_c/lin_ast.h\<close> and \<open>lin_ast.c\<close>: the flat AST arena, a struct of
  arrays of \<open>LIN_ARENA_CAP\<close> entries whose children are indices, and its recursive
  evaluator. \<open>ast_arena_eval\<close> follows the indices, so on an arena with a cycle it does not
  return; it is a \<open>partial_function\<close> into \<open>option\<close>.

  The abstract view of an arena is the expression tree \<open>expr\<close>: \<open>repr a n t\<close> says that
  node \<open>n\<close> of arena \<open>a\<close> represents tree \<open>t\<close>, and \<open>eval_expr\<close> is the meaning of
  a tree. \<open>arena_eval_refines\<close> is the refinement between the two.
\<close>

section \<open>The arena\<close>

datatype AstTag =
    TAG_LIT | TAG_VAR_REF | TAG_UNARY_POS | TAG_UNARY_NEG
  | TAG_ADD | TAG_SUB | TAG_MUL | TAG_DIV | TAG_MOD
  | TAG_EQ | TAG_NEQ | TAG_LT | TAG_LTE | TAG_GT | TAG_GTE
  | TAG_CALL | TAG_CALL_ARG

record VarBinding =
  bind_name :: string
  bind_val :: i64

record AstArena =
  tags :: "AstTag list"
  lhs :: "nat list"
  rhs :: "nat list"
  vals :: "i64 list"
  names :: "string list"
  len :: nat

definition ast_arena_init :: AstArena where
  "ast_arena_init =
     \<lparr>tags = replicate LIN_ARENA_CAP TAG_LIT, lhs = replicate LIN_ARENA_CAP 0,
      rhs = replicate LIN_ARENA_CAP 0, vals = replicate LIN_ARENA_CAP 0,
      names = replicate LIN_ARENA_CAP [], len = 0\<rparr>"

definition ast_arena_add ::
  "AstArena \<Rightarrow> AstTag \<Rightarrow> nat \<Rightarrow> nat \<Rightarrow> i64 \<Rightarrow> string \<Rightarrow> LinErr + (AstArena \<times> nat)" where
  "ast_arena_add a tag left right v nm =
     (if len a \<ge> LIN_ARENA_CAP then Inl LIN_ERR_ARENA_OOM
      else let idx = len a in
        Inr (\<lparr>tags = (tags a)[idx := tag], lhs = (lhs a)[idx := left],
              rhs = (rhs a)[idx := right], vals = (vals a)[idx := v],
              names = (names a)[idx := nm], len = len a + 1\<rparr>, idx))"

section \<open>Evaluation\<close>

fun env_lookup :: "string \<Rightarrow> VarBinding list \<Rightarrow> LinErr + i64" where
  "env_lookup target [] = Inl LIN_ERR_UNDEF_VAR"
| "env_lookup target (b # env) =
     (if lin_str_eq_cstr target (bind_name b) then Inr (bind_val b) else env_lookup target env)"

fun eval_binary :: "AstTag \<Rightarrow> i64 \<Rightarrow> i64 \<Rightarrow> LinErr + i64" where
  "eval_binary TAG_ADD l r = Inr (lin_wadd l r)"
| "eval_binary TAG_SUB l r = Inr (lin_wsub l r)"
| "eval_binary TAG_MUL l r = Inr (lin_wmul l r)"
| "eval_binary TAG_DIV l r = (if r = 0 then Inl LIN_ERR_DIV_ZERO else Inr (lin_wdiv l r))"
| "eval_binary TAG_MOD l r = (if r = 0 then Inl LIN_ERR_DIV_ZERO else Inr (lin_wrem l r))"
| "eval_binary TAG_EQ l r = Inr (if l = r then 1 else 0)"
| "eval_binary TAG_NEQ l r = Inr (if l \<noteq> r then 1 else 0)"
| "eval_binary TAG_LT l r = Inr (if l <s r then 1 else 0)"
| "eval_binary TAG_LTE l r = Inr (if l \<le>s r then 1 else 0)"
| "eval_binary TAG_GT l r = Inr (if r <s l then 1 else 0)"
| "eval_binary TAG_GTE l r = Inr (if r \<le>s l then 1 else 0)"
| "eval_binary _ l r = Inl LIN_ERR_INVALID_NODE"

partial_function (option) ast_arena_eval ::
  "AstArena \<Rightarrow> nat \<Rightarrow> VarBinding list \<Rightarrow> (LinErr + i64) option" where
  "ast_arena_eval a node env =
     (if node \<ge> len a then Some (Inl LIN_ERR_INVALID_NODE)
      else if tags a ! node = TAG_LIT then Some (Inr (vals a ! node))
      else if tags a ! node = TAG_VAR_REF then Some (env_lookup (names a ! node) env)
      else if tags a ! node = TAG_UNARY_POS then ast_arena_eval a (lhs a ! node) env
      else if tags a ! node = TAG_UNARY_NEG then
        opt_then (ast_arena_eval a (lhs a ! node) env) (\<lambda>v. Some (Inr (lin_wsub 0 v)))
      else if tags a ! node = TAG_CALL \<or> tags a ! node = TAG_CALL_ARG then
        Some (Inl LIN_ERR_UNDEF_VAR)
      else
        opt_then (ast_arena_eval a (lhs a ! node) env) (\<lambda>l.
        opt_then (ast_arena_eval a (rhs a ! node) env) (\<lambda>r.
        Some (eval_binary (tags a ! node) l r))))"

fun ast_tag_name :: "AstTag \<Rightarrow> string" where
  "ast_tag_name TAG_LIT = ''lit''"
| "ast_tag_name TAG_VAR_REF = ''var_ref''"
| "ast_tag_name TAG_UNARY_POS = ''unary_pos''"
| "ast_tag_name TAG_UNARY_NEG = ''unary_neg''"
| "ast_tag_name TAG_ADD = ''add''"
| "ast_tag_name TAG_SUB = ''sub''"
| "ast_tag_name TAG_MUL = ''mul''"
| "ast_tag_name TAG_DIV = ''div''"
| "ast_tag_name TAG_MOD = ''mod''"
| "ast_tag_name TAG_EQ = ''eq''"
| "ast_tag_name TAG_NEQ = ''neq''"
| "ast_tag_name TAG_LT = ''lt''"
| "ast_tag_name TAG_LTE = ''lte''"
| "ast_tag_name TAG_GT = ''gt''"
| "ast_tag_name TAG_GTE = ''gte''"
| "ast_tag_name TAG_CALL = ''call''"
| "ast_tag_name TAG_CALL_ARG = ''call_arg''"

section \<open>Expression trees\<close>

datatype expr =
    Lit i64
  | Var string
  | UPos expr
  | UNeg expr
  | Bin AstTag expr expr
  | Call string "expr list"

definition binary_tag :: "AstTag \<Rightarrow> bool" where
  "binary_tag t = (t \<in> {TAG_ADD, TAG_SUB, TAG_MUL, TAG_DIV, TAG_MOD, TAG_EQ, TAG_NEQ,
                        TAG_LT, TAG_LTE, TAG_GT, TAG_GTE})"

fun eval_expr :: "expr \<Rightarrow> VarBinding list \<Rightarrow> LinErr + i64" where
  "eval_expr (Lit v) env = Inr v"
| "eval_expr (Var x) env = env_lookup x env"
| "eval_expr (UPos t) env = eval_expr t env"
| "eval_expr (UNeg t) env = and_then (eval_expr t env) (\<lambda>v. Inr (lin_wsub 0 v))"
| "eval_expr (Bin op t1 t2) env =
     and_then (eval_expr t1 env) (\<lambda>l. and_then (eval_expr t2 env) (\<lambda>r. eval_binary op l r))"
| "eval_expr (Call f ts) env = Inl LIN_ERR_UNDEF_VAR"

text \<open>
  The argument nodes of a call are a list linked backwards through \<open>rhs\<close>: the call points
  at its last \<open>call_arg\<close>.
\<close>

inductive repr :: "AstArena \<Rightarrow> nat \<Rightarrow> expr \<Rightarrow> bool"
  and repr_args :: "AstArena \<Rightarrow> nat \<Rightarrow> expr list \<Rightarrow> bool" where
  lit: "n < len a \<Longrightarrow> tags a ! n = TAG_LIT \<Longrightarrow> repr a n (Lit (vals a ! n))"
| var: "n < len a \<Longrightarrow> tags a ! n = TAG_VAR_REF \<Longrightarrow> repr a n (Var (names a ! n))"
| pos: "n < len a \<Longrightarrow> tags a ! n = TAG_UNARY_POS \<Longrightarrow> repr a (lhs a ! n) t \<Longrightarrow> repr a n (UPos t)"
| neg: "n < len a \<Longrightarrow> tags a ! n = TAG_UNARY_NEG \<Longrightarrow> repr a (lhs a ! n) t \<Longrightarrow> repr a n (UNeg t)"
| bin: "n < len a \<Longrightarrow> tags a ! n = op \<Longrightarrow> binary_tag op \<Longrightarrow> repr a (lhs a ! n) t1 \<Longrightarrow>
        repr a (rhs a ! n) t2 \<Longrightarrow> repr a n (Bin op t1 t2)"
| call: "n < len a \<Longrightarrow> tags a ! n = TAG_CALL \<Longrightarrow> vals a ! n = of_nat (length ts) \<Longrightarrow>
         names a ! n = f \<Longrightarrow> repr_args a (lhs a ! n) ts \<Longrightarrow> repr a n (Call f ts)"
| no_args: "repr_args a n []"
| arg: "n < len a \<Longrightarrow> tags a ! n = TAG_CALL_ARG \<Longrightarrow> repr a (lhs a ! n) t \<Longrightarrow>
        repr_args a (rhs a ! n) ts \<Longrightarrow> repr_args a n (ts @ [t])"

text \<open>The arena nodes a tree needs: a call takes one more node per argument.\<close>

fun nodes :: "expr \<Rightarrow> nat" where
  "nodes (Lit v) = 1"
| "nodes (Var x) = 1"
| "nodes (UPos t) = Suc (nodes t)"
| "nodes (UNeg t) = Suc (nodes t)"
| "nodes (Bin op t1 t2) = Suc (nodes t1 + nodes t2)"
| "nodes (Call f ts) = Suc (length ts + sum_list (map nodes ts))"

section \<open>The evaluator computes the meaning of the represented tree\<close>

lemma eval_step:
  assumes "n < len a"
  shows "tags a ! n = TAG_LIT \<Longrightarrow> ast_arena_eval a n env = Some (Inr (vals a ! n))"
    and "tags a ! n = TAG_VAR_REF \<Longrightarrow> ast_arena_eval a n env = Some (env_lookup (names a ! n) env)"
    and "tags a ! n = TAG_UNARY_POS \<Longrightarrow> ast_arena_eval a n env = ast_arena_eval a (lhs a ! n) env"
    and "tags a ! n = TAG_UNARY_NEG \<Longrightarrow> ast_arena_eval a n env =
           opt_then (ast_arena_eval a (lhs a ! n) env) (\<lambda>v. Some (Inr (lin_wsub 0 v)))"
    and "tags a ! n = TAG_CALL \<Longrightarrow> ast_arena_eval a n env = Some (Inl LIN_ERR_UNDEF_VAR)"
    and "binary_tag (tags a ! n) \<Longrightarrow> ast_arena_eval a n env =
           opt_then (ast_arena_eval a (lhs a ! n) env) (\<lambda>l.
           opt_then (ast_arena_eval a (rhs a ! n) env) (\<lambda>r.
           Some (eval_binary (tags a ! n) l r)))"
  using assms by (subst ast_arena_eval.simps; auto simp: binary_tag_def)+

lemma opt_then_Some_and_then: "opt_then (Some m) (\<lambda>x. Some (f x)) = Some (and_then m f)"
  by (cases m) auto

lemma arena_eval_repr: "repr a n t \<Longrightarrow> ast_arena_eval a n env = Some (eval_expr t env)"
  and arena_args_trivial: "repr_args a n ts \<Longrightarrow> True"
proof (induction rule: repr_repr_args.inducts)
  case (bin n a op t1 t2)
  then show ?case
    by (cases "eval_expr t1 env") (auto simp: eval_step opt_then_Some_and_then)
qed (auto simp: eval_step opt_then_Some_and_then)

section \<open>Arena growth\<close>

text \<open>
  \<open>arena_ok\<close> is the invariant of the arrays; \<open>arena_le\<close> says that an arena extends
  another one: nodes already built are never written again, so what they represent stays.
\<close>

definition arena_ok :: "AstArena \<Rightarrow> bool" where
  "arena_ok a = (length (tags a) = LIN_ARENA_CAP \<and> length (lhs a) = LIN_ARENA_CAP \<and>
     length (rhs a) = LIN_ARENA_CAP \<and> length (vals a) = LIN_ARENA_CAP \<and>
     length (names a) = LIN_ARENA_CAP \<and> len a \<le> LIN_ARENA_CAP)"

definition arena_le :: "AstArena \<Rightarrow> AstArena \<Rightarrow> bool" where
  "arena_le a b = (len a \<le> len b \<and> (\<forall>n < len a. tags b ! n = tags a ! n \<and> lhs b ! n = lhs a ! n \<and>
     rhs b ! n = rhs a ! n \<and> vals b ! n = vals a ! n \<and> names b ! n = names a ! n))"

lemma arena_le_refl [simp]: "arena_le a a"
  by (simp add: arena_le_def)

lemma arena_le_trans: "arena_le a b \<Longrightarrow> arena_le b c \<Longrightarrow> arena_le a c"
  by (auto simp: arena_le_def)

lemma arena_ok_init [simp]: "arena_ok ast_arena_init" "len ast_arena_init = 0"
  by (simp_all add: arena_ok_def ast_arena_init_def)

lemma arena_add_ok:
  assumes "ast_arena_add a tag l r v nm = Inr (b, i)" "arena_ok a"
  shows "arena_ok b" "arena_le a b" "i = len a" "len b = Suc i" "i < LIN_ARENA_CAP"
    "tags b ! i = tag" "lhs b ! i = l" "rhs b ! i = r" "vals b ! i = v" "names b ! i = nm"
  using assms by (auto simp: ast_arena_add_def arena_ok_def arena_le_def Let_def split: if_splits)

lemma repr_mono: "repr a n t \<Longrightarrow> arena_le a b \<Longrightarrow> repr b n t"
  and repr_args_mono: "repr_args a n ts \<Longrightarrow> arena_le a b \<Longrightarrow> repr_args b n ts"
proof (induction rule: repr_repr_args.inducts)
  case (lit n a)
  then show ?case using repr_repr_args.lit [of n b] by (auto simp: arena_le_def)
next
  case (var n a)
  then show ?case using repr_repr_args.var [of n b] by (auto simp: arena_le_def)
qed (auto intro!: repr_repr_args.intros simp: arena_le_def)

lemma repr_less_len: "repr a n t \<Longrightarrow> n < len a"
  by (cases rule: repr.cases) auto

section \<open>Properties\<close>

text \<open>
  The arena evaluator refines tree evaluation. On a node that represents a tree,
  \<open>ast_arena_eval\<close> returns, and returns exactly the value or error of the tree.
\<close>
theorem arena_eval_refines:
  assumes "repr a n t"
  shows "ast_arena_eval a n env = Some (eval_expr t env)"
  by (rule arena_eval_repr [OF assms])

theorem arena_eval_refines_witness:
  "\<exists>a i. ast_arena_add ast_arena_init TAG_LIT 0 0 7 [] = Inr (a, i) \<and> ast_arena_eval a i [] = Some (Inr 7)"
proof -
  obtain a i where add: "ast_arena_add ast_arena_init TAG_LIT 0 0 7 [] = Inr (a, i)"
    by (auto simp: ast_arena_add_def Let_def LIN_ARENA_CAP_def)
  note ok = arena_add_ok [OF add arena_ok_init(1)]
  have "repr a i (Lit 7)" using repr_repr_args.lit [of i a] ok by simp
  from arena_eval_refines [OF this, of "[]"] add show ?thesis by auto
qed

text \<open>
  Adding a node is safe. A successful \<open>ast_arena_add\<close> keeps the arena well-formed and
  within its 256 slots, returns the slot it filled, and leaves the meaning of every tree built
  before unchanged.
\<close>
theorem arena_add_keeps_trees:
  assumes "ast_arena_add a tag l r v nm = Inr (b, i)" "arena_ok a"
  shows "arena_ok b \<and> i < LIN_ARENA_CAP \<and> tags b ! i = tag \<and> lhs b ! i = l \<and> rhs b ! i = r \<and>
    vals b ! i = v \<and> names b ! i = nm \<and>
    (\<forall>n t env. repr a n t \<longrightarrow> repr b n t \<and> ast_arena_eval b n env = ast_arena_eval a n env)"
proof -
  note ok = arena_add_ok [OF assms]
  have "repr b n t \<and> ast_arena_eval b n env = ast_arena_eval a n env" if "repr a n t" for n t env
    using repr_mono [OF that ok(2)] arena_eval_repr [OF that] arena_eval_repr [of b n t] by simp
  with ok show ?thesis by simp
qed

theorem arena_add_keeps_trees_witness:
  "\<exists>b. ast_arena_add ast_arena_init TAG_LIT 0 0 7 [] = Inr (b, 0) \<and> arena_ok b \<and> vals b ! 0 = 7"
proof -
  obtain b i where add: "ast_arena_add ast_arena_init TAG_LIT 0 0 7 [] = Inr (b, i)" "i = 0"
    by (auto simp: ast_arena_add_def Let_def LIN_ARENA_CAP_def ast_arena_init_def)
  with arena_add_keeps_trees [OF add(1)] show ?thesis by auto
qed

end
