(* ===== verification/Lin_Parse.thy ===== *)
theory Lin_Parse
  imports Lin_Token Lin_Ast
begin

text \<open>
  \<open>transpile/c/lin_c/lin_parse.h\<close> and \<open>lin_parse.c\<close>: the Pratt parser. The five
  functions below are mutually recursive as in C (\<open>parse_args\<close> and \<open>parse_loop\<close> are
  the two \<open>while (1)\<close> loops); each call spends one unit of fuel and \<^const>\<open>None\<close> means
  the fuel ran out. \<open>parse_fuel\<close> is enough for every source: \<open>parse_full_returns\<close>.

  This theory holds the parser and the facts on positions and fuel; \<open>Lin_Grammar\<close> relates
  it to a grammar.
\<close>

section \<open>The parser\<close>

record Parser =
  src :: string
  at :: nat
  arena :: AstArena
  depth :: nat

definition parser_init :: "string \<Rightarrow> Parser" where
  "parser_init s = \<lparr>src = s, at = 0, arena = ast_arena_init, depth = 0\<rparr>"

text \<open>\<open>lin_next_token(p->src.p, p->src.len, &p->pos, &tok)\<close> on the parser state.\<close>

definition advance :: "Parser \<Rightarrow> Token \<times> Parser" where
  "advance p = (let (tok, q) = lin_next_token (src p) (at p) in (tok, p\<lparr>at := q\<rparr>))"

definition peek :: "Parser \<Rightarrow> Token" where
  "peek p = lin_peek_token (src p) (at p)"

fun get_precedence :: "TokKind \<Rightarrow> nat" where
  "get_precedence TOK_EQ = 1"
| "get_precedence TOK_NEQ = 1"
| "get_precedence TOK_LT = 1"
| "get_precedence TOK_LTE = 1"
| "get_precedence TOK_GT = 1"
| "get_precedence TOK_GTE = 1"
| "get_precedence TOK_PLUS = 2"
| "get_precedence TOK_MINUS = 2"
| "get_precedence TOK_MUL = 3"
| "get_precedence TOK_DIV = 3"
| "get_precedence TOK_MOD = 3"
| "get_precedence _ = 0"

fun op_tag :: "TokKind \<Rightarrow> LinErr + AstTag" where
  "op_tag TOK_PLUS = Inr TAG_ADD"
| "op_tag TOK_MINUS = Inr TAG_SUB"
| "op_tag TOK_MUL = Inr TAG_MUL"
| "op_tag TOK_DIV = Inr TAG_DIV"
| "op_tag TOK_MOD = Inr TAG_MOD"
| "op_tag TOK_EQ = Inr TAG_EQ"
| "op_tag TOK_NEQ = Inr TAG_NEQ"
| "op_tag TOK_LT = Inr TAG_LT"
| "op_tag TOK_LTE = Inr TAG_LTE"
| "op_tag TOK_GT = Inr TAG_GT"
| "op_tag TOK_GTE = Inr TAG_GTE"
| "op_tag _ = Inl LIN_ERR_INVALID_BINARY_OP"

definition add_node ::
  "Parser \<Rightarrow> AstTag \<Rightarrow> nat \<Rightarrow> nat \<Rightarrow> i64 \<Rightarrow> string \<Rightarrow> LinErr + (nat \<times> Parser)" where
  "add_node p tag l r v nm =
     and_then (ast_arena_add (arena p) tag l r v nm) (\<lambda>(a, idx). Inr (idx, p\<lparr>arena := a\<rparr>))"

text \<open>The \<open>for\<close> loop that links the argument nodes; the result is the last node made.\<close>

fun link_args :: "Parser \<Rightarrow> nat list \<Rightarrow> nat \<Rightarrow> LinErr + (nat \<times> Parser)" where
  "link_args p [] prev = Inr (prev, p)"
| "link_args p (x # xs) prev =
     and_then (add_node p TAG_CALL_ARG x prev 0 []) (\<lambda>(idx, p). link_args p xs idx)"

definition build_call :: "Parser \<Rightarrow> string \<Rightarrow> nat list \<Rightarrow> LinErr + (nat \<times> Parser)" where
  "build_call p nm args =
     and_then (link_args p args 0) (\<lambda>(call_root, p).
     add_node p TAG_CALL call_root 0 (of_nat (length args)) nm)"

fun parse_primary :: "nat \<Rightarrow> Parser \<Rightarrow> (LinErr + (nat \<times> Parser)) option"
  and parse_primary_impl :: "nat \<Rightarrow> Parser \<Rightarrow> (LinErr + (nat \<times> Parser)) option"
  and parse_args :: "nat \<Rightarrow> Parser \<Rightarrow> nat list \<Rightarrow> (LinErr + (nat list \<times> Parser)) option"
  and parse_expression :: "nat \<Rightarrow> Parser \<Rightarrow> nat \<Rightarrow> (LinErr + (nat \<times> Parser)) option"
  and parse_loop :: "nat \<Rightarrow> Parser \<Rightarrow> nat \<Rightarrow> nat \<Rightarrow> (LinErr + (nat \<times> Parser)) option"
where
  "parse_primary 0 p = None"
| "parse_primary (Suc fuel) p =
     (if depth p > LIN_PARSER_MAX_DEPTH then Some (Inl LIN_ERR_PARSE_TOO_DEEP)
      else opt_then (parse_primary_impl fuel (p\<lparr>depth := depth p + 1\<rparr>))
             (\<lambda>(node, p). Some (Inr (node, p\<lparr>depth := depth p - 1\<rparr>))))"
| "parse_primary_impl 0 p = None"
| "parse_primary_impl (Suc fuel) p =
     (let (tok, p) = advance p in
      if kind tok = TOK_INT_LIT then Some (add_node p TAG_LIT 0 0 (val tok) [])
      else if kind tok = TOK_IDENT then
        (if kind (peek p) = TOK_LPAREN then
           let p = snd (advance p) in
           opt_then (if kind (peek p) \<noteq> TOK_RPAREN then parse_args fuel p []
                     else Some (Inr ([], snd (advance p))))
             (\<lambda>(args, p). Some (build_call p (name tok) args))
         else Some (add_node p TAG_VAR_REF 0 0 0 (name tok)))
      else if kind tok = TOK_PLUS then
        opt_then (parse_primary fuel p)
          (\<lambda>(operand, p). Some (add_node p TAG_UNARY_POS operand 0 0 []))
      else if kind tok = TOK_MINUS then
        opt_then (parse_primary fuel p)
          (\<lambda>(operand, p). Some (add_node p TAG_UNARY_NEG operand 0 0 []))
      else if kind tok = TOK_LPAREN then
        opt_then (parse_expression fuel p 0) (\<lambda>(node, p).
          let (close_tok, p) = advance p in
          if kind close_tok \<noteq> TOK_RPAREN then Some (Inl LIN_ERR_MISSING_CLOSE_PAREN)
          else Some (Inr (node, p)))
      else Some (Inl LIN_ERR_UNEXPECTED_PRIMARY))"
| "parse_args 0 p args = None"
| "parse_args (Suc fuel) p args =
     (if length args \<ge> LIN_MAX_ARGS then Some (Inl LIN_ERR_ARENA_OOM)
      else opt_then (parse_expression fuel p 0) (\<lambda>(node, p).
        let args = args @ [node]; sep = peek p in
        if kind sep = TOK_COMMA then parse_args fuel (snd (advance p)) args
        else if kind sep = TOK_RPAREN then Some (Inr (args, snd (advance p)))
        else Some (Inl LIN_ERR_MISSING_CLOSE_PAREN)))"
| "parse_expression 0 p min_prec = None"
| "parse_expression (Suc fuel) p min_prec =
     opt_then (parse_primary fuel p) (\<lambda>(left, p). parse_loop fuel p min_prec left)"
| "parse_loop 0 p min_prec left = None"
| "parse_loop (Suc fuel) p min_prec left =
     (let next_tok = peek p; prec = get_precedence (kind next_tok) in
      if prec = 0 \<or> prec \<le> min_prec then Some (Inr (left, p))
      else opt_then (parse_expression fuel (snd (advance p)) prec) (\<lambda>(right, p).
        opt_then (Some (op_tag (kind next_tok))) (\<lambda>tag.
        opt_then (Some (add_node p tag left right 0 [])) (\<lambda>(left, p).
        parse_loop fuel p min_prec left))))"

definition parse_fuel :: "string \<Rightarrow> nat" where
  "parse_fuel s = 4 * length s + 3"

definition parse_full_fuel :: "nat \<Rightarrow> string \<Rightarrow> (LinErr + (nat \<times> Parser)) option" where
  "parse_full_fuel fuel s =
     opt_then (parse_expression fuel (parser_init s) 0) (\<lambda>(root, p).
       let (end_tok, p) = advance p in
       if kind end_tok \<noteq> TOK_EOF then Some (Inl LIN_ERR_TRAILING_TOKENS)
       else Some (Inr (root, p)))"

definition parse_full :: "string \<Rightarrow> LinErr + (nat \<times> Parser)" where
  "parse_full s = the (parse_full_fuel (parse_fuel s) s)"

section \<open>Progress and fuel\<close>

text \<open>
  \<open>moved p q\<close>: parsing went from state \<open>p\<close> to state \<open>q\<close>, consumed input and
  restored the nesting depth; \<open>kept\<close> allows that nothing was consumed.
\<close>

definition moved :: "Parser \<Rightarrow> Parser \<Rightarrow> bool" where
  "moved p q = (src q = src p \<and> depth q = depth p \<and> at p < at q \<and> at q \<le> length (src p))"

definition kept :: "Parser \<Rightarrow> Parser \<Rightarrow> bool" where
  "kept p q = (moved p q \<or> (src q = src p \<and> depth q = depth p \<and> at q = at p))"

definition todo :: "Parser \<Rightarrow> nat" where
  "todo p = length (src p) - at p"

lemma advance_moved: "kind (peek p) \<noteq> TOK_EOF \<Longrightarrow> moved p (snd (advance p))"
  using next_token_progress [of "src p" "at p"]
  by (auto simp: advance_def peek_def lin_peek_token_def moved_def split: prod.splits)

lemma advance_eq [simp]: "fst (advance p) = peek p" "arena (snd (advance p)) = arena p"
  "src (snd (advance p)) = src p" "depth (snd (advance p)) = depth p"
  by (simp_all add: advance_def peek_def lin_peek_token_def split: prod.splits)

lemma case_advance [simp]: "case_prod f (advance p) = f (peek p) (snd (advance p))"
  by (simp add: case_prod_unfold)

lemma add_node_Inr:
  "add_node p tag l r v nm = Inr (i, q) \<longleftrightarrow>
     (\<exists>a. ast_arena_add (arena p) tag l r v nm = Inr (a, i) \<and> q = p\<lparr>arena := a\<rparr>)"
  by (auto simp: add_node_def)

lemma moved_trans: "moved p q \<Longrightarrow> moved q r \<Longrightarrow> moved p r"
  by (auto simp: moved_def)

lemma moved_kept_trans: "moved p q \<Longrightarrow> kept q r \<Longrightarrow> moved p r"
  by (auto simp: moved_def kept_def)

lemma kept_moved_trans: "kept p q \<Longrightarrow> moved q r \<Longrightarrow> moved p r"
  by (auto simp: moved_def kept_def)

lemma moved_imp_kept: "moved p q \<Longrightarrow> kept p q"
  by (simp add: kept_def)

lemma add_node_kept: "add_node p tag l r v nm = Inr (i, q) \<Longrightarrow> kept p q"
  by (auto simp: add_node_Inr kept_def)

lemma link_args_kept: "link_args p xs prev = Inr (i, q) \<Longrightarrow> kept p q"
proof (induction xs arbitrary: p prev)
  case Nil
  then show ?case by (simp add: kept_def)
next
  case (Cons x xs)
  then obtain j r where "add_node p TAG_CALL_ARG x prev 0 [] = Inr (j, r)" "link_args r xs j = Inr (i, q)"
    by auto
  with Cons.IH [of r j] show ?case
    by (auto dest!: add_node_kept simp: kept_def moved_def)
qed

lemma build_call_kept: "build_call p nm args = Inr (i, q) \<Longrightarrow> kept p q"
  by (auto simp: build_call_def kept_def moved_def dest!: link_args_kept add_node_kept)

lemmas kept_rules =
  advance_moved moved_trans moved_kept_trans kept_moved_trans moved_imp_kept
  add_node_kept build_call_kept

text \<open>What a successful call did, branch by branch.\<close>

lemma parse_primaryE:
  assumes "parse_primary (Suc n) p = Some (Inr (i, q))"
  obtains r where "depth p \<le> LIN_PARSER_MAX_DEPTH"
    "parse_primary_impl n (p\<lparr>depth := depth p + 1\<rparr>) = Some (Inr (i, r))"
    "q = r\<lparr>depth := depth r - 1\<rparr>"
  using assms by (auto split: if_splits)

lemma parse_primary_implE:
  assumes "parse_primary_impl (Suc n) p = Some (Inr (i, q))"
  obtains
    (lit) "kind (peek p) = TOK_INT_LIT"
      "add_node (snd (advance p)) TAG_LIT 0 0 (val (peek p)) [] = Inr (i, q)"
  | (var) "kind (peek p) = TOK_IDENT" "kind (peek (snd (advance p))) \<noteq> TOK_LPAREN"
      "add_node (snd (advance p)) TAG_VAR_REF 0 0 0 (name (peek p)) = Inr (i, q)"
  | (call0) r s where "kind (peek p) = TOK_IDENT" "r = snd (advance p)" "kind (peek r) = TOK_LPAREN"
      "s = snd (advance r)" "kind (peek s) = TOK_RPAREN"
      "build_call (snd (advance s)) (name (peek p)) [] = Inr (i, q)"
  | (call) r s args t where "kind (peek p) = TOK_IDENT" "r = snd (advance p)"
      "kind (peek r) = TOK_LPAREN" "s = snd (advance r)"
      "parse_args n s [] = Some (Inr (args, t))" "build_call t (name (peek p)) args = Inr (i, q)"
  | (unary_pos) j r where "kind (peek p) = TOK_PLUS" "parse_primary n (snd (advance p)) = Some (Inr (j, r))"
      "add_node r TAG_UNARY_POS j 0 0 [] = Inr (i, q)"
  | (unary_neg) j r where "kind (peek p) = TOK_MINUS" "parse_primary n (snd (advance p)) = Some (Inr (j, r))"
      "add_node r TAG_UNARY_NEG j 0 0 [] = Inr (i, q)"
  | (paren) r where "kind (peek p) = TOK_LPAREN"
      "parse_expression n (snd (advance p)) 0 = Some (Inr (i, r))"
      "kind (peek r) = TOK_RPAREN" "q = snd (advance r)"
proof (cases "kind (peek p)")
  case TOK_IDENT
  let ?r = "snd (advance p)"
  let ?s = "snd (advance ?r)"
  show ?thesis
  proof (cases "kind (peek ?r) = TOK_LPAREN")
    case True
    with assms TOK_IDENT show ?thesis
      by (cases "kind (peek ?s) = TOK_RPAREN") (auto simp: Let_def intro: call0 call)
  next
    case False
    with assms TOK_IDENT show ?thesis by (simp add: Let_def var)
  qed
next
  case TOK_PLUS
  with assms show ?thesis by (auto simp: Let_def intro: unary_pos)
next
  case TOK_MINUS
  with assms show ?thesis by (auto simp: Let_def intro: unary_neg)
next
  case TOK_LPAREN
  with assms show ?thesis by (auto simp: Let_def split: if_splits intro: paren)
qed (use assms lit in \<open>auto simp: Let_def\<close>)

lemma parse_argsE:
  assumes "parse_args (Suc n) p args = Some (Inr (is, q))"
  obtains
    (more) j r where "length args < LIN_MAX_ARGS" "parse_expression n p 0 = Some (Inr (j, r))"
      "kind (peek r) = TOK_COMMA" "parse_args n (snd (advance r)) (args @ [j]) = Some (Inr (is, q))"
  | (last) j r where "length args < LIN_MAX_ARGS" "parse_expression n p 0 = Some (Inr (j, r))"
      "kind (peek r) = TOK_RPAREN" "is = args @ [j]" "q = snd (advance r)"
proof -
  from assms obtain j r where "length args < LIN_MAX_ARGS" "parse_expression n p 0 = Some (Inr (j, r))"
    by (auto split: if_splits)
  with assms show ?thesis
    by (cases "kind (peek r)") (auto simp: Let_def intro: more last)
qed

lemma parse_expressionE:
  assumes "parse_expression (Suc n) p m = Some (Inr (i, q))"
  obtains l r where "parse_primary n p = Some (Inr (l, r))" "parse_loop n r m l = Some (Inr (i, q))"
  using assms by auto

lemma parse_loopE:
  assumes "parse_loop (Suc n) p m l = Some (Inr (i, q))"
  obtains
    (stop) "get_precedence (kind (peek p)) \<le> m" "i = l" "q = p"
  | (op) prec j r tag k t where "prec = get_precedence (kind (peek p))" "m < prec"
      "parse_expression n (snd (advance p)) prec = Some (Inr (j, r))"
      "op_tag (kind (peek p)) = Inr tag" "add_node r tag l j 0 [] = Inr (k, t)"
      "parse_loop n t m k = Some (Inr (i, q))"
proof (cases "get_precedence (kind (peek p)) \<le> m")
  case True
  with assms show ?thesis by (simp add: Let_def stop)
next
  case False
  with assms show ?thesis by (auto simp: Let_def intro: op)
qed

lemma parse_moved:
  "(\<forall>p i q. parse_primary n p = Some (Inr (i, q)) \<longrightarrow> moved p q) \<and>
   (\<forall>p i q. parse_primary_impl n p = Some (Inr (i, q)) \<longrightarrow> moved p q) \<and>
   (\<forall>p args is q. parse_args n p args = Some (Inr (is, q)) \<longrightarrow> moved p q) \<and>
   (\<forall>p m i q. parse_expression n p m = Some (Inr (i, q)) \<longrightarrow> moved p q) \<and>
   (\<forall>p m l i q. parse_loop n p m l = Some (Inr (i, q)) \<longrightarrow> kept p q)"
proof (induction n)
  case 0
  then show ?case by simp
next
  case (Suc n)
  have 1: "moved p q" if "parse_primary (Suc n) p = Some (Inr (i, q))" for p i q
    using that
  proof (cases rule: parse_primaryE)
    case (1 r)
    then have "moved (p\<lparr>depth := depth p + 1\<rparr>) r" using Suc.IH by blast
    with 1(3) show ?thesis by (simp add: moved_def)
  qed
  have 2: "moved p q" if "parse_primary_impl (Suc n) p = Some (Inr (i, q))" for p i q
  proof -
    have "kind (peek p) \<noteq> TOK_EOF"
      using that by (cases rule: parse_primary_implE) auto
    then have m: "moved p (snd (advance p))" by (rule advance_moved)
    from that have "kept (snd (advance p)) q"
    proof (cases rule: parse_primary_implE)
      case (call0 r s)
      then have "moved r s" "moved s (snd (advance s))" by (simp_all add: advance_moved)
      with call0 show ?thesis by (meson build_call_kept moved_imp_kept moved_kept_trans moved_trans)
    next
      case (call r s args t)
      then have "moved r s" "moved s t" using Suc.IH by (auto intro: advance_moved)
      with call show ?thesis by (meson build_call_kept moved_imp_kept moved_kept_trans moved_trans)
    next
      case (paren r)
      then have "moved (snd (advance p)) r" "moved r q" using Suc.IH by (auto intro: advance_moved)
      then show ?thesis by (meson moved_imp_kept moved_trans)
    qed (use Suc.IH in \<open>meson add_node_kept moved_imp_kept moved_kept_trans\<close>)+
    with m show ?thesis by (rule moved_kept_trans)
  qed
  have 3: "moved p q" if "parse_args (Suc n) p args = Some (Inr (is, q))" for p args "is" q
    using that
  proof (cases rule: parse_argsE)
    case (more j r)
    then have "moved p r" "moved r (snd (advance r))" "moved (snd (advance r)) q"
      using Suc.IH by (auto intro: advance_moved)
    then show ?thesis by (meson moved_trans)
  next
    case (last j r)
    then have "moved p r" "moved r q" using Suc.IH by (auto intro: advance_moved)
    then show ?thesis by (rule moved_trans)
  qed
  have 4: "moved p q" if "parse_expression (Suc n) p m = Some (Inr (i, q))" for p m i q
    using that Suc.IH by (elim parse_expressionE) (blast intro: moved_kept_trans)
  have 5: "kept p q" if "parse_loop (Suc n) p m l = Some (Inr (i, q))" for p m l i q
    using that
  proof (cases rule: parse_loopE)
    case stop
    then show ?thesis by (simp add: kept_def)
  next
    case (op prec j r tag k t)
    from op(1,2) have "moved p (snd (advance p))"
      by (intro advance_moved) auto
    moreover have "moved (snd (advance p)) r" "kept r t" "kept t q"
      using op Suc.IH by (auto intro: add_node_kept)
    ultimately show ?thesis by (meson moved_trans moved_kept_trans moved_imp_kept)
  qed
  show ?case using 1 2 3 4 5 by blast
qed

lemmas parse_movedD =
  parse_moved [THEN conjunct1, rule_format]
  parse_moved [THEN conjunct2, THEN conjunct1, rule_format]
  parse_moved [THEN conjunct2, THEN conjunct2, THEN conjunct1, rule_format]
  parse_moved [THEN conjunct2, THEN conjunct2, THEN conjunct2, THEN conjunct1, rule_format]

lemmas parse_loop_kept =
  parse_moved [THEN conjunct2, THEN conjunct2, THEN conjunct2, THEN conjunct2, rule_format]

lemma moved_todo: "moved p q \<Longrightarrow> todo q < todo p"
  by (auto simp: moved_def todo_def)

lemma kept_todo: "kept p q \<Longrightarrow> todo q \<le> todo p"
  by (auto simp: kept_def moved_def todo_def)

lemma advance_todo: "kind (peek p) \<noteq> TOK_EOF \<Longrightarrow> todo (snd (advance p)) < todo p"
  by (intro moved_todo advance_moved)

lemma parse_enough_fuel:
  "(\<forall>p. 4 * todo p + 2 \<le> n \<longrightarrow> parse_primary n p \<noteq> None) \<and>
   (\<forall>p. 4 * todo p + 1 \<le> n \<longrightarrow> parse_primary_impl n p \<noteq> None) \<and>
   (\<forall>p args. 4 * todo p + 4 \<le> n \<longrightarrow> parse_args n p args \<noteq> None) \<and>
   (\<forall>p m. 4 * todo p + 3 \<le> n \<longrightarrow> parse_expression n p m \<noteq> None) \<and>
   (\<forall>p m l. 4 * todo p + 1 \<le> n \<longrightarrow> parse_loop n p m l \<noteq> None)"
proof (induction n)
  case 0
  then show ?case by simp
next
  case (Suc n)
  have 1: "parse_primary (Suc n) p \<noteq> None" if "4 * todo p + 2 \<le> Suc n" for p
  proof -
    have "todo (p\<lparr>depth := depth p + 1\<rparr>) = todo p" by (simp add: todo_def)
    with that Suc.IH have "parse_primary_impl n (p\<lparr>depth := depth p + 1\<rparr>) \<noteq> None"
      by (metis Suc_le_mono add_2_eq_Suc' Suc_eq_plus1)
    then show ?thesis by (auto simp del: not_None_eq)
  qed
  have 2: "parse_primary_impl (Suc n) p \<noteq> None" if f: "4 * todo p + 1 \<le> Suc n" for p
  proof (cases "kind (peek p) = TOK_EOF")
    case True
    then show ?thesis by (simp add: Let_def)
  next
    case False
    let ?q = "snd (advance p)"
    let ?r = "snd (advance ?q)"
    from False have q: "todo ?q < todo p" by (rule advance_todo)
    with f Suc.IH have E: "parse_expression n ?q 0 \<noteq> None" and P: "parse_primary n ?q \<noteq> None"
      by auto
    have A: "parse_args n ?r [] \<noteq> None" if "kind (peek ?q) = TOK_LPAREN"
      using advance_todo [of ?q] that q f Suc.IH by auto
    show ?thesis
      using E P A by (cases "kind (peek p)") (auto simp: Let_def simp del: not_None_eq)
  qed
  have 3: "parse_args (Suc n) p args \<noteq> None" if f: "4 * todo p + 4 \<le> Suc n" for p args
  proof -
    have A: "parse_args n (snd (advance r)) (args @ [j]) \<noteq> None"
      if "parse_expression n p 0 = Some (Inr (j, r))" "kind (peek r) = TOK_COMMA" for j r
      using moved_todo [OF parse_movedD(4) [OF that(1)]] advance_todo [of r] that(2) f Suc.IH by auto
    have E: "parse_expression n p 0 \<noteq> None" using f Suc.IH by auto
    show ?thesis using A E by (auto simp: Let_def simp del: not_None_eq)
  qed
  have 4: "parse_expression (Suc n) p m \<noteq> None" if f: "4 * todo p + 3 \<le> Suc n" for p m
  proof -
    have "parse_loop n r m l \<noteq> None" if "parse_primary n p = Some (Inr (l, r))" for l r
      using moved_todo [OF parse_movedD(1) [OF that]] f Suc.IH by auto
    moreover have "parse_primary n p \<noteq> None" using f Suc.IH by auto
    ultimately show ?thesis by (auto simp del: not_None_eq)
  qed
  have 5: "parse_loop (Suc n) p m l \<noteq> None" if f: "4 * todo p + 1 \<le> Suc n" for p m l
  proof (cases "get_precedence (kind (peek p)) \<le> m")
    case True
    then show ?thesis by (simp add: Let_def)
  next
    case False
    let ?q = "snd (advance p)"
    from False have q: "todo ?q < todo p" by (intro advance_todo) auto
    have "parse_loop n t m k \<noteq> None"
      if "parse_expression n ?q prec = Some (Inr (j, r))" "add_node r tag l j 0 [] = Inr (k, t)"
      for prec j r tag k t
      using moved_todo [OF parse_movedD(4) [OF that(1)]] kept_todo [OF add_node_kept [OF that(2)]]
        q f Suc.IH by auto
    moreover have "parse_expression n ?q prec \<noteq> None" for prec
      using q f Suc.IH by auto
    ultimately show ?thesis using False by (auto simp: Let_def simp del: not_None_eq)
  qed
  show ?case using 1 2 3 4 5 by blast
qed

lemma parse_full_fuel_returns: "parse_fuel s \<le> n \<Longrightarrow> \<exists>r. parse_full_fuel n s = Some r"
proof -
  assume "parse_fuel s \<le> n"
  then have "parse_expression n (parser_init s) 0 \<noteq> None"
    using parse_enough_fuel [of n] by (simp add: parse_fuel_def todo_def parser_init_def)
  then have "parse_full_fuel n s \<noteq> None"
    unfolding parse_full_fuel_def by (intro opt_then_not_None) (auto simp: Let_def)
  then show ?thesis by simp
qed

lemma parse_fuel_step:
  "(\<forall>p. opt_le (parse_primary n p) (parse_primary (Suc n) p)) \<and>
   (\<forall>p. opt_le (parse_primary_impl n p) (parse_primary_impl (Suc n) p)) \<and>
   (\<forall>p args. opt_le (parse_args n p args) (parse_args (Suc n) p args)) \<and>
   (\<forall>p m. opt_le (parse_expression n p m) (parse_expression (Suc n) p m)) \<and>
   (\<forall>p m l. opt_le (parse_loop n p m l) (parse_loop (Suc n) p m l))"
proof (induction n)
  case 0
  then show ?case by (simp del: parse_primary.simps(2) parse_primary_impl.simps(2)
      parse_args.simps(2) parse_expression.simps(2) parse_loop.simps(2))
next
  case (Suc n)
  note IH = Suc.IH [THEN conjunct1, rule_format]
    Suc.IH [THEN conjunct2, THEN conjunct1, rule_format]
    Suc.IH [THEN conjunct2, THEN conjunct2, THEN conjunct1, rule_format]
    Suc.IH [THEN conjunct2, THEN conjunct2, THEN conjunct2, THEN conjunct1, rule_format]
    Suc.IH [THEN conjunct2, THEN conjunct2, THEN conjunct2, THEN conjunct2, rule_format]
  have 1: "opt_le (parse_primary (Suc n) p) (parse_primary (Suc (Suc n)) p)" for p
    by (subst parse_primary.simps(2) [of n], subst parse_primary.simps(2) [of "Suc n"], (unfold Let_def)?)
       (intro fuel_mono IH)
  have 2: "opt_le (parse_primary_impl (Suc n) p) (parse_primary_impl (Suc (Suc n)) p)" for p
    by (subst parse_primary_impl.simps(2) [of n], subst parse_primary_impl.simps(2) [of "Suc n"], (unfold Let_def)?)
       (intro fuel_mono IH)
  have 3: "opt_le (parse_args (Suc n) p args) (parse_args (Suc (Suc n)) p args)" for p args
    by (subst parse_args.simps(2) [of n], subst parse_args.simps(2) [of "Suc n"], (unfold Let_def)?)
       (intro fuel_mono IH)
  have 4: "opt_le (parse_expression (Suc n) p m) (parse_expression (Suc (Suc n)) p m)" for p m
    by (subst parse_expression.simps(2) [of n], subst parse_expression.simps(2) [of "Suc n"], (unfold Let_def)?)
       (intro fuel_mono IH)
  have 5: "opt_le (parse_loop (Suc n) p m l) (parse_loop (Suc (Suc n)) p m l)" for p m l
    by (subst parse_loop.simps(2) [of n], subst parse_loop.simps(2) [of "Suc n"], (unfold Let_def)?)
       (intro fuel_mono IH)
  show ?case using 1 2 3 4 5 by blast
qed

lemma parse_full_fuel_mono: "n \<le> m \<Longrightarrow> opt_le (parse_full_fuel n s) (parse_full_fuel m s)"
proof -
  assume le: "n \<le> m"
  have "opt_le (parse_expression n p k) (parse_expression m p k)" for p k
    by (rule opt_le_fuel [where f = "\<lambda>n. parse_expression n p k", OF _ le])
       (use parse_fuel_step in blast)
  then show ?thesis
    unfolding parse_full_fuel_def Let_def by (intro fuel_mono)
qed

interpretation parser: fuelled parse_full_fuel
  by unfold_locales (rule parse_full_fuel_mono, simp)

section \<open>Properties\<close>

text \<open>
  C27: the parser always returns. On every source text, accepted or not, the recursion ends
  within the fuel \<open>4 * length + 3\<close>, and any larger budget gives the same result.
\<close>
theorem parse_full_total:
  "parse_fuel s \<le> n \<Longrightarrow> parse_full_fuel n s = Some (parse_full s)"
  using parse_full_fuel_returns [of s "parse_fuel s"] parser.stable [of "parse_fuel s" s _ n]
  by (auto simp: parse_full_def)

theorem parse_full_total_witness:
  "parse_full_fuel 100 ''(a+1)*f(2)'' = Some (parse_full ''(a+1)*f(2)'')"
  by (rule parse_full_total) (simp add: parse_fuel_def)

end
