(* ===== verification/Lin_Grammar.thy ===== *)
theory Lin_Grammar
  imports Lin_Parse
begin

text \<open>
  The specification of the Pratt parser: a stratified expression grammar over tokens. Level
  \<open>m\<close> derives the expressions whose operators outside parentheses all bind tighter than
  \<open>m\<close>; the left operand of an operator of precedence \<open>q\<close> is one level looser than the
  right one, which is left associativity. Each derivation denotes an expression tree.

  \<open>parse_full_sound\<close>: an accepted source is derivable and the arena holds the tree of the
  derivation.
\<close>

inductive gprim :: "Token list \<Rightarrow> expr \<Rightarrow> bool"
  and gexpr :: "nat \<Rightarrow> Token list \<Rightarrow> expr \<Rightarrow> bool"
  and gargs :: "Token list \<Rightarrow> expr list \<Rightarrow> bool" where
  g_lit: "kind t = TOK_INT_LIT \<Longrightarrow> gprim [t] (Lit (val t))"
| g_var: "kind t = TOK_IDENT \<Longrightarrow> gprim [t] (Var (name t))"
| g_call0: "kind t = TOK_IDENT \<Longrightarrow> kind l = TOK_LPAREN \<Longrightarrow> kind r = TOK_RPAREN \<Longrightarrow>
    gprim [t, l, r] (Call (name t) [])"
| g_call: "kind t = TOK_IDENT \<Longrightarrow> kind l = TOK_LPAREN \<Longrightarrow> gargs ts es \<Longrightarrow>
    length es \<le> LIN_MAX_ARGS \<Longrightarrow> kind r = TOK_RPAREN \<Longrightarrow> gprim (t # l # ts @ [r]) (Call (name t) es)"
| g_pos: "kind t = TOK_PLUS \<Longrightarrow> gprim ts e \<Longrightarrow> gprim (t # ts) (UPos e)"
| g_neg: "kind t = TOK_MINUS \<Longrightarrow> gprim ts e \<Longrightarrow> gprim (t # ts) (UNeg e)"
| g_paren: "kind l = TOK_LPAREN \<Longrightarrow> gexpr 0 ts e \<Longrightarrow> kind r = TOK_RPAREN \<Longrightarrow> gprim (l # ts @ [r]) e"
| g_prim: "gprim ts e \<Longrightarrow> gexpr m ts e"
| g_bin: "get_precedence (kind t) = Suc q \<Longrightarrow> m \<le> q \<Longrightarrow> gexpr q ts1 e1 \<Longrightarrow> gexpr (Suc q) ts2 e2 \<Longrightarrow>
    op_tag (kind t) = Inr op \<Longrightarrow> gexpr m (ts1 @ t # ts2) (Bin op e1 e2)"
| g_arg: "gexpr 0 ts e \<Longrightarrow> gargs ts [e]"
| g_args: "gexpr 0 ts e \<Longrightarrow> kind c = TOK_COMMA \<Longrightarrow> gargs us es \<Longrightarrow> gargs (ts @ c # us) (e # es)"

lemma gexpr_antimono:
  assumes "gexpr l ts e" "m \<le> l"
  shows "gexpr m ts e"
  using assms(1)
proof (cases rule: gexpr.cases)
  case g_prim
  then show ?thesis by (rule gprim_gexpr_gargs.g_prim)
next
  case (g_bin t q ts1 e1 ts2 e2 op)
  then show ?thesis using assms(2) gprim_gexpr_gargs.g_bin [of t q m ts1 e1 ts2 e2 op] by simp
qed

lemma op_tag_binary: "op_tag k = Inr op \<Longrightarrow> binary_tag op"
  by (cases k) (auto simp: binary_tag_def)

lemma op_tag_precedence: "get_precedence k \<noteq> 0 \<longleftrightarrow> (\<exists>op. op_tag k = Inr op)"
  by (cases k) auto

section \<open>Token streams of parser states\<close>

definition stream :: "Parser \<Rightarrow> Token list" where
  "stream p = token_stream (src p) (at p)"

lemma stream_advance: "kind (peek p) \<noteq> TOK_EOF \<Longrightarrow> stream p = peek p # stream (snd (advance p))"
  by (auto simp: stream_def advance_def peek_def lin_peek_token_def token_stream_cons split: prod.splits)

lemma stream_eof: "stream p = [] \<longleftrightarrow> kind (peek p) = TOK_EOF"
  by (auto simp: stream_def peek_def lin_peek_token_def token_stream.simps split: prod.splits if_splits)

lemma stream_depth [simp]: "stream (p\<lparr>depth := d\<rparr>) = stream p" "peek (p\<lparr>depth := d\<rparr>) = peek p"
  by (simp_all add: stream_def peek_def)

lemma stream_arena [simp]: "stream (p\<lparr>arena := a\<rparr>) = stream p" "peek (p\<lparr>arena := a\<rparr>) = peek p"
  by (simp_all add: stream_def peek_def)

section \<open>Soundness\<close>

text \<open>
  \<open>built p q i e\<close>: on the way from \<open>p\<close> to \<open>q\<close> the arena only grew, and node
  \<open>i\<close> represents \<open>e\<close> in it.
\<close>

definition grown :: "Parser \<Rightarrow> Parser \<Rightarrow> bool" where
  "grown p q = (arena_ok (arena q) \<and> arena_le (arena p) (arena q))"

lemma grown_trans: "grown p q \<Longrightarrow> grown q r \<Longrightarrow> grown p r"
  by (auto simp: grown_def intro: arena_le_trans)

lemma grown_cong: "arena p = arena p' \<Longrightarrow> arena q = arena q' \<Longrightarrow> grown p q \<longleftrightarrow> grown p' q'"
  by (simp add: grown_def)

lemma grown_repr: "grown p q \<Longrightarrow> repr (arena p) i e \<Longrightarrow> repr (arena q) i e"
  by (auto simp: grown_def intro: repr_mono)

lemma add_node_grown:
  assumes "add_node p tag l r v nm = Inr (i, q)" "arena_ok (arena p)"
  shows "grown p q" "stream q = stream p" "peek q = peek p" "i < len (arena q)"
    "tags (arena q) ! i = tag" "lhs (arena q) ! i = l" "rhs (arena q) ! i = r"
    "vals (arena q) ! i = v" "names (arena q) ! i = nm" "len (arena q) = Suc (len (arena p))"
  using assms arena_add_ok [of "arena p" tag l r v nm _ i] by (auto simp: add_node_Inr grown_def)

lemma link_args_built:
  assumes "link_args p xs prev = Inr (i, q)" "arena_ok (arena p)"
    "list_all2 (repr (arena p)) xs es" "repr_args (arena p) prev ds"
  shows "grown p q \<and> stream q = stream p \<and> repr_args (arena q) i (ds @ es) \<and>
    len (arena q) = len (arena p) + length xs"
  using assms
proof (induction xs arbitrary: p prev es ds)
  case Nil
  then show ?case by (simp add: grown_def)
next
  case (Cons x xs)
  then obtain e es' where es: "es = e # es'" and e: "repr (arena p) x e"
    and es': "list_all2 (repr (arena p)) xs es'"
    by (auto simp: list_all2_Cons1)
  from Cons.prems(1) obtain j r where
    j: "add_node p TAG_CALL_ARG x prev 0 [] = Inr (j, r)" and r: "link_args r xs j = Inr (i, q)"
    by auto
  note g = add_node_grown [OF j Cons.prems(2)]
  have a: "repr_args (arena r) j (ds @ [e])"
    using g e Cons.prems(4) by (intro repr_repr_args.arg) (auto intro: grown_repr repr_args_mono simp: grown_def)
  have b: "list_all2 (repr (arena r)) xs es'"
    using es' g(1) by (auto intro: list_all2_mono grown_repr)
  have "grown r q \<and> stream q = stream r \<and> repr_args (arena q) i ((ds @ [e]) @ es') \<and>
      len (arena q) = len (arena r) + length xs"
    using Cons.IH [OF r _ b a] g(1) by (simp add: grown_def)
  with g(1,2,10) es show ?case by (auto intro: grown_trans)
qed

lemma build_call_built:
  assumes "build_call p nm xs = Inr (i, q)" "arena_ok (arena p)" "list_all2 (repr (arena p)) xs es"
  shows "grown p q \<and> stream q = stream p \<and> repr (arena q) i (Call nm es) \<and>
    len (arena q) = len (arena p) + length es + 1"
proof -
  from assms(1) obtain j r where l: "link_args p xs 0 = Inr (j, r)"
    and a: "add_node r TAG_CALL j 0 (of_nat (length xs)) nm = Inr (i, q)"
    by (auto simp: build_call_def)
  from link_args_built [OF l assms(2,3), of "[]"]
  have r: "grown p r" "stream r = stream p" "repr_args (arena r) j es" "len (arena r) = len (arena p) + length es"
    using assms(3) by (auto intro: repr_repr_args.no_args simp: list_all2_lengthD)
  then have "arena_ok (arena r)" by (simp add: grown_def)
  note g = add_node_grown [OF a this]
  have "repr (arena q) i (Call nm es)"
    using g r(3) assms(3)
    by (intro repr_repr_args.call) (auto intro: repr_args_mono simp: grown_def list_all2_lengthD)
  with g(1,2,10) r(1,2,4) show ?thesis by (auto intro: grown_trans)
qed

text \<open>What each of the five functions guarantees on success.\<close>

definition prim_sound :: "Parser \<Rightarrow> nat \<Rightarrow> Parser \<Rightarrow> bool" where
  "prim_sound p i q \<longleftrightarrow>
     (\<exists>ts e. stream p = ts @ stream q \<and> gprim ts e \<and> grown p q \<and> repr (arena q) i e \<and>
        len (arena p) + nodes e \<le> len (arena q))"

definition args_sound :: "Parser \<Rightarrow> nat list \<Rightarrow> nat list \<Rightarrow> Parser \<Rightarrow> bool" where
  "args_sound p as is q \<longleftrightarrow>
     (\<exists>ts r es js. stream p = ts @ r # stream q \<and> kind r = TOK_RPAREN \<and> gargs ts es \<and> is = as @ js \<and>
        length is \<le> LIN_MAX_ARGS \<and> grown p q \<and> list_all2 (repr (arena q)) js es \<and>
        len (arena p) + sum_list (map nodes es) \<le> len (arena q))"

definition expr_sound :: "Parser \<Rightarrow> nat \<Rightarrow> nat \<Rightarrow> Token list \<Rightarrow> nat \<Rightarrow> Parser \<Rightarrow> bool" where
  "expr_sound p b m ts0 i q \<longleftrightarrow>
     (\<exists>ts e. stream p = ts @ stream q \<and> gexpr m (ts0 @ ts) e \<and> grown p q \<and> repr (arena q) i e \<and>
        get_precedence (kind (peek q)) \<le> m \<and> b + nodes e \<le> len (arena q))"

lemma primary_impl_sound:
  assumes P: "\<And>p i q. parse_primary n p = Some (Inr (i, q)) \<Longrightarrow> arena_ok (arena p) \<Longrightarrow> prim_sound p i q"
    and A: "\<And>p as is q. parse_args n p as = Some (Inr (is, q)) \<Longrightarrow> arena_ok (arena p) \<Longrightarrow>
      args_sound p as is q"
    and E: "\<And>p m i q. parse_expression n p m = Some (Inr (i, q)) \<Longrightarrow> arena_ok (arena p) \<Longrightarrow>
      expr_sound p (len (arena p)) m [] i q"
    and run: "parse_primary_impl (Suc n) p = Some (Inr (i, q))" and ok: "arena_ok (arena p)"
  shows "prim_sound p i q"
proof -
  let ?p = "snd (advance p)"
  have ok': "arena_ok (arena ?p)" using ok by simp
  have grow: "grown p s" if "grown ?p s" for s using that by (simp add: grown_def)
  from run have adv: "stream p = peek p # stream ?p"
    by (intro stream_advance) (cases rule: parse_primary_implE, auto)
  from run show ?thesis
  proof (cases rule: parse_primary_implE)
    case lit
    note g = add_node_grown [OF lit(2) ok']
    have "repr (arena q) i (Lit (val (peek p)))"
      using repr_repr_args.lit [of i "arena q"] g by simp
    with g lit(1) adv show ?thesis
      unfolding prim_sound_def by (intro exI [of _ "[peek p]"] exI) (auto intro: g_lit grow)
  next
    case var
    note g = add_node_grown [OF var(3) ok']
    have "repr (arena q) i (Var (name (peek p)))"
      using repr_repr_args.var [of i "arena q"] g by simp
    with g var(1) adv show ?thesis
      unfolding prim_sound_def by (intro exI [of _ "[peek p]"] exI) (auto intro: g_var grow)
  next
    case (call0 r s)
    have s: "stream p = [peek p, peek r, peek s] @ stream (snd (advance s))"
      using adv stream_advance [of r] stream_advance [of s] call0 by simp
    have "grown (snd (advance s)) q \<and> stream q = stream (snd (advance s)) \<and>
        repr (arena q) i (Call (name (peek p)) []) \<and>
        len (arena q) = len (arena (snd (advance s))) + 1"
      using build_call_built [OF call0(6)] ok call0 by simp
    with s call0 show ?thesis
      unfolding prim_sound_def
      by (intro exI [of _ "[peek p, peek r, peek s]"] exI) (auto intro: g_call0 simp: grown_def)
  next
    case (call r s args t)
    have s: "stream p = peek p # peek r # stream s"
      using adv stream_advance [of r] call by simp
    from A [OF call(5)] ok call obtain ts u es where
      t: "stream s = ts @ u # stream t" "kind u = TOK_RPAREN" "gargs ts es"
      "length args \<le> LIN_MAX_ARGS" "grown s t" "list_all2 (repr (arena t)) args es"
      "len (arena s) + sum_list (map nodes es) \<le> len (arena t)"
      by (auto simp: args_sound_def)
    then have "grown t q \<and> stream q = stream t \<and> repr (arena q) i (Call (name (peek p)) es) \<and>
        len (arena q) = len (arena t) + length es + 1"
      using build_call_built [OF call(6)] by (simp add: grown_def)
    moreover have "gprim (peek p # peek r # ts @ [u]) (Call (name (peek p)) es)"
      using call t by (intro g_call) (auto dest: list_all2_lengthD)
    moreover have "grown p t" using t(5) call by (simp add: grown_def)
    ultimately show ?thesis
      unfolding prim_sound_def using s t(1,7) call
      by (intro exI [of _ "peek p # peek r # ts @ [u]"] exI) (auto intro: grown_trans)
  next
    case (unary_pos j r)
    from P [OF unary_pos(2) ok'] obtain ts e where
      r: "stream ?p = ts @ stream r" "gprim ts e" "grown ?p r" "repr (arena r) j e"
      "len (arena ?p) + nodes e \<le> len (arena r)"
      by (auto simp: prim_sound_def)
    then have "arena_ok (arena r)" by (simp add: grown_def)
    note g = add_node_grown [OF unary_pos(3) this]
    have "repr (arena q) i (UPos e)"
      using g r(4) by (intro repr_repr_args.pos) (auto intro: grown_repr)
    with g r adv unary_pos(1) show ?thesis
      unfolding prim_sound_def
      by (intro exI [of _ "peek p # ts"] exI [of _ "UPos e"]) (auto intro: g_pos grow grown_trans)
  next
    case (unary_neg j r)
    from P [OF unary_neg(2) ok'] obtain ts e where
      r: "stream ?p = ts @ stream r" "gprim ts e" "grown ?p r" "repr (arena r) j e"
      "len (arena ?p) + nodes e \<le> len (arena r)"
      by (auto simp: prim_sound_def)
    then have "arena_ok (arena r)" by (simp add: grown_def)
    note g = add_node_grown [OF unary_neg(3) this]
    have "repr (arena q) i (UNeg e)"
      using g r(4) by (intro repr_repr_args.neg) (auto intro: grown_repr)
    with g r adv unary_neg(1) show ?thesis
      unfolding prim_sound_def
      by (intro exI [of _ "peek p # ts"] exI [of _ "UNeg e"]) (auto intro: g_neg grow grown_trans)
  next
    case (paren r)
    from E [OF paren(2) ok'] obtain ts e where
      r: "stream ?p = ts @ stream r" "gexpr 0 ts e" "grown ?p r" "repr (arena r) i e"
      "len (arena ?p) + nodes e \<le> len (arena r)"
      by (auto simp: expr_sound_def)
    have "stream r = peek r # stream q" using stream_advance [of r] paren by simp
    with r adv paren show ?thesis
      unfolding prim_sound_def
      by (intro exI [of _ "peek p # ts @ [peek r]"] exI [of _ e]) (auto intro: g_paren simp: grown_def)
  qed
qed

lemma args_step_sound:
  assumes A: "\<And>p as is q. parse_args n p as = Some (Inr (is, q)) \<Longrightarrow> arena_ok (arena p) \<Longrightarrow>
      args_sound p as is q"
    and E: "\<And>p m i q. parse_expression n p m = Some (Inr (i, q)) \<Longrightarrow> arena_ok (arena p) \<Longrightarrow>
      expr_sound p (len (arena p)) m [] i q"
    and run: "parse_args (Suc n) p as = Some (Inr (is, q))" and ok: "arena_ok (arena p)"
  shows "args_sound p as is q"
  using run
proof (cases rule: parse_argsE)
  case (more j r)
  from E [OF more(2) ok] obtain ts e where
    r: "stream p = ts @ stream r" "gexpr 0 ts e" "grown p r" "repr (arena r) j e"
    "len (arena p) + nodes e \<le> len (arena r)"
    by (auto simp: expr_sound_def)
  have sr: "stream r = peek r # stream (snd (advance r))"
    using stream_advance [of r] more by simp
  from A [OF more(4)] r(3) obtain us u es js where
    t: "stream (snd (advance r)) = us @ u # stream q" "kind u = TOK_RPAREN" "gargs us es"
    "is = (as @ [j]) @ js" "length is \<le> LIN_MAX_ARGS" "grown (snd (advance r)) q"
    "list_all2 (repr (arena q)) js es" "len (arena r) + sum_list (map nodes es) \<le> len (arena q)"
    by (auto simp: args_sound_def grown_def)
  have "grown r q" using t(6) by (simp add: grown_def)
  then have "repr (arena q) j e" "grown p q" using r(3,4) by (auto intro: grown_repr grown_trans)
  with r sr t more show ?thesis
    unfolding args_sound_def
    by (intro exI [of _ "ts @ peek r # us"] exI [of _ u] exI [of _ "e # es"] exI [of _ "j # js"])
       (auto intro: g_args)
next
  case (last j r)
  from E [OF last(2) ok] obtain ts e where
    r: "stream p = ts @ stream r" "gexpr 0 ts e" "grown p r" "repr (arena r) j e"
    "len (arena p) + nodes e \<le> len (arena r)"
    by (auto simp: expr_sound_def)
  have "stream r = peek r # stream q" using stream_advance [of r] last by simp
  with r last show ?thesis
    unfolding args_sound_def
    by (intro exI [of _ ts] exI [of _ "peek r"] exI [of _ "[e]"] exI [of _ "[j]"])
       (auto intro: g_arg simp: grown_def)
qed

definition loop_start :: "Parser \<Rightarrow> nat \<Rightarrow> nat \<Rightarrow> nat \<Rightarrow> Token list \<Rightarrow> bool" where
  "loop_start p b m l ts0 \<longleftrightarrow>
     (\<exists>k e0. gexpr k ts0 e0 \<and> m \<le> k \<and> get_precedence (kind (peek p)) \<le> Suc k \<and> repr (arena p) l e0 \<and>
        b + nodes e0 \<le> len (arena p))"

lemma loop_step_sound:
  assumes L: "\<And>p b m l i q ts0. parse_loop n p m l = Some (Inr (i, q)) \<Longrightarrow> arena_ok (arena p) \<Longrightarrow>
      loop_start p b m l ts0 \<Longrightarrow> expr_sound p b m ts0 i q"
    and E: "\<And>p m i q. parse_expression n p m = Some (Inr (i, q)) \<Longrightarrow> arena_ok (arena p) \<Longrightarrow>
      expr_sound p (len (arena p)) m [] i q"
    and run: "parse_loop (Suc n) p m l = Some (Inr (i, q))" and ok: "arena_ok (arena p)"
    and start: "loop_start p b m l ts0"
  shows "expr_sound p b m ts0 i q"
proof -
  from start obtain k e0 where
    k: "gexpr k ts0 e0" "m \<le> k" "get_precedence (kind (peek p)) \<le> Suc k" "repr (arena p) l e0"
    "b + nodes e0 \<le> len (arena p)"
    by (auto simp: loop_start_def)
  from run show ?thesis
  proof (cases rule: parse_loopE)
    case stop
    with k ok gexpr_antimono [OF k(1,2)] show ?thesis
      by (auto simp: expr_sound_def grown_def intro!: exI [of _ e0])
  next
    case (op prec j r tag x t)
    obtain c where c: "prec = Suc c" "m \<le> c" using op(2) by (cases prec) simp_all
    let ?p = "snd (advance p)"
    have adv: "stream p = peek p # stream ?p"
      using op c by (intro stream_advance) auto
    from E [OF op(3)] ok obtain us e where
      r: "stream ?p = us @ stream r" "gexpr prec us e" "grown ?p r" "repr (arena r) j e"
      "get_precedence (kind (peek r)) \<le> prec" "len (arena ?p) + nodes e \<le> len (arena r)"
      by (auto simp: expr_sound_def)
    then have "arena_ok (arena r)" by (simp add: grown_def)
    note g = add_node_grown [OF op(5) this]
    have pr: "grown p r" using r(3) by (simp add: grown_def)
    have "repr (arena t) x (Bin tag e0 e)"
      using g k(4) pr r(4) op_tag_binary [OF op(4)]
      by (intro repr_repr_args.bin) (auto intro: grown_repr)
    moreover have "gexpr c (ts0 @ peek p # us) (Bin tag e0 e)"
      using op(1,4) c k(1,3) r(2) gexpr_antimono [OF k(1), of c] by (intro g_bin [of _ c]) auto
    ultimately have "loop_start t b m x (ts0 @ peek p # us)"
      using c r(5,6) g(3,10) k(5) unfolding loop_start_def
      by (intro exI [of _ c] exI [of _ "Bin tag e0 e"]) auto
    with L [OF op(6)] g(1) have "expr_sound t b m (ts0 @ peek p # us) i q"
      by (simp add: grown_def)
    then obtain vs e' where
      v: "stream t = vs @ stream q" "gexpr m ((ts0 @ peek p # us) @ vs) e'" "grown t q"
      "repr (arena q) i e'" "get_precedence (kind (peek q)) \<le> m" "b + nodes e' \<le> len (arena q)"
      by (auto simp: expr_sound_def)
    have "grown p q" using pr g(1) v(3) by (meson grown_trans)
    with v adv r(1) g(2) show ?thesis
      unfolding expr_sound_def
      by (intro exI [of _ "peek p # us @ vs"] exI [of _ e']) auto
  qed
qed

lemma parse_sound:
  "(\<forall>p i q. parse_primary n p = Some (Inr (i, q)) \<longrightarrow> arena_ok (arena p) \<longrightarrow> prim_sound p i q) \<and>
   (\<forall>p i q. parse_primary_impl n p = Some (Inr (i, q)) \<longrightarrow> arena_ok (arena p) \<longrightarrow> prim_sound p i q) \<and>
   (\<forall>p as is q. parse_args n p as = Some (Inr (is, q)) \<longrightarrow> arena_ok (arena p) \<longrightarrow> args_sound p as is q) \<and>
   (\<forall>p m i q. parse_expression n p m = Some (Inr (i, q)) \<longrightarrow> arena_ok (arena p) \<longrightarrow>
      expr_sound p (len (arena p)) m [] i q) \<and>
   (\<forall>p b m l i q ts0. parse_loop n p m l = Some (Inr (i, q)) \<longrightarrow> arena_ok (arena p) \<longrightarrow>
      loop_start p b m l ts0 \<longrightarrow> expr_sound p b m ts0 i q)"
proof (induction n)
  case 0
  then show ?case by simp
next
  case (Suc n)
  note P = Suc.IH [THEN conjunct1, rule_format]
    and I = Suc.IH [THEN conjunct2, THEN conjunct1, rule_format]
    and A = Suc.IH [THEN conjunct2, THEN conjunct2, THEN conjunct1, rule_format]
    and E = Suc.IH [THEN conjunct2, THEN conjunct2, THEN conjunct2, THEN conjunct1, rule_format]
    and L = Suc.IH [THEN conjunct2, THEN conjunct2, THEN conjunct2, THEN conjunct2, rule_format]
  have 1: "prim_sound p i q" if run: "parse_primary (Suc n) p = Some (Inr (i, q))"
    and ok: "arena_ok (arena p)" for p i q
    using run
  proof (cases rule: parse_primaryE)
    case (1 r)
    with I [OF 1(2)] ok show ?thesis by (simp add: prim_sound_def grown_def)
  qed
  have 4: "expr_sound p (len (arena p)) m [] i q" if run: "parse_expression (Suc n) p m = Some (Inr (i, q))"
    and ok: "arena_ok (arena p)" for p m i q
    using run
  proof (cases rule: parse_expressionE)
    case (1 l r)
    from P [OF 1(1) ok] obtain ts e where
      r: "stream p = ts @ stream r" "gprim ts e" "grown p r" "repr (arena r) l e" "len (arena p) + nodes e \<le> len (arena r)"
      by (auto simp: prim_sound_def)
    have "get_precedence (kind (peek r)) \<le> 3" by (cases "kind (peek r)") auto
    then have "loop_start r (len (arena p)) m l ts"
      using r unfolding loop_start_def
      by (intro exI [of _ "max m 3"] exI [of _ e]) (auto intro: g_prim)
    with L [OF 1(2)] r(3) have "expr_sound r (len (arena p)) m ts i q" by (simp add: grown_def)
    with r show ?thesis unfolding expr_sound_def by (fastforce intro: grown_trans)
  qed
  show ?case
    using 1 4 primary_impl_sound [OF P A E] args_step_sound [OF A E] loop_step_sound [OF L E]
    by (intro conjI allI impI) blast+
qed

lemma parse_expression_tree:
  assumes "parse_expression n (parser_init s) 0 = Some (Inr (root, r))"
  shows "\<exists>ts e. token_stream s 0 = ts @ stream r \<and> gexpr 0 ts e \<and> repr (arena r) root e \<and>
    arena_ok (arena r) \<and> nodes e \<le> len (arena r)"
proof -
  let ?p = "parser_init s"
  have ok: "arena_ok (arena ?p)" by (simp add: parser_init_def)
  from parse_sound [of n] assms ok have "expr_sound ?p (len (arena ?p)) 0 [] root r" by blast
  moreover have "stream ?p = token_stream s 0" by (simp add: stream_def parser_init_def)
  ultimately obtain ts e where "token_stream s 0 = ts @ stream r" "gexpr 0 ts e" "grown ?p r" "repr (arena r) root e"
    "len (arena ?p) + nodes e \<le> len (arena r)" by (auto simp: expr_sound_def)
  then show ?thesis by (intro exI [of _ ts] exI [of _ e]) (simp add: grown_def)
qed

lemma parse_full_fuel_sound:
  assumes "parse_full_fuel n s = Some (Inr (root, q))"
  shows "\<exists>e. gexpr 0 (token_stream s 0) e \<and> repr (arena q) root e \<and> arena_ok (arena q) \<and> nodes e \<le> len (arena q)"
proof -
  from assms obtain r where r: "parse_expression n (parser_init s) 0 = Some (Inr (root, r))"
    "kind (peek r) = TOK_EOF" "q = snd (advance r)"
    by (auto simp: parse_full_fuel_def Let_def split: if_splits)
  moreover have "stream r = []" using r(2) by (simp add: stream_eof)
  ultimately show ?thesis using parse_expression_tree [OF r(1)] by auto
qed

section \<open>Properties\<close>

text \<open>
  C26: the parser is sound for the expression grammar. A text that \<open>parse_full\<close> accepts is,
  as a whole, a sentence of the grammar, with its precedences and left associativity, and the
  root node of the arena represents the tree of that derivation, built from at most as many
  nodes as the arena holds.
\<close>
theorem parse_full_sound:
  assumes "parse_full s = Inr (root, q)"
  shows "\<exists>t. gexpr 0 (token_stream s 0) t \<and> repr (arena q) root t \<and> arena_ok (arena q) \<and> nodes t \<le> len (arena q)"
proof -
  from assms have "parse_full_fuel (parse_fuel s) s = Some (Inr (root, q))"
    using parse_full_fuel_returns [of s "parse_fuel s"] by (auto simp: parse_full_def)
  from parse_full_fuel_sound [OF this] show ?thesis .
qed

theorem parse_full_sound_witness:
  "\<exists>t. gexpr 0 (token_stream ''a-b-c'' 0) t"
proof -
  have "isl (parse_full ''a-b-c'') = False" by code_simp
  then obtain root q where "parse_full ''a-b-c'' = Inr (root, q)" by (cases "parse_full ''a-b-c''") auto
  from parse_full_sound [OF this] show ?thesis by blast
qed

end
