(* ===== verification/Lin_Str.thy ===== *)
theory Lin_Str
  imports Lin_Common
begin

text \<open>
  \<open>transpile/c/lin_c/lin_str.h\<close> and \<open>lin_str.c\<close>: the HOST-ABI-1 string intrinsics.
  A \<open>LinStr\<close> is the list of its bytes (shorter than 2^63, as every C object). A function that
  writes at most \<open>cap\<close> bytes into a caller's buffer returns \<open>Some\<close> of the bytes written,
  and \<^const>\<open>None\<close> for the \<open>SIZE_MAX\<close> return.
\<close>

section \<open>Operations\<close>

definition lin_str_len :: "bytes \<Rightarrow> i64" where
  "lin_str_len s = of_nat (length s)"

definition lin_str_char_code_at :: "bytes \<Rightarrow> i64 \<Rightarrow> i64" where
  "lin_str_char_code_at s i =
     (if i <s 0 then 0 else if unat i \<ge> length s then 0 else ucast (s ! unat i))"

text \<open>The comparison loop, from position \<open>j = i + k\<close> of \<open>s\<close> and the rest of \<open>lit\<close>.\<close>

fun starts_from :: "bytes \<Rightarrow> nat \<Rightarrow> bytes \<Rightarrow> i64" where
  "starts_from s j [] = 1"
| "starts_from s j (c # lit) =
     (if j \<ge> length s then 0 else if s ! j \<noteq> c then 0 else starts_from s (Suc j) lit)"

definition lin_str_starts_lit :: "bytes \<Rightarrow> i64 \<Rightarrow> bytes \<Rightarrow> i64" where
  "lin_str_starts_lit s i lit =
     (if i <s 0 then (if length lit = 0 then 1 else 0) else starts_from s (unat i) lit)"

fun count_from :: "bytes \<Rightarrow> bytes \<Rightarrow> nat list \<Rightarrow> i64 \<Rightarrow> i64" where
  "count_from hay needle [] cnt = cnt"
| "count_from hay needle (i # is) cnt =
     count_from hay needle is (if lin_str_starts_lit hay (of_nat i) needle = 1 then cnt + 1 else cnt)"

definition lin_str_count_lit :: "bytes \<Rightarrow> bytes \<Rightarrow> i64" where
  "lin_str_count_lit hay needle = count_from hay needle [0..<length hay] 0"

definition lin_str_from_code :: "i64 \<Rightarrow> bytes" where
  "lin_str_from_code c = (if 0 \<le>s c \<and> c <s 256 then [ucast c] else [])"

text \<open>The \<open>do .. while (t)\<close> loop: digits of \<open>t\<close>, least significant first.\<close>

function digits_rev :: "u64 \<Rightarrow> bytes" where
  "digits_rev t = (48 + ucast (t mod 10)) # (if t div 10 = 0 then [] else digits_rev (t div 10))"
  by pat_completeness auto
termination
proof (relation "measure unat")
  fix t :: u64
  assume "t div 10 \<noteq> 0"
  then have "unat t div 10 \<noteq> 0" by (simp add: unat_div word_unat_eq_iff)
  then show "(t div 10, t) \<in> measure unat" by (simp add: unat_div)
qed simp

declare digits_rev.simps [simp del]

definition lin_str_of_i64 :: "i64 \<Rightarrow> nat \<Rightarrow> bytes option" where
  "lin_str_of_i64 x cap =
     (let neg = x <s 0;
          v = (if neg then - (x + 1) + 1 else x);
          tmp = digits_rev v;
          need = length tmp + (if neg then 1 else 0) in
      if need > cap then None
      else Some ((if neg then bytes_of_string ''-'' else []) @ rev tmp))"

definition lin_str_of_bool :: "bool \<Rightarrow> nat \<Rightarrow> bytes option" where
  "lin_str_of_bool b cap =
     (let s = (if b then bytes_of_string ''true'' else bytes_of_string ''false'') in
      if length s > cap then None else Some s)"

definition lin_str_cat :: "bytes \<Rightarrow> bytes \<Rightarrow> nat \<Rightarrow> bytes option" where
  "lin_str_cat sa sb cap =
     (if length sa > cap \<or> length sb > cap - length sa then None else Some (sa @ sb))"

section \<open>Lemmas\<close>

lemma starts_from_prefix:
  "starts_from s j lit = (if lit = take (length lit) (drop j s) then 1 else 0)"
proof (induction s j lit rule: starts_from.induct)
  case (2 s j c lit)
  show ?case
  proof (cases "j < length s")
    case True
    then have "drop j s = s ! j # drop (Suc j) s" by (simp add: Cons_nth_drop_Suc)
    with True 2 show ?thesis by auto
  qed simp
qed simp

lemma small_i64:
  assumes "n < 2 ^ 63"
  shows "\<not> (of_nat n :: i64) <s 0" "unat (of_nat n :: i64) = n"
proof -
  have "n < 2 ^ 64" by (rule less_trans [OF assms]) simp
  then have "take_bit 64 n = n" by (rule take_bit_nat_eq_self)
  then show u: "unat (of_nat n :: i64) = n" by (simp add: unsigned_of_nat)
  have "sint (of_nat n :: i64) = int n" using sint_small [of "of_nat n"] assms unfolding u by blast
  then show "\<not> (of_nat n :: i64) <s 0" by (simp add: word_sless_alt)
qed

lemma count_from_filter:
  assumes "\<forall>i \<in> set is. i < 2 ^ 63"
  shows "count_from hay needle is cnt
    = cnt + of_nat (length (filter (\<lambda>i. needle = take (length needle) (drop i hay)) is))"
  using assms
  by (induction hay needle "is" cnt rule: count_from.induct)
    (auto simp: lin_str_starts_lit_def starts_from_prefix small_i64)

lemma digit_byte: "d < 10 \<Longrightarrow> (of_char (digit_char d) :: u8) = 48 + of_nat d"
proof -
  assume "d < 10"
  have "(of_char (digit_char d) :: u8) = of_nat (of_char (digit_char d))" by (rule of_nat_of_char [symmetric])
  also have "\<dots> = 48 + of_nat d" using \<open>d < 10\<close> by simp
  finally show ?thesis .
qed

lemma digits_rev_dec: "rev (digits_rev t) = bytes_of_string (dec_digits (unat t))"
proof (induction t rule: digits_rev.induct)
  case (1 t)
  have z: "t div 10 = 0 \<longleftrightarrow> unat t < 10" by (simp add: word_unat_eq_iff unat_div div_eq_0_iff)
  have "unat (t mod 10) = unat t mod 10" by (simp add: unat_mod)
  moreover have "(ucast (t mod 10) :: u8) = of_nat (unat (t mod 10))" by (rule of_nat_unat [symmetric])
  ultimately have m: "(ucast (t mod 10) :: u8) = of_nat (unat t mod 10)" by simp
  have "bytes_of_string [digit_char (unat t mod 10)] = [48 + ucast (t mod 10)]"
    unfolding m by (simp add: bytes_of_string_def digit_byte)
  with 1 z show ?case
    by (subst digits_rev.simps, subst dec_digits.simps) (auto simp: unat_div)
qed

lemma magnitude:
  "x <s 0 \<Longrightarrow> unat (- (x + 1) + 1 :: i64) = nat (- sint x)" "\<not> x <s 0 \<Longrightarrow> unat x = nat (sint (x :: i64))"
proof -
  show "unat x = nat (sint x)" if "\<not> x <s 0"
    using that sint_nonneg [of x] by (simp add: word_sless_alt)
  assume "x <s 0"
  then have n: "sint x < 0" by (simp add: word_sless_alt)
  have "- (x + 1) + 1 = - x" by simp
  moreover have "uint (- x) = - sint x"
  proof -
    have "uint (- x) = uint (word_of_int (- sint x) :: i64)" by simp
    also have "\<dots> = take_bit 64 (- sint x)" unfolding uint_word_of_int_eq by simp
    also have "\<dots> = - sint x" using n i64_range [of x] by (intro take_bit_int_eq_self) auto
    finally show ?thesis .
  qed
  ultimately show "unat (- (x + 1) + 1) = nat (- sint x)" by (simp add: unat_eq_nat_uint)
qed

section \<open>Properties\<close>

text \<open>
  Integer to text is plain signed decimal, for all 2^64 values. \<open>lin_str_of_i64\<close> writes a
  minus sign exactly for the negative ones and then the decimal digits of the magnitude,
  \<open>INT64_MIN\<close> included, and reports \<open>SIZE_MAX\<close> exactly when that text does not fit.
\<close>
theorem str_of_i64_is_decimal:
  "lin_str_of_i64 x cap =
    (let text = (if sint x < 0 then ''-'' else []) @ dec_digits (nat \<bar>sint x\<bar>) in
     if cap < length text then None else Some (bytes_of_string text))"
proof -
  have l: "length (digits_rev t) = length (dec_digits (unat t))" for t
    using digits_rev_dec [of t] by (metis length_bytes_of_string length_rev)
  show ?thesis
  proof (cases "x <s 0")
    case True
    then have "sint x < 0" by (simp add: word_sless_alt)
    with True magnitude(1) [OF True] show ?thesis
      by (simp add: lin_str_of_i64_def Let_def digits_rev_dec l bytes_of_string_def)
  next
    case False
    then have "\<not> sint x < 0" by (simp add: word_sless_alt)
    with False magnitude(2) [OF False] show ?thesis
      by (simp add: lin_str_of_i64_def Let_def digits_rev_dec l)
  qed
qed

text \<open>
  Matching is exact. \<open>lin_str_starts_lit\<close> answers 1 exactly when the literal is the text
  at that position (and, at a negative one, only for the empty literal), and
  \<open>lin_str_count_lit\<close> counts exactly the positions, overlaps included, where it does.
\<close>
theorem str_search_exact:
  assumes "length hay < 2 ^ 63"
  shows "lin_str_starts_lit hay i needle =
      (if (if i <s 0 then needle = [] else needle = take (length needle) (drop (unat i) hay)) then 1 else 0) \<and>
    lin_str_count_lit hay needle = of_nat (card {i. i < length hay \<and> needle = take (length needle) (drop i hay)})"
proof
  show "lin_str_starts_lit hay i needle =
      (if (if i <s 0 then needle = [] else needle = take (length needle) (drop (unat i) hay)) then 1 else 0)"
    by (simp add: lin_str_starts_lit_def starts_from_prefix)
  let ?P = "\<lambda>i. needle = take (length needle) (drop i hay)"
  have "\<forall>i \<in> set [0..<length hay]. i < 2 ^ 63" using assms less_trans by fastforce
  then have "lin_str_count_lit hay needle = of_nat (length (filter ?P [0..<length hay]))"
    by (simp add: lin_str_count_lit_def count_from_filter)
  also have "length (filter ?P [0..<length hay]) = card {i. i < length hay \<and> ?P i}"
    using distinct_card [of "filter ?P [0..<length hay]"] by (simp add: atLeast0LessThan)
  finally show "lin_str_count_lit hay needle = of_nat (card {i. i < length hay \<and> ?P i})" .
qed

theorem str_search_exact_witness:
  "lin_str_starts_lit (bytes_of_string ''abab'') 2 (bytes_of_string ''ab'') = 1"
proof -
  have "bytes_of_string ''ab'' = take (length (bytes_of_string ''ab'')) (drop (unat (2 :: i64)) (bytes_of_string ''abab''))"
    "\<not> (2 :: i64) <s 0"
    by code_simp+
  with str_search_exact [of "bytes_of_string ''abab''" 2 "bytes_of_string ''ab''"] show ?thesis by simp
qed

text \<open>The two strings fit exactly when the guards, which never form the sum, let them.\<close>

lemma str_cat_exact:
  "lin_str_cat sa sb cap = (if length sa + length sb \<le> cap then Some (sa @ sb) else None)"
  by (auto simp: lin_str_cat_def)

end
