(* ===== verification/Lin_Codec.thy ===== *)
theory Lin_Codec
  imports Lin_Common
begin

text \<open>
  The fixed-width little-endian fields of the LINBC1 image: the bounded cursor
  \<open>Cur\<close> with its \<open>rd_*\<close> readers (\<open>transpile/c/lin_c/lin_linbc1.c\<close>) and the
  growing output buffer \<open>C0Out\<close> with its \<open>c0_put_*\<close> writers
  (\<open>transpile/c/tool/lin_c0_front.c\<close>).

  The locale \<open>fixed_field\<close> is the contract between a reader and a writer of one field; it
  is interpreted on the four pairs of the image format, and the loader and the encoder are
  related through its lemmas only. The little-endian words underneath also serve the store.
\<close>

section \<open>Little-endian words\<close>

text \<open>The bytes of a word, least significant first, as a writer loop emits them.\<close>

definition le_bytes :: "nat \<Rightarrow> 'a::len word \<Rightarrow> bytes" where
  "le_bytes n v = map (\<lambda>i. ucast (drop_bit (8 * i) v AND 0xff)) [0..<n]"

text \<open>\<open>for (k = 0; k < n; k++) r |= p[at + k] << (8 * k)\<close>.\<close>

definition le_value :: "nat \<Rightarrow> bytes \<Rightarrow> 'a::len word" where
  "le_value n bs = foldl (\<lambda>r k. r OR push_bit (8 * k) (ucast (bs ! k))) 0 [0..<n]"

lemma length_le_bytes [simp]: "length (le_bytes n v) = n"
  by (simp add: le_bytes_def)

lemma bit_le_value:
  "bit (le_value n bs :: 'a::len word) i \<longleftrightarrow> i < LENGTH('a) \<and> i div 8 < n \<and> bit (bs ! (i div 8)) (i mod 8)"
proof (induction n)
  case (Suc n)
  have b: "bit (push_bit (8 * n) (ucast (bs ! n)) :: 'a word) i \<longleftrightarrow> i < LENGTH('a) \<and> i div 8 = n \<and> bit (bs ! n) (i mod 8)"
  proof (cases "i div 8 = n")
    case True
    then have "8 * n \<le> i" "i - 8 * n = i mod 8" by (auto simp: minus_mult_div_eq_mod)
    with True show ?thesis by (auto simp: bit_push_bit_iff bit_ucast_iff)
  next
    case False
    then have "i < 8 * n \<or> 8 \<le> i - 8 * n" by linarith
    with False show ?thesis by (auto simp: bit_push_bit_iff bit_ucast_iff dest: bit_imp_le_length)
  qed
  show ?case using Suc b by (auto simp: le_value_def bit_or_iff less_Suc_eq)
qed (simp add: le_value_def)

lemma bit_byte_mask: "bit (0xff :: 'a::len word) i \<longleftrightarrow> i < 8 \<and> i < LENGTH('a)"
proof -
  have "(0xff :: 'a word) = mask 8" by (simp add: mask_eq_exp_minus_1)
  then show ?thesis by (simp only: bit_mask_iff possible_bit_word) auto
qed

lemma bit_le_bytes:
  assumes "i < n"
  shows "bit (le_bytes n (v :: 'a::len word) ! i) j \<longleftrightarrow> j < 8 \<and> 8 * i + j < LENGTH('a) \<and> bit v (8 * i + j)"
proof -
  have "le_bytes n v ! i = ucast (drop_bit (8 * i) v AND 0xff)" using assms by (simp add: le_bytes_def)
  then show ?thesis
    unfolding bit_ucast_iff bit_and_iff bit_byte_mask bit_drop_bit_eq comp_def
    by (auto simp: bit_ucast_iff bit_and_iff bit_drop_bit_eq bit_byte_mask simp del: bit_numeral_word_iff dest: bit_imp_le_length)
qed

lemma le_value_bytes [codec_simps]:
  assumes "LENGTH('a) = 8 * n"
  shows "le_value n (le_bytes n v @ bs) = (v :: 'a::len word)"
proof (rule bit_word_eqI)
  fix i assume "i < LENGTH('a)"
  with assms show "bit (le_value n (le_bytes n v @ bs) :: 'a word) i \<longleftrightarrow> bit v i"
    by (auto simp: bit_le_value nth_append bit_le_bytes)
qed

lemma le_bytes_value [codec_simps]:
  assumes "LENGTH('a) = 8 * n" "n \<le> length bs"
  shows "le_bytes n (le_value n bs :: 'a::len word) = take n bs"
proof (rule nth_equalityI)
  fix i assume i: "i < length (le_bytes n (le_value n bs :: 'a word))"
  show "le_bytes n (le_value n bs :: 'a word) ! i = take n bs ! i"
  proof (rule bit_word_eqI)
    fix j assume "j < LENGTH(8)"
    with i assms show "bit (le_bytes n (le_value n bs :: 'a word) ! i) j \<longleftrightarrow> bit (take n bs ! i) j"
      by (auto simp: bit_le_bytes bit_le_value)
  qed
qed (use assms in simp)

section \<open>The bounded cursor of the loader\<close>

record Cur =
  cur_p :: bytes
  cur_len :: nat
  cur_at :: nat

definition rd_u8 :: "Cur \<Rightarrow> (u32 \<times> Cur) option" where
  "rd_u8 c = (if cur_at c + 1 > cur_len c then None
     else Some (ucast (cur_p c ! cur_at c), c\<lparr>cur_at := cur_at c + 1\<rparr>))"

definition rd_u16 :: "Cur \<Rightarrow> (u32 \<times> Cur) option" where
  "rd_u16 c = (if cur_at c + 2 > cur_len c then None
     else Some (ucast (cur_p c ! cur_at c) OR push_bit 8 (ucast (cur_p c ! (cur_at c + 1))),
                c\<lparr>cur_at := cur_at c + 2\<rparr>))"

definition rd_u32 :: "Cur \<Rightarrow> (u32 \<times> Cur) option" where
  "rd_u32 c = (if cur_at c + 4 > cur_len c then None
     else Some (ucast (cur_p c ! cur_at c) OR push_bit 8 (ucast (cur_p c ! (cur_at c + 1)))
                OR push_bit 16 (ucast (cur_p c ! (cur_at c + 2))) OR push_bit 24 (ucast (cur_p c ! (cur_at c + 3))),
                c\<lparr>cur_at := cur_at c + 4\<rparr>))"

definition rd_i64 :: "Cur \<Rightarrow> (i64 \<times> Cur) option" where
  "rd_i64 c = (if cur_at c + 8 > cur_len c then None
     else Some (foldl (\<lambda>r k. r OR push_bit (8 * k) (ucast (cur_p c ! (cur_at c + k)))) 0 [0..<8],
                c\<lparr>cur_at := cur_at c + 8\<rparr>))"

text \<open>\<open>ahead c bs\<close>: what the cursor has still to read is \<open>bs\<close>.\<close>

definition ahead :: "Cur \<Rightarrow> bytes \<Rightarrow> bool" where
  "ahead c bs = (cur_len c \<le> length (cur_p c) \<and> cur_at c + length bs = cur_len c \<and>
     drop (cur_at c) (take (cur_len c) (cur_p c)) = bs)"

definition skip :: "nat \<Rightarrow> Cur \<Rightarrow> Cur" where
  "skip n c = c\<lparr>cur_at := cur_at c + n\<rparr>"

lemma skip_sel [simp]:
  "cur_p (skip n c) = cur_p c" "cur_len (skip n c) = cur_len c" "cur_at (skip n c) = cur_at c + n"
  by (simp_all add: skip_def)

lemma ahead_skip: "ahead c (bs @ cs) \<Longrightarrow> length bs = n \<Longrightarrow> ahead (skip n c) cs"
  unfolding ahead_def by (simp add: add.commute [of _ n] flip: drop_drop)

lemma ahead_nth: "ahead c bs \<Longrightarrow> k < length bs \<Longrightarrow> cur_p c ! (cur_at c + k) = bs ! k"
proof -
  assume a: "ahead c bs" and k: "k < length bs"
  then have "bs ! k = drop (cur_at c) (take (cur_len c) (cur_p c)) ! k" by (simp add: ahead_def)
  also have "\<dots> = cur_p c ! (cur_at c + k)" using a k unfolding ahead_def by (subst nth_drop) auto
  finally show ?thesis by simp
qed

lemma ahead_le: "ahead c bs \<Longrightarrow> n \<le> length bs \<longleftrightarrow> cur_at c + n \<le> cur_len c"
  by (auto simp: ahead_def)

lemma ahead_prefix: "ahead c (bs @ cs) \<Longrightarrow> take (length bs) (drop (cur_at c) (cur_p c)) = bs"
proof -
  assume a: "ahead c (bs @ cs)"
  then have "take (length bs) (drop (cur_at c) (take (cur_len c) (cur_p c))) = bs" by (simp add: ahead_def)
  moreover from a have "length bs \<le> cur_len c - cur_at c" by (auto simp: ahead_def)
  ultimately show ?thesis by (simp add: drop_take min_def)
qed

text \<open>\<open>consumed c c' rest\<close>: a reader moved from \<open>c\<close> to \<open>c'\<close>, and \<open>rest\<close> is still ahead.\<close>

definition consumed :: "Cur \<Rightarrow> Cur \<Rightarrow> bytes \<Rightarrow> bool" where
  "consumed c c' rest = (ahead c' rest \<and> cur_p c' = cur_p c \<and> cur_len c' = cur_len c)"

lemma consumed_skip: "ahead c (bs @ rest) \<Longrightarrow> length bs = n \<Longrightarrow> consumed c (skip n c) rest"
  by (simp add: consumed_def ahead_skip)

lemma consumed_trans: "consumed c c' r \<Longrightarrow> consumed c' c'' s \<Longrightarrow> consumed c c'' s"
  by (simp add: consumed_def)

lemma consumed_ahead: "consumed c c' r \<Longrightarrow> ahead c' r"
  by (simp add: consumed_def)

lemma unat_ucast_u32 [simp]:
  "unat (ucast (x :: u8) :: u32) = unat x" "unat (ucast (y :: u16) :: u32) = unat y"
proof -
  have "unat x < 2 ^ 32" by (rule less_trans [OF unsigned_less [of x]]) simp
  then show "unat (ucast x :: u32) = unat x" by (simp add: unsigned_ucast_eq take_bit_nat_eq_self)
  have "unat y < 2 ^ 32" by (rule less_trans [OF unsigned_less [of y]]) simp
  then show "unat (ucast y :: u32) = unat y" by (simp add: unsigned_ucast_eq take_bit_nat_eq_self)
qed

section \<open>The growing output buffer of the encoder\<close>

text \<open>
  \<open>mem n\<close> says whether \<open>realloc\<close> to \<open>n\<close> bytes succeeds. The length of the buffer is
  the length of the list.
\<close>

record C0Out =
  out_p :: bytes
  out_cap :: nat

function grow_cap :: "nat \<Rightarrow> nat \<Rightarrow> nat" where
  "grow_cap nc need = (if nc = 0 \<or> need \<le> nc then nc else grow_cap (nc * 2) need)"
  by pat_completeness auto
termination by (relation "measure (\<lambda>(nc, need). need - nc)") auto

declare grow_cap.simps [simp del]

definition c0_out_need :: "(nat \<Rightarrow> bool) \<Rightarrow> C0Out \<Rightarrow> nat \<Rightarrow> C0Out option" where
  "c0_out_need mem o1 extra =
     (if length (out_p o1) + extra \<le> out_cap o1 then Some o1
      else let nc = grow_cap (if out_cap o1 \<noteq> 0 then out_cap o1 else 256) (length (out_p o1) + extra) in
           if mem nc then Some (o1\<lparr>out_cap := nc\<rparr>) else None)"

definition out_append :: "bytes \<Rightarrow> C0Out \<Rightarrow> C0Out" where
  "out_append bs o1 = o1\<lparr>out_p := out_p o1 @ bs\<rparr>"

definition c0_put_u8 :: "(nat \<Rightarrow> bool) \<Rightarrow> C0Out \<Rightarrow> u8 \<Rightarrow> C0Out option" where
  "c0_put_u8 mem o1 v = map_option (out_append [v]) (c0_out_need mem o1 1)"

definition c0_put_u16 :: "(nat \<Rightarrow> bool) \<Rightarrow> C0Out \<Rightarrow> u16 \<Rightarrow> C0Out option" where
  "c0_put_u16 mem o1 v =
     map_option (out_append [ucast (v AND 0xff), ucast (drop_bit 8 v AND 0xff)]) (c0_out_need mem o1 2)"

definition c0_put_u32 :: "(nat \<Rightarrow> bool) \<Rightarrow> C0Out \<Rightarrow> u32 \<Rightarrow> C0Out option" where
  "c0_put_u32 mem o1 v =
     map_option (out_append (map (\<lambda>i. ucast (drop_bit (8 * i) v AND 0xff)) [0..<4])) (c0_out_need mem o1 4)"

definition c0_put_i64 :: "(nat \<Rightarrow> bool) \<Rightarrow> C0Out \<Rightarrow> i64 \<Rightarrow> C0Out option" where
  "c0_put_i64 mem o1 v =
     map_option (out_append (map (\<lambda>i. ucast (drop_bit (8 * i) v AND 0xff)) [0..<8])) (c0_out_need mem o1 8)"

definition c0_put_bytes :: "(nat \<Rightarrow> bool) \<Rightarrow> C0Out \<Rightarrow> bytes \<Rightarrow> C0Out option" where
  "c0_put_bytes mem o1 b = map_option (out_append b) (c0_out_need mem o1 (length b))"

text \<open>The buffer never overruns: what a writer appends fits the capacity it asked for.\<close>

lemma grow_cap_enough: "0 < nc \<Longrightarrow> need \<le> grow_cap nc need"
  by (induction nc need rule: grow_cap.induct) (subst grow_cap.simps, auto)

lemma c0_out_need_room:
  "c0_out_need mem o1 n = Some o2 \<Longrightarrow> out_p o2 = out_p o1 \<and> length (out_p o1) + n \<le> out_cap o2"
  by (auto simp: c0_out_need_def Let_def intro!: grow_cap_enough split: if_splits)

lemma put_room:
  assumes "map_option (out_append bs) (c0_out_need mem o1 n) = Some o2" "length bs = n"
  shows "out_p o2 = out_p o1 @ bs \<and> length (out_p o2) \<le> out_cap o2"
proof -
  from assms(1) obtain o3 where "c0_out_need mem o1 n = Some o3" "o2 = out_append bs o3" by auto
  with c0_out_need_room [OF this(1)] assms(2) show ?thesis by (simp add: out_append_def)
qed

lemma put_with_memory:
  assumes "\<And>k. mem k"
  shows "\<exists>o2. map_option (out_append bs) (c0_out_need mem o1 n) = Some o2"
  using assms by (simp add: c0_out_need_def Let_def)

section \<open>The contract of one field\<close>

text \<open>
  \<open>enc\<close> is the byte string of a value. The reader consumes exactly \<open>n\<close> bytes, never looks
  past the bound, and inverts \<open>enc\<close>; the writer appends \<open>enc v\<close> within the capacity or
  fails, and fails only for lack of memory.
\<close>

locale fixed_field =
  fixes get :: "Cur \<Rightarrow> ('w \<times> Cur) option"
    and put :: "(nat \<Rightarrow> bool) \<Rightarrow> C0Out \<Rightarrow> 'v \<Rightarrow> C0Out option"
    and enc :: "'v \<Rightarrow> bytes"
    and wide :: "'v \<Rightarrow> 'w"
    and n :: nat
  assumes get_short: "cur_len c < cur_at c + n \<Longrightarrow> get c = None"
    and get_enc: "ahead c (enc v @ bs) \<Longrightarrow> get c = Some (wide v, skip n c)"
    and enc_length: "length (enc v) = n"
    and enc_surj: "length bs = n \<Longrightarrow> \<exists>v. enc v = bs"
    and put_enc: "put mem o1 v = Some o2 \<Longrightarrow> out_p o2 = out_p o1 @ enc v \<and> length (out_p o2) \<le> out_cap o2"
    and put_mem: "(\<And>k. mem k) \<Longrightarrow> \<exists>o2. put mem o1 v = Some o2"
begin

lemma reads_back: "ahead c (enc v @ bs) \<Longrightarrow> get c = Some (wide v, skip n c) \<and> ahead (skip n c) bs"
  using get_enc ahead_skip enc_length by blast

lemma reads: "ahead c (enc v @ rest) \<Longrightarrow> \<exists>c'. get c = Some (wide v, c') \<and> consumed c c' rest"
  using reads_back consumed_skip enc_length by blast

lemma get_some:
  assumes "ahead c bs" "get c = Some (w, c')"
  obtains v cs where "bs = enc v @ cs" "w = wide v" "c' = skip n c" "ahead c' cs"
proof -
  have "\<not> cur_len c < cur_at c + n" using assms(2) get_short by force
  then have "n \<le> length bs" using ahead_le [OF assms(1)] by simp
  then obtain v where v: "enc v = take n bs" using enc_surj [of "take n bs"] by auto
  then have bs: "bs = enc v @ drop n bs" by simp
  then have "get c = Some (wide v, skip n c) \<and> ahead (skip n c) (drop n bs)"
    using assms(1) reads_back by metis
  with bs assms(2) that show ?thesis by auto
qed

end

lemma foldl_ahead:
  assumes "ahead c bs" "n \<le> length bs"
  shows "foldl (\<lambda>r k. r OR push_bit (8 * k) (ucast (cur_p c ! (cur_at c + k)))) 0 [0..<n]
    = (le_value n bs :: 'a::len word)"
  unfolding le_value_def
  by (rule foldl_cong) (use ahead_nth [OF assms(1)] assms(2) in auto)

lemma le_value_alt:
  "le_value 2 bs = (ucast (bs ! 0) OR push_bit 8 (ucast (bs ! 1)) :: 'a::len word)"
  "le_value 4 bs = (ucast (bs ! 0) OR push_bit 8 (ucast (bs ! 1)) OR push_bit 16 (ucast (bs ! 2))
     OR push_bit 24 (ucast (bs ! 3)) :: 'a::len word)"
  by (simp_all add: le_value_def upt_rec numeral_2_eq_2 numeral_3_eq_3 or.assoc)

lemma le_bytes_alt:
  "le_bytes 2 v = [ucast (v AND 0xff), ucast (drop_bit 8 v AND 0xff)]"
  by (simp add: le_bytes_def upt_rec)

lemma le_value_wide:
  "LENGTH('a) = 8 * n \<Longrightarrow> LENGTH('a) \<le> LENGTH('b) \<Longrightarrow>
   (le_value n bs :: 'b::len word) = ucast (le_value n bs :: 'a::len word)"
  by (rule bit_word_eqI) (auto simp: bit_le_value bit_ucast_iff)

lemma le_surj: "LENGTH('a) = 8 * n \<Longrightarrow> length bs = n \<Longrightarrow> \<exists>v :: 'a::len word. le_bytes n v = bs"
  using le_bytes_value [where 'a = 'a, of n bs] by (intro exI [of _ "le_value n bs"]) simp

lemma rd_u8_ahead: "ahead c (v # bs) \<Longrightarrow> rd_u8 c = Some (ucast v, skip 1 c)"
proof -
  assume a: "ahead c (v # bs)"
  then have "cur_at c + 1 \<le> cur_len c" by (simp add: ahead_def)
  with ahead_nth [OF a, of 0] show ?thesis by (simp add: rd_u8_def skip_def)
qed

lemma rd_u16_ahead: "ahead c (le_bytes 2 (v :: u16) @ bs) \<Longrightarrow> rd_u16 c = Some (ucast v, skip 2 c)"
proof -
  assume a: "ahead c (le_bytes 2 v @ bs)"
  then have "cur_at c + 2 \<le> cur_len c" by (simp add: ahead_def)
  moreover have "ucast (cur_p c ! cur_at c) OR push_bit 8 (ucast (cur_p c ! (cur_at c + 1))) = (ucast v :: u32)"
    using ahead_nth [OF a, of 0] ahead_nth [OF a, of 1] le_value_bytes [of 2 v bs]
      le_value_wide [of 2 "le_bytes 2 v @ bs", where 'a = 16 and 'b = 32]
    unfolding le_value_alt(1) by simp
  ultimately show ?thesis by (simp add: rd_u16_def skip_def)
qed

lemma rd_u32_ahead: "ahead c (le_bytes 4 (v :: u32) @ bs) \<Longrightarrow> rd_u32 c = Some (v, skip 4 c)"
proof -
  assume a: "ahead c (le_bytes 4 v @ bs)"
  then have "cur_at c + 4 \<le> cur_len c" by (simp add: ahead_def)
  moreover have "ucast (cur_p c ! cur_at c) OR push_bit 8 (ucast (cur_p c ! (cur_at c + 1)))
      OR push_bit 16 (ucast (cur_p c ! (cur_at c + 2))) OR push_bit 24 (ucast (cur_p c ! (cur_at c + 3))) = v"
    using ahead_nth [OF a, of 0] ahead_nth [OF a, of 1] ahead_nth [OF a, of 2] ahead_nth [OF a, of 3]
      le_value_bytes [of 4 v bs] unfolding le_value_alt(2) by simp
  ultimately show ?thesis by (simp add: rd_u32_def skip_def)
qed

lemma rd_i64_ahead: "ahead c (le_bytes 8 (v :: i64) @ bs) \<Longrightarrow> rd_i64 c = Some (v, skip 8 c)"
proof -
  assume a: "ahead c (le_bytes 8 v @ bs)"
  then have "cur_at c + 8 \<le> cur_len c" by (simp add: ahead_def)
  with foldl_ahead [OF a, of 8, where 'a = 64] show ?thesis
    by (simp add: rd_i64_def skip_def codec_simps)
qed

interpretation fu8: fixed_field rd_u8 c0_put_u8 "\<lambda>v. [v]" ucast 1
proof
  fix mem o1 v o2 assume "c0_put_u8 mem o1 v = Some o2"
  then show "out_p o2 = out_p o1 @ [v] \<and> length (out_p o2) \<le> out_cap o2"
    unfolding c0_put_u8_def by (rule put_room) simp
next
  fix c v bs assume "ahead c ([v] @ bs)"
  then show "rd_u8 c = Some (ucast v, skip 1 c)" by (simp add: rd_u8_ahead)
qed (auto simp: rd_u8_def length_Suc_conv c0_put_u8_def put_with_memory simp del: map_option_eq_Some)

interpretation fu16: fixed_field rd_u16 c0_put_u16 "le_bytes 2" ucast 2
proof
  fix mem o1 v o2 assume "c0_put_u16 mem o1 v = Some o2"
  then show "out_p o2 = out_p o1 @ le_bytes 2 v \<and> length (out_p o2) \<le> out_cap o2"
    unfolding c0_put_u16_def le_bytes_alt by (rule put_room) simp
next
  fix c bs and v :: u16 assume "ahead c (le_bytes 2 v @ bs)"
  then show "rd_u16 c = Some (ucast v, skip 2 c)" by (rule rd_u16_ahead)
qed (auto simp: rd_u16_def le_surj c0_put_u16_def put_with_memory
       simp del: map_option_eq_Some)

interpretation fu32: fixed_field rd_u32 c0_put_u32 "le_bytes 4" "\<lambda>v. v" 4
proof
  fix mem o1 v o2 assume "c0_put_u32 mem o1 v = Some o2"
  then show "out_p o2 = out_p o1 @ le_bytes 4 v \<and> length (out_p o2) \<le> out_cap o2"
    unfolding c0_put_u32_def le_bytes_def by (rule put_room) simp
next
  fix c bs and v :: u32 assume "ahead c (le_bytes 4 v @ bs)"
  then show "rd_u32 c = Some (v, skip 4 c)" by (rule rd_u32_ahead)
qed (auto simp: rd_u32_def le_surj c0_put_u32_def put_with_memory
       simp del: map_option_eq_Some)

interpretation fi64: fixed_field rd_i64 c0_put_i64 "le_bytes 8" "\<lambda>v. v" 8
proof
  fix mem o1 v o2 assume "c0_put_i64 mem o1 v = Some o2"
  then show "out_p o2 = out_p o1 @ le_bytes 8 v \<and> length (out_p o2) \<le> out_cap o2"
    unfolding c0_put_i64_def le_bytes_def by (rule put_room) simp
next
  fix c bs and v :: i64 assume "ahead c (le_bytes 8 v @ bs)"
  then show "rd_i64 c = Some (v, skip 8 c)" by (rule rd_i64_ahead)
qed (auto simp: rd_i64_def le_surj c0_put_i64_def put_with_memory
       simp del: map_option_eq_Some)

lemma put_bytes_enc:
  "c0_put_bytes mem o1 b = Some o2 \<Longrightarrow> out_p o2 = out_p o1 @ b \<and> length (out_p o2) \<le> out_cap o2"
  unfolding c0_put_bytes_def by (rule put_room [OF _ refl])

end
