(* ===== verification/Lin_Sha256.thy ===== *)
theory Lin_Sha256
  imports Lin_Common
begin

text \<open>
  \<open>transpile/c/lin_c/lin_sha256.h\<close> and \<open>lin_sha256.c\<close>: the streaming SHA-256 every
  hash chain of the repository is built on. The context is the C struct; \<open>lin_sha256_init\<close>
  leaves the block buffer as it was, so the model starts from an arbitrary context.

  The reference is the textbook definition: pad the whole message, cut it into 64-byte blocks,
  fold the compression function. \<open>streaming_hash\<close> is the interface the loader, the
  encoder, the receipts and the store use.
\<close>

section \<open>The compression function\<close>

text \<open>The round constants of the C table, in decimal.\<close>

definition K :: "u32 list" where
  "K = [
    1116352408, 1899447441, 3049323471, 3921009573, 961987163, 1508970993, 2453635748,
    2870763221, 3624381080, 310598401, 607225278, 1426881987, 1925078388, 2162078206,
    2614888103, 3248222580, 3835390401, 4022224774, 264347078, 604807628, 770255983,
    1249150122, 1555081692, 1996064986, 2554220882, 2821834349, 2952996808, 3210313671,
    3336571891, 3584528711, 113926993, 338241895, 666307205, 773529912, 1294757372,
    1396182291, 1695183700, 1986661051, 2177026350, 2456956037, 2730485921, 2820302411,
    3259730800, 3345764771, 3516065817, 3600352804, 4094571909, 275423344, 430227734,
    506948616, 659060556, 883997877, 958139571, 1322822218, 1537002063, 1747873779,
    1955562222, 2024104815, 2227730452, 2361852424, 2428436474, 2756734187, 3204031479,
    3329325298]"

record LinSha256 =
  sha_state :: "u32 list"
  bitlen :: u64
  buf :: bytes
  buf_len :: nat

definition ROR :: "u32 \<Rightarrow> nat \<Rightarrow> u32" where
  "ROR x n = drop_bit n x OR push_bit (32 - n) x"

definition be_word :: "bytes \<Rightarrow> nat \<Rightarrow> u32" where
  "be_word block i = push_bit 24 (ucast (block ! (i * 4))) OR push_bit 16 (ucast (block ! (i * 4 + 1)))
     OR push_bit 8 (ucast (block ! (i * 4 + 2))) OR ucast (block ! (i * 4 + 3))"

text \<open>The message schedule: 16 words of the block, then 48 derived ones.\<close>

definition schedule_next :: "u32 list \<Rightarrow> u32" where
  "schedule_next w =
     (let i = length w;
          s0 = ROR (w ! (i - 15)) 7 XOR ROR (w ! (i - 15)) 18 XOR drop_bit 3 (w ! (i - 15));
          s1 = ROR (w ! (i - 2)) 17 XOR ROR (w ! (i - 2)) 19 XOR drop_bit 10 (w ! (i - 2)) in
      w ! (i - 16) + s0 + w ! (i - 7) + s1)"

fun schedule_extend :: "nat \<Rightarrow> u32 list \<Rightarrow> u32 list" where
  "schedule_extend 0 w = w"
| "schedule_extend (Suc n) w = schedule_extend n (w @ [schedule_next w])"

definition schedule :: "bytes \<Rightarrow> u32 list" where
  "schedule block = schedule_extend 48 (map (be_word block) [0..<16])"

text \<open>One of the 64 rounds on the working variables \<open>a\<close> .. \<open>h\<close>.\<close>

fun sha_round :: "u32 list \<Rightarrow> u32 \<times> u32 \<Rightarrow> u32 list" where
  "sha_round [a, b, c, d, e, f, g, h] (k, w) =
     (let S1 = ROR e 6 XOR ROR e 11 XOR ROR e 25;
          ch = (e AND f) XOR (NOT e AND g);
          t1 = h + S1 + ch + k + w;
          S0 = ROR a 2 XOR ROR a 13 XOR ROR a 22;
          maj = (a AND b) XOR (a AND c) XOR (b AND c);
          t2 = S0 + maj in
      [t1 + t2, a, b, c, d + t1, e, f, g])"
| "sha_round st kw = st"

definition compress :: "u32 list \<Rightarrow> bytes \<Rightarrow> u32 list" where
  "compress st block = map2 (+) st (foldl sha_round st (zip K (schedule block)))"

definition lin_sha256_transform :: "LinSha256 \<Rightarrow> bytes \<Rightarrow> LinSha256" where
  "lin_sha256_transform ctx block = ctx\<lparr>sha_state := compress (sha_state ctx) block\<rparr>"

section \<open>The streaming interface\<close>

definition sha_iv :: "u32 list" where
  "sha_iv = [1779033703, 3144134277, 1013904242, 2773480762, 1359893119, 2600822924, 528734635, 1541459225]"

definition lin_sha256_init :: "LinSha256 \<Rightarrow> LinSha256" where
  "lin_sha256_init ctx = ctx\<lparr>sha_state := sha_iv, bitlen := 0, buf_len := 0\<rparr>"

text \<open>\<open>memcpy(ctx->buf + ctx->buf_len, p, take)\<close>.\<close>

definition buf_put :: "bytes \<Rightarrow> LinSha256 \<Rightarrow> LinSha256" where
  "buf_put bs ctx = ctx\<lparr>buf := take (buf_len ctx) (buf ctx) @ bs @ drop (buf_len ctx + length bs) (buf ctx),
                        buf_len := buf_len ctx + length bs\<rparr>"

text \<open>
  The copy loop. \<open>buf_len\<close> stays below 64 between rounds; at 64 the C loop would copy nothing
  for ever, which the guard rules out of the recursion.
\<close>

function update_loop :: "LinSha256 \<Rightarrow> bytes \<Rightarrow> LinSha256" where
  "update_loop ctx p =
     (if p = [] \<or> 64 \<le> buf_len ctx then ctx
      else let n = (if 64 - buf_len ctx < length p then 64 - buf_len ctx else length p);
               ctx1 = buf_put (take n p) ctx;
               ctx2 = (if buf_len ctx1 = 64 then (lin_sha256_transform ctx1 (buf ctx1))\<lparr>buf_len := 0\<rparr> else ctx1) in
           update_loop ctx2 (drop n p))"
  by pat_completeness auto
termination by (relation "measure (\<lambda>(ctx, p). length p)") auto

declare update_loop.simps [simp del]

definition lin_sha256_update :: "LinSha256 \<Rightarrow> bytes \<Rightarrow> LinSha256" where
  "lin_sha256_update ctx data = update_loop (ctx\<lparr>bitlen := bitlen ctx + of_nat (length data) * 8\<rparr>) data"

definition be_bytes64 :: "u64 \<Rightarrow> bytes" where
  "be_bytes64 x = map (\<lambda>i. ucast (drop_bit (56 - 8 * i) x)) [0..<8]"

definition be_bytes32 :: "u32 \<Rightarrow> bytes" where
  "be_bytes32 x = [ucast (drop_bit 24 x), ucast (drop_bit 16 x), ucast (drop_bit 8 x), ucast x]"

definition lin_sha256_final :: "LinSha256 \<Rightarrow> bytes" where
  "lin_sha256_final ctx =
     (let n = bitlen ctx;
          c1 = buf_put [0x80] ctx;
          c2 = (if 56 < buf_len c1
                then (let c = buf_put (replicate (64 - buf_len c1) 0) c1
                      in (lin_sha256_transform c (buf c))\<lparr>buf_len := 0\<rparr>) else c1);
          c3 = buf_put (replicate (56 - buf_len c2) 0) c2;
          c4 = lin_sha256_transform c3 (take 56 (buf c3) @ be_bytes64 n) in
      concat (map be_bytes32 (sha_state c4)))"

text \<open>The uninitialised context of the one-shot helper.\<close>

definition raw_ctx :: LinSha256 where
  "raw_ctx = \<lparr>sha_state = [], bitlen = 0, buf = replicate 64 0, buf_len = 0\<rparr>"

definition lin_sha256 :: "bytes \<Rightarrow> bytes" where
  "lin_sha256 data = lin_sha256_final (lin_sha256_update (lin_sha256_init raw_ctx) data)"

definition hexd :: string where "hexd = ''0123456789abcdef''"

definition lin_sha256_hex :: "bytes \<Rightarrow> string" where
  "lin_sha256_hex digest =
     concat (map (\<lambda>b. [hexd ! unat (drop_bit 4 b), hexd ! unat (b AND 0x0f)]) digest)"

lemma low_nibble: "(b :: u8) AND 0x0f = take_bit 4 b"
  by (simp add: take_bit_eq_mask mask_eq_decr_exp)

lemma nibbles: "unat (drop_bit 4 (b :: u8)) < 16" "unat (take_bit 4 (b :: u8)) < 16"
proof -
  have "unat b < 256" using unsigned_less [of b, where 'a = nat] by simp
  then show "unat (drop_bit 4 b) < 16" unfolding unat_drop_bit_eq by (simp add: drop_bit_eq_div)
  show "unat (take_bit 4 b) < 16" unfolding unsigned_take_bit_eq by (simp add: take_bit_eq_mod)
qed

section \<open>The reference\<close>

text \<open>Absorbing bytes block by block; the bytes of an unfinished block are left over.\<close>

function absorb :: "u32 list \<Rightarrow> bytes \<Rightarrow> u32 list \<times> bytes" where
  "absorb st bs = (if length bs < 64 then (st, bs) else absorb (compress st (take 64 bs)) (drop 64 bs))"
  by pat_completeness auto
termination by (relation "measure (\<lambda>(st, bs). length bs)") auto

declare absorb.simps [simp del]

definition sha_pad :: "bytes \<Rightarrow> bytes" where
  "sha_pad msg = msg @ [0x80] @ replicate ((119 - length msg mod 64) mod 64) 0 @ be_bytes64 (of_nat (length msg) * 8)"

definition sha256_spec :: "bytes \<Rightarrow> bytes" where
  "sha256_spec msg = concat (map be_bytes32 (fst (absorb sha_iv (sha_pad msg))))"

lemma length_be_bytes [simp]: "length (be_bytes64 x) = 8" "length (be_bytes32 y) = 4"
  by (simp_all add: be_bytes64_def be_bytes32_def)

lemma absorb_short [simp]: "length bs < 64 \<Longrightarrow> absorb st bs = (st, bs)"
  by (subst absorb.simps) simp

lemma absorb_block: "length bs = 64 \<Longrightarrow> absorb st (bs @ cs) = absorb (compress st bs) cs"
  by (subst absorb.simps) simp

lemma length_absorb: "length (snd (absorb st bs)) = length bs mod 64"
proof (induction st bs rule: absorb.induct)
  case (1 st bs)
  then show ?case by (cases "length bs < 64") (simp_all add: absorb.simps [of st bs] mod_if [of "length bs"])
qed

lemma absorb_append: "absorb st (xs @ ys) = absorb (fst (absorb st xs)) (snd (absorb st xs) @ ys)"
proof (induction st xs rule: absorb.induct)
  case (1 st xs)
  show ?case
  proof (cases "length xs < 64")
    case True
    then show ?thesis by simp
  next
    case False
    have "absorb st (xs @ ys) = absorb (compress st (take 64 xs)) (drop 64 xs @ ys)"
      using absorb_block [of "take 64 xs" st "drop 64 xs @ ys"] False by (simp flip: append_assoc)
    with False 1 show ?thesis by (simp add: absorb.simps [of st xs])
  qed
qed

section \<open>The context represents the bytes fed to it\<close>

definition pending :: "LinSha256 \<Rightarrow> bytes" where
  "pending ctx = take (buf_len ctx) (buf ctx)"

definition fed :: "LinSha256 \<Rightarrow> bytes \<Rightarrow> bool" where
  "fed ctx msg = (length (buf ctx) = 64 \<and> buf_len ctx < 64 \<and>
     absorb sha_iv msg = (sha_state ctx, pending ctx) \<and> bitlen ctx = of_nat (length msg) * 8)"

lemma buf_put_simps:
  assumes "length (buf ctx) = 64" "buf_len ctx + length bs \<le> 64"
  shows "length (buf (buf_put bs ctx)) = 64" "pending (buf_put bs ctx) = pending ctx @ bs"
    "buf_len (buf_put bs ctx) = buf_len ctx + length bs" "sha_state (buf_put bs ctx) = sha_state ctx"
    "bitlen (buf_put bs ctx) = bitlen ctx"
  using assms by (auto simp: buf_put_def pending_def)

lemma update_loop_absorb:
  assumes "length (buf ctx) = 64" "buf_len ctx < 64"
  shows "length (buf (update_loop ctx p)) = 64 \<and> buf_len (update_loop ctx p) < 64 \<and>
    bitlen (update_loop ctx p) = bitlen ctx \<and>
    absorb (sha_state ctx) (pending ctx @ p) = (sha_state (update_loop ctx p), pending (update_loop ctx p))"
  using assms
proof (induction ctx p rule: update_loop.induct)
  case (1 ctx p)
  show ?case
  proof (cases "p = []")
    case True
    with "1.prems" show ?thesis by (simp add: update_loop.simps [of ctx] pending_def)
  next
    case False
    define n where "n = (if 64 - buf_len ctx < length p then 64 - buf_len ctx else length p)"
    define c1 where "c1 = buf_put (take n p) ctx"
    define c2 where "c2 = (if buf_len c1 = 64 then (lin_sha256_transform c1 (buf c1))\<lparr>buf_len := 0\<rparr> else c1)"
    have n: "buf_len ctx + length (take n p) \<le> 64" using "1.prems" by (auto simp: n_def)
    note put = buf_put_simps [OF "1.prems"(1) n, folded c1_def]
    have c2: "length (buf c2) = 64" "buf_len c2 < 64" "bitlen c2 = bitlen ctx"
      using put n by (auto simp: c2_def lin_sha256_transform_def)
    have step: "update_loop ctx p = update_loop c2 (drop n p)"
      using False "1.prems" by (subst update_loop.simps) (simp add: n_def c1_def c2_def Let_def not_le)
    have "absorb (sha_state ctx) (pending ctx @ p) = absorb (sha_state c2) (pending c2 @ drop n p)"
    proof (cases "buf_len c1 = 64")
      case True
      then have "length (pending ctx @ take n p) = 64" "pending ctx @ take n p = buf c1"
        using put by (simp_all add: pending_def)
      with absorb_block [of "buf c1" "sha_state ctx" "drop n p"] True put show ?thesis
        by (simp add: c2_def lin_sha256_transform_def pending_def flip: append_assoc) (metis append_assoc append_take_drop_id)
    next
      case False
      with put show ?thesis by (simp add: c2_def)
    qed
    moreover have "length (buf (update_loop c2 (drop n p))) = 64 \<and> buf_len (update_loop c2 (drop n p)) < 64 \<and>
        bitlen (update_loop c2 (drop n p)) = bitlen c2 \<and> absorb (sha_state c2) (pending c2 @ drop n p)
          = (sha_state (update_loop c2 (drop n p)), pending (update_loop c2 (drop n p)))"
      using "1.IH" [OF _ n_def c1_def c2_def c2(1,2)] False "1.prems" by simp
    ultimately show ?thesis using c2(3) by (simp add: step)
  qed
qed

lemma fed_init: "length (buf ctx) = 64 \<Longrightarrow> fed (lin_sha256_init ctx) []"
  by (simp add: fed_def lin_sha256_init_def pending_def)

lemma fed_update:
  assumes "fed ctx msg"
  shows "fed (lin_sha256_update ctx data) (msg @ data)"
proof -
  let ?c = "ctx\<lparr>bitlen := bitlen ctx + of_nat (length data) * 8\<rparr>"
  have "pending ?c = pending ctx" by (simp add: pending_def)
  with update_loop_absorb [of ?c data] assms absorb_append [of sha_iv msg data] show ?thesis
    by (auto simp: fed_def lin_sha256_update_def algebra_simps)
qed

lemma final_spec:
  assumes "fed ctx msg"
  shows "lin_sha256_final ctx = sha256_spec msg"
proof -
  define n where "n = buf_len ctx"
  define be where "be = be_bytes64 (bitlen ctx)"
  define c1 where "c1 = buf_put [0x80] ctx"
  from assms have ok: "length (buf ctx) = 64" "n < 64" and ab: "absorb sha_iv msg = (sha_state ctx, pending ctx)"
    and bl: "bitlen ctx = of_nat (length msg) * 8"
    by (auto simp: fed_def n_def)
  have n: "length (pending ctx) = n" "length msg mod 64 = n"
    using ok ab length_absorb [of sha_iv msg] by (simp_all add: pending_def n_def)
  have "buf_len ctx + length [0x80 :: u8] \<le> 64" using ok by (simp add: n_def)
  note c1 = buf_put_simps [OF ok(1) this, folded c1_def, folded n_def]
  have spec: "absorb sha_iv (sha_pad msg)
      = absorb (sha_state ctx) (pending ctx @ [0x80] @ replicate ((119 - n) mod 64) 0 @ be)"
    unfolding sha_pad_def absorb_append [of sha_iv msg] by (simp add: ab n be_def bl)
  show ?thesis
  proof (cases "n < 56")
    case True
    define c3 where "c3 = buf_put (replicate (56 - buf_len c1) 0) c1"
    have "buf_len c1 + length (replicate (56 - buf_len c1) (0 :: u8)) \<le> 64" using c1 True by simp
    note c3 = buf_put_simps [OF c1(1) this, folded c3_def]
    have t: "take 56 (buf c3) = pending ctx @ [0x80] @ replicate (55 - n) 0"
      using c3(2,3) c1(2,3) True by (simp add: pending_def)
    have z: "(119 - n) mod 64 = 55 - n" using True by (simp add: mod_if)
    have "absorb (sha_state ctx) ((pending ctx @ [0x80] @ replicate (55 - n) 0 @ be) @ [])
        = (compress (sha_state ctx) (take 56 (buf c3) @ be), [])"
      unfolding t using n True by (subst absorb_block) (simp_all add: be_def)
    then have "absorb sha_iv (sha_pad msg) = (compress (sha_state ctx) (take 56 (buf c3) @ be), [])"
      unfolding spec z by simp
    moreover have "lin_sha256_final ctx = concat (map be_bytes32 (compress (sha_state ctx) (take 56 (buf c3) @ be)))"
      using True c1(3,4) c3(4) by (simp add: lin_sha256_final_def Let_def lin_sha256_transform_def be_def c3_def flip: c1_def)
    ultimately show ?thesis by (simp add: sha256_spec_def)
  next
    case False
    define c where "c = buf_put (replicate (64 - buf_len c1) 0) c1"
    define c2 where "c2 = (lin_sha256_transform c (buf c))\<lparr>buf_len := 0\<rparr>"
    define c3 where "c3 = buf_put (replicate (56 - buf_len c2) 0) c2"
    have "buf_len c1 + length (replicate (64 - buf_len c1) (0 :: u8)) \<le> 64" using c1 ok by simp
    note c = buf_put_simps [OF c1(1) this, folded c_def]
    have c2: "length (buf c2) = 64" "buf_len c2 = 0" "sha_state c2 = compress (sha_state ctx) (buf c)"
      using c c1 by (simp_all add: c2_def lin_sha256_transform_def)
    have "buf_len c2 + length (replicate (56 - buf_len c2) (0 :: u8)) \<le> 64" using c2 by simp
    note c3 = buf_put_simps [OF c2(1) this, folded c3_def]
    have b: "buf c = pending ctx @ [0x80] @ replicate (63 - n) 0"
      using c(1,2,3) c1(2,3) ok by (simp add: pending_def)
    have t: "take 56 (buf c3) = replicate 56 0" using c3(2,3) c2(2) by (simp add: pending_def)
    have z: "(119 - n) mod 64 = (63 - n) + 56" using False ok by simp
    have "absorb sha_iv (sha_pad msg) = absorb (sha_state ctx) (buf c @ (replicate 56 0 @ be) @ [])"
      unfolding spec z b by (simp add: replicate_add)
    also have "\<dots> = (compress (compress (sha_state ctx) (buf c)) (replicate 56 0 @ be), [])"
    proof -
      have "length (replicate 56 (0 :: u8) @ be) = 64" by (simp add: be_def)
      from absorb_block [OF this] show ?thesis by (subst absorb_block [OF c(1)]) (simp del: append_Nil2)
    qed
    finally have "absorb sha_iv (sha_pad msg) = (compress (sha_state c3) (take 56 (buf c3) @ be), [])"
      using t c3 c2 by simp
    moreover have "lin_sha256_final ctx = concat (map be_bytes32 (compress (sha_state c3) (take 56 (buf c3) @ be)))"
      using False c1(3) by (simp add: lin_sha256_final_def Let_def be_def c_def c2_def c3_def lin_sha256_transform_def flip: c1_def)
    ultimately show ?thesis by (simp add: sha256_spec_def)
  qed
qed

text \<open>The interface of a streaming hash: what is fed in pieces is hashed as a whole.\<close>

locale streaming_hash =
  fixes start :: 'c and feed :: "'c \<Rightarrow> bytes \<Rightarrow> 'c" and finish :: "'c \<Rightarrow> bytes" and H :: "bytes \<Rightarrow> bytes"
  assumes pieces: "finish (foldl feed start parts) = H (concat parts)"
    and digest_length: "length (H msg) = 32"
begin

lemma one_piece: "finish (feed start x) = H x"
  using pieces [of "[x]"] by simp

lemma two_pieces: "finish (feed (feed start x) y) = H (x @ y)"
  using pieces [of "[x, y]"] by simp

lemma three_pieces: "finish (feed (feed (feed start x) y) z) = H (x @ y @ z)"
  using pieces [of "[x, y, z]"] by simp

lemma finish_length: "length (finish (foldl feed start parts)) = 32"
  by (simp add: pieces digest_length)

end

lemma length_compress: "length st = 8 \<Longrightarrow> length (compress st block) = 8"
proof -
  have "length (sha_round st kw) = length st" for st kw
    by (cases "(st, kw)" rule: sha_round.cases) (simp_all add: Let_def)
  then have "length (foldl sha_round st kws) = length st" for st kws
    by (induction kws arbitrary: st) simp_all
  then show "length st = 8 \<Longrightarrow> length (compress st block) = 8" by (simp add: compress_def)
qed

lemma length_absorb_state: "length st = 8 \<Longrightarrow> length (fst (absorb st bs)) = 8"
proof (induction st bs rule: absorb.induct)
  case (1 st bs)
  then show ?case by (cases "length bs < 64") (simp_all add: absorb.simps [of st bs] length_compress)
qed

lemma length_concat_be: "length (concat (map be_bytes32 xs)) = 4 * length xs"
  by (induction xs) simp_all

lemma length_spec: "length (sha256_spec msg) = 32"
  by (simp add: sha256_spec_def length_concat_be length_absorb_state sha_iv_def)

lemma fed_pieces: "length (buf ctx) = 64 \<Longrightarrow> fed (foldl lin_sha256_update (lin_sha256_init ctx) parts) (concat parts)"
proof (induction parts rule: rev_induct)
  case (snoc x xs)
  then show ?case using fed_update [of "foldl lin_sha256_update (lin_sha256_init ctx) xs" "concat xs" x] by simp
qed (simp add: fed_init)

lemma lin_sha256_spec: "lin_sha256 msg = sha256_spec msg"
  using final_spec [OF fed_pieces [of raw_ctx "[msg]"]] by (simp add: lin_sha256_def raw_ctx_def)

interpretation sha: streaming_hash "lin_sha256_init raw_ctx" lin_sha256_update lin_sha256_final lin_sha256
proof
  show "lin_sha256_final (foldl lin_sha256_update (lin_sha256_init raw_ctx) parts) = lin_sha256 (concat parts)" for parts
    using final_spec [OF fed_pieces [of raw_ctx parts]] by (simp add: raw_ctx_def lin_sha256_spec)
  show "length (lin_sha256 msg) = 32" for msg by (simp add: lin_sha256_spec length_spec)
qed

lemma length_lin_sha256 [simp]: "length (lin_sha256 msg) = 32"
  by (rule sha.digest_length)

section \<open>Properties\<close>

text \<open>
  C28: the streaming implementation is SHA-256 of the whole message. Starting from any context,
  whatever its buffer held, and feeding the message in any pieces, \<open>lin_sha256_final\<close>
  returns the fold of the compression function over the blocks of the padded message, for
  every message length, the two-block padding of a long tail included.
\<close>
theorem sha256_streaming_correct:
  assumes "length (buf ctx) = 64"
  shows "lin_sha256_final (foldl lin_sha256_update (lin_sha256_init ctx) parts) = sha256_spec (concat parts)"
  by (rule final_spec [OF fed_pieces [OF assms]])

theorem sha256_streaming_correct_witness:
  "lin_sha256_final (lin_sha256_update (lin_sha256_update (lin_sha256_init raw_ctx) [1, 2]) [3]) = sha256_spec [1, 2, 3]"
  using sha256_streaming_correct [of raw_ctx "[[1, 2], [3]]"] by (simp add: raw_ctx_def)

text \<open>
  Padding fills whole blocks. The padded message is a multiple of 64 bytes, nothing is left
  over after the last block, and the digest always has 32 bytes.
\<close>
theorem sha256_blocks_exact:
  "length (sha_pad msg) mod 64 = 0 \<and> snd (absorb sha_iv (sha_pad msg)) = [] \<and> length (lin_sha256 msg) = 32"
proof -
  have r: "(r + (9 + (119 - r) mod 64)) mod 64 = 0" if "r < 64" for r :: nat
  proof (cases "r < 56")
    case True
    then have "(119 - r) mod 64 = 55 - r" by (simp add: mod_if)
    with True show ?thesis by simp
  next
    case False
    with that have "r + (9 + (119 - r) mod 64) = 128" by simp
    then show ?thesis by simp
  qed
  have "length (sha_pad msg) = length msg + (9 + (119 - length msg mod 64) mod 64)" by (simp add: sha_pad_def)
  then have "length (sha_pad msg) mod 64 = (length msg mod 64 + (9 + (119 - length msg mod 64) mod 64)) mod 64"
    by (metis mod_add_left_eq)
  also have "\<dots> = 0" by (rule r) simp
  finally have "length (sha_pad msg) mod 64 = 0" .
  moreover from this have "snd (absorb sha_iv (sha_pad msg)) = []"
    using length_absorb [of sha_iv "sha_pad msg"] by simp
  ultimately show ?thesis by simp
qed

end
