(* ===== verification/Lin_Region.thy ===== *)
theory Lin_Region
  imports Lin_Common
begin

text \<open>
  \<open>transpile/c/lin_c/lin_region.h\<close> and \<open>lin_region.c\<close>: bounds-checked, read-only input
  regions. A possibly-\<open>NULL\<close> pointer argument is an \<open>option\<close>. \<open>cells\<close> is the
  content of the caller-owned \<open>int64_t\<close> array the region points at (\<^const>\<open>None\<close> is
  \<open>NULL\<close>); \<open>region_backed\<close> says that this array really has \<open>capacity_cells\<close>
  entries, which is the caller's side of \<open>lin_region_bind\<close>.
\<close>

section \<open>Data\<close>

datatype LinRegionErr =
    LIN_REGION_OK | LIN_REGION_ERR_INVALID | LIN_REGION_ERR_BOUNDS | LIN_REGION_ERR_TRUNCATED
  | LIN_REGION_ERR_OVERFLOW | LIN_REGION_ERR_ABI

text \<open>The numbers of the enumeration, which \<open>region_check_range\<close> hands to the VM.\<close>

fun region_err_code :: "LinRegionErr \<Rightarrow> i64" where
  "region_err_code LIN_REGION_OK = 0"
| "region_err_code LIN_REGION_ERR_INVALID = 1"
| "region_err_code LIN_REGION_ERR_BOUNDS = 2"
| "region_err_code LIN_REGION_ERR_TRUNCATED = 3"
| "region_err_code LIN_REGION_ERR_OVERFLOW = 4"
| "region_err_code LIN_REGION_ERR_ABI = 5"

definition LIN_REGION_MAX_COUNT :: nat where "LIN_REGION_MAX_COUNT = 64"
definition LIN_REGION_MAX_CELLS :: u32 where "LIN_REGION_MAX_CELLS = 2048"
definition LIN_ETH_MAX_INPUT_BYTES :: u32 where "LIN_ETH_MAX_INPUT_BYTES = 16384"
definition LIN_REGION_CELL_BYTES :: nat where "LIN_REGION_CELL_BYTES = 8"

lemmas region_limits =
  LIN_REGION_MAX_COUNT_def LIN_REGION_MAX_CELLS_def LIN_ETH_MAX_INPUT_BYTES_def
  LIN_REGION_CELL_BYTES_def

record LinRegion =
  region_id :: u32
  capacity_cells :: u32
  payload_len :: u32
  cells :: "i64 list option"

record LinRegionSet =
  regions :: "LinRegion list"
  set_len :: nat

section \<open>Operations\<close>

definition lin_region_capacity_bytes :: "LinRegion option \<Rightarrow> u64" where
  "lin_region_capacity_bytes region =
     (case region of None \<Rightarrow> 0
      | Some r \<Rightarrow> ucast (capacity_cells r) * of_nat LIN_REGION_CELL_BYTES)"

definition region_struct_valid :: "LinRegion option \<Rightarrow> bool" where
  "region_struct_valid region =
     (case region of None \<Rightarrow> False
      | Some r \<Rightarrow>
          \<not> capacity_cells r > LIN_REGION_MAX_CELLS \<and>
          \<not> (capacity_cells r \<noteq> 0 \<and> cells r = None) \<and>
          \<not> (ucast (payload_len r) > lin_region_capacity_bytes region) \<and>
          \<not> payload_len r > LIN_ETH_MAX_INPUT_BYTES)"

definition zero_region :: LinRegion where
  "zero_region = \<lparr>region_id = 0, capacity_cells = 0, payload_len = 0, cells = None\<rparr>"

definition lin_region_set_init :: "LinRegionSet option \<Rightarrow> LinRegionSet option" where
  "lin_region_set_init rs =
     (case rs of None \<Rightarrow> None
      | Some _ \<Rightarrow> Some \<lparr>regions = replicate LIN_REGION_MAX_COUNT zero_region, set_len = 0\<rparr>)"

definition lin_region_set_clear :: "LinRegionSet option \<Rightarrow> LinRegionSet option" where
  "lin_region_set_clear rs =
     (case rs of None \<Rightarrow> None
      | Some _ \<Rightarrow> Some \<lparr>regions = replicate LIN_REGION_MAX_COUNT zero_region, set_len = 0\<rparr>)"

definition lin_region_bind ::
  "LinRegionSet option \<Rightarrow> u32 \<Rightarrow> i64 list option \<Rightarrow> u32 \<Rightarrow> u32 \<Rightarrow> LinRegionErr + LinRegionSet" where
  "lin_region_bind rs rid cs capacity payload =
     (case rs of None \<Rightarrow> Inl LIN_REGION_ERR_INVALID
      | Some s \<Rightarrow>
      if set_len s \<ge> LIN_REGION_MAX_COUNT then Inl LIN_REGION_ERR_BOUNDS
      else if rid \<noteq> of_nat (set_len s) then Inl LIN_REGION_ERR_ABI
      else if capacity > LIN_REGION_MAX_CELLS then Inl LIN_REGION_ERR_BOUNDS
      else if capacity \<noteq> 0 \<and> cs = None then Inl LIN_REGION_ERR_INVALID
      else let capacity_bytes = (ucast capacity :: u64) * of_nat LIN_REGION_CELL_BYTES in
      if ucast payload > capacity_bytes then Inl LIN_REGION_ERR_TRUNCATED
      else if payload > LIN_ETH_MAX_INPUT_BYTES then Inl LIN_REGION_ERR_BOUNDS
      else Inr (s\<lparr>regions := (regions s)[set_len s :=
                   \<lparr>region_id = rid, capacity_cells = capacity, payload_len = payload, cells = cs\<rparr>],
                 set_len := set_len s + 1\<rparr>))"

definition lin_region_get :: "LinRegionSet option \<Rightarrow> i64 \<Rightarrow> LinRegionErr + LinRegion" where
  "lin_region_get rs rid =
     (case rs of None \<Rightarrow> Inl LIN_REGION_ERR_INVALID
      | Some s \<Rightarrow>
      if rid <s 0 then Inl LIN_REGION_ERR_INVALID
      else if unat rid \<ge> set_len s then Inl LIN_REGION_ERR_INVALID
      else let region = regions s ! unat rid in
      if region_id region \<noteq> ucast rid then Inl LIN_REGION_ERR_ABI
      else if \<not> region_struct_valid (Some region) then Inl LIN_REGION_ERR_ABI
      else Inr region)"

text \<open>The byte loop of \<open>lin_region_write_bytes\<close>: one byte \<open>OR\<close>ed into its cell.\<close>

definition put_byte :: "bytes \<Rightarrow> nat \<Rightarrow> i64 list \<Rightarrow> i64 list" where
  "put_byte bs i cs =
     (let cell_index = i div LIN_REGION_CELL_BYTES; byte_offset = i mod LIN_REGION_CELL_BYTES in
      cs[cell_index := cs ! cell_index OR push_bit (byte_offset * 8) (ucast (bs ! i))])"

fun write_loop :: "bytes \<Rightarrow> nat \<Rightarrow> i64 list \<Rightarrow> i64 list" where
  "write_loop bs 0 cs = cs"
| "write_loop bs (Suc n) cs = put_byte bs n (write_loop bs n cs)"

definition lin_region_write_bytes ::
  "LinRegion option \<Rightarrow> bytes option \<Rightarrow> nat \<Rightarrow> LinRegionErr + LinRegion" where
  "lin_region_write_bytes region src src_len =
     (case region of None \<Rightarrow> Inl LIN_REGION_ERR_INVALID
      | Some r \<Rightarrow>
      if \<not> region_struct_valid region then Inl LIN_REGION_ERR_ABI
      else if src = None \<and> src_len \<noteq> 0 then Inl LIN_REGION_ERR_INVALID
      else if src_len > unat LIN_ETH_MAX_INPUT_BYTES then Inl LIN_REGION_ERR_BOUNDS
      else if src_len > unat (lin_region_capacity_bytes region) then Inl LIN_REGION_ERR_TRUNCATED
      else let n = unat (capacity_cells r) in
        Inr (r\<lparr>cells := map_option (\<lambda>cs. write_loop (case src of None \<Rightarrow> [] | Some bs \<Rightarrow> bs) src_len
                                     (replicate n 0 @ drop n cs)) (cells r),
               payload_len := of_nat src_len\<rparr>))"

definition lin_region_check_range :: "LinRegion option \<Rightarrow> u64 \<Rightarrow> u64 \<Rightarrow> LinRegionErr" where
  "lin_region_check_range region offset len =
     (case region of None \<Rightarrow> LIN_REGION_ERR_INVALID
      | Some r \<Rightarrow>
      if \<not> region_struct_valid region then LIN_REGION_ERR_ABI
      else if offset > ucast (payload_len r) then LIN_REGION_ERR_TRUNCATED
      else if len > ucast (payload_len r) - offset then LIN_REGION_ERR_TRUNCATED
      else LIN_REGION_OK)"

definition region_cell :: "LinRegion \<Rightarrow> nat \<Rightarrow> i64" where
  "region_cell r i = (case cells r of None \<Rightarrow> 0 | Some cs \<Rightarrow> cs ! i)"

definition lin_region_load_cell :: "LinRegion option \<Rightarrow> u64 \<Rightarrow> LinRegionErr + i64" where
  "lin_region_load_cell region cell_index =
     (case region of None \<Rightarrow> Inl LIN_REGION_ERR_INVALID
      | Some r \<Rightarrow>
      if \<not> region_struct_valid region then Inl LIN_REGION_ERR_ABI
      else if cell_index \<ge> ucast (capacity_cells r) then Inl LIN_REGION_ERR_BOUNDS
      else Inr (region_cell r (unat cell_index)))"

definition lin_region_load_byte :: "LinRegion option \<Rightarrow> u64 \<Rightarrow> LinRegionErr + u8" where
  "lin_region_load_byte region byte_index =
     (case region of None \<Rightarrow> Inl LIN_REGION_ERR_INVALID
      | Some r \<Rightarrow>
      if \<not> region_struct_valid region then Inl LIN_REGION_ERR_ABI
      else if byte_index \<ge> lin_region_capacity_bytes region then Inl LIN_REGION_ERR_BOUNDS
      else if byte_index \<ge> ucast (payload_len r) then Inl LIN_REGION_ERR_TRUNCATED
      else let cell_index = byte_index div of_nat LIN_REGION_CELL_BYTES;
               byte_offset = unat (byte_index mod of_nat LIN_REGION_CELL_BYTES) in
      if cell_index \<ge> ucast (capacity_cells r) then Inl LIN_REGION_ERR_BOUNDS
      else Inr (ucast (drop_bit (byte_offset * 8) (region_cell r (unat cell_index)) AND 0xff)))"

fun lin_region_err_name :: "LinRegionErr \<Rightarrow> string" where
  "lin_region_err_name LIN_REGION_OK = ''ok''"
| "lin_region_err_name LIN_REGION_ERR_INVALID = ''invalid''"
| "lin_region_err_name LIN_REGION_ERR_BOUNDS = ''bounds''"
| "lin_region_err_name LIN_REGION_ERR_TRUNCATED = ''truncated''"
| "lin_region_err_name LIN_REGION_ERR_OVERFLOW = ''overflow''"
| "lin_region_err_name LIN_REGION_ERR_ABI = ''abi''"

section \<open>Bytes in cells\<close>

definition get_byte :: "i64 list \<Rightarrow> nat \<Rightarrow> u8" where
  "get_byte cs i = ucast (drop_bit (i mod 8 * 8) (cs ! (i div 8)) AND 0xff)"

lemma bit_ff: "bit (0xff :: 64 word) k \<longleftrightarrow> k < 8"
proof -
  have m: "(0xff :: 64 word) = mask 8" by (simp add: mask_eq_exp_minus_1)
  show ?thesis unfolding m by (simp only: bit_mask_iff possible_bit_word) auto
qed

lemma bit_get_byte: "bit (get_byte cs i) k \<longleftrightarrow> k < 8 \<and> bit (cs ! (i div 8)) (i mod 8 * 8 + k)"
  unfolding get_byte_def
  by (simp only: bit_word_ucast_iff bit_and_iff bit_drop_bit_eq bit_ff) auto

lemma length_put_byte [simp]: "length (put_byte bs i cs) = length cs"
  by (simp add: put_byte_def Let_def)

lemma length_write_loop [simp]: "length (write_loop bs n cs) = length cs"
  by (induction n) auto

lemma get_put_byte:
  assumes "j div 8 < length cs"
  shows "get_byte (put_byte bs j cs) i = (if i = j then get_byte cs i OR bs ! j else get_byte cs i)"
proof (rule bit_word_eqI)
  fix k
  assume "k < LENGTH(8)"
  then have k: "k < 8" by simp
  show "bit (get_byte (put_byte bs j cs) i) k
    \<longleftrightarrow> bit (if i = j then get_byte cs i OR bs ! j else get_byte cs i) k"
  proof (cases "i div 8 = j div 8")
    case True
    have off: "bit (bs ! j) (i mod 8 * 8 + k - j mod 8 * 8) \<and> j mod 8 * 8 \<le> i mod 8 * 8 + k
        \<longleftrightarrow> i = j \<and> bit (bs ! j) k"
    proof
      assume h: "bit (bs ! j) (i mod 8 * 8 + k - j mod 8 * 8) \<and> j mod 8 * 8 \<le> i mod 8 * 8 + k"
      then have "i mod 8 * 8 + k - j mod 8 * 8 < 8" using bit_imp_le_length by fastforce
      with h k have "i mod 8 = j mod 8" by linarith
      with True have "i = j" by (metis div_mult_mod_eq)
      with h show "i = j \<and> bit (bs ! j) k" by simp
    qed auto
    have bound: "i mod 8 * 8 + k < 64"
    proof -
      have "i mod 8 \<le> 7" by (simp add: less_Suc_eq_le [symmetric])
      with k show ?thesis by linarith
    qed
    show ?thesis
      using assms True k off bound
      by (auto simp: bit_get_byte put_byte_def Let_def LIN_REGION_CELL_BYTES_def bit_or_iff
          bit_push_bit_iff bit_word_ucast_iff)
  next
    case False
    with assms k show ?thesis
      by (auto simp: bit_get_byte put_byte_def Let_def LIN_REGION_CELL_BYTES_def)
  qed
qed

lemma get_byte_zero: "i div 8 < n \<Longrightarrow> get_byte (replicate n 0 @ xs) i = 0"
  by (simp add: get_byte_def nth_append)

lemma get_byte_write_loop:
  assumes "n \<le> 8 * length cs" "\<forall>i < 8 * m. get_byte cs i = 0" "m \<le> length cs" "i < 8 * m"
  shows "get_byte (write_loop bs n cs) i = (if i < n then bs ! i else 0)"
  using assms(1)
proof (induction n)
  case 0
  with assms show ?case by simp
next
  case (Suc n)
  then have "n div 8 < length (write_loop bs n cs)" by simp
  from get_put_byte [OF this, of bs i] Suc show ?case by auto
qed

section \<open>Region contracts\<close>

definition region_backed :: "LinRegion \<Rightarrow> bool" where
  "region_backed r = (case cells r of None \<Rightarrow> True | Some cs \<Rightarrow> unat (capacity_cells r) \<le> length cs)"

text \<open>
  The set invariant: the first \<open>set_len\<close> slots hold valid regions numbered canonically.
\<close>

definition region_set_ok :: "LinRegionSet \<Rightarrow> bool" where
  "region_set_ok s = (length (regions s) = LIN_REGION_MAX_COUNT \<and> set_len s \<le> LIN_REGION_MAX_COUNT \<and>
     (\<forall>i < set_len s. region_id (regions s ! i) = of_nat i \<and>
        region_struct_valid (Some (regions s ! i)) \<and> region_backed (regions s ! i)))"

lemma unat_ucast_u32_u64 [simp]: "unat (ucast (x :: u32) :: u64) = unat x"
proof -
  have "unat x < 2 ^ 64" by (rule less_trans [OF unsigned_less [of x]]) simp
  then show ?thesis by (simp add: unsigned_ucast_eq take_bit_nat_eq_self)
qed

lemma ucast_u32_le_iff [simp]:
  "(ucast (x :: u32) :: u64) \<le> ucast y \<longleftrightarrow> x \<le> y" "(ucast (x :: u32) :: u64) < ucast y \<longleftrightarrow> x < y"
  by (simp_all add: word_le_nat_alt word_less_nat_alt)

lemma unat_capacity_bytes:
  assumes "capacity_cells r \<le> LIN_REGION_MAX_CELLS"
  shows "unat (lin_region_capacity_bytes (Some r)) = 8 * unat (capacity_cells r)"
proof -
  from assms have "unat (capacity_cells r) \<le> 2048"
    by (simp add: word_le_nat_alt LIN_REGION_MAX_CELLS_def)
  then show ?thesis
    by (simp add: lin_region_capacity_bytes_def LIN_REGION_CELL_BYTES_def unat_word_ariths)
qed

lemma region_struct_validD:
  assumes "region_struct_valid (Some r)"
  shows "unat (capacity_cells r) \<le> 2048" "unat (payload_len r) \<le> 8 * unat (capacity_cells r)"
    "capacity_cells r \<noteq> 0 \<Longrightarrow> cells r \<noteq> None" "capacity_cells r \<le> LIN_REGION_MAX_CELLS"
proof -
  from assms have c: "capacity_cells r \<le> LIN_REGION_MAX_CELLS"
    by (simp add: region_struct_valid_def not_less)
  then show "capacity_cells r \<le> LIN_REGION_MAX_CELLS" "unat (capacity_cells r) \<le> 2048"
    by (simp_all add: word_le_nat_alt LIN_REGION_MAX_CELLS_def)
  from assms show "capacity_cells r \<noteq> 0 \<Longrightarrow> cells r \<noteq> None"
    by (simp add: region_struct_valid_def)
  from assms have "ucast (payload_len r) \<le> lin_region_capacity_bytes (Some r)"
    by (simp add: region_struct_valid_def not_less)
  then show "unat (payload_len r) \<le> 8 * unat (capacity_cells r)"
    using unat_capacity_bytes [OF c] by (simp add: word_le_nat_alt)
qed

lemma region_load_byte_valid:
  assumes "region_struct_valid (Some r)"
  shows "lin_region_load_byte (Some r) k =
    (if 8 * unat (capacity_cells r) \<le> unat k then Inl LIN_REGION_ERR_BOUNDS
     else if unat (payload_len r) \<le> unat k then Inl LIN_REGION_ERR_TRUNCATED
     else Inr (get_byte (case cells r of None \<Rightarrow> [0] | Some cs \<Rightarrow> cs) (unat k)))"
proof -
  note v = region_struct_validD [OF assms]
  have "\<not> lin_region_capacity_bytes (Some r) \<le> k \<Longrightarrow> \<not> k div 8 \<ge> ucast (capacity_cells r)"
    using v unat_capacity_bytes [of r] by (auto simp: word_le_nat_alt unat_div)
  moreover have "cells r \<noteq> None" if "\<not> 8 * unat (capacity_cells r) \<le> unat k"
    using that v(3) by fastforce
  ultimately show ?thesis
    using assms v unat_capacity_bytes [of r]
    by (auto simp: lin_region_load_byte_def Let_def LIN_REGION_CELL_BYTES_def word_le_nat_alt
        get_byte_def region_cell_def unat_div unat_mod)
qed

lemma region_write_ok:
  assumes run: "lin_region_write_bytes (Some r) (Some bs) (length bs) = Inr r'" and b: "region_backed r"
  shows "region_struct_valid (Some r')" "region_backed r'" "capacity_cells r' = capacity_cells r"
    "unat (payload_len r') = length bs" "length bs \<le> 8 * unat (capacity_cells r)"
    "\<And>i. i < length bs \<Longrightarrow> \<exists>cs. cells r' = Some cs \<and> get_byte cs i = bs ! i"
proof -
  let ?n = "unat (capacity_cells r)"
  from run have v: "region_struct_valid (Some r)" and l: "length bs \<le> 16384"
    and c: "length bs \<le> 8 * ?n"
    and r': "r' = r\<lparr>cells := map_option (\<lambda>cs. write_loop bs (length bs) (replicate ?n 0 @ drop ?n cs)) (cells r),
                    payload_len := of_nat (length bs)\<rparr>"
    using unat_capacity_bytes [of r] region_struct_validD(4) [of r]
    by (auto simp: lin_region_write_bytes_def Let_def LIN_ETH_MAX_INPUT_BYTES_def split: if_splits)
  show cap: "capacity_cells r' = capacity_cells r" using r' by simp
  show pay: "unat (payload_len r') = length bs"
    using r' l by (simp add: unat_of_nat take_bit_nat_eq_self)
  show "length bs \<le> 8 * ?n" by (rule c)
  have "unat (lin_region_capacity_bytes (Some r')) = 8 * ?n"
    using unat_capacity_bytes [of r'] region_struct_validD(4) [OF v] cap by simp
  then show "region_struct_valid (Some r')"
    using v l c pay r' by (auto simp: region_struct_valid_def not_less word_le_nat_alt
        word_less_nat_alt LIN_ETH_MAX_INPUT_BYTES_def)
  show "region_backed r'"
    using b r' by (auto simp: region_backed_def split: option.splits)
  fix i
  assume i: "i < length bs"
  then have "capacity_cells r \<noteq> 0" using c by auto
  then obtain cs where cs: "cells r = Some cs" using region_struct_validD(3) [OF v] by auto
  let ?z = "replicate ?n 0 @ drop ?n cs"
  have "get_byte (write_loop bs (length bs) ?z) i = bs ! i"
    using get_byte_write_loop [of "length bs" ?z ?n i bs] c i b cs
    by (auto simp: get_byte_zero region_backed_def)
  then show "\<exists>cs. cells r' = Some cs \<and> get_byte cs i = bs ! i"
    using r' cs by simp
qed

lemma region_set_init_ok: "lin_region_set_init (Some s) = Some t \<Longrightarrow> region_set_ok t"
  by (auto simp: lin_region_set_init_def region_set_ok_def)

lemma region_bind_ok:
  assumes "lin_region_bind (Some s) rid cs cap pay = Inr t" "region_set_ok s"
    "\<And>ds. cs = Some ds \<Longrightarrow> unat cap \<le> length ds"
  shows "region_set_ok t" "set_len t = Suc (set_len s)"
    "regions t ! set_len s = \<lparr>region_id = rid, capacity_cells = cap, payload_len = pay, cells = cs\<rparr>"
proof -
  let ?r = "\<lparr>region_id = rid, capacity_cells = cap, payload_len = pay, cells = cs\<rparr>"
  from assms(1) have t: "t = s\<lparr>regions := (regions s)[set_len s := ?r], set_len := set_len s + 1\<rparr>"
    and l: "set_len s < LIN_REGION_MAX_COUNT" and i: "rid = of_nat (set_len s)"
    and v: "region_struct_valid (Some ?r)"
    by (auto simp: lin_region_bind_def Let_def region_struct_valid_def lin_region_capacity_bytes_def
        split: if_splits)
  have b: "region_backed ?r" using assms(3) by (simp add: region_backed_def split: option.splits)
  show "set_len t = Suc (set_len s)" "regions t ! set_len s = ?r"
    using t l assms(2) by (simp_all add: region_set_ok_def)
  show "region_set_ok t"
    using t l i v b assms(2) by (auto simp: region_set_ok_def nth_list_update less_Suc_eq)
qed

lemma region_get_ok:
  assumes "region_set_ok s"
  shows "lin_region_get (Some s) rid =
    (if rid <s 0 \<or> set_len s \<le> unat rid then Inl LIN_REGION_ERR_INVALID else Inr (regions s ! unat rid))"
proof (cases "rid <s 0 \<or> set_len s \<le> unat rid")
  case False
  then have "unat rid < 64" using assms by (simp add: region_set_ok_def LIN_REGION_MAX_COUNT_def)
  then have "(ucast rid :: u32) = of_nat (unat rid)" by simp
  with False assms show ?thesis by (auto simp: lin_region_get_def region_set_ok_def Let_def)
qed (auto simp: lin_region_get_def)

section \<open>Properties\<close>

text \<open>
  Write-then-read. After \<open>lin_region_write_bytes\<close> stored \<open>bs\<close> in a region whose cell
  array really has \<open>capacity_cells\<close> entries, \<open>lin_region_load_byte\<close> gives back every
  byte of \<open>bs\<close> at its index, \<open>TRUNCATED\<close> for an index past the payload that the
  capacity still covers, and \<open>BOUNDS\<close> past the capacity.
\<close>
theorem region_write_load:
  assumes "lin_region_write_bytes (Some r) (Some bs) (length bs) = Inr r'" "region_backed r"
  shows "lin_region_load_byte (Some r') k =
    (if 8 * unat (capacity_cells r) \<le> unat k then Inl LIN_REGION_ERR_BOUNDS
     else if length bs \<le> unat k then Inl LIN_REGION_ERR_TRUNCATED
     else Inr (bs ! unat k))"
proof -
  note w = region_write_ok [OF assms]
  show ?thesis using w(6) [of "unat k"] by (auto simp: region_load_byte_valid [OF w(1)] w(3,4))
qed

theorem region_write_load_witness:
  "lin_region_load_byte (Some \<lparr>region_id = 0, capacity_cells = 2, payload_len = 3,
      cells = Some [0x030201, 0]\<rparr>) 2 = Inr 3"
proof -
  have run: "lin_region_write_bytes (Some \<lparr>region_id = 0, capacity_cells = 2, payload_len = 0,
      cells = Some [7, 9]\<rparr>) (Some [1, 2, 3]) (length [1, 2, 3 :: u8])
    = Inr \<lparr>region_id = 0, capacity_cells = 2, payload_len = 3, cells = Some [0x030201, 0]\<rparr>"
    by code_simp
  show ?thesis
    using region_write_load [OF run, of 2] by (simp add: region_backed_def)
qed

text \<open>
  \<open>lin_region_check_range\<close> accepts exactly the byte ranges inside the payload, with
  the sum taken in the naturals: no offset and length whose 64-bit sum wraps gets through.
\<close>
theorem region_check_range_exact:
  assumes "region_struct_valid (Some r)"
  shows "lin_region_check_range (Some r) offset n = LIN_REGION_OK
    \<longleftrightarrow> unat offset + unat n \<le> unat (payload_len r)"
proof -
  have "offset \<le> ucast (payload_len r) \<Longrightarrow>
      unat (ucast (payload_len r) - offset) = unat (payload_len r) - unat offset"
    by (simp add: unat_sub)
  with assms show ?thesis
    by (auto simp: lin_region_check_range_def word_le_nat_alt word_less_nat_alt)
qed

theorem region_check_range_exact_witness:
  "lin_region_check_range (Some \<lparr>region_id = 0, capacity_cells = 1, payload_len = 5, cells = Some [0]\<rparr>)
     3 2 = LIN_REGION_OK"
  by (subst region_check_range_exact) (code_simp, simp)

text \<open>
  A successful \<open>lin_region_bind\<close> keeps the region-set invariant (canonical ids, every
  bound region structurally valid and backed by its array), and afterwards
  \<open>lin_region_get\<close> finds the new region under its id and every earlier region unchanged.
\<close>
theorem region_bind_get:
  assumes "lin_region_bind (Some s) rid cs cap pay = Inr t" "region_set_ok s"
    "\<And>ds. cs = Some ds \<Longrightarrow> unat cap \<le> length ds"
  shows "region_set_ok t \<and>
    lin_region_get (Some t) (ucast rid)
      = Inr \<lparr>region_id = rid, capacity_cells = cap, payload_len = pay, cells = cs\<rparr> \<and>
    (\<forall>i < set_len s. lin_region_get (Some t) (of_nat i) = lin_region_get (Some s) (of_nat i))"
proof (intro conjI allI impI)
  note b = region_bind_ok [OF assms]
  show "region_set_ok t" by (rule b)
  have l: "set_len s < 64" and i: "rid = of_nat (set_len s)"
    and t: "\<And>i. i < set_len s \<Longrightarrow> regions t ! i = regions s ! i"
    using assms(1) by (auto simp: lin_region_bind_def Let_def LIN_REGION_MAX_COUNT_def split: if_splits)
  have small: "\<not> (of_nat k :: i64) <s 0" "unat (of_nat k :: i64) = k" if "k < 64" for k
    using that by (simp_all add: unsigned_of_nat take_bit_nat_eq_self word_sless_alt not_less
        signed_of_nat signed_take_bit_int_eq_self)
  have "(ucast rid :: i64) = of_nat (set_len s)"
    using l by (simp add: i unsigned_ucast_eq word_unat_eq_iff small unsigned_of_nat take_bit_nat_eq_self)
  then show "lin_region_get (Some t) (ucast rid)
      = Inr \<lparr>region_id = rid, capacity_cells = cap, payload_len = pay, cells = cs\<rparr>"
    using l b by (simp add: region_get_ok [OF b(1)] small)
  fix i assume "i < set_len s"
  then show "lin_region_get (Some t) (of_nat i) = lin_region_get (Some s) (of_nat i)"
    using l b t by (simp add: region_get_ok [OF b(1)] region_get_ok [OF assms(2)] small)
qed

theorem region_bind_get_witness:
  "\<exists>t. region_set_ok t \<and> lin_region_get (Some t) 0
     = Inr \<lparr>region_id = 0, capacity_cells = 1, payload_len = 8, cells = Some [42]\<rparr>"
proof -
  let ?s = "\<lparr>regions = replicate LIN_REGION_MAX_COUNT zero_region, set_len = 0\<rparr>"
  let ?t = "\<lparr>regions = (replicate LIN_REGION_MAX_COUNT zero_region)
      [0 := \<lparr>region_id = 0, capacity_cells = 1, payload_len = 8, cells = Some [42]\<rparr>], set_len = 1\<rparr>"
  have "lin_region_bind (Some ?s) 0 (Some [42]) 1 8 = Inr ?t" by code_simp
  moreover have "region_set_ok ?s" by (simp add: region_set_ok_def)
  ultimately show ?thesis
    using region_bind_get [of ?s 0 "Some [42]" 1 8 ?t] by auto
qed

end
