(* ===== verification/Lin_Abi.thy ===== *)
theory Lin_Abi
  imports Lin_Region
begin

text \<open>
  \<open>transpile/c/lin_c/lin_abi.h\<close> and \<open>lin_abi.c\<close>: the HOST-ABI-2 intrinsics over
  read-only regions. The region set is borrowed through a pointer that the VM compares with
  its own, so the model keeps the address with the pointee. The operand stack is never
  written by the dispatcher; its stack pointer is returned, updated or not.
\<close>

section \<open>Data\<close>

definition LIN_HOST_ABI_1 :: u8 where "LIN_HOST_ABI_1 = 1"
definition LIN_HOST_ABI_2 :: u8 where "LIN_HOST_ABI_2 = 2"
definition LIN_ABI2_MAX_DECLARED :: nat where "LIN_ABI2_MAX_DECLARED = 12"
definition LIN_ABI2_REGION_CAPACITY :: u8 where "LIN_ABI2_REGION_CAPACITY = 9"
definition LIN_ABI2_REGION_CHECK_RANGE :: u8 where "LIN_ABI2_REGION_CHECK_RANGE = 10"
definition LIN_ABI2_REGION_LOAD_BYTE :: u8 where "LIN_ABI2_REGION_LOAD_BYTE = 11"

lemmas abi_consts =
  LIN_HOST_ABI_1_def LIN_HOST_ABI_2_def LIN_ABI2_MAX_DECLARED_def LIN_ABI2_REGION_CAPACITY_def
  LIN_ABI2_REGION_CHECK_RANGE_def LIN_ABI2_REGION_LOAD_BYTE_def

record RegionSetPtr =
  set_addr :: nat
  pointee :: LinRegionSet

record LinAbiDesc =
  desc_id :: u8
  desc_nparams :: u8
  returns_value :: u8

record LinAbiContext =
  abi_regions :: "RegionSetPtr option"
  ctx_abi_version :: u8
  declared :: "u8 list"

record LinAbiResult =
  vm_error :: LinErr
  region_error :: LinRegionErr
  result_value :: i64

section \<open>Operations\<close>

definition ABI2_DESCRIPTORS :: "LinAbiDesc list" where
  "ABI2_DESCRIPTORS =
    [\<lparr>desc_id = LIN_ABI2_REGION_CAPACITY, desc_nparams = 1, returns_value = 1\<rparr>,
     \<lparr>desc_id = LIN_ABI2_REGION_CHECK_RANGE, desc_nparams = 3, returns_value = 1\<rparr>,
     \<lparr>desc_id = LIN_ABI2_REGION_LOAD_BYTE, desc_nparams = 2, returns_value = 1\<rparr>]"

definition abi_result_ok :: "i64 \<Rightarrow> LinAbiResult" where
  "abi_result_ok v = \<lparr>vm_error = LIN_OK, region_error = LIN_REGION_OK, result_value = v\<rparr>"

definition abi_result_vm_error :: "LinErr \<Rightarrow> LinAbiResult" where
  "abi_result_vm_error e = \<lparr>vm_error = e, region_error = LIN_REGION_OK, result_value = 0\<rparr>"

definition abi_result_region_error :: "LinRegionErr \<Rightarrow> LinAbiResult" where
  "abi_result_region_error e = \<lparr>vm_error = LIN_OK, region_error = e, result_value = 0\<rparr>"

definition lin_abi2_context_init ::
  "LinAbiContext option \<Rightarrow> RegionSetPtr option \<Rightarrow> LinAbiContext option" where
  "lin_abi2_context_init ctx rs =
     (case ctx of None \<Rightarrow> None
      | Some _ \<Rightarrow> Some \<lparr>abi_regions = rs, ctx_abi_version = LIN_HOST_ABI_2,
                       declared = replicate LIN_ABI2_MAX_DECLARED 0\<rparr>)"

definition lin_abi2_desc :: "u8 \<Rightarrow> LinAbiDesc option" where
  "lin_abi2_desc i = List.find (\<lambda>d. desc_id d = i) ABI2_DESCRIPTORS"

definition lin_abi2_enable :: "LinAbiContext option \<Rightarrow> u8 \<Rightarrow> LinRegionErr + LinAbiContext" where
  "lin_abi2_enable ctx i =
     (case ctx of None \<Rightarrow> Inl LIN_REGION_ERR_INVALID
      | Some c \<Rightarrow>
      if ctx_abi_version c \<noteq> LIN_HOST_ABI_2 then Inl LIN_REGION_ERR_ABI
      else if lin_abi2_desc i = None then Inl LIN_REGION_ERR_ABI
      else Inr (c\<lparr>declared := (declared c)[unat i := 1]\<rparr>))"

definition lin_abi2_is_enabled :: "LinAbiContext option \<Rightarrow> u8 \<Rightarrow> bool" where
  "lin_abi2_is_enabled ctx i =
     (case ctx of None \<Rightarrow> False
      | Some c \<Rightarrow>
      if unat i \<ge> LIN_ABI2_MAX_DECLARED then False
      else ctx_abi_version c = LIN_HOST_ABI_2 \<and> declared c ! unat i \<noteq> 0)"

text \<open>The three handlers: \<open>sp\<close> comes back reduced only on the paths that consume.\<close>

definition dispatch_region_capacity ::
  "LinAbiContext \<Rightarrow> i64 list \<Rightarrow> nat \<Rightarrow> LinAbiResult \<times> nat" where
  "dispatch_region_capacity ctx stk sp =
     (if sp < 1 then (abi_result_vm_error LIN_ERR_VM_STACK_UNDERFLOW, sp)
      else case lin_region_get (map_option pointee (abi_regions ctx)) (stk ! (sp - 1)) of
        Inl error \<Rightarrow> (abi_result_region_error error, sp)
      | Inr region \<Rightarrow>
          let capacity = lin_region_capacity_bytes (Some region) in
          if capacity > 0x7FFFFFFFFFFFFFFF
          then (abi_result_region_error LIN_REGION_ERR_OVERFLOW, sp)
          else (abi_result_ok capacity, sp - 1))"

definition dispatch_region_check_range ::
  "LinAbiContext \<Rightarrow> i64 list \<Rightarrow> nat \<Rightarrow> LinAbiResult \<times> nat" where
  "dispatch_region_check_range ctx stk sp =
     (if sp < 3 then (abi_result_vm_error LIN_ERR_VM_STACK_UNDERFLOW, sp)
      else let rid = stk ! (sp - 3); offset = stk ! (sp - 2); n = stk ! (sp - 1) in
      if offset <s 0 \<or> n <s 0 then (abi_result_region_error LIN_REGION_ERR_INVALID, sp)
      else case lin_region_get (map_option pointee (abi_regions ctx)) rid of
        Inl error \<Rightarrow> (abi_result_region_error error, sp)
      | Inr region \<Rightarrow>
          let error = lin_region_check_range (Some region) offset n in
          ((abi_result_ok (region_err_code error))\<lparr>region_error := error\<rparr>, sp - 3))"

definition dispatch_region_load_byte ::
  "LinAbiContext \<Rightarrow> i64 list \<Rightarrow> nat \<Rightarrow> LinAbiResult \<times> nat" where
  "dispatch_region_load_byte ctx stk sp =
     (if sp < 2 then (abi_result_vm_error LIN_ERR_VM_STACK_UNDERFLOW, sp)
      else let rid = stk ! (sp - 2); byte_index = stk ! (sp - 1) in
      if byte_index <s 0 then (abi_result_region_error LIN_REGION_ERR_INVALID, sp)
      else case lin_region_get (map_option pointee (abi_regions ctx)) rid of
        Inl error \<Rightarrow> (abi_result_region_error error, sp)
      | Inr region \<Rightarrow>
          (case lin_region_load_byte (Some region) byte_index of
             Inl error \<Rightarrow> (abi_result_region_error error, sp)
           | Inr b \<Rightarrow> (abi_result_ok (ucast b), sp - 2)))"

definition lin_abi2_dispatch ::
  "LinAbiContext option \<Rightarrow> u8 \<Rightarrow> i64 list option \<Rightarrow> nat option \<Rightarrow> LinAbiResult \<times> nat option" where
  "lin_abi2_dispatch ctx i stk osp =
     (case (ctx, osp) of
        (Some c, Some sp) \<Rightarrow>
          if ctx_abi_version c \<noteq> LIN_HOST_ABI_2 then (abi_result_region_error LIN_REGION_ERR_ABI, osp)
          else if lin_abi2_desc i = None then (abi_result_region_error LIN_REGION_ERR_ABI, osp)
          else if \<not> lin_abi2_is_enabled ctx i then (abi_result_region_error LIN_REGION_ERR_ABI, osp)
          else if abi_regions c = None then (abi_result_region_error LIN_REGION_ERR_INVALID, osp)
          else (case lin_abi2_desc i of
            None \<Rightarrow> (abi_result_region_error LIN_REGION_ERR_ABI, osp)
          | Some desc \<Rightarrow>
            if stk = None \<and> desc_nparams desc \<noteq> 0 then (abi_result_vm_error LIN_ERR_VM_BAD_FN, osp)
            else let s = (case stk of None \<Rightarrow> [] | Some s \<Rightarrow> s) in
            if i = LIN_ABI2_REGION_CAPACITY
              then map_prod id Some (dispatch_region_capacity c s sp)
            else if i = LIN_ABI2_REGION_CHECK_RANGE
              then map_prod id Some (dispatch_region_check_range c s sp)
            else if i = LIN_ABI2_REGION_LOAD_BYTE
              then map_prod id Some (dispatch_region_load_byte c s sp)
            else (abi_result_region_error LIN_REGION_ERR_ABI, osp))
      | _ \<Rightarrow> (abi_result_region_error LIN_REGION_ERR_INVALID, osp))"

definition lin_abi2_status_name :: "LinAbiResult option \<Rightarrow> string" where
  "lin_abi2_status_name result =
     (case result of None \<Rightarrow> ''invalid-result''
      | Some r \<Rightarrow>
      if vm_error r \<noteq> LIN_OK then lin_err_name (vm_error r)
      else if region_error r \<noteq> LIN_REGION_OK then lin_region_err_name (region_error r)
      else ''ok'')"

section \<open>Lemmas\<close>

lemmas abi_results = abi_result_ok_def abi_result_vm_error_def abi_result_region_error_def

lemmas abi_handlers =
  dispatch_region_capacity_def dispatch_region_check_range_def dispatch_region_load_byte_def

lemma lin_abi2_desc_simp:
  "lin_abi2_desc i =
    (if i = 9 then Some \<lparr>desc_id = 9, desc_nparams = 1, returns_value = 1\<rparr>
     else if i = 10 then Some \<lparr>desc_id = 10, desc_nparams = 3, returns_value = 1\<rparr>
     else if i = 11 then Some \<lparr>desc_id = 11, desc_nparams = 2, returns_value = 1\<rparr> else None)"
  by (auto simp: lin_abi2_desc_def ABI2_DESCRIPTORS_def abi_consts)

lemma region_get_error: "lin_region_get rs i = Inl e \<Longrightarrow> e \<noteq> LIN_REGION_OK"
  by (auto simp: lin_region_get_def Let_def split: if_splits option.splits)

lemma region_load_byte_error: "lin_region_load_byte r k = Inl e \<Longrightarrow> e \<noteq> LIN_REGION_OK"
  by (auto simp: lin_region_load_byte_def Let_def split: if_splits option.splits)

text \<open>What every handler does to the stack pointer: nothing, or pop its operands.\<close>

definition pops :: "nat \<Rightarrow> nat \<Rightarrow> LinAbiResult \<times> nat \<Rightarrow> bool" where
  "pops k sp = (\<lambda>(r, sp').
     sp' = sp \<and> (vm_error r \<noteq> LIN_OK \<or> region_error r \<noteq> LIN_REGION_OK) \<and> result_value r = 0
   \<or> k \<le> sp \<and> sp' = sp - k \<and> vm_error r = LIN_OK \<and> (k \<noteq> 3 \<longrightarrow> region_error r = LIN_REGION_OK))"

lemma capacity_pops: "pops 1 sp (dispatch_region_capacity c s sp)"
  by (auto simp: pops_def dispatch_region_capacity_def abi_results Let_def
      dest: region_get_error split: sum.splits)

lemma check_range_pops: "pops 3 sp (dispatch_region_check_range c s sp)"
  by (auto simp: pops_def dispatch_region_check_range_def abi_results Let_def
      dest: region_get_error split: sum.splits)

lemma load_byte_pops: "pops 2 sp (dispatch_region_load_byte c s sp)"
  by (auto simp: pops_def dispatch_region_load_byte_def abi_results Let_def
      dest: region_get_error region_load_byte_error split: sum.splits)

lemma handler_pops:
  "dispatch_region_capacity c s sp = x \<Longrightarrow> pops (Suc 0) sp x"
  "dispatch_region_check_range c s sp = x \<Longrightarrow> pops 3 sp x"
  "dispatch_region_load_byte c s sp = x \<Longrightarrow> pops 2 sp x"
  using capacity_pops check_range_pops load_byte_pops by auto

lemma dispatch_pops:
  assumes "lin_abi2_dispatch ctx i stk (Some sp) = (r, osp)"
  shows "(osp = Some sp \<and> (vm_error r \<noteq> LIN_OK \<or> region_error r \<noteq> LIN_REGION_OK) \<and> result_value r = 0)
    \<or> (\<exists>d sp'. osp = Some sp' \<and> lin_abi2_desc i = Some d \<and> lin_abi2_is_enabled ctx i
        \<and> pops (unat (desc_nparams d)) sp (r, sp') \<and> (i = 10 \<longleftrightarrow> desc_nparams d = 3))"
proof (cases ctx)
  case None
  with assms show ?thesis by (auto simp: lin_abi2_dispatch_def abi_results)
next
  case (Some c)
  with assms show ?thesis
    by (auto simp: lin_abi2_dispatch_def lin_abi2_desc_simp abi_consts abi_results Let_def map_prod_def
        dest: handler_pops split: if_splits prod.splits option.splits)
qed

section \<open>Properties\<close>

text \<open>
  C40: fail-closed dispatch. Whatever the context, id and stack, \<open>lin_abi2_dispatch\<close>
  either reports an error, returns the value 0 and leaves \<open>*sp\<close> alone, or succeeds on an
  enabled, described id, pops exactly the declared number of operands, and reports a region
  status only through \<open>region_check_range\<close>.
\<close>
theorem abi2_dispatch_fail_closed:
  assumes "lin_abi2_dispatch ctx i stk (Some sp) = (r, osp)"
  shows "osp = Some sp \<and> (vm_error r \<noteq> LIN_OK \<or> region_error r \<noteq> LIN_REGION_OK) \<and> result_value r = 0
    \<or> (\<exists>d. lin_abi2_desc i = Some d \<and> lin_abi2_is_enabled ctx i
        \<and> unat (desc_nparams d) \<le> sp \<and> osp = Some (sp - unat (desc_nparams d)) \<and> vm_error r = LIN_OK
        \<and> (i \<noteq> LIN_ABI2_REGION_CHECK_RANGE \<longrightarrow> region_error r = LIN_REGION_OK))"
  using dispatch_pops [OF assms] by (auto simp: pops_def abi_consts lin_abi2_desc_simp split: if_splits)

theorem abi2_dispatch_fail_closed_witness:
  "\<exists>d. lin_abi2_desc 9 = Some d \<and> unat (desc_nparams d) \<le> 1"
proof -
  let ?s = "\<lparr>regions = [\<lparr>region_id = 0, capacity_cells = 1, payload_len = 8, cells = Some [42]\<rparr>], set_len = 1\<rparr>"
  let ?c = "\<lparr>abi_regions = Some \<lparr>set_addr = 1, pointee = ?s\<rparr>, ctx_abi_version = 2,
      declared = [0, 0, 0, 0, 0, 0, 0, 0, 0, 1, 0, 0]\<rparr>"
  have "lin_abi2_dispatch (Some ?c) 9 (Some [0]) (Some 1)
      = (\<lparr>vm_error = LIN_OK, region_error = LIN_REGION_OK, result_value = 8\<rparr>, Some 0)"
    by code_simp
  from abi2_dispatch_fail_closed [OF this] show ?thesis by auto
qed

text \<open>
  Enabling is exact. \<open>lin_abi2_enable\<close> succeeds only on the described ids 9 to 11 of an
  ABI-2 context, stays inside the \<open>declared\<close> array, turns on that id and no other.
\<close>
theorem abi2_enable_exact:
  assumes "lin_abi2_enable (Some c) i = Inr c'" "length (declared c) = LIN_ABI2_MAX_DECLARED"
  shows "i \<in> {9, 10, 11} \<and> length (declared c') = LIN_ABI2_MAX_DECLARED \<and>
    (\<forall>j. lin_abi2_is_enabled (Some c') j \<longleftrightarrow> j = i \<or> lin_abi2_is_enabled (Some c) j)"
  using assms
  by (auto simp: lin_abi2_enable_def lin_abi2_is_enabled_def lin_abi2_desc_simp abi_consts
      nth_list_update word_unat_eq_iff split: if_splits)

theorem abi2_enable_exact_witness:
  "lin_abi2_is_enabled (Some \<lparr>abi_regions = None, ctx_abi_version = 2,
      declared = [0, 0, 0, 0, 0, 0, 0, 0, 0, 0, 0, 1]\<rparr>) 11"
proof -
  have "lin_abi2_enable (Some \<lparr>abi_regions = None, ctx_abi_version = 2, declared = replicate 12 0\<rparr>) 11
    = Inr \<lparr>abi_regions = None, ctx_abi_version = 2, declared = [0, 0, 0, 0, 0, 0, 0, 0, 0, 0, 0, 1]\<rparr>"
    by code_simp
  from abi2_enable_exact [OF this] show ?thesis by (simp add: abi_consts)
qed

end
