(* ===== verification/Lin_Vm.thy ===== *)
theory Lin_Vm
  imports Lin_Abi Lin_Ast
begin

text \<open>
  \<open>transpile/c/lin_c/lin_vm.h\<close> and \<open>lin_vm.c\<close>, the interpreter: opcodes,
  functions, the frame store with its 193 preallocated frames, and the fetch-execute loop of
  \<open>vm_exec_ctx\<close> with the recursive \<open>OP_CALL\<close>.

  \<^item> The frames are one array indexed by call depth, threaded through the calls as state: a
    callee writes its own frame of the array its caller reads from.
  \<^item> An access outside one of the fixed arrays of a frame is undefined in C. The model gives
    it a value of its own, \<open>VmFault\<close> with the array it misses, so that its absence is a
    theorem and not an assumption.
  \<^item> \<open>calloc\<close> either fails or returns zeroed frames; which of the two is the argument
    \<open>mem\<close>.
  \<^item> The loop recurses on fuel; \<open>vm_exec_ctx\<close> runs it with two more units than the
    step limit, and \<open>vm_exec_ctx_total\<close> shows that this never runs out.
\<close>

section \<open>Data\<close>

datatype VmOp =
    OP_PUSH_CONST | OP_LOAD_LOCAL | OP_STORE_LOCAL
  | OP_ADD | OP_SUB | OP_MUL | OP_DIV | OP_MOD
  | OP_BIT_AND | OP_BIT_OR | OP_BIT_XOR | OP_BIT_NOT | OP_NEG | OP_SHL | OP_SHR | OP_USHR
  | OP_CMP_EQ | OP_CMP_NE | OP_CMP_LT | OP_CMP_GT | OP_CMP_LE | OP_CMP_GE | OP_LOG_NOT
  | OP_JUMP | OP_JUMP_IF_FALSE | OP_JUMP_IF_FALSE_KEEP | OP_JUMP_IF_TRUE_KEEP
  | OP_POP | OP_CALL | OP_RET | OP_LOAD_INDEX | OP_STORE_INDEX | OP_ARR_LEN | OP_ABI_CALL

record VmIns =
  op :: VmOp
  opa :: i64

record VmFn =
  fn_name :: string
  nparams :: nat
  nlocals :: nat
  code :: "VmIns list"
  sig_ok :: bool
  fn_ok :: bool
  reject :: string
  arr_n :: "u16 list"

type_synonym VmModule = "VmFn list"

record VmExecResult =
  res_val :: i64
  sp_at_ret :: nat

record VmFrame =
  locals :: "i64 list"
  stack :: "i64 list"
  pool :: "i64 list list"
  pool_len :: "u16 list"
  pool_used :: nat

type_synonym VmFrameStore = "VmFrame list"

record LinVmContext =
  vm_module :: "VmModule option"
  vm_regions :: "RegionSetPtr option"
  vm_abi :: "LinAbiContext option"
  step_limit :: u64
  vm_profile :: u8
  vm_abi_version :: u8
  frames :: "VmFrameStore option"

definition LIN_VM_PROFILE_LINVM1 :: u8 where "LIN_VM_PROFILE_LINVM1 = 1"
definition LIN_VM_PROFILE_LINVM_C0 :: u8 where "LIN_VM_PROFILE_LINVM_C0 = 2"

text \<open>An access outside an array of the frame, by array.\<close>

datatype vm_array = Locals | Stack | CallResult | Pool

datatype vm_stop = VmErr LinErr | VmFault vm_array

type_synonym vm_state = "VmFrameStore \<times> u64"

section \<open>Arithmetic of the interpreter\<close>

definition vm_shift :: "i64 \<Rightarrow> i64 \<Rightarrow> bool \<Rightarrow> i64" where
  "vm_shift x y left =
     (if y <s 0 \<or> 64 \<le>s y then 0
      else if left then push_bit (unat y) x
      else signed_drop_bit (unat y) x)"

definition vm_ushr :: "i64 \<Rightarrow> i64 \<Rightarrow> i64" where
  "vm_ushr x y = (if y <s 0 \<or> 64 \<le>s y then 0 else drop_bit (unat y) x)"

fun vm_binary :: "VmOp \<Rightarrow> i64 \<Rightarrow> i64 \<Rightarrow> LinErr + i64" where
  "vm_binary OP_ADD x y = Inr (lin_wadd x y)"
| "vm_binary OP_SUB x y = Inr (lin_wsub x y)"
| "vm_binary OP_MUL x y = Inr (lin_wmul x y)"
| "vm_binary OP_DIV x y = (if y = 0 then Inl LIN_ERR_VM_DIV_ZERO else Inr (lin_wdiv x y))"
| "vm_binary OP_MOD x y = (if y = 0 then Inl LIN_ERR_VM_DIV_ZERO else Inr (lin_wrem x y))"
| "vm_binary OP_BIT_AND x y = Inr (x AND y)"
| "vm_binary OP_BIT_OR x y = Inr (x OR y)"
| "vm_binary OP_BIT_XOR x y = Inr (x XOR y)"
| "vm_binary OP_SHL x y = Inr (vm_shift x y True)"
| "vm_binary OP_SHR x y = Inr (vm_shift x y False)"
| "vm_binary OP_USHR x y = Inr (vm_ushr x y)"
| "vm_binary OP_CMP_EQ x y = Inr (if x = y then 1 else 0)"
| "vm_binary OP_CMP_NE x y = Inr (if x \<noteq> y then 1 else 0)"
| "vm_binary OP_CMP_LT x y = Inr (if x <s y then 1 else 0)"
| "vm_binary OP_CMP_GT x y = Inr (if y <s x then 1 else 0)"
| "vm_binary OP_CMP_LE x y = Inr (if x \<le>s y then 1 else 0)"
| "vm_binary OP_CMP_GE x y = Inr (if y \<le>s x then 1 else 0)"
| "vm_binary _ x y = Inl LIN_ERR_VM_BAD_FN"

section \<open>Frames\<close>

definition zero_frame :: VmFrame where
  "zero_frame = \<lparr>locals = replicate LIN_VM_MAX_LOCALS 0, stack = replicate LIN_VM_MAX_STACK 0,
     pool = replicate LIN_VM_MAX_ARRS (replicate LIN_VM_MAX_ARR_LEN 0),
     pool_len = replicate LIN_VM_MAX_ARRS 0, pool_used = 0\<rparr>"

definition lin_vm_frames_alloc :: "bool \<Rightarrow> VmFrameStore option" where
  "lin_vm_frames_alloc mem =
     (if mem then Some (replicate (LIN_VM_MAX_DEPTH + 1) zero_frame) else None)"

text \<open>The guards of \<open>vm_exec_ctx\<close> before any frame is touched.\<close>

definition vm_enter :: "VmModule \<Rightarrow> nat \<Rightarrow> nat \<Rightarrow> nat \<Rightarrow> LinErr + VmFn" where
  "vm_enter md fi args_len dep =
     (if dep > LIN_VM_MAX_DEPTH then Inl LIN_ERR_VM_DEPTH
      else if fi \<ge> length md then Inl LIN_ERR_VM_BAD_FN
      else if \<not> fn_ok (md ! fi) then Inl LIN_ERR_VM_BAD_FN
      else if args_len \<noteq> nparams (md ! fi) then Inl LIN_ERR_VM_ARITY
      else Inr (md ! fi))"

text \<open>Array locals: each gets the next pool slot, zero-filled to its declared length.\<close>

fun vm_init_arrays :: "u16 list \<Rightarrow> nat \<Rightarrow> VmFrame \<Rightarrow> vm_stop + VmFrame" where
  "vm_init_arrays [] li fr = Inr fr"
| "vm_init_arrays (an # ans) li fr =
     (if an = 0 then vm_init_arrays ans (Suc li) fr
      else if pool_used fr \<ge> LIN_VM_MAX_ARRS then Inl (VmErr LIN_ERR_VM_BAD_FN)
      else if unat an > LIN_VM_MAX_ARR_LEN then Inl (VmFault Pool)
      else if li \<ge> LIN_VM_MAX_LOCALS then Inl (VmFault Locals)
      else let slot = pool_used fr in
        vm_init_arrays ans (Suc li)
          (fr\<lparr>pool_used := slot + 1, pool_len := (pool_len fr)[slot := an],
              pool := (pool fr)[slot := replicate (unat an) 0 @ drop (unat an) (pool fr ! slot)],
              locals := (locals fr)[li := of_nat slot]\<rparr>))"

fun vm_init_args :: "i64 list \<Rightarrow> nat \<Rightarrow> u16 list \<Rightarrow> VmFrame \<Rightarrow> vm_stop + VmFrame" where
  "vm_init_args [] idx ans fr = Inr fr"
| "vm_init_args (v # vs) idx ans fr =
     (if idx < length ans \<and> ans ! idx > 0 then vm_init_args vs (Suc idx) ans fr
      else if idx \<ge> LIN_VM_MAX_LOCALS then Inl (VmFault Locals)
      else vm_init_args vs (Suc idx) ans (fr\<lparr>locals := (locals fr)[idx := v]\<rparr>))"

definition vm_init_frame :: "VmFn \<Rightarrow> i64 list \<Rightarrow> VmFrame \<Rightarrow> vm_stop + VmFrame" where
  "vm_init_frame f args fr =
     and_then (vm_init_arrays (arr_n f) 0
        (fr\<lparr>locals := replicate LIN_VM_MAX_LOCALS 0, pool_used := 0,
            pool_len := replicate LIN_VM_MAX_ARRS 0\<rparr>))
       (vm_init_args args 0 (arr_n f))"
section \<open>One instruction\<close>

definition vm_validate_abi_call_context :: "LinVmContext \<Rightarrow> u8 \<Rightarrow> LinErr" where
  "vm_validate_abi_call_context ctx i =
     (case (vm_abi ctx, vm_regions ctx) of
        (Some abi, Some rs) \<Rightarrow>
          if vm_profile ctx \<noteq> LIN_VM_PROFILE_LINVM_C0 then LIN_ERR_VM_BAD_FN
          else if vm_abi_version ctx \<noteq> LIN_HOST_ABI_2 \<or> ctx_abi_version abi \<noteq> LIN_HOST_ABI_2
            then LIN_ERR_VM_BAD_FN
          else if map_option set_addr (abi_regions abi) \<noteq> Some (set_addr rs) then LIN_ERR_VM_BAD_FN
          else if \<not> lin_abi2_is_enabled (Some abi) i then LIN_ERR_VM_BAD_FN
          else LIN_OK
      | _ \<Rightarrow> LIN_ERR_VM_BAD_FN)"

text \<open>
  \<open>Next pc sp frame\<close> continues the loop; \<open>Return\<close> is \<open>OP_RET\<close>. \<open>OP_CALL\<close>
  needs the interpreter itself and is executed by the loop.
\<close>

datatype vm_next = Next nat nat VmFrame | Return VmExecResult

definition vm_push :: "i64 \<Rightarrow> nat \<Rightarrow> nat \<Rightarrow> VmFrame \<Rightarrow> vm_stop + vm_next" where
  "vm_push v pc sp fr =
     (if sp \<ge> LIN_VM_MAX_STACK then Inl (VmErr LIN_ERR_VM_STACK_OVERFLOW)
      else Inr (Next pc (sp + 1) (fr\<lparr>stack := (stack fr)[sp := v]\<rparr>)))"

definition vm_need :: "nat \<Rightarrow> nat \<Rightarrow> vm_stop + vm_next \<Rightarrow> vm_stop + vm_next" where
  "vm_need k sp m = (if sp < k then Inl (VmErr LIN_ERR_VM_STACK_UNDERFLOW) else m)"

definition vm_local :: "i64 \<Rightarrow> VmFrame \<Rightarrow> (i64 \<Rightarrow> vm_stop + vm_next) \<Rightarrow> vm_stop + vm_next" where
  "vm_local a fr k = (if unat a \<ge> LIN_VM_MAX_LOCALS then Inl (VmFault Locals) else k (locals fr ! unat a))"

definition vm_top :: "(i64 \<Rightarrow> i64) \<Rightarrow> nat \<Rightarrow> nat \<Rightarrow> VmFrame \<Rightarrow> vm_stop + vm_next" where
  "vm_top f pc sp fr =
     vm_need 1 sp (Inr (Next pc sp (fr\<lparr>stack := (stack fr)[sp - 1 := f (stack fr ! (sp - 1))]\<rparr>)))"

text \<open>Whether \<open>ix\<close> is inside the array of pool slot \<open>slot\<close>.\<close>

definition pool_hit :: "VmFrame \<Rightarrow> nat \<Rightarrow> i64 \<Rightarrow> bool" where
  "pool_hit fr slot ix =
     (slot < LIN_VM_MAX_ARRS \<and> 0 \<le>s ix \<and> ix <s ucast (pool_len fr ! slot))"

definition vm_load_index :: "i64 \<Rightarrow> nat \<Rightarrow> nat \<Rightarrow> VmFrame \<Rightarrow> vm_stop + vm_next" where
  "vm_load_index a pc sp fr =
     vm_need 1 sp (vm_local a fr (\<lambda>s.
       let ix = stack fr ! (sp - 1); slot = unat s in
       if pool_hit fr slot ix \<and> unat ix \<ge> LIN_VM_MAX_ARR_LEN then Inl (VmFault Pool)
       else vm_push (if pool_hit fr slot ix then pool fr ! slot ! unat ix else 0) pc (sp - 1) fr))"

definition vm_store_index :: "i64 \<Rightarrow> nat \<Rightarrow> nat \<Rightarrow> VmFrame \<Rightarrow> vm_stop + vm_next" where
  "vm_store_index a pc sp fr =
     vm_need 2 sp (vm_local a fr (\<lambda>s.
       let ix = stack fr ! (sp - 2); v = stack fr ! (sp - 1); slot = unat s in
       if pool_hit fr slot ix \<and> unat ix \<ge> LIN_VM_MAX_ARR_LEN then Inl (VmFault Pool)
       else Inr (Next pc (sp - 2)
         (if pool_hit fr slot ix
          then fr\<lparr>pool := (pool fr)[slot := (pool fr ! slot)[unat ix := v]]\<rparr> else fr))))"

definition vm_arr_len :: "i64 \<Rightarrow> nat \<Rightarrow> nat \<Rightarrow> VmFrame \<Rightarrow> vm_stop + vm_next" where
  "vm_arr_len a pc sp fr =
     (if sp \<ge> LIN_VM_MAX_STACK then Inl (VmErr LIN_ERR_VM_STACK_OVERFLOW)
      else vm_local a fr (\<lambda>s.
        vm_push (if unat s < LIN_VM_MAX_ARRS then ucast (pool_len fr ! unat s) else 0) pc sp fr))"

definition vm_abi_call :: "LinVmContext \<Rightarrow> i64 \<Rightarrow> nat \<Rightarrow> nat \<Rightarrow> VmFrame \<Rightarrow> vm_stop + vm_next" where
  "vm_abi_call ctx a pc sp fr =
     (if a <s 0 \<or> 255 <s a then Inl (VmErr LIN_ERR_VM_BAD_FN)
      else let i = ucast a; context_error = vm_validate_abi_call_context ctx i in
      if context_error \<noteq> LIN_OK then Inl (VmErr context_error)
      else let (r, osp) = lin_abi2_dispatch (vm_abi ctx) i (Some (stack fr)) (Some sp);
               sp' = (case osp of None \<Rightarrow> sp | Some n \<Rightarrow> n) in
      if vm_error r \<noteq> LIN_OK then Inl (VmErr (vm_error r))
      else if region_error r \<noteq> LIN_REGION_OK \<and> sp' = sp then Inl (VmErr LIN_ERR_VM_BAD_FN)
      else vm_push (result_value r) pc sp' fr)"

definition vm_binary_ins :: "VmOp \<Rightarrow> nat \<Rightarrow> nat \<Rightarrow> VmFrame \<Rightarrow> vm_stop + vm_next" where
  "vm_binary_ins o1 pc sp fr =
     vm_need 2 sp (case vm_binary o1 (stack fr ! (sp - 2)) (stack fr ! (sp - 1)) of
         Inl e \<Rightarrow> Inl (VmErr e)
       | Inr r \<Rightarrow> Inr (Next pc (sp - 1) (fr\<lparr>stack := (stack fr)[sp - 2 := r]\<rparr>)))"

definition vm_ins :: "LinVmContext \<Rightarrow> VmIns \<Rightarrow> nat \<Rightarrow> nat \<Rightarrow> VmFrame \<Rightarrow> vm_stop + vm_next" where
  "vm_ins ctx i pc sp fr =
     (let a = opa i; top = stack fr ! (sp - 1) in
      case op i of
        OP_PUSH_CONST \<Rightarrow> vm_push a pc sp fr
      | OP_LOAD_LOCAL \<Rightarrow>
          if sp \<ge> LIN_VM_MAX_STACK then Inl (VmErr LIN_ERR_VM_STACK_OVERFLOW)
          else vm_local a fr (\<lambda>v. vm_push v pc sp fr)
      | OP_STORE_LOCAL \<Rightarrow>
          vm_need 1 sp (vm_local a fr (\<lambda>_. Inr (Next pc (sp - 1) (fr\<lparr>locals := (locals fr)[unat a := top]\<rparr>))))
      | OP_POP \<Rightarrow> vm_need 1 sp (Inr (Next pc (sp - 1) fr))
      | OP_BIT_NOT \<Rightarrow> vm_top (\<lambda>v. NOT v) pc sp fr
      | OP_NEG \<Rightarrow> vm_top (\<lambda>v. lin_wsub 0 v) pc sp fr
      | OP_LOG_NOT \<Rightarrow> vm_top (\<lambda>v. if v = 0 then 1 else 0) pc sp fr
      | OP_JUMP \<Rightarrow> Inr (Next (unat a) sp fr)
      | OP_JUMP_IF_FALSE \<Rightarrow> vm_need 1 sp (Inr (Next (if top = 0 then unat a else pc) (sp - 1) fr))
      | OP_JUMP_IF_FALSE_KEEP \<Rightarrow> vm_need 1 sp (Inr (Next (if top = 0 then unat a else pc) sp fr))
      | OP_JUMP_IF_TRUE_KEEP \<Rightarrow> vm_need 1 sp (Inr (Next (if top \<noteq> 0 then unat a else pc) sp fr))
      | OP_RET \<Rightarrow> vm_need 1 sp (Inr (Return \<lparr>res_val = top, sp_at_ret = sp\<rparr>))
      | OP_LOAD_INDEX \<Rightarrow> vm_load_index a pc sp fr
      | OP_STORE_INDEX \<Rightarrow> vm_store_index a pc sp fr
      | OP_ARR_LEN \<Rightarrow> vm_arr_len a pc sp fr
      | OP_ABI_CALL \<Rightarrow> vm_abi_call ctx a pc sp fr
      | o1 \<Rightarrow> vm_binary_ins o1 pc sp fr)"

section \<open>The loop and the calls\<close>

type_synonym vm_result = "(vm_stop \<times> u64) + (VmExecResult \<times> vm_state)"

text \<open>
  \<open>vm_call_with loop\<close> is the prologue of \<open>vm_exec_ctx\<close>: guards, frame set-up, then
  the loop from the first instruction with an empty stack.
\<close>

definition vm_call_with ::
  "(VmFn \<Rightarrow> nat \<Rightarrow> vm_state \<Rightarrow> vm_result option) \<Rightarrow>
   VmModule \<Rightarrow> nat \<Rightarrow> i64 list \<Rightarrow> nat \<Rightarrow> vm_state \<Rightarrow> vm_result option" where
  "vm_call_with loop md fi args dep st =
     (case vm_enter md fi (length args) dep of
        Inl e \<Rightarrow> Some (Inl (VmErr e, snd st))
      | Inr f \<Rightarrow>
        (case vm_init_frame f args (fst st ! dep) of
           Inl e \<Rightarrow> Some (Inl (e, snd st))
         | Inr fr \<Rightarrow> loop f dep ((fst st)[dep := fr], snd st)))"

primrec vm_loop ::
  "nat \<Rightarrow> LinVmContext \<Rightarrow> VmModule \<Rightarrow> VmFn \<Rightarrow> nat \<Rightarrow> nat \<Rightarrow> nat \<Rightarrow> vm_state \<Rightarrow> vm_result option"
where
  "vm_loop 0 ctx md f dep pc sp st = None"
| "vm_loop (Suc n) ctx md f dep pc sp st =
     (let frs = fst st; steps = snd st in
      if pc \<ge> length (code f) then Some (Inr (\<lparr>res_val = 0, sp_at_ret = sp\<rparr>, frs, steps))
      else let steps' = steps + 1 in
      if steps' > step_limit ctx then Some (Inl (VmErr LIN_ERR_VM_STEP_LIMIT, steps'))
      else let i = code f ! pc in
      if op i = OP_CALL then
        let ti = unat (opa i) in
        if ti \<ge> length md then Some (Inl (VmErr LIN_ERR_VM_BAD_FN, steps'))
        else let k = nparams (md ! ti) in
        if sp < k then Some (Inl (VmErr LIN_ERR_VM_STACK_UNDERFLOW, steps'))
        else opt_then
          (vm_call_with (\<lambda>g d. vm_loop n ctx md g d 0 0) md ti
             (take k (drop (sp - k) (stack (frs ! dep)))) (dep + 1) (frs, steps'))
          (\<lambda>(r, frs', steps'').
             if sp - k \<ge> LIN_VM_MAX_STACK then Some (Inl (VmFault CallResult, steps''))
             else vm_loop n ctx md f dep (pc + 1) (sp - k + 1)
                    (frs'[dep := (frs' ! dep)\<lparr>stack := (stack (frs' ! dep))[sp - k := res_val r]\<rparr>], steps''))
      else (case vm_ins ctx i (pc + 1) sp (frs ! dep) of
          Inl e \<Rightarrow> Some (Inl (e, steps'))
        | Inr nx \<Rightarrow>
          (case nx of
             Return r \<Rightarrow> Some (Inr (r, frs, steps'))
           | Next pc' sp' fr' \<Rightarrow> vm_loop n ctx md f dep pc' sp' (frs[dep := fr'], steps'))))"

definition vm_call ::
  "nat \<Rightarrow> LinVmContext \<Rightarrow> VmModule \<Rightarrow> nat \<Rightarrow> i64 list \<Rightarrow> nat \<Rightarrow> vm_state \<Rightarrow> vm_result option" where
  "vm_call n ctx md = vm_call_with (\<lambda>f dep. vm_loop n ctx md f dep 0 0) md"

text \<open>
  The entry point. The guards come before the allocation; a store allocated here is freed on
  every path, so it is not part of the result (\<open>None\<close>), while a store of the caller is
  returned as the run left it. The result slot \<open>out\<close> is taken to be non-\<open>NULL\<close>.
\<close>

definition vm_exec_ctx ::
  "bool \<Rightarrow> LinVmContext option \<Rightarrow> nat \<Rightarrow> i64 list \<Rightarrow> nat \<Rightarrow> u64 option \<Rightarrow>
   ((vm_stop \<times> u64 option) + (VmExecResult \<times> VmFrameStore option \<times> u64)) option" where
  "vm_exec_ctx mem octx fi args dep osteps =
     (case (octx, osteps) of
        (Some ctx, Some steps) \<Rightarrow>
          (case vm_module ctx of
             None \<Rightarrow> Some (Inl (VmErr LIN_ERR_VM_BAD_FN, osteps))
           | Some md \<Rightarrow>
             (case vm_enter md fi (length args) dep of
                Inl e \<Rightarrow> Some (Inl (VmErr e, osteps))
              | Inr _ \<Rightarrow>
                let run = (\<lambda>frs. map_option (map_sum (map_prod id Some) id)
                      (vm_call (unat (step_limit ctx) + 2) ctx md fi args dep (frs, steps))) in
                (case frames ctx of
                   Some frs \<Rightarrow> map_option (map_sum id (\<lambda>(r, frs', s). (r, Some frs', s))) (run frs)
                 | None \<Rightarrow>
                   (case lin_vm_frames_alloc mem of
                      None \<Rightarrow> Some (Inl (VmErr LIN_ERR_ARENA_OOM, osteps))
                    | Some frs \<Rightarrow> map_option (map_sum id (\<lambda>(r, _, s). (r, None, s))) (run frs)))))
      | _ \<Rightarrow> Some (Inl (VmErr LIN_ERR_VM_BAD_FN, osteps)))"

definition vm_exec ::
  "bool \<Rightarrow> VmModule option \<Rightarrow> nat \<Rightarrow> i64 list \<Rightarrow> nat \<Rightarrow> u64 option \<Rightarrow>
   ((vm_stop \<times> u64 option) + (VmExecResult \<times> VmFrameStore option \<times> u64)) option" where
  "vm_exec mem md fi args dep osteps =
     vm_exec_ctx mem
       (Some \<lparr>vm_module = md, vm_regions = None, vm_abi = None, step_limit = LIN_VM_STEP_LIMIT,
              vm_profile = LIN_VM_PROFILE_LINVM1, vm_abi_version = LIN_HOST_ABI_1, frames = None\<rparr>)
       fi args dep osteps"

fun vm_op_name :: "VmOp \<Rightarrow> string" where
  "vm_op_name OP_PUSH_CONST = ''push_const''"
| "vm_op_name OP_LOAD_LOCAL = ''load_local''"
| "vm_op_name OP_STORE_LOCAL = ''store_local''"
| "vm_op_name OP_ADD = ''add''"
| "vm_op_name OP_SUB = ''sub''"
| "vm_op_name OP_MUL = ''mul''"
| "vm_op_name OP_DIV = ''div''"
| "vm_op_name OP_MOD = ''mod''"
| "vm_op_name OP_BIT_AND = ''bit_and''"
| "vm_op_name OP_BIT_OR = ''bit_or''"
| "vm_op_name OP_BIT_XOR = ''bit_xor''"
| "vm_op_name OP_BIT_NOT = ''bit_not''"
| "vm_op_name OP_NEG = ''neg''"
| "vm_op_name OP_SHL = ''shl''"
| "vm_op_name OP_SHR = ''shr''"
| "vm_op_name OP_USHR = ''ushr''"
| "vm_op_name OP_CMP_EQ = ''cmp_eq''"
| "vm_op_name OP_CMP_NE = ''cmp_ne''"
| "vm_op_name OP_CMP_LT = ''cmp_lt''"
| "vm_op_name OP_CMP_GT = ''cmp_gt''"
| "vm_op_name OP_CMP_LE = ''cmp_le''"
| "vm_op_name OP_CMP_GE = ''cmp_ge''"
| "vm_op_name OP_LOG_NOT = ''log_not''"
| "vm_op_name OP_JUMP = ''jump''"
| "vm_op_name OP_JUMP_IF_FALSE = ''jump_if_false''"
| "vm_op_name OP_JUMP_IF_FALSE_KEEP = ''jump_if_false_keep''"
| "vm_op_name OP_JUMP_IF_TRUE_KEEP = ''jump_if_true_keep''"
| "vm_op_name OP_POP = ''pop''"
| "vm_op_name OP_CALL = ''call''"
| "vm_op_name OP_RET = ''ret''"
| "vm_op_name OP_LOAD_INDEX = ''load_index''"
| "vm_op_name OP_STORE_INDEX = ''store_index''"
| "vm_op_name OP_ARR_LEN = ''arr_len''"
| "vm_op_name OP_ABI_CALL = ''abi_call''"

section \<open>Case analysis on one round of the loop\<close>

declare vm_loop.simps(2) [simp del]

lemma vm_call_cases [consumes 1, case_names guard init run]:
  assumes "vm_call n ctx md fi args dep (frs, steps) = Some res"
  obtains (guard) e where "vm_enter md fi (length args) dep = Inl e" "res = Inl (VmErr e, steps)"
  | (init) f e where "vm_enter md fi (length args) dep = Inr f"
      "vm_init_frame f args (frs ! dep) = Inl e" "res = Inl (e, steps)"
  | (run) f fr where "vm_enter md fi (length args) dep = Inr f"
      "vm_init_frame f args (frs ! dep) = Inr fr"
      "vm_loop n ctx md f dep 0 0 (frs[dep := fr], steps) = Some res"
  using assms by (auto simp: vm_call_def vm_call_with_def split: sum.splits)

text \<open>A round at an instruction that is not \<open>OP_CALL\<close>, and one that is.\<close>

lemma vm_loop_ins:
  assumes "pc < length (code f)" "steps + 1 \<le> step_limit ctx" "op (code f ! pc) \<noteq> OP_CALL"
  shows "vm_loop (Suc n) ctx md f dep pc sp (frs, steps) =
    (case vm_ins ctx (code f ! pc) (pc + 1) sp (frs ! dep) of
       Inl e \<Rightarrow> Some (Inl (e, steps + 1))
     | Inr nx \<Rightarrow>
       (case nx of
          Return r \<Rightarrow> Some (Inr (r, frs, steps + 1))
        | Next pc' sp' fr' \<Rightarrow> vm_loop n ctx md f dep pc' sp' (frs[dep := fr'], steps + 1)))"
  using assms by (simp add: vm_loop.simps(2) Let_def not_less [symmetric])

lemma vm_loop_call:
  assumes "pc < length (code f)" "steps + 1 \<le> step_limit ctx" "op (code f ! pc) = OP_CALL"
    "ti = unat (opa (code f ! pc))" "ti < length md" "k = nparams (md ! ti)" "k \<le> sp"
  shows "vm_loop (Suc n) ctx md f dep pc sp (frs, steps) =
    opt_then (vm_call n ctx md ti (take k (drop (sp - k) (stack (frs ! dep)))) (dep + 1) (frs, steps + 1))
      (\<lambda>(r, frs', s).
         if LIN_VM_MAX_STACK \<le> sp - k then Some (Inl (VmFault CallResult, s))
         else vm_loop n ctx md f dep (pc + 1) (sp - k + 1)
           (frs'[dep := (frs' ! dep)\<lparr>stack := (stack (frs' ! dep))[sp - k := res_val r]\<rparr>], s))"
  using assms(1-3,5,7) unfolding assms(4,6)
  by (simp add: vm_loop.simps(2) Let_def vm_call_def not_less [symmetric] cong: if_cong)

lemma vm_loop_cases [consumes 1, case_names exhausted limit bad_fn underflow call_stops call_full
    call_returns stops returns continues]:
  assumes run: "vm_loop (Suc n) ctx md f dep pc sp (frs, steps) = Some res"
  obtains (exhausted) "length (code f) \<le> pc" "res = Inr (\<lparr>res_val = 0, sp_at_ret = sp\<rparr>, frs, steps)"
  | (limit) "pc < length (code f)" "step_limit ctx < steps + 1"
      "res = Inl (VmErr LIN_ERR_VM_STEP_LIMIT, steps + 1)"
  | (bad_fn) "res = Inl (VmErr LIN_ERR_VM_BAD_FN, steps + 1)"
  | (underflow) "res = Inl (VmErr LIN_ERR_VM_STACK_UNDERFLOW, steps + 1)"
  | (call_stops) ti k e where "pc < length (code f)" "steps + 1 \<le> step_limit ctx"
      "op (code f ! pc) = OP_CALL" "ti = unat (opa (code f ! pc))" "ti < length md"
      "k = nparams (md ! ti)" "k \<le> sp"
      "vm_call n ctx md ti (take k (drop (sp - k) (stack (frs ! dep)))) (dep + 1) (frs, steps + 1) = Some (Inl e)"
      "res = Inl e"
  | (call_full) ti k r frs' s where "pc < length (code f)" "steps + 1 \<le> step_limit ctx"
      "op (code f ! pc) = OP_CALL" "ti = unat (opa (code f ! pc))" "ti < length md"
      "k = nparams (md ! ti)" "k \<le> sp"
      "vm_call n ctx md ti (take k (drop (sp - k) (stack (frs ! dep)))) (dep + 1) (frs, steps + 1)
        = Some (Inr (r, frs', s))"
      "LIN_VM_MAX_STACK \<le> sp - k" "res = Inl (VmFault CallResult, s)"
  | (call_returns) ti k r frs' s where "pc < length (code f)" "steps + 1 \<le> step_limit ctx"
      "op (code f ! pc) = OP_CALL" "ti = unat (opa (code f ! pc))" "ti < length md"
      "k = nparams (md ! ti)" "k \<le> sp"
      "vm_call n ctx md ti (take k (drop (sp - k) (stack (frs ! dep)))) (dep + 1) (frs, steps + 1)
        = Some (Inr (r, frs', s))"
      "sp - k < LIN_VM_MAX_STACK"
      "vm_loop n ctx md f dep (pc + 1) (sp - k + 1)
         (frs'[dep := (frs' ! dep)\<lparr>stack := (stack (frs' ! dep))[sp - k := res_val r]\<rparr>], s) = Some res"
  | (stops) e where "pc < length (code f)" "steps + 1 \<le> step_limit ctx" "op (code f ! pc) \<noteq> OP_CALL"
      "vm_ins ctx (code f ! pc) (pc + 1) sp (frs ! dep) = Inl e" "res = Inl (e, steps + 1)"
  | (returns) r where "pc < length (code f)" "steps + 1 \<le> step_limit ctx" "op (code f ! pc) \<noteq> OP_CALL"
      "vm_ins ctx (code f ! pc) (pc + 1) sp (frs ! dep) = Inr (Return r)" "res = Inr (r, frs, steps + 1)"
  | (continues) pc' sp' fr' where "pc < length (code f)" "steps + 1 \<le> step_limit ctx"
      "op (code f ! pc) \<noteq> OP_CALL"
      "vm_ins ctx (code f ! pc) (pc + 1) sp (frs ! dep) = Inr (Next pc' sp' fr')"
      "vm_loop n ctx md f dep pc' sp' (frs[dep := fr'], steps + 1) = Some res"
proof (cases "pc < length (code f) \<and> steps + 1 \<le> step_limit ctx")
  case False
  with run that(1,2) show ?thesis by (auto simp: vm_loop.simps(2) Let_def not_le split: if_splits)
next
  case ok: True
  define ti k where "ti = unat (opa (code f ! pc))" and "k = nparams (md ! ti)"
  consider "op (code f ! pc) \<noteq> OP_CALL" | "op (code f ! pc) = OP_CALL" "length md \<le> ti"
    | "op (code f ! pc) = OP_CALL" "ti < length md" "sp < k"
    | "op (code f ! pc) = OP_CALL" "ti < length md" "k \<le> sp" by linarith
  then show ?thesis
  proof cases
    case 1
    then show ?thesis
    proof (cases "vm_ins ctx (code f ! pc) (pc + 1) sp (frs ! dep)")
      case (Inl e)
      with run ok 1 show ?thesis by (intro that(8)) (auto simp: vm_loop_ins)
    next
      case (Inr nx)
      with run ok 1 show ?thesis
        by (cases nx) (auto simp: vm_loop_ins intro: that(9,10))
    qed
  next
    case 2
    with run ok show ?thesis by (intro that(3)) (auto simp: vm_loop.simps(2) Let_def ti_def not_less [symmetric])
  next
    case 3
    with run ok show ?thesis by (intro that(4)) (auto simp: vm_loop.simps(2) Let_def ti_def k_def not_less [symmetric])
  next
    case 4
    let ?c = "vm_call n ctx md ti (take k (drop (sp - k) (stack (frs ! dep)))) (dep + 1) (frs, steps + 1)"
    from run ok 4 consider e where "?c = Some (Inl e)" "res = Inl e"
      | r frs' s where "?c = Some (Inr (r, frs', s))" "LIN_VM_MAX_STACK \<le> sp - k"
          "res = Inl (VmFault CallResult, s)"
      | r frs' s where "?c = Some (Inr (r, frs', s))" "sp - k < LIN_VM_MAX_STACK"
          "vm_loop n ctx md f dep (pc + 1) (sp - k + 1)
            (frs'[dep := (frs' ! dep)\<lparr>stack := (stack (frs' ! dep))[sp - k := res_val r]\<rparr>], s) = Some res"
      by (cases "LIN_VM_MAX_STACK \<le> sp - k") (auto simp: vm_loop_call [OF _ _ _ ti_def _ k_def] opt_then_eq_Some not_le split: if_splits)
    then show ?thesis
    proof cases
      case 1
      with ok 4 show ?thesis by (intro that(5) [OF _ _ _ ti_def _ k_def]) simp_all
    next
      case 2
      with ok 4 show ?thesis by (intro that(6) [OF _ _ _ ti_def _ k_def]) simp_all
    next
      case 3
      with ok 4 show ?thesis by (intro that(7) [OF _ _ _ ti_def _ k_def]) simp_all
    qed
  qed
qed

end
