(* ===== verification/Lin_Vm_Safety.thy ===== *)
theory Lin_Vm_Safety
  imports Lin_Vm
begin

text \<open>
  What the interpreter guarantees whatever the bytecode: it returns (the step limit bounds
  every run), more fuel changes nothing, a callee never writes the frames of its callers, and
  on modules with in-range operands no access leaves the arrays of a frame, but for the one
  unchecked push of \<open>OP_CALL\<close>.
\<close>

section \<open>Fuel\<close>

lemma opt_le_next [fuel_mono]:
  "(\<And>pc sp fr. opt_le (f pc sp fr) (f' pc sp fr)) \<Longrightarrow> (\<And>r. opt_le (g r) (g' r)) \<Longrightarrow>
   opt_le (case_vm_next f g z) (case_vm_next f' g' z)"
  by (cases z) simp_all

lemma opt_le_call_with [fuel_mono]:
  assumes "\<And>f d st. opt_le (loop f d st) (loop' f d st)"
  shows "opt_le (vm_call_with loop md fi args dep st) (vm_call_with loop' md fi args dep st)"
  using assms by (auto simp: vm_call_with_def split: sum.splits)

lemma vm_loop_fuel_step: "opt_le (vm_loop n ctx md f dep pc sp st) (vm_loop (Suc n) ctx md f dep pc sp st)"
proof (induction n arbitrary: f dep pc sp st)
  case (Suc n)
  show ?case
    unfolding vm_loop.simps(2) [of "Suc n" ctx md f dep pc sp st] vm_loop.simps(2) [of n ctx md f dep pc sp st] Let_def
    by (intro fuel_mono Suc.IH)
qed simp

lemma vm_call_fuel_step: "opt_le (vm_call n ctx md fi args dep st) (vm_call (Suc n) ctx md fi args dep st)"
  unfolding vm_call_def by (intro opt_le_call_with vm_loop_fuel_step)

interpretation vm: fuelled "\<lambda>n (fi, args, dep, st). vm_call n ctx md fi args dep st" for ctx md
  by unfold_locales (auto simp: vm_call_fuel_step)

section \<open>Frames of the callers\<close>

lemma vm_loop_frames:
  "vm_loop n ctx md f dep pc sp (frs, steps) = Some (Inr (r, frs', s)) \<Longrightarrow>
   length frs' = length frs \<and> (\<forall>d < dep. frs' ! d = frs ! d)"
proof (induction n arbitrary: f dep pc sp frs steps r frs' s)
  case (Suc n)
  from Suc.prems show ?case
  proof (cases rule: vm_loop_cases)
    case (call_returns ti k r1 frs1 s1)
    from call_returns(8) have "length frs1 = length frs \<and> (\<forall>d < dep. frs1 ! d = frs ! d)"
      by (cases rule: vm_call_cases) (auto dest: Suc.IH)
    with Suc.IH [OF call_returns(10)] show ?thesis by simp
  next
    case (continues pc' sp' fr')
    from Suc.IH [OF continues(5)] show ?thesis by simp
  qed auto
qed simp

lemma vm_call_frames:
  assumes "vm_call n ctx md fi args dep (frs, steps) = Some (Inr (r, frs', s))"
  shows "length frs' = length frs \<and> (\<forall>d < dep. frs' ! d = frs ! d)"
  using assms by (cases rule: vm_call_cases) (auto dest: vm_loop_frames)

lemma vm_loop_exhausted:
  "length (code f) \<le> pc \<Longrightarrow> 0 < n \<Longrightarrow>
   vm_loop n ctx md f dep pc sp (frs, steps) = Some (Inr (\<lparr>res_val = 0, sp_at_ret = sp\<rparr>, frs, steps))"
  by (cases n) (simp_all add: vm_loop.simps(2))

section \<open>Steps and termination\<close>

lemma u64_inc: "x \<le> l \<Longrightarrow> l < - 1 \<Longrightarrow> unat (x + 1 :: u64) = unat x + 1"
  by (simp add: unat_word_ariths word_le_nat_alt word_less_nat_alt unsigned_minus_1_eq_mask mask_eq_exp_minus_1)

lemma vm_loop_steps:
  assumes "step_limit ctx < - 1"
  shows "vm_loop n ctx md f dep pc sp (frs, steps) = Some (Inr (r, frs', s)) \<Longrightarrow>
    steps \<le> step_limit ctx \<Longrightarrow> steps \<le> s \<and> s \<le> step_limit ctx"
proof (induction n arbitrary: f dep pc sp frs steps r frs' s)
  case (Suc n)
  have inc: "steps \<le> steps + 1" using u64_inc [OF Suc.prems(2) assms] by (simp add: word_le_nat_alt)
  from Suc.prems(1) show ?case
  proof (cases rule: vm_loop_cases)
    case (call_returns ti k r1 frs1 s1)
    from call_returns(8) call_returns(2) have "steps + 1 \<le> s1 \<and> s1 \<le> step_limit ctx"
      by (cases rule: vm_call_cases) (auto dest: Suc.IH)
    with Suc.IH [OF call_returns(10)] inc show ?thesis by auto
  next
    case (continues pc' sp' fr')
    from Suc.IH [OF continues(5,2)] inc show ?thesis by auto
  qed (use inc Suc.prems in auto)
qed simp

lemma vm_call_with_not_None:
  "(\<And>f fr. loop f dep ((fst st)[dep := fr], snd st) \<noteq> None) \<Longrightarrow> vm_call_with loop md fi args dep st \<noteq> None"
  by (auto simp: vm_call_with_def split: sum.splits)

lemma vm_loop_returns:
  assumes "step_limit ctx < - 1"
  shows "steps \<le> step_limit ctx \<Longrightarrow> unat (step_limit ctx) - unat steps < n \<Longrightarrow>
    vm_loop n ctx md f dep pc sp (frs, steps) \<noteq> None"
proof (induction n arbitrary: f dep pc sp frs steps)
  case (Suc n)
  let ?i = "code f ! pc"
  let ?ti = "unat (opa ?i)"
  let ?k = "nparams (md ! ?ti)"
  show ?case
  proof (cases "pc < length (code f) \<and> steps + 1 \<le> step_limit ctx")
    case False
    then show ?thesis by (auto simp: vm_loop.simps(2) Let_def not_le)
  next
    case ok: True
    have less: "unat (step_limit ctx) - unat s < n" if "steps + 1 \<le> s" "s \<le> step_limit ctx" for s
      using that Suc.prems u64_inc [OF Suc.prems(1) assms] by (simp add: word_le_nat_alt)
    have ih: "vm_loop n ctx md g d p q (h, s) \<noteq> None" if "steps + 1 \<le> s" "s \<le> step_limit ctx" for g d p q h s
      using Suc.IH [OF that(2) less [OF that]] .
    show ?thesis
    proof (cases "op ?i = OP_CALL \<and> ?ti < length md \<and> ?k \<le> sp")
      case True
      let ?c = "vm_call n ctx md ?ti (take ?k (drop (sp - ?k) (stack (frs ! dep)))) (dep + 1) (frs, steps + 1)"
      have "?c \<noteq> None"
        unfolding vm_call_def using ok by (intro vm_call_with_not_None ih) simp_all
      moreover have "steps + 1 \<le> s \<and> s \<le> step_limit ctx" if "?c = Some (Inr (r, frs', s))" for r frs' s
        using that ok by (cases rule: vm_call_cases) (auto dest: vm_loop_steps [OF assms])
      ultimately have "opt_then ?c (\<lambda>(r, frs', s).
          if LIN_VM_MAX_STACK \<le> sp - ?k then Some (Inl (VmFault CallResult, s))
          else vm_loop n ctx md f dep (pc + 1) (sp - ?k + 1)
            (frs'[dep := (frs' ! dep)\<lparr>stack := (stack (frs' ! dep))[sp - ?k := res_val r]\<rparr>], s)) \<noteq> None"
        using ih by (intro opt_then_not_None) (simp_all del: not_None_eq split: prod.split)
      then show ?thesis
        using ok True by (subst vm_loop_call) simp_all
    next
      case False
      with ok ih [of "steps + 1"] show ?thesis
        by (auto simp: vm_loop.simps(2) Let_def not_less [symmetric] split: sum.splits vm_next.splits)
    qed
  qed
qed simp


lemma vm_call_returns:
  assumes "step_limit ctx < - 1" "steps \<le> step_limit ctx" "unat (step_limit ctx) < n"
  shows "vm_call n ctx md fi args dep (frs, steps) \<noteq> None"
  unfolding vm_call_def using assms by (intro vm_call_with_not_None vm_loop_returns) auto

section \<open>Memory safety\<close>

text \<open>The arrays of a frame have the sizes of the C struct, and no array is longer than a pool row.\<close>

definition frame_ok :: "VmFrame \<Rightarrow> bool" where
  "frame_ok fr = (length (locals fr) = LIN_VM_MAX_LOCALS \<and> length (stack fr) = LIN_VM_MAX_STACK \<and>
     length (pool fr) = LIN_VM_MAX_ARRS \<and> (\<forall>row \<in> set (pool fr). length row = LIN_VM_MAX_ARR_LEN) \<and>
     length (pool_len fr) = LIN_VM_MAX_ARRS \<and> (\<forall>n \<in> set (pool_len fr). unat n \<le> LIN_VM_MAX_ARR_LEN))"

definition store_ok :: "VmFrameStore \<Rightarrow> bool" where
  "store_ok frs = (length frs = LIN_VM_MAX_DEPTH + 1 \<and> (\<forall>fr \<in> set frs. frame_ok fr))"

text \<open>What a loader checks of a function before it runs.\<close>

definition local_op :: "VmOp \<Rightarrow> bool" where
  "local_op o1 = (o1 \<in> {OP_LOAD_LOCAL, OP_STORE_LOCAL, OP_LOAD_INDEX, OP_STORE_INDEX, OP_ARR_LEN})"

definition fn_safe :: "VmFn \<Rightarrow> bool" where
  "fn_safe f = (nparams f \<le> LIN_VM_MAX_LOCALS \<and> length (arr_n f) \<le> LIN_VM_MAX_LOCALS \<and>
     (\<forall>n \<in> set (arr_n f). unat n \<le> LIN_VM_MAX_ARR_LEN) \<and>
     (\<forall>i \<in> set (code f). local_op (op i) \<longrightarrow> unat (opa i) < LIN_VM_MAX_LOCALS))"

lemma store_ok_nth: "store_ok frs \<Longrightarrow> d \<le> LIN_VM_MAX_DEPTH \<Longrightarrow> frame_ok (frs ! d)"
  by (simp add: store_ok_def)

lemma store_ok_update: "store_ok frs \<Longrightarrow> frame_ok fr \<Longrightarrow> store_ok (frs[d := fr])"
  by (auto simp: store_ok_def dest!: set_update_subset_insert [THEN subsetD])

lemma store_ok_alloc: "lin_vm_frames_alloc mem = Some frs \<Longrightarrow> store_ok frs"
  by (auto simp: lin_vm_frames_alloc_def store_ok_def frame_ok_def zero_frame_def split: if_splits)

lemma frame_ok_stack [simp]: "frame_ok (fr\<lparr>stack := (stack fr)[i := v]\<rparr>) = frame_ok fr"
  by (simp add: frame_ok_def)

lemma frame_ok_locals [simp]: "frame_ok (fr\<lparr>locals := (locals fr)[i := v]\<rparr>) = frame_ok fr"
  by (simp add: frame_ok_def)

lemma frame_ok_pool:
  "frame_ok fr \<Longrightarrow> slot < LIN_VM_MAX_ARRS \<Longrightarrow> frame_ok (fr\<lparr>pool := (pool fr)[slot := (pool fr ! slot)[ix := v]]\<rparr>)"
  by (auto simp: frame_ok_def dest!: set_update_subset_insert [THEN subsetD])

lemma frame_ok_array:
  assumes "frame_ok fr" "slot < LIN_VM_MAX_ARRS" "unat an \<le> LIN_VM_MAX_ARR_LEN"
  shows "frame_ok (fr\<lparr>pool_used := u, pool_len := (pool_len fr)[slot := an],
     pool := (pool fr)[slot := replicate (unat an) 0 @ drop (unat an) (pool fr ! slot)],
     locals := (locals fr)[li := v]\<rparr>)"
  using assms by (auto simp: frame_ok_def dest!: set_update_subset_insert [THEN subsetD])

lemma init_arrays_safe:
  assumes "\<forall>n \<in> set ans. unat n \<le> LIN_VM_MAX_ARR_LEN" "li + length ans \<le> LIN_VM_MAX_LOCALS" "frame_ok fr"
  shows "(\<exists>e. vm_init_arrays ans li fr = Inl (VmErr e)) \<or> (\<exists>fr'. vm_init_arrays ans li fr = Inr fr' \<and> frame_ok fr')"
  using assms
proof (induction ans li fr rule: vm_init_arrays.induct)
  case (2 an ans li fr)
  then show ?case by (auto simp: Let_def frame_ok_array)
qed simp

lemma init_args_safe:
  assumes "idx + length vs \<le> LIN_VM_MAX_LOCALS" "frame_ok fr"
  shows "\<exists>fr'. vm_init_args vs idx ans fr = Inr fr' \<and> frame_ok fr'"
  using assms by (induction vs idx ans fr rule: vm_init_args.induct) auto

lemma init_frame_safe:
  assumes "fn_safe f" "length args = nparams f" "frame_ok fr"
  shows "(\<exists>e. vm_init_frame f args fr = Inl (VmErr e)) \<or> (\<exists>fr'. vm_init_frame f args fr = Inr fr' \<and> frame_ok fr')"
proof -
  let ?fr = "fr\<lparr>locals := replicate LIN_VM_MAX_LOCALS 0, pool_used := 0, pool_len := replicate LIN_VM_MAX_ARRS 0\<rparr>"
  have "frame_ok ?fr" using assms by (auto simp: frame_ok_def)
  with assms have "(\<exists>e. vm_init_arrays (arr_n f) 0 ?fr = Inl (VmErr e))
      \<or> (\<exists>fr'. vm_init_arrays (arr_n f) 0 ?fr = Inr fr' \<and> frame_ok fr')"
    by (intro init_arrays_safe) (auto simp: fn_safe_def)
  with assms init_args_safe [of 0 args] show ?thesis by (auto simp: vm_init_frame_def fn_safe_def)
qed


lemma vm_need_cases:
  "vm_need k sp m = Inr nx \<longleftrightarrow> k \<le> sp \<and> m = Inr nx"
  "vm_need k sp m = Inl (VmFault x) \<longleftrightarrow> k \<le> sp \<and> m = Inl (VmFault x)"
  by (auto simp: vm_need_def)

lemma vm_local_cases:
  "vm_local a fr k = Inr nx \<longleftrightarrow> unat a < LIN_VM_MAX_LOCALS \<and> k (locals fr ! unat a) = Inr nx"
  "unat a < LIN_VM_MAX_LOCALS \<Longrightarrow> vm_local a fr k = k (locals fr ! unat a)"
  by (auto simp: vm_local_def)

lemma vm_push_cases:
  "vm_push v pc sp fr = Inr nx \<longleftrightarrow>
     sp < LIN_VM_MAX_STACK \<and> nx = Next pc (sp + 1) (fr\<lparr>stack := (stack fr)[sp := v]\<rparr>)"
  "vm_push v pc sp fr \<noteq> Inl (VmFault x)"
  by (auto simp: vm_push_def)

lemmas vm_ins_parts = vm_need_cases vm_local_cases vm_push_cases

lemmas vm_ins_defs = vm_load_index_def vm_store_index_def vm_arr_len_def vm_binary_ins_def vm_top_def

lemma frame_okD:
  assumes "frame_ok fr" "slot < LIN_VM_MAX_ARRS"
  shows "unat (pool_len fr ! slot) \<le> LIN_VM_MAX_ARR_LEN" "length (pool fr ! slot) = LIN_VM_MAX_ARR_LEN"
  using assms by (simp_all add: frame_ok_def)

lemma pool_hit_bound:
  assumes "frame_ok fr" "pool_hit fr slot ix"
  shows "unat ix < LIN_VM_MAX_ARR_LEN" "slot < LIN_VM_MAX_ARRS" "unat ix < unat (pool_len fr ! slot)"
proof -
  from assms show slot: "slot < LIN_VM_MAX_ARRS" by (simp add: pool_hit_def)
  note n = frame_okD(1) [OF assms(1) slot]
  from assms have ix: "0 \<le> sint ix" "sint ix < sint (ucast (pool_len fr ! slot) :: i64)"
    by (simp_all add: pool_hit_def word_sle_eq word_sless_alt)
  have "sint (ucast (pool_len fr ! slot) :: i64) = int (unat (pool_len fr ! slot))"
    using n by (subst sint_small) (simp_all add: lin_limits unsigned_ucast_eq take_bit_nat_eq_self)
  with ix sint_nonneg [of ix] have "int (unat ix) < int (unat (pool_len fr ! slot))" by simp
  then show "unat ix < unat (pool_len fr ! slot)" by (simp only: of_nat_less_iff)
  with n show "unat ix < LIN_VM_MAX_ARR_LEN" by simp
qed

lemma vm_abi_call_next:
  assumes "vm_abi_call ctx a pc sp fr = Inr nx" "sp \<le> LIN_VM_MAX_STACK"
  shows "\<exists>v sp'. sp' < LIN_VM_MAX_STACK \<and> nx = Next pc (sp' + 1) (fr\<lparr>stack := (stack fr)[sp' := v]\<rparr>)"
  using assms by (auto simp: vm_abi_call_def Let_def vm_push_cases split: if_splits prod.splits)

lemma vm_abi_call_no_fault: "vm_abi_call ctx a pc sp fr \<noteq> Inl (VmFault x)"
  by (auto simp: vm_abi_call_def Let_def vm_push_cases split: prod.splits)

lemma vm_ins_next:
  assumes run: "vm_ins ctx i pc sp fr = Inr (Next pc' sp' fr')" and ok: "frame_ok fr" "sp \<le> LIN_VM_MAX_STACK"
  shows "frame_ok fr' \<and> sp' \<le> LIN_VM_MAX_STACK"
proof (cases "op i = OP_ABI_CALL")
  case True
  with run ok show ?thesis by (auto simp: vm_ins_def Let_def dest!: vm_abi_call_next)
next
  case False
  with run ok show ?thesis
    by (cases "op i") (auto simp: vm_ins_def Let_def vm_ins_parts vm_ins_defs frame_ok_pool pool_hit_bound(2)
        split: if_splits sum.splits)
qed

lemma vm_ins_no_fault:
  assumes "frame_ok fr" "local_op (op i) \<Longrightarrow> unat (opa i) < LIN_VM_MAX_LOCALS"
  shows "vm_ins ctx i pc sp fr \<noteq> Inl (VmFault x)"
proof
  assume run: "vm_ins ctx i pc sp fr = Inl (VmFault x)"
  have "\<not> (pool_hit fr slot ix \<and> LIN_VM_MAX_ARR_LEN \<le> unat ix)" for slot ix
    using pool_hit_bound [OF assms(1)] by fastforce
  with assms run show False
    by (cases "op i") (auto simp: vm_ins_def Let_def vm_ins_parts vm_ins_defs vm_abi_call_no_fault local_op_def
        split: if_splits sum.splits)
qed


text \<open>The loop: a fault can only be the push of a call result on a full stack.\<close>

definition result_safe :: "bool \<Rightarrow> vm_result \<Rightarrow> bool" where
  "result_safe strict res =
     (case res of Inl (VmErr e, s) \<Rightarrow> True
      | Inl (VmFault x, s) \<Rightarrow> \<not> strict \<and> x = CallResult
      | Inr (r, frs, s) \<Rightarrow> store_ok frs)"

lemma vm_call_safe_from:
  assumes loop: "\<And>f frs res. vm_loop n ctx md f dep 0 0 (frs, steps) = Some res \<Longrightarrow> f \<in> set md \<Longrightarrow>
      store_ok frs \<Longrightarrow> dep \<le> LIN_VM_MAX_DEPTH \<Longrightarrow> result_safe strict res"
    and md: "\<forall>g \<in> set md. fn_safe g" and frs: "store_ok frs"
    and run: "vm_call n ctx md fi args dep (frs, steps) = Some res"
  shows "result_safe strict res"
  using run
proof (cases rule: vm_call_cases)
  case (init f e)
  then have "fn_safe f" "length args = nparams f" "dep \<le> LIN_VM_MAX_DEPTH"
    using md by (auto simp: vm_enter_def split: if_splits)
  with init frs init_frame_safe [of f args "frs ! dep"] show ?thesis
    by (auto simp: result_safe_def store_ok_nth)
next
  case (run f fr)
  then have "f \<in> set md" "fn_safe f" "length args = nparams f" "dep \<le> LIN_VM_MAX_DEPTH"
    using md by (auto simp: vm_enter_def split: if_splits)
  with run frs init_frame_safe [of f args "frs ! dep"] show ?thesis
    by (intro loop [OF run(3)]) (auto simp: store_ok_nth intro!: store_ok_update)
qed (simp add: result_safe_def)

lemma vm_loop_safe:
  assumes md: "\<forall>g \<in> set md. fn_safe g" "strict \<Longrightarrow> \<forall>g \<in> set md. 0 < nparams g"
  shows "vm_loop n ctx md f dep pc sp (frs, steps) = Some res \<Longrightarrow> f \<in> set md \<Longrightarrow> store_ok frs \<Longrightarrow>
    dep \<le> LIN_VM_MAX_DEPTH \<Longrightarrow> sp \<le> LIN_VM_MAX_STACK \<Longrightarrow> result_safe strict res"
proof (induction n arbitrary: f dep pc sp frs steps res)
  case (Suc n)
  note fr = store_ok_nth [OF Suc.prems(3,4)]
  have call: "result_safe strict res" if "vm_call n ctx md ti args d (frs, s) = Some res" for ti args d s res
    by (rule vm_call_safe_from [OF _ md(1) Suc.prems(3) that], rule Suc.IH, assumption+, rule le0)
  from Suc.prems(1) show ?case
  proof (cases rule: vm_loop_cases)
    case (call_stops ti k e)
    have "result_safe strict (Inl e)" by (rule call [OF call_stops(8)])
    with call_stops show ?thesis by simp
  next
    case (call_full ti k r frs' s)
    with Suc.prems(5) have "k = 0" by (simp add: lin_limits)
    moreover have "md ! ti \<in> set md" using call_full(5) by simp
    ultimately have "\<not> strict" using md(2) call_full(6) by (metis less_numeral_extra(3))
    with call_full show ?thesis by (simp add: result_safe_def)
  next
    case (call_returns ti k r frs' s)
    have "result_safe strict (Inr (r, frs', s))" by (rule call [OF call_returns(8)])
    then have "store_ok frs'" by (simp add: result_safe_def)
    with call_returns(9) Suc.prems show ?thesis
      by (intro Suc.IH [OF call_returns(10)]) (auto intro!: store_ok_update simp: store_ok_nth)
  next
    case (stops e)
    have "code f ! pc \<in> set (code f)" "fn_safe f" using stops(1) Suc.prems(2) md by auto
    then have "e \<noteq> VmFault x" for x
      using stops(4) vm_ins_no_fault [OF fr, of "code f ! pc" ctx "pc + 1" sp x] by (auto simp: fn_safe_def)
    with stops show ?thesis by (cases e) (auto simp: result_safe_def)
  next
    case (continues pc' sp' fr')
    with vm_ins_next [OF continues(4) fr Suc.prems(5)] Suc.prems show ?thesis
      by (intro Suc.IH [OF continues(5)]) (auto intro!: store_ok_update)
  qed (use Suc.prems in \<open>auto simp: result_safe_def\<close>)
qed simp

lemma vm_call_safe:
  assumes "\<forall>g \<in> set md. fn_safe g" "strict \<Longrightarrow> \<forall>g \<in> set md. 0 < nparams g" "store_ok frs"
    "vm_call n ctx md fi args dep (frs, steps) = Some res"
  shows "result_safe strict res"
  by (rule vm_call_safe_from [OF _ assms(1,3,4)], rule vm_loop_safe [OF assms(1,2)], assumption+, rule le0)

section \<open>Stale frames\<close>

text \<open>
  Two frames look the same to a running function when they agree on what it can read: locals,
  the stack below \<open>sp\<close>, and the arrays up to their lengths.
\<close>

definition frame_eq :: "nat \<Rightarrow> VmFrame \<Rightarrow> VmFrame \<Rightarrow> bool" where
  "frame_eq sp x y = (locals x = locals y \<and> pool_len x = pool_len y \<and> pool_used x = pool_used y \<and>
     (\<forall>i < sp. stack x ! i = stack y ! i) \<and>
     (\<forall>slot < LIN_VM_MAX_ARRS. \<forall>ix < unat (pool_len x ! slot). pool x ! slot ! ix = pool y ! slot ! ix))"

fun next_eq :: "vm_next \<Rightarrow> vm_next \<Rightarrow> bool" where
  "next_eq (Next pc sp x) (Next pc' sp' y) = (pc = pc' \<and> sp = sp' \<and> frame_eq sp x y)"
| "next_eq (Return r) (Return r') = (r = r')"
| "next_eq _ _ = False"

lemma frame_eq_stackD: "frame_eq sp x y \<Longrightarrow> i < sp \<Longrightarrow> stack x ! i = stack y ! i"
  by (simp add: frame_eq_def)

lemma frame_eq_less: "frame_eq sp x y \<Longrightarrow> sp' \<le> sp \<Longrightarrow> frame_eq sp' x y"
  by (simp add: frame_eq_def)

lemma frame_eq_set:
  assumes "frame_eq sp x y" "frame_ok x" "frame_ok y" "i \<le> sp" "sp' \<le> Suc i" "i < LIN_VM_MAX_STACK"
  shows "frame_eq sp' (x\<lparr>stack := (stack x)[i := v]\<rparr>) (y\<lparr>stack := (stack y)[i := v]\<rparr>)"
  using assms by (auto simp: frame_eq_def frame_ok_def nth_list_update)

lemma frame_eq_local:
  "frame_eq sp x y \<Longrightarrow> frame_eq sp (x\<lparr>locals := ls\<rparr>) (y\<lparr>locals := ls\<rparr>)"
  by (auto simp: frame_eq_def)

lemma frame_eq_pool:
  assumes "frame_eq sp x y" "frame_ok x" "frame_ok y" "slot < LIN_VM_MAX_ARRS"
  shows "frame_eq sp (x\<lparr>pool := (pool x)[slot := (pool x ! slot)[ix := v]]\<rparr>)
    (y\<lparr>pool := (pool y)[slot := (pool y ! slot)[ix := v]]\<rparr>)"
proof -
  have "(pool x ! slot)[ix := v] ! j = (pool y ! slot)[ix := v] ! j" if "j < unat (pool_len x ! slot)" for j
    using that assms(1,4) frame_okD [OF assms(2,4)] frame_okD [OF assms(3,4)]
    by (cases "ix < LIN_VM_MAX_ARR_LEN") (auto simp: frame_eq_def nth_list_update)
  with assms show ?thesis by (auto simp: frame_eq_def frame_ok_def nth_list_update)
qed

lemma pool_hit_eq: "frame_eq sp x y \<Longrightarrow> pool_hit x slot ix = pool_hit y slot ix"
  by (simp add: pool_hit_def frame_eq_def)

lemma pool_hit_read:
  "frame_eq sp x y \<Longrightarrow> frame_ok x \<Longrightarrow> pool_hit x slot ix \<Longrightarrow> pool x ! slot ! unat ix = pool y ! slot ! unat ix"
  using pool_hit_bound [of x slot ix] by (simp add: frame_eq_def)

lemma dispatch_stack_eq:
  assumes "\<forall>i < sp. s ! i = t ! i"
  shows "lin_abi2_dispatch c j (Some s) (Some sp) = lin_abi2_dispatch c j (Some t) (Some sp)"
proof -
  have eqs: "dispatch_region_capacity d s sp = dispatch_region_capacity d t sp"
    "dispatch_region_check_range d s sp = dispatch_region_check_range d t sp"
    "dispatch_region_load_byte d s sp = dispatch_region_load_byte d t sp" for d
    using assms by (auto simp: abi_handlers Let_def)
  have some: "(Some s = None) = False" "(Some t = None) = False" by simp_all
  show ?thesis unfolding lin_abi2_dispatch_def Let_def option.case prod.case eqs some ..
qed


lemma vm_push_eq:
  assumes "frame_eq sp x y" "frame_ok x" "frame_ok y" "sp' \<le> sp"
  shows "rel_sum (=) next_eq (vm_push v pc sp' x) (vm_push v pc sp' y)"
  using assms by (auto simp: vm_push_def intro!: frame_eq_set)

lemma vm_abi_call_eq:
  assumes "frame_eq sp x y" "frame_ok x" "frame_ok y"
  shows "rel_sum (=) next_eq (vm_abi_call ctx a pc sp x) (vm_abi_call ctx a pc sp y)"
proof -
  have d: "lin_abi2_dispatch c j (Some (stack x)) (Some sp) = lin_abi2_dispatch c j (Some (stack y)) (Some sp)" for c j
    by (intro dispatch_stack_eq) (use assms(1) in \<open>simp add: frame_eq_def\<close>)
  obtain r osp where r: "lin_abi2_dispatch (vm_abi ctx) (ucast a) (Some (stack y)) (Some sp) = (r, osp)"
    by fastforce
  then have "(case osp of None \<Rightarrow> sp | Some n \<Rightarrow> n) \<le> sp"
    using dispatch_pops [OF r] by (auto simp: pops_def)
  then show ?thesis
    unfolding vm_abi_call_def Let_def d r
    by (auto intro!: vm_push_eq [OF assms])
qed

lemma vm_ins_eq:
  assumes eq: "frame_eq sp x y" and ok: "frame_ok x" "frame_ok y" "sp \<le> LIN_VM_MAX_STACK"
  shows "rel_sum (=) next_eq (vm_ins ctx i pc sp x) (vm_ins ctx i pc sp y)"
proof -
  have l: "locals y = locals x" "pool_len y = pool_len x" using eq by (simp_all add: frame_eq_def)
  have t: "stack y ! (sp - k) = stack x ! (sp - k)" if "0 < k" "k \<le> sp" for k
    using eq that by (simp add: frame_eq_def)
  note parts = vm_need_def vm_local_def l t pool_hit_eq [OF eq, symmetric]
    pool_hit_read [OF eq ok(1), symmetric] vm_push_eq [OF eq ok(1,2)]
    frame_eq_set [OF eq ok(1,2)] frame_eq_local frame_eq_pool [OF _ ok(1,2)] frame_eq_less [OF eq] eq
  show ?thesis
    by (cases "op i") (use ok(3) in \<open>auto simp: vm_ins_def Let_def vm_ins_defs vm_abi_call_eq [OF eq ok(1,2)] parts
        not_less pool_hit_bound(2) [OF ok(1)] split: sum.splits\<close>)
qed


lemma init_arrays_eq:
  assumes "frame_eq 0 x y" "frame_ok x" "frame_ok y"
  shows "rel_sum (=) (frame_eq 0) (vm_init_arrays ans li x) (vm_init_arrays ans li y)"
  using assms
proof (induction ans li x arbitrary: y rule: vm_init_arrays.induct)
  case (2 an ans li x)
  have used: "pool_used y = pool_used x" using "2.prems"(1) by (simp add: frame_eq_def)
  show ?case
  proof (cases "an = 0 \<or> LIN_VM_MAX_ARRS \<le> pool_used x \<or> LIN_VM_MAX_ARR_LEN < unat an \<or> LIN_VM_MAX_LOCALS \<le> li")
    case True
    with 2 used show ?thesis by auto
  next
    case False
    let ?s = "pool_used x"
    let ?g = "\<lambda>f. f\<lparr>pool_used := ?s + 1, pool_len := (pool_len f)[?s := an],
       pool := (pool f)[?s := replicate (unat an) 0 @ drop (unat an) (pool f ! ?s)],
       locals := (locals f)[li := of_nat ?s]\<rparr>"
    have "frame_eq 0 (?g x) (?g y)"
      using "2.prems" False by (auto simp: frame_eq_def frame_ok_def nth_list_update nth_append)
    then have "rel_sum (=) (frame_eq 0) (vm_init_arrays ans (Suc li) (?g x)) (vm_init_arrays ans (Suc li) (?g y))"
      using False "2.prems" by (intro "2.IH"(2)) (auto intro!: frame_ok_array)
    with False used show ?thesis by (simp add: Let_def)
  qed
qed simp

lemma init_args_eq:
  assumes "frame_eq 0 x y"
  shows "rel_sum (=) (frame_eq 0) (vm_init_args vs idx ans x) (vm_init_args vs idx ans y)"
  using assms
proof (induction vs idx ans x arbitrary: y rule: vm_init_args.induct)
  case (2 v vs idx ans x)
  have "locals y = locals x" using "2.prems" by (simp add: frame_eq_def)
  with 2 show ?case by (auto intro!: frame_eq_local)
qed simp

lemma init_frame_eq:
  assumes "frame_ok x" "frame_ok y"
  shows "rel_sum (=) (frame_eq 0) (vm_init_frame f args x) (vm_init_frame f args y)"
proof -
  let ?g = "\<lambda>f. f\<lparr>locals := replicate LIN_VM_MAX_LOCALS 0, pool_used := 0, pool_len := replicate LIN_VM_MAX_ARRS 0\<rparr>"
  have "rel_sum (=) (frame_eq 0) (vm_init_arrays (arr_n f) 0 (?g x)) (vm_init_arrays (arr_n f) 0 (?g y))"
    using assms by (intro init_arrays_eq) (auto simp: frame_eq_def frame_ok_def)
  then show ?thesis
    unfolding vm_init_frame_def
    by (cases "vm_init_arrays (arr_n f) 0 (?g x)"; cases "vm_init_arrays (arr_n f) 0 (?g y)")
      (auto intro: init_args_eq)
qed

lemma init_arrays_ok: "vm_init_arrays ans li fr = Inr fr' \<Longrightarrow> frame_ok fr \<Longrightarrow> frame_ok fr'"
  by (induction ans li fr rule: vm_init_arrays.induct)
    (auto simp: Let_def frame_ok_array not_le split: if_splits)

lemma init_args_ok: "vm_init_args vs idx ans fr = Inr fr' \<Longrightarrow> frame_ok fr \<Longrightarrow> frame_ok fr'"
  by (induction vs idx ans fr rule: vm_init_args.induct) (auto split: if_splits)

lemma init_frame_ok: "vm_init_frame f args fr = Inr fr' \<Longrightarrow> frame_ok fr \<Longrightarrow> frame_ok fr'"
  by (auto simp: vm_init_frame_def dest!: init_arrays_ok init_args_ok) (auto simp: frame_ok_def)

text \<open>Results agree when they are the same up to the frames left behind.\<close>

definition same_result :: "vm_result option \<Rightarrow> vm_result option \<Rightarrow> bool" where
  "same_result = rel_option (rel_sum (=) (\<lambda>(r, frs, s) (r', frs', s'). r = r' \<and> s = s' \<and> store_ok frs \<and> store_ok frs'))"

lemma same_result_map:
  "same_result m m' \<Longrightarrow> map_option (map_sum f (\<lambda>p. (fst p, snd (snd p)))) m
     = map_option (map_sum f (\<lambda>p. (fst p, snd (snd p)))) m'"
  by (cases m; cases m') (auto simp: same_result_def rel_sum_simps elim!: rel_sum.cases)

lemma vm_call_same_from:
  assumes loop: "\<And>f x y. store_ok x \<Longrightarrow> store_ok y \<Longrightarrow> dep \<le> LIN_VM_MAX_DEPTH \<Longrightarrow> frame_eq 0 (x ! dep) (y ! dep) \<Longrightarrow>
      same_result (vm_loop n ctx md f dep 0 0 (x, steps)) (vm_loop n ctx md f dep 0 0 (y, steps))"
    and ok: "store_ok x" "store_ok y"
  shows "same_result (vm_call n ctx md fi args dep (x, steps)) (vm_call n ctx md fi args dep (y, steps))"
proof (cases "vm_enter md fi (length args) dep")
  case (Inl e)
  then show ?thesis by (simp add: vm_call_def vm_call_with_def same_result_def)
next
  case (Inr f)
  then have d: "dep \<le> LIN_VM_MAX_DEPTH" by (simp add: vm_enter_def split: if_splits)
  note fr = store_ok_nth [OF ok(1) d] store_ok_nth [OF ok(2) d]
  from init_frame_eq [OF fr, of f args] consider e where
      "vm_init_frame f args (x ! dep) = Inl e" "vm_init_frame f args (y ! dep) = Inl e"
    | a b where "vm_init_frame f args (x ! dep) = Inr a" "vm_init_frame f args (y ! dep) = Inr b" "frame_eq 0 a b"
    by (cases rule: rel_sum.cases) auto
  then show ?thesis
  proof cases
    case 1
    with Inr show ?thesis by (simp add: vm_call_def vm_call_with_def same_result_def)
  next
    case 2
    have "same_result (vm_loop n ctx md f dep 0 0 (x[dep := a], steps)) (vm_loop n ctx md f dep 0 0 (y[dep := b], steps))"
      using 2 d ok fr by (intro loop store_ok_update) (auto simp: store_ok_def intro: init_frame_ok)
    with Inr 2 show ?thesis by (simp add: vm_call_def vm_call_with_def)
  qed
qed

lemma same_result_then:
  assumes "same_result m m'"
    and "\<And>r x y s. m = Some (Inr (r, x, s)) \<Longrightarrow> m' = Some (Inr (r, y, s)) \<Longrightarrow> store_ok x \<Longrightarrow> store_ok y \<Longrightarrow>
      same_result (k (r, x, s)) (k' (r, y, s))"
  shows "same_result (opt_then m k) (opt_then m' k')"
  using assms unfolding same_result_def
  by (cases "(m, k)" rule: opt_then.cases; cases "(m', k')" rule: opt_then.cases) auto

lemma vm_loop_same:
  "store_ok x \<Longrightarrow> store_ok y \<Longrightarrow> dep \<le> LIN_VM_MAX_DEPTH \<Longrightarrow> sp \<le> LIN_VM_MAX_STACK \<Longrightarrow> frame_eq sp (x ! dep) (y ! dep) \<Longrightarrow>
   same_result (vm_loop n ctx md f dep pc sp (x, steps)) (vm_loop n ctx md f dep pc sp (y, steps))"
proof (induction n arbitrary: f dep pc sp x y steps)
  case (Suc n)
  note fr = store_ok_nth [OF Suc.prems(1,3)] store_ok_nth [OF Suc.prems(2,3)]
  have len: "length x = LIN_VM_MAX_DEPTH + 1" "length y = LIN_VM_MAX_DEPTH + 1"
    using Suc.prems(1,2) by (simp_all add: store_ok_def)
  let ?ti = "unat (opa (code f ! pc))"
  let ?k = "nparams (md ! ?ti)"
  consider "\<not> (pc < length (code f) \<and> steps + 1 \<le> step_limit ctx)"
    | "pc < length (code f)" "steps + 1 \<le> step_limit ctx" "op (code f ! pc) = OP_CALL" "\<not> (?ti < length md \<and> ?k \<le> sp)"
    | "pc < length (code f)" "steps + 1 \<le> step_limit ctx" "op (code f ! pc) = OP_CALL" "?ti < length md" "?k \<le> sp"
    | "pc < length (code f)" "steps + 1 \<le> step_limit ctx" "op (code f ! pc) \<noteq> OP_CALL" by blast
  then show ?case
  proof cases
    case 1
    with Suc.prems show ?thesis by (auto simp: vm_loop.simps(2) Let_def same_result_def not_le)
  next
    case 2
    then show ?thesis by (auto simp: vm_loop.simps(2) Let_def same_result_def not_less [symmetric])
  next
    case 3
    have args: "take ?k (drop (sp - ?k) (stack (x ! dep))) = take ?k (drop (sp - ?k) (stack (y ! dep)))"
      using Suc.prems(4,5) fr 3 by (intro nth_equalityI) (auto simp: frame_ok_def frame_eq_def)
    have call: "same_result (vm_call n ctx md ?ti args (dep + 1) (x, steps + 1)) (vm_call n ctx md ?ti args (dep + 1) (y, steps + 1))"
      for args by (rule vm_call_same_from [OF _ Suc.prems(1,2)], rule Suc.IH, assumption+, rule le0)
    show ?thesis
      unfolding vm_loop_call [OF 3(1-3) refl 3(4) refl 3(5)] args
    proof (rule same_result_then [OF call], goal_cases)
      case (1 r x' y' s)
      have keep: "x' ! dep = x ! dep" "y' ! dep = y ! dep"
        using 1 vm_call_frames by (auto dest!: vm_call_frames)
      have l: "length x' = LIN_VM_MAX_DEPTH + 1" "length y' = LIN_VM_MAX_DEPTH + 1"
        using 1 by (simp_all add: store_ok_def)
      show ?case
      proof (cases "LIN_VM_MAX_STACK \<le> sp - ?k")
        case False
        with 1 keep l fr Suc.prems show ?thesis
          by (auto intro!: Suc.IH store_ok_update frame_eq_set)
      qed (simp add: same_result_def)
    qed
  next
    case 4
    from vm_ins_eq [OF Suc.prems(5) fr Suc.prems(4), of ctx "code f ! pc" "pc + 1"]
    consider e where "vm_ins ctx (code f ! pc) (pc + 1) sp (x ! dep) = Inl e"
        "vm_ins ctx (code f ! pc) (pc + 1) sp (y ! dep) = Inl e"
      | u v where "vm_ins ctx (code f ! pc) (pc + 1) sp (x ! dep) = Inr u"
          "vm_ins ctx (code f ! pc) (pc + 1) sp (y ! dep) = Inr v" "next_eq u v"
      by (cases rule: rel_sum.cases) auto
    then show ?thesis
    proof cases
      case 1
      with 4 show ?thesis by (simp add: vm_loop_ins same_result_def)
    next
      case 2
      from 2(3) show ?thesis
      proof (cases rule: next_eq.elims(2))
        case (1 p q a p' q' b)
        with 2 4 vm_ins_next [of ctx "code f ! pc" "pc + 1" sp "x ! dep" p q a] vm_ins_next [of ctx "code f ! pc" "pc + 1" sp "y ! dep" p q b]
          fr len Suc.prems show ?thesis
          by (auto simp: vm_loop_ins intro!: Suc.IH store_ok_update)
      next
        case (2 r)
        with \<open>vm_ins ctx (code f ! pc) (pc + 1) sp (x ! dep) = Inr u\<close>
          \<open>vm_ins ctx (code f ! pc) (pc + 1) sp (y ! dep) = Inr v\<close> 4 Suc.prems
        show ?thesis by (simp add: vm_loop_ins same_result_def)
      qed
    qed
  qed
qed (simp add: same_result_def)

lemma vm_call_same:
  assumes "store_ok x" "store_ok y"
  shows "same_result (vm_call n ctx md fi args dep (x, steps)) (vm_call n ctx md fi args dep (y, steps))"
  by (rule vm_call_same_from [OF _ assms], rule vm_loop_same, assumption+, rule le0)

section \<open>The entry point\<close>

lemma vm_abi_call_frames_field: "vm_abi_call (ctx\<lparr>frames := z\<rparr>) = vm_abi_call ctx"
proof -
  have f: "vm_abi (ctx\<lparr>frames := z\<rparr>) = vm_abi ctx" "vm_regions (ctx\<lparr>frames := z\<rparr>) = vm_regions ctx"
    "vm_profile (ctx\<lparr>frames := z\<rparr>) = vm_profile ctx" "vm_abi_version (ctx\<lparr>frames := z\<rparr>) = vm_abi_version ctx"
    by simp_all
  show ?thesis unfolding vm_abi_call_def [abs_def] vm_validate_abi_call_context_def f ..
qed

lemma vm_ins_frames_field: "vm_ins (ctx\<lparr>frames := z\<rparr>) = vm_ins ctx"
  unfolding vm_ins_def [abs_def] vm_abi_call_frames_field ..

lemma vm_loop_frames_field: "vm_loop n (ctx\<lparr>frames := z\<rparr>) = vm_loop n ctx"
proof (induction n)
  case 0
  show ?case by (intro ext) simp
next
  case (Suc n)
  have "step_limit (ctx\<lparr>frames := z\<rparr>) = step_limit ctx" by simp
  then show ?case by (intro ext) (simp only: vm_loop.simps(2) Suc vm_ins_frames_field)
qed

lemma vm_call_frames_field [simp]: "vm_call n (ctx\<lparr>frames := z\<rparr>) = vm_call n ctx"
  by (intro ext) (simp add: vm_call_def vm_loop_frames_field)

lemma vm_call_guard: "vm_enter md fi (length args) dep = Inl e \<Longrightarrow> vm_call n ctx md fi args dep st = Some (Inl (VmErr e, snd st))"
  by (simp add: vm_call_def vm_call_with_def)

lemma vm_exec_ctx_store:
  assumes "vm_module ctx = Some md" "frames ctx = Some frs"
  shows "vm_exec_ctx mem (Some ctx) fi args dep (Some steps) =
    map_option (map_sum (map_prod id Some) (\<lambda>(r, frs', s). (r, Some frs', s)))
      (vm_call (unat (step_limit ctx) + 2) ctx md fi args dep (frs, steps))"
  using assms
  by (auto simp: vm_exec_ctx_def Let_def option.map_comp sum.map_comp comp_def vm_call_guard map_sum.simps
      split: sum.split)

lemma vm_exec_ctx_alloc:
  assumes "vm_module ctx = Some md" "frames ctx = None"
  shows "vm_exec_ctx True (Some ctx) fi args dep (Some steps) =
    map_option (map_sum (map_prod id Some) (\<lambda>(r, _, s). (r, None, s)))
      (vm_call (unat (step_limit ctx) + 2) ctx md fi args dep (replicate (LIN_VM_MAX_DEPTH + 1) zero_frame, steps))"
  using assms
  by (auto simp: vm_exec_ctx_def lin_vm_frames_alloc_def Let_def option.map_comp sum.map_comp comp_def vm_call_guard
      split: sum.split)

lemma vm_exec_ctx_result [consumes 3, case_names no_memory ran]:
  assumes run: "vm_exec_ctx mem (Some ctx) fi args dep (Some steps) = Some res"
    and md: "vm_module ctx = Some md" and frs: "pred_option store_ok (frames ctx)"
  obtains (no_memory) e where "res = Inl (VmErr e, Some steps)"
  | (ran) frs res' where "store_ok frs"
      "vm_call (unat (step_limit ctx) + 2) ctx md fi args dep (frs, steps) = Some res'"
      "map_sum id (\<lambda>(r, f, s). (r, s)) res = map_sum (map_prod id Some) (\<lambda>(r, f, s). (r, s)) res'"
proof (cases "frames ctx")
  case (Some x)
  obtain z where z: "vm_call (unat (step_limit ctx) + 2) ctx md fi args dep (x, steps) = Some z"
    and res: "res = map_sum (map_prod id Some) (\<lambda>(r, frs', s). (r, Some frs', s)) z"
    using run by (auto simp: vm_exec_ctx_store [OF md Some])
  show ?thesis
    by (rule ran [OF _ z], use frs Some in simp) (simp add: res sum.map_comp comp_def split_def)
next
  case None
  let ?x = "replicate (LIN_VM_MAX_DEPTH + 1) zero_frame"
  show ?thesis
  proof (cases mem)
    case True
    have ok: "store_ok ?x" using store_ok_alloc [of True] by (simp add: lin_vm_frames_alloc_def)
    obtain z where z: "vm_call (unat (step_limit ctx) + 2) ctx md fi args dep (?x, steps) = Some z"
      and res: "res = map_sum (map_prod id Some) (\<lambda>(r, frs', s). (r, None, s)) z"
      using run True by (auto simp: vm_exec_ctx_alloc [OF md None])
    show ?thesis
      by (rule ran [OF ok z]) (simp add: res sum.map_comp comp_def split_def)
  next
    case False
    with run md None show ?thesis
      by (auto simp: vm_exec_ctx_def lin_vm_frames_alloc_def Let_def intro: no_memory split: sum.splits)
  qed
qed

section \<open>The unchecked push\<close>

text \<open>
  A module every loader check accepts: the first function fills its stack with 256 constants
  and then calls the second one, which takes no parameter.
\<close>

definition overflow_callee :: VmFn where
  "overflow_callee = \<lparr>fn_name = ''g'', nparams = 0, nlocals = 0,
     code = [\<lparr>op = OP_PUSH_CONST, opa = 7\<rparr>, \<lparr>op = OP_RET, opa = 0\<rparr>],
     sig_ok = True, fn_ok = True, reject = [], arr_n = []\<rparr>"

definition overflow_caller :: VmFn where
  "overflow_caller = \<lparr>fn_name = ''f'', nparams = 0, nlocals = 0,
     code = replicate 256 \<lparr>op = OP_PUSH_CONST, opa = 0\<rparr> @ [\<lparr>op = OP_CALL, opa = 1\<rparr>, \<lparr>op = OP_RET, opa = 0\<rparr>],
     sig_ok = True, fn_ok = True, reject = [], arr_n = []\<rparr>"

definition overflow_module :: VmModule where
  "overflow_module = [overflow_caller, overflow_callee]"

lemma small_steps: "k \<le> 300 \<Longrightarrow> (of_nat k :: u64) \<le> LIN_VM_STEP_LIMIT"
  by (simp add: LIN_VM_STEP_LIMIT_def word_le_nat_alt unsigned_of_nat take_bit_nat_eq_self)

lemma overflow_pushes:
  assumes "step_limit ctx = LIN_VM_STEP_LIMIT" "store_ok x" "j \<le> 256"
  shows "\<exists>y. store_ok y \<and> vm_loop (n + j) ctx md overflow_caller 0 0 0 (x, 0)
    = vm_loop n ctx md overflow_caller 0 j j (y, of_nat j)"
  using assms(3)
proof (induction j arbitrary: n)
  case 0
  with assms show ?case by auto
next
  case (Suc j)
  then obtain y where y: "store_ok y" "vm_loop (Suc n + j) ctx md overflow_caller 0 0 0 (x, 0)
      = vm_loop (Suc n) ctx md overflow_caller 0 j j (y, of_nat j)"
    using Suc.IH [of "Suc n"] Suc_leD by blast
  have ins: "code overflow_caller ! j = \<lparr>op = OP_PUSH_CONST, opa = 0\<rparr>" "j < length (code overflow_caller)"
    using Suc.prems by (simp_all add: overflow_caller_def nth_append)
  let ?y = "y[0 := (y ! 0)\<lparr>stack := (stack (y ! 0))[j := 0]\<rparr>]"
  have "of_nat j + 1 \<le> step_limit ctx"
    using small_steps [of "Suc j"] Suc.prems assms(1) by (simp add: add.commute)
  then have "vm_loop (Suc n) ctx md overflow_caller 0 j j (y, of_nat j)
      = vm_loop n ctx md overflow_caller 0 (Suc j) (Suc j) (?y, of_nat (Suc j))"
    using ins Suc.prems by (simp add: vm_loop_ins vm_ins_def vm_push_def lin_limits add.commute)
  moreover have "store_ok ?y" using y(1) by (intro store_ok_update) (simp_all add: store_ok_nth)
  ultimately show ?case using y(2) by (auto intro!: exI [of _ ?y])
qed

lemma overflow_callee_run:
  assumes "step_limit ctx = LIN_VM_STEP_LIMIT" "store_ok y" "k \<le> 290"
  shows "\<exists>y'. vm_call (Suc (Suc n)) ctx overflow_module 1 [] 1 (y, of_nat k)
    = Some (Inr (\<lparr>res_val = 7, sp_at_ret = 1\<rparr>, y', of_nat (k + 2)))"
proof -
  let ?fr = "(y ! 1)\<lparr>locals := replicate LIN_VM_MAX_LOCALS 0, pool_used := 0, pool_len := replicate LIN_VM_MAX_ARRS 0\<rparr>"
  have e: "vm_enter overflow_module 1 0 1 = Inr overflow_callee"
    by (simp add: vm_enter_def overflow_module_def overflow_callee_def lin_limits)
  have i: "vm_init_frame overflow_callee [] (y ! 1) = Inr ?fr"
    by (simp add: vm_init_frame_def overflow_callee_def)
  have l: "1 < length y" "length (stack (y ! 1)) = 256"
    using assms(2) store_ok_nth [OF assms(2), of 1] by (simp_all add: store_ok_def frame_ok_def lin_limits)
  have s: "of_nat k + 1 \<le> step_limit ctx" "of_nat k + 1 + 1 \<le> step_limit ctx"
    using small_steps [of "k + 1"] small_steps [of "k + 2"] assms(1,3) by (simp_all add: algebra_simps)
  have c: "code overflow_callee = [\<lparr>op = OP_PUSH_CONST, opa = 7\<rparr>, \<lparr>op = OP_RET, opa = 0\<rparr>]"
    by (simp add: overflow_callee_def)
  show ?thesis
    unfolding vm_call_def vm_call_with_def
    using l s by (simp add: e [simplified] i [simplified] c vm_loop_ins vm_ins_def vm_push_def vm_need_def lin_limits algebra_simps)
qed

lemma overflow_run:
  assumes "step_limit ctx = LIN_VM_STEP_LIMIT" "store_ok x"
  shows "vm_call 259 ctx overflow_module 0 [] 0 (x, 0) = Some (Inl (VmFault CallResult, 259))"
proof -
  let ?fr = "(x ! 0)\<lparr>locals := replicate LIN_VM_MAX_LOCALS 0, pool_used := 0, pool_len := replicate LIN_VM_MAX_ARRS 0\<rparr>"
  have e: "vm_enter overflow_module 0 0 0 = Inr overflow_caller"
    by (simp add: vm_enter_def overflow_module_def overflow_caller_def lin_limits)
  have i: "vm_init_frame overflow_caller [] (x ! 0) = Inr ?fr"
    by (simp add: vm_init_frame_def overflow_caller_def)
  have "store_ok (x[0 := ?fr])"
    using assms(2) store_ok_nth [OF assms(2), of 0] by (intro store_ok_update) (auto simp: frame_ok_def)
  from overflow_pushes [OF assms(1) this, of 256 3 overflow_module] obtain y where y: "store_ok y"
    "vm_loop 259 ctx overflow_module overflow_caller 0 0 0 (x[0 := ?fr], 0)
      = vm_loop 3 ctx overflow_module overflow_caller 0 256 256 (y, of_nat 256)" by auto
  obtain y' where c: "vm_call (Suc (Suc 0)) ctx overflow_module 1 [] 1 (y, of_nat 257)
      = Some (Inr (\<lparr>res_val = 7, sp_at_ret = 1\<rparr>, y', of_nat (257 + 2)))"
    using overflow_callee_run [OF assms(1) y(1), of 257 0] by auto
  have s: "of_nat 256 + 1 \<le> step_limit ctx" using small_steps [of 257] assms(1) by simp
  have "vm_loop (Suc 2) ctx overflow_module overflow_caller 0 256 256 (y, of_nat 256)
      = Some (Inl (VmFault CallResult, 259))"
    by (subst vm_loop_call [OF _ s _ refl _ refl])
      (use c in \<open>simp_all add: overflow_caller_def overflow_module_def overflow_callee_def nth_append lin_limits numeral_2_eq_2\<close>)
  then show ?thesis
    unfolding vm_call_def vm_call_with_def by (simp add: e i y(2) numeral_3_eq_3 numeral_2_eq_2)
qed

lemma overflow_exec:
  assumes "step_limit ctx = LIN_VM_STEP_LIMIT" "vm_module ctx = Some overflow_module" "frames ctx = None"
  shows "vm_exec_ctx True (Some ctx) 0 [] 0 (Some 0) = Some (Inl (VmFault CallResult, Some 259))"
proof -
  let ?x = "replicate (LIN_VM_MAX_DEPTH + 1) zero_frame"
  have ok: "store_ok ?x" using store_ok_alloc [of True] by (simp add: lin_vm_frames_alloc_def)
  have "259 \<le> unat (step_limit ctx) + 2" using assms(1) by (simp add: LIN_VM_STEP_LIMIT_def)
  note run = vm.stable [where x = "(0, [], 0, ?x, 0)", unfolded prod.case, OF overflow_run [OF assms(1) ok] this]
  show ?thesis unfolding vm_exec_ctx_alloc [OF assms(2,3)] run by simp
qed

lemma overflow_module_safe: "\<forall>f \<in> set overflow_module. fn_safe f"
  by (auto simp: overflow_module_def overflow_caller_def overflow_callee_def fn_safe_def local_op_def)

lemma vm_exec_ctx_faults:
  assumes "vm_exec_ctx mem (Some ctx) fi args dep (Some steps) = Some (Inl (VmFault x, s))"
    "vm_module ctx = Some md" "\<forall>f \<in> set md. fn_safe f" "pred_option store_ok (frames ctx)"
  shows "x = CallResult \<and> (\<exists>f \<in> set md. nparams f = 0)"
  using assms(1,2,4)
proof (cases rule: vm_exec_ctx_result)
  case (ran frs res')
  then obtain s' where "res' = Inl (VmFault x, s')" by (cases res') auto
  then have f: "\<not> result_safe True res'" "result_safe False res' \<Longrightarrow> x = CallResult"
    by (simp_all add: result_safe_def)
  from f(2) have "x = CallResult" using vm_call_safe [OF assms(3) _ ran(1,2), of False] by simp
  moreover have "\<not> (\<forall>g \<in> set md. 0 < nparams g)"
    using f(1) vm_call_safe [OF assms(3) _ ran(1,2), of True] by blast
  ultimately show ?thesis by auto
qed auto

lemma vm_exec_faults:
  assumes "vm_exec mem (Some md) fi args dep (Some steps) = Some (Inl (VmFault x, s))" "\<forall>f \<in> set md. fn_safe f"
  shows "x = CallResult \<and> (\<exists>f \<in> set md. nparams f = 0)"
  using vm_exec_ctx_faults [OF assms(1) [unfolded vm_exec_def] _ assms(2)] by simp

section \<open>Properties\<close>

lemma vm_exec_returns:
  assumes "steps \<le> LIN_VM_STEP_LIMIT"
  shows "\<exists>res. vm_exec mem (Some md) fi args dep (Some steps) = Some res"
proof -
  let ?ctx = "\<lparr>vm_module = Some md, vm_regions = None, vm_abi = None, step_limit = LIN_VM_STEP_LIMIT,
     vm_profile = LIN_VM_PROFILE_LINVM1, vm_abi_version = LIN_HOST_ABI_1, frames = None\<rparr>"
  have lim: "step_limit ?ctx < - 1" by (simp add: LIN_VM_STEP_LIMIT_def)
  have ret: "vm_call (unat (step_limit ?ctx) + 2) ?ctx md fi args dep (frs, steps) \<noteq> None" for frs
    using assms by (intro vm_call_returns [OF lim]) simp_all
  have "vm_exec mem (Some md) fi args dep (Some steps) \<noteq> None"
    unfolding vm_exec_def vm_exec_ctx_def using ret by (simp add: Let_def split: sum.split option.split)
  then show ?thesis by blast
qed



text \<open>
  Frame isolation. A run at depth \<open>dep\<close> over the caller's frame store changes neither
  the size of the store nor any frame below \<open>dep\<close>: a callee cannot touch the locals, the
  stack or the arrays of the functions that called it.
\<close>
theorem vm_exec_ctx_isolates_callers:
  assumes "vm_exec_ctx mem (Some ctx) fi args dep (Some steps) = Some (Inr (r, Some frs', s))"
    "vm_module ctx = Some md" "frames ctx = Some frs"
  shows "length frs' = length frs \<and> (\<forall>d < dep. frs' ! d = frs ! d)"
proof -
  from assms obtain z where z: "vm_call (unat (step_limit ctx) + 2) ctx md fi args dep (frs, steps) = Some z"
    "map_sum (map_prod id Some) (\<lambda>(r, f, s). (r, Some f, s)) z = Inr (r, Some frs', s)"
    by (auto simp: vm_exec_ctx_store)
  then have "z = Inr (r, frs', s)" by (cases z) auto
  with z vm_call_frames show ?thesis by blast
qed

theorem vm_exec_ctx_isolates_callers_witness:
  "\<exists>frs'. length frs' = 2 \<and> frs' ! 0 = zero_frame"
proof -
  let ?f = "\<lparr>fn_name = ''g'', nparams = 0, nlocals = 0, code = [], sig_ok = True, fn_ok = True, reject = [], arr_n = []\<rparr>"
  let ?fr = "zero_frame\<lparr>locals := replicate LIN_VM_MAX_LOCALS 0, pool_used := 0, pool_len := replicate LIN_VM_MAX_ARRS 0\<rparr>"
  let ?ctx = "\<lparr>vm_module = Some [?f], vm_regions = None, vm_abi = None, step_limit = 9, vm_profile = 1,
     vm_abi_version = 1, frames = Some [zero_frame, zero_frame]\<rparr>"
  have "vm_exec_ctx True (Some ?ctx) 0 [] 1 (Some 0)
      = Some (Inr (\<lparr>res_val = 0, sp_at_ret = 0\<rparr>, Some [zero_frame, ?fr], 0))"
    by (simp add: vm_exec_ctx_store vm_call_def vm_call_with_def vm_enter_def vm_init_frame_def
        vm_loop_exhausted lin_limits)
  from vm_exec_ctx_isolates_callers [OF this, of "[?f]" "[zero_frame, zero_frame]"]
  have "length [zero_frame, ?fr] = 2 \<and> [zero_frame, ?fr] ! 0 = zero_frame" by simp
  then show ?thesis by (rule exI)
qed


text \<open>
  C22: memory safety. On a module whose functions have in-range local operands, at most 64
  parameters and array locals, and arrays of at most 256 cells, over a store of the right
  shape, no access of an execution leaves the \<open>locals\<close>, \<open>stack\<close> or \<open>pool\<close>
  arrays, with one exception: the push of a call result on a full stack. If every function
  takes a parameter, that cannot happen either.
\<close>
theorem vm_exec_ctx_memory_safe:
  assumes "vm_exec_ctx mem (Some ctx) fi args dep (Some steps) = Some (Inl (VmFault x, s))"
    "vm_module ctx = Some md" "\<forall>f \<in> set md. fn_safe f" "pred_option store_ok (frames ctx)"
  shows "x = CallResult \<and> (\<exists>f \<in> set md. nparams f = 0)"
  using assms by (rule vm_exec_ctx_faults)

theorem vm_exec_ctx_memory_safe_witness:
  "\<exists>f \<in> set overflow_module. nparams f = 0"
  using vm_exec_ctx_memory_safe [OF overflow_exec [where ctx = "\<lparr>vm_module = Some overflow_module, vm_regions = None,
      vm_abi = None, step_limit = LIN_VM_STEP_LIMIT, vm_profile = 1, vm_abi_version = 1, frames = None\<rparr>"]
      _ overflow_module_safe]
  by simp


text \<open>
  No leaks through reused frames. What a run returns, error or value and step count, is
  the same over any two well-shaped frame stores, and the same as over freshly allocated
  zeroed frames: stale locals, stack slots and arrays of earlier runs are never read.
\<close>
theorem vm_exec_ctx_ignores_stale_frames:
  assumes "store_ok x" "vm_module ctx = Some md"
  shows "map_option (map_sum id (\<lambda>(r, _, s). (r, s)))
      (vm_exec_ctx mem (Some (ctx\<lparr>frames := Some x\<rparr>)) fi args dep (Some steps))
    = map_option (map_sum id (\<lambda>(r, _, s). (r, s)))
      (vm_exec_ctx True (Some (ctx\<lparr>frames := None\<rparr>)) fi args dep (Some steps))"
proof -
  let ?y = "replicate (LIN_VM_MAX_DEPTH + 1) zero_frame"
  have "store_ok ?y" using store_ok_alloc [of True] by (simp add: lin_vm_frames_alloc_def)
  then have "same_result (vm_call n ctx md fi args dep (x, steps)) (vm_call n ctx md fi args dep (?y, steps))" for n
    using assms by (intro vm_call_same)
  then have "map_option (map_sum f (\<lambda>p. (fst p, snd (snd p)))) (vm_call n ctx md fi args dep (x, steps))
      = map_option (map_sum f (\<lambda>p. (fst p, snd (snd p)))) (vm_call n ctx md fi args dep (?y, steps))" for n f
    by (rule same_result_map)
  with assms(2) show ?thesis
    by (simp add: vm_exec_ctx_store vm_exec_ctx_alloc option.map_comp sum.map_comp comp_def split_def)
qed

theorem vm_exec_ctx_ignores_stale_frames_witness:
  "map_option (map_sum id (\<lambda>(r, _, s). (r, s)))
     (vm_exec_ctx True (Some \<lparr>vm_module = Some overflow_module, vm_regions = None, vm_abi = None,
        step_limit = LIN_VM_STEP_LIMIT, vm_profile = 1, vm_abi_version = 1,
        frames = Some (replicate 193 zero_frame)\<rparr>) 0 [] 0 (Some 0))
   = Some (Inl (VmFault CallResult, Some 259))"
proof -
  let ?ctx = "\<lparr>vm_module = Some overflow_module, vm_regions = None, vm_abi = None,
        step_limit = LIN_VM_STEP_LIMIT, vm_profile = 1, vm_abi_version = 1, frames = None\<rparr>"
  have "store_ok (replicate 193 zero_frame)"
    using store_ok_alloc [of True] by (simp add: lin_vm_frames_alloc_def LIN_VM_MAX_DEPTH_def)
  from vm_exec_ctx_ignores_stale_frames [OF this, of ?ctx overflow_module True 0 "[]" 0 0] overflow_exec [of ?ctx]
  show ?thesis by simp
qed

text \<open>
  C37: the exception is real. \<open>OP_CALL\<close> pushes the result of the callee without the
  \<open>LIN_VM_MAX_STACK\<close> check of every other push: a caller with a full stack that calls a
  function without parameters writes one cell past \<open>stack\<close>, although every operand of the
  module is in range.
\<close>
theorem vm_call_result_overflows_stack:
  "list_all fn_safe overflow_module \<and>
   vm_exec True (Some overflow_module) 0 [] 0 (Some 0) = Some (Inl (VmFault CallResult, Some 259))"
  by (simp add: overflow_module_safe list_all_iff vm_exec_def overflow_exec)

end
