(* ===== verification/Lin_Linbc1.thy ===== *)
theory Lin_Linbc1
  imports Lin_Codec Lin_Sha256 Lin_Vm_Safety
begin

text \<open>
  \<open>transpile/c/lin_c/lin_linbc1.h\<close> and \<open>lin_linbc1.c\<close>, the fail-closed loader of
  LINBC1 bytecode images: one function per loop of \<open>lin_bc1_load\<close>, in the order of the
  sections of the image (strings, regions, ABI ids, functions with their arrays and code),
  then the self-hash.

  \<^item> An error return leaves \<open>*out\<close> without meaning, so the model returns the materialised
    module on \<open>LIN_BC1_OK\<close> only.
  \<^item> The name of a function points into the image; with its length from \<open>name_len\<close> that
    is a slice of the image, which the model stores.
\<close>

section \<open>Data\<close>

datatype LinBc1Err =
    LIN_BC1_OK | LIN_BC1_ERR_SHORT | LIN_BC1_ERR_MAGIC | LIN_BC1_ERR_VERSION | LIN_BC1_ERR_PROFILE
  | LIN_BC1_ERR_FLAGS | LIN_BC1_ERR_COUNT | LIN_BC1_ERR_SECTION | LIN_BC1_ERR_FN | LIN_BC1_ERR_OPCODE
  | LIN_BC1_ERR_JUMP | LIN_BC1_ERR_CALL | LIN_BC1_ERR_LOCAL | LIN_BC1_ERR_REGION | LIN_BC1_ERR_ABI
  | LIN_BC1_ERR_TRAILING | LIN_BC1_ERR_SELFHASH

fun lin_bc1_err_name :: "LinBc1Err \<Rightarrow> string" where
  "lin_bc1_err_name LIN_BC1_OK = ''ok''"
| "lin_bc1_err_name LIN_BC1_ERR_SHORT = ''short''"
| "lin_bc1_err_name LIN_BC1_ERR_MAGIC = ''magic''"
| "lin_bc1_err_name LIN_BC1_ERR_VERSION = ''version''"
| "lin_bc1_err_name LIN_BC1_ERR_PROFILE = ''profile''"
| "lin_bc1_err_name LIN_BC1_ERR_FLAGS = ''flags''"
| "lin_bc1_err_name LIN_BC1_ERR_COUNT = ''count''"
| "lin_bc1_err_name LIN_BC1_ERR_SECTION = ''section''"
| "lin_bc1_err_name LIN_BC1_ERR_FN = ''fn''"
| "lin_bc1_err_name LIN_BC1_ERR_OPCODE = ''opcode''"
| "lin_bc1_err_name LIN_BC1_ERR_JUMP = ''jump''"
| "lin_bc1_err_name LIN_BC1_ERR_CALL = ''call''"
| "lin_bc1_err_name LIN_BC1_ERR_LOCAL = ''local''"
| "lin_bc1_err_name LIN_BC1_ERR_REGION = ''region''"
| "lin_bc1_err_name LIN_BC1_ERR_ABI = ''abi''"
| "lin_bc1_err_name LIN_BC1_ERR_TRAILING = ''trailing''"
| "lin_bc1_err_name LIN_BC1_ERR_SELFHASH = ''selfhash''"

definition LIN_BC1_MAX_FNS :: nat where "LIN_BC1_MAX_FNS = 64"
definition LIN_BC1_MAX_INS_TOTAL :: nat where "LIN_BC1_MAX_INS_TOTAL = 16384"
definition LIN_BC1_MAX_STR_BYTES :: nat where "LIN_BC1_MAX_STR_BYTES = 4096"
definition LIN_BC1_MAX_REGIONS :: nat where "LIN_BC1_MAX_REGIONS = 64"
definition LIN_BC1_C0_MAX_CELLS :: u64 where "LIN_BC1_C0_MAX_CELLS = push_bit 20 1"
definition LIN_BC1_MAX_LOCALS :: nat where "LIN_BC1_MAX_LOCALS = 64"

lemmas bc1_limits =
  LIN_BC1_MAX_FNS_def LIN_BC1_MAX_INS_TOTAL_def LIN_BC1_MAX_STR_BYTES_def LIN_BC1_MAX_REGIONS_def
  LIN_BC1_MAX_LOCALS_def

record LinBc1Vm =
  bc1_mod :: VmModule
  name_len :: "u16 list"
  bc1_profile :: u8
  region_cells :: "u32 list"
  bc1_abis :: "u8 list"
  img_sha256 :: bytes
  img_len :: nat

text \<open>The opcodes in the order of the enumeration, and the casts between ordinal and opcode.\<close>

definition vm_ops :: "VmOp list" where
  "vm_ops = [OP_PUSH_CONST, OP_LOAD_LOCAL, OP_STORE_LOCAL,
     OP_ADD, OP_SUB, OP_MUL, OP_DIV, OP_MOD,
     OP_BIT_AND, OP_BIT_OR, OP_BIT_XOR, OP_BIT_NOT, OP_NEG, OP_SHL, OP_SHR, OP_USHR,
     OP_CMP_EQ, OP_CMP_NE, OP_CMP_LT, OP_CMP_GT, OP_CMP_LE, OP_CMP_GE, OP_LOG_NOT,
     OP_JUMP, OP_JUMP_IF_FALSE, OP_JUMP_IF_FALSE_KEEP, OP_JUMP_IF_TRUE_KEEP,
     OP_POP, OP_CALL, OP_RET, OP_LOAD_INDEX, OP_STORE_INDEX, OP_ARR_LEN, OP_ABI_CALL]"

definition vm_op_ord :: "VmOp \<Rightarrow> nat" where
  "vm_op_ord o1 = length (takeWhile (\<lambda>x. x \<noteq> o1) vm_ops)"

definition string_of_bytes :: "bytes \<Rightarrow> string" where
  "string_of_bytes bs = map (\<lambda>b. char_of (unat b)) bs"

section \<open>The loader\<close>

definition expect :: "LinBc1Err \<Rightarrow> 'a option \<Rightarrow> LinBc1Err + 'a" where
  "expect e m = (case m of None \<Rightarrow> Inl e | Some x \<Rightarrow> Inr x)"

text \<open>The string pool: the offset and length of every entry.\<close>

fun load_strings :: "nat \<Rightarrow> nat \<Rightarrow> Cur \<Rightarrow> LinBc1Err + ((nat \<times> nat) list \<times> Cur)" where
  "load_strings 0 str_bytes c = Inr ([], c)"
| "load_strings (Suc k) str_bytes c =
     and_then (expect LIN_BC1_ERR_SECTION (rd_u32 c)) (\<lambda>(sl, c1).
       if cur_at c1 + unat sl > cur_len c1 then Inl LIN_BC1_ERR_SHORT
       else if str_bytes + unat sl > LIN_BC1_MAX_STR_BYTES then Inl LIN_BC1_ERR_COUNT
       else and_then (load_strings k (str_bytes + unat sl) (skip (unat sl) c1)) (\<lambda>(vs, c2).
         Inr ((cur_at c1, unat sl) # vs, c2)))"

text \<open>Regions: canonical ids and a cap on the running total of cells.\<close>

fun load_regions :: "nat \<Rightarrow> u32 \<Rightarrow> u64 \<Rightarrow> Cur \<Rightarrow> LinBc1Err + (u32 list \<times> Cur)" where
  "load_regions 0 i tot c = Inr ([], c)"
| "load_regions (Suc k) i tot c =
     and_then (expect LIN_BC1_ERR_SECTION (rd_u32 c)) (\<lambda>(rid, c1).
     and_then (expect LIN_BC1_ERR_SECTION (rd_u32 c1)) (\<lambda>(cells, c2).
       if rid \<noteq> i then Inl LIN_BC1_ERR_REGION
       else if tot + ucast cells > LIN_BC1_C0_MAX_CELLS then Inl LIN_BC1_ERR_REGION
       else and_then (load_regions k (i + 1) (tot + ucast cells) c2) (\<lambda>(rs, c3).
         Inr (cells # rs, c3))))"

fun load_abis :: "nat \<Rightarrow> u8 list \<Rightarrow> Cur \<Rightarrow> LinBc1Err + (u8 list \<times> Cur)" where
  "load_abis 0 abis c = Inr (abis, c)"
| "load_abis (Suc k) abis c =
     and_then (expect LIN_BC1_ERR_SECTION (rd_u8 c)) (\<lambda>(i, c1).
       if i > 8 then Inl LIN_BC1_ERR_ABI else load_abis k (abis[unat i := 1]) c1)"

text \<open>The array descriptors of one function, written into the dense table of its locals.\<close>

fun load_arrs :: "nat \<Rightarrow> u32 \<Rightarrow> u16 list \<Rightarrow> Cur \<Rightarrow> LinBc1Err + (u16 list \<times> Cur)" where
  "load_arrs 0 nl dense c = Inr (dense, c)"
| "load_arrs (Suc k) nl dense c =
     and_then (expect LIN_BC1_ERR_SECTION (rd_u8 c)) (\<lambda>(li, c1).
     and_then (expect LIN_BC1_ERR_SECTION (rd_u16 c1)) (\<lambda>(alen, c2).
       if li \<ge> nl then Inl LIN_BC1_ERR_LOCAL
       else if alen = 0 \<or> alen > 256 then Inl LIN_BC1_ERR_FN
       else if dense ! unat li \<noteq> 0 then Inl LIN_BC1_ERR_FN
       else load_arrs k nl (dense[unat li := ucast alen]) c2))"

text \<open>The static checks on one instruction, by opcode ordinal.\<close>

definition ins_check :: "u32 \<Rightarrow> u32 \<Rightarrow> u32 \<Rightarrow> u32 \<Rightarrow> i64 \<Rightarrow> LinBc1Err + unit" where
  "ins_check code_len n_fns nl o1 a =
     (if o1 > 32 then Inl LIN_BC1_ERR_OPCODE
      else if o1 \<in> {23, 24, 25, 26} \<and> (a <s 0 \<or> a \<ge> ucast code_len) then Inl LIN_BC1_ERR_JUMP
      else if o1 = 28 \<and> (a <s 0 \<or> a \<ge> ucast n_fns) then Inl LIN_BC1_ERR_CALL
      else if o1 \<in> {1, 2, 30, 31, 32} \<and> (a <s 0 \<or> a \<ge> ucast nl) then Inl LIN_BC1_ERR_LOCAL
      else Inr ())"

fun load_code :: "nat \<Rightarrow> u32 \<Rightarrow> u32 \<Rightarrow> u32 \<Rightarrow> Cur \<Rightarrow> LinBc1Err + (VmIns list \<times> Cur)" where
  "load_code 0 code_len n_fns nl c = Inr ([], c)"
| "load_code (Suc k) code_len n_fns nl c =
     and_then (expect LIN_BC1_ERR_SECTION (rd_u8 c)) (\<lambda>(o1, c1).
     and_then (expect LIN_BC1_ERR_SECTION (rd_i64 c1)) (\<lambda>(a, c2).
     and_then (ins_check code_len n_fns nl o1 a) (\<lambda>_.
     and_then (load_code k code_len n_fns nl c2) (\<lambda>(is, c3).
       Inr (\<lparr>op = vm_ops ! unat o1, opa = a\<rparr> # is, c3)))))"

text \<open>One function: header, guards, arrays, room in the instruction store, code.\<close>

definition load_fn :: "(nat \<times> nat) list \<Rightarrow> u32 \<Rightarrow> nat \<Rightarrow> Cur \<Rightarrow> LinBc1Err + ((VmFn \<times> u16) \<times> Cur)" where
  "load_fn views n_fns ins_total c =
     and_then (expect LIN_BC1_ERR_SECTION (rd_u32 c)) (\<lambda>(name_idx, c1).
     and_then (require LIN_BC1_ERR_FN (unat name_idx < length views)) (\<lambda>_.
     and_then (expect LIN_BC1_ERR_SECTION (rd_u8 c1)) (\<lambda>(np, c2).
     and_then (expect LIN_BC1_ERR_SECTION (rd_u8 c2)) (\<lambda>(nl, c3).
     and_then (expect LIN_BC1_ERR_SECTION (rd_u8 c3)) (\<lambda>(n_arrs, c4).
     and_then (expect LIN_BC1_ERR_SECTION (rd_u32 c4)) (\<lambda>(code_len, c5).
     and_then (require LIN_BC1_ERR_FN (code_len \<noteq> 0)) (\<lambda>_.
     and_then (require LIN_BC1_ERR_FN (\<not> (np > nl \<or> unat nl > LIN_BC1_MAX_LOCALS))) (\<lambda>_.
     and_then (require LIN_BC1_ERR_FN (\<not> n_arrs > 8)) (\<lambda>_.
     and_then (load_arrs (unat n_arrs) nl (replicate LIN_BC1_MAX_LOCALS 0) c5) (\<lambda>(dense, c6).
     and_then (require LIN_BC1_ERR_COUNT (\<not> ins_total + unat code_len > LIN_BC1_MAX_INS_TOTAL)) (\<lambda>_.
     and_then (load_code (unat code_len) code_len n_fns nl c6) (\<lambda>(is, c7).
       Inr ((\<lparr>fn_name = string_of_bytes (take (snd (views ! unat name_idx)) (drop (fst (views ! unat name_idx)) (cur_p c))),
              nparams = unat np, nlocals = unat nl, code = is, sig_ok = True, fn_ok = True, reject = '''',
              arr_n = take (unat nl) dense\<rparr>,
             of_nat (snd (views ! unat name_idx))), c7)))))))))))))"

fun load_fns :: "nat \<Rightarrow> (nat \<times> nat) list \<Rightarrow> u32 \<Rightarrow> nat \<Rightarrow> Cur \<Rightarrow> LinBc1Err + ((VmFn \<times> u16) list \<times> Cur)" where
  "load_fns 0 views n_fns ins_total c = Inr ([], c)"
| "load_fns (Suc k) views n_fns ins_total c =
     and_then (load_fn views n_fns ins_total c) (\<lambda>(f, c1).
     and_then (load_fns k views n_fns (ins_total + length (code (fst f))) c1) (\<lambda>(fs, c2).
       Inr (f # fs, c2)))"

definition DOM_IMG :: bytes where "DOM_IMG = bytes_of_string ''linbc1:img:''"

definition image_hash :: "bytes \<Rightarrow> bytes" where
  "image_hash body =
     lin_sha256_final (lin_sha256_update (lin_sha256_update (lin_sha256_init raw_ctx) DOM_IMG) body)"

text \<open>The sections between the header and the self-hash.\<close>

definition load_body :: "u8 \<Rightarrow> u32 \<Rightarrow> u32 \<Rightarrow> u32 \<Rightarrow> u32 \<Rightarrow> Cur \<Rightarrow> LinBc1Err + (LinBc1Vm \<times> Cur)" where
  "load_body profile n_strings n_fns n_regions n_abis c =
     and_then (load_strings (unat n_strings) 0 c) (\<lambda>(views, c1).
     and_then (require LIN_BC1_ERR_REGION (\<not> (profile = 1 \<and> n_regions \<noteq> 0))) (\<lambda>_.
     and_then (load_regions (unat n_regions) 0 0 c1) (\<lambda>(cells, c2).
     and_then (load_abis (unat n_abis) (replicate 9 0) c2) (\<lambda>(abis, c3).
     and_then (load_fns (unat n_fns) views n_fns 0 c3) (\<lambda>(fs, c4).
       Inr (\<lparr>bc1_mod = map fst fs, name_len = map snd fs, bc1_profile = profile,
             region_cells = cells, bc1_abis = abis, img_sha256 = [], img_len = 0\<rparr>, c4))))))"

definition load_header :: "Cur \<Rightarrow> LinBc1Err + (LinBc1Vm \<times> Cur)" where
  "load_header c =
     and_then (expect LIN_BC1_ERR_VERSION (rd_u8 c)) (\<lambda>(v, c1).
     and_then (require LIN_BC1_ERR_VERSION (v = 1)) (\<lambda>_.
     and_then (expect LIN_BC1_ERR_SECTION (rd_u8 c1)) (\<lambda>(profile, c2).
     and_then (require LIN_BC1_ERR_PROFILE (\<not> (profile \<noteq> 1 \<and> profile \<noteq> 2))) (\<lambda>_.
     and_then (expect LIN_BC1_ERR_FLAGS (rd_u8 c2)) (\<lambda>(flags, c3).
     and_then (require LIN_BC1_ERR_FLAGS (flags = 0)) (\<lambda>_.
     and_then (expect LIN_BC1_ERR_SHORT (rd_u32 c3)) (\<lambda>(n_strings, c4).
     and_then (expect LIN_BC1_ERR_SHORT (rd_u32 c4)) (\<lambda>(n_fns, c5).
     and_then (expect LIN_BC1_ERR_SHORT (rd_u32 c5)) (\<lambda>(n_regions, c6).
     and_then (expect LIN_BC1_ERR_SHORT (rd_u32 c6)) (\<lambda>(n_abis, c7).
     and_then (require LIN_BC1_ERR_COUNT (\<not> (unat n_strings > LIN_BC1_MAX_FNS * 4 \<or> unat n_fns > LIN_BC1_MAX_FNS \<or>
         unat n_regions > LIN_BC1_MAX_REGIONS \<or> n_abis > 9))) (\<lambda>_.
       load_body (ucast profile) n_strings n_fns n_regions n_abis c7)))))))))))"

definition lin_bc1_load :: "bytes option \<Rightarrow> bool \<Rightarrow> LinBc1Err + LinBc1Vm" where
  "lin_bc1_load oimg has_out =
     (case oimg of None \<Rightarrow> Inl LIN_BC1_ERR_SECTION
      | Some img \<Rightarrow>
        if \<not> has_out then Inl LIN_BC1_ERR_SECTION
        else if length img < 25 + 32 then Inl LIN_BC1_ERR_SHORT
        else if take 6 img \<noteq> bytes_of_string ''LINBC1'' then Inl LIN_BC1_ERR_MAGIC
        else and_then (load_header \<lparr>cur_p = img, cur_len = length img - 32, cur_at = 6\<rparr>) (\<lambda>(vm, c).
          if cur_at c \<noteq> cur_len c then Inl LIN_BC1_ERR_TRAILING
          else if cur_len c + 32 \<noteq> length img then Inl LIN_BC1_ERR_SHORT
          else let digest = image_hash (take (cur_len c) img) in
            if digest \<noteq> take 32 (drop (length img - 32) img) then Inl LIN_BC1_ERR_SELFHASH
            else Inr (vm\<lparr>img_sha256 := digest, img_len := length img\<rparr>)))"

text \<open>The first function whose recorded name is the given one.\<close>

fun find_fn_from :: "nat \<Rightarrow> (VmFn \<times> u16) list \<Rightarrow> string \<Rightarrow> int" where
  "find_fn_from i [] want = -1"
| "find_fn_from i ((f, nl) # fs) want =
     (if unat nl = length want \<and> take (length want) (fn_name f) = want then int i
      else find_fn_from (Suc i) fs want)"

definition lin_bc1_find_fn :: "LinBc1Vm \<Rightarrow> string \<Rightarrow> int" where
  "lin_bc1_find_fn m want = find_fn_from 0 (zip (bc1_mod m) (name_len m)) want"

definition lin_bc1_fold_digest :: "bytes \<Rightarrow> i64" where
  "lin_bc1_fold_digest d = foldl (\<lambda>f i. f * 4294967296 + ucast (be_word d i)) 0 [0..<8]"

section \<open>What an accepted image guarantees\<close>

lemma expect_eq [simp]: "expect e m = Inr x \<longleftrightarrow> m = Some x" "expect e m = Inl e' \<longleftrightarrow> m = None \<and> e' = e"
  by (auto simp: expect_def split: option.splits)

lemma expect_Some [simp]: "expect e (Some x) = Inr x"
  by (simp add: expect_def)

definition jump_op :: "VmOp \<Rightarrow> bool" where
  "jump_op o1 = (o1 \<in> {OP_JUMP, OP_JUMP_IF_FALSE, OP_JUMP_IF_FALSE_KEEP, OP_JUMP_IF_TRUE_KEEP})"

text \<open>The static operand rules of the format, on one instruction.\<close>

definition ins_valid :: "nat \<Rightarrow> nat \<Rightarrow> nat \<Rightarrow> VmIns \<Rightarrow> bool" where
  "ins_valid code_len n_fns nl i =
     (op i \<noteq> OP_ABI_CALL \<and> (jump_op (op i) \<longrightarrow> unat (opa i) < code_len) \<and>
      (op i = OP_CALL \<longrightarrow> unat (opa i) < n_fns) \<and> (local_op (op i) \<longrightarrow> unat (opa i) < nl))"

text \<open>The rules of the format on one function of a module of \<open>n_fns\<close> functions.\<close>

definition fn_valid :: "nat \<Rightarrow> VmFn \<Rightarrow> bool" where
  "fn_valid n_fns f =
     (fn_ok f \<and> code f \<noteq> [] \<and> nparams f \<le> nlocals f \<and> nlocals f \<le> LIN_BC1_MAX_LOCALS \<and>
      length (arr_n f) = nlocals f \<and> list_all (\<lambda>n. unat n \<le> LIN_VM_MAX_ARR_LEN) (arr_n f) \<and>
      length (filter (\<lambda>n. n \<noteq> 0) (arr_n f)) \<le> LIN_VM_MAX_ARRS \<and>
      list_all (ins_valid (length (code f)) n_fns (nlocals f)) (code f))"

definition module_valid :: "VmModule \<Rightarrow> bool" where
  "module_valid md = (length md \<le> LIN_BC1_MAX_FNS \<and> list_all (fn_valid (length md)) md \<and>
     sum_list (map (\<lambda>f. length (code f)) md) \<le> LIN_BC1_MAX_INS_TOTAL)"

lemma ucast_u32_le: "(\<not> (a <s 0 \<or> (a :: i64) \<ge> ucast (n :: u32))) \<longleftrightarrow> unat a < unat n"
proof -
  have n: "unat (ucast n :: i64) = unat n" by (rule unat_ucast_u32_u64)
  have "unat n < 2 ^ 32" using unsigned_less [of n] by simp
  then have "\<not> a <s 0" if "unat a < unat n"
    using that by (simp add: word_sless_alt sint_small)
  then show ?thesis by (auto simp: word_le_nat_alt n)
qed

lemma op_ord_cases:
  assumes "(o1 :: u32) \<le> 32"
  shows "unat o1 \<in> set [0..<33]"
  using assms by (simp add: word_le_nat_alt)

lemma ins_check_valid:
  assumes "ins_check code_len n_fns nl o1 a = Inr ()"
  shows "ins_valid (unat code_len) (unat n_fns) (unat nl) \<lparr>op = vm_ops ! unat o1, opa = a\<rparr>"
proof -
  from assms have "o1 \<le> 32" by (simp add: ins_check_def not_less split: if_splits)
  from op_ord_cases [OF this] have k: "o1 = of_nat (unat o1)" "unat o1 \<in> set [0..<33]" by simp_all
  then obtain k where k: "o1 = of_nat k" "unat o1 = k" "k \<in> set [0..<33]" by metis
  from assms have r: "o1 \<in> {23, 24, 25, 26} \<Longrightarrow> unat a < unat code_len" "o1 = 28 \<Longrightarrow> unat a < unat n_fns"
    "o1 \<in> {1, 2, 30, 31, 32} \<Longrightarrow> unat a < unat nl"
    unfolding ucast_u32_le [symmetric] ins_check_def by (auto split: if_splits)
  from k(3) show ?thesis
    unfolding k(2)
    by (simp add: upt_rec) (elim disjE; use r k(1) in \<open>simp add: vm_ops_def ins_valid_def jump_op_def local_op_def\<close>)
qed

lemma load_code_valid:
  "load_code k code_len n_fns nl c = Inr (is, c') \<Longrightarrow>
   length is = k \<and> list_all (ins_valid (unat code_len) (unat n_fns) (unat nl)) is"
  by (induction k arbitrary: c "is") (auto dest: ins_check_valid)

lemma filter_update_le: "length (filter P (xs[i := v])) \<le> Suc (length (filter P xs))"
  by (induction xs arbitrary: i) (auto split: nat.splits simp: le_SucI)

lemma load_arrs_bounds:
  "load_arrs k nl dense c = Inr (dense', c') \<Longrightarrow> list_all (\<lambda>n. unat n \<le> 256) dense \<Longrightarrow>
   length dense' = length dense \<and> list_all (\<lambda>n. unat n \<le> 256) dense' \<and>
   length (filter (\<lambda>n. n \<noteq> 0) dense') \<le> length (filter (\<lambda>n. n \<noteq> 0) dense) + k"
proof (induction k arbitrary: dense c)
  case (Suc k)
  from Suc.prems(1) obtain li alen :: u32 and c2
    where r: "\<not> alen > 256" "load_arrs k nl (dense[unat li := ucast alen]) c2 = Inr (dense', c')"
    by (auto split: if_splits)
  from r(1) have "unat alen \<le> 256" by (simp add: not_less word_le_nat_alt)
  then have "unat (ucast alen :: u16) \<le> 256" by (simp add: unsigned_ucast_eq take_bit_nat_eq_self)
  then have "list_all (\<lambda>n. unat n \<le> 256) (dense[unat li := ucast alen])"
    using Suc.prems(2) by (auto simp: list_all_iff dest!: set_update_subset_insert [THEN subsetD])
  from Suc.IH [OF r(2) this] filter_update_le [of "\<lambda>n. n \<noteq> 0" dense "unat li" "ucast alen"]
  show ?case by simp
qed simp

lemma load_fn_valid:
  assumes "load_fn views n_fns ins_total c = Inr ((f, nlen), c')"
  shows "fn_valid (unat n_fns) f \<and> ins_total + length (code f) \<le> LIN_BC1_MAX_INS_TOTAL"
proof -
  from assms obtain np nl n_arrs code_len :: u32 and c5 dense c6 "is" where
    g: "code_len \<noteq> 0" "\<not> (np > nl \<or> unat nl > LIN_BC1_MAX_LOCALS)" "\<not> n_arrs > 8"
    and a: "load_arrs (unat n_arrs) nl (replicate LIN_BC1_MAX_LOCALS 0) c5 = Inr (dense, c6)"
    and t: "\<not> ins_total + unat code_len > LIN_BC1_MAX_INS_TOTAL"
    and i: "load_code (unat code_len) code_len n_fns nl c6 = Inr (is, c')"
    and f: "nparams f = unat np" "nlocals f = unat nl" "code f = is" "fn_ok f" "arr_n f = take (unat nl) dense"
    unfolding load_fn_def by auto
  have "list_all (\<lambda>n :: u16. unat n \<le> 256) (replicate LIN_BC1_MAX_LOCALS 0)" by (simp add: list_all_iff)
  from load_arrs_bounds [OF a this]
  have d: "length dense = LIN_BC1_MAX_LOCALS" "list_all (\<lambda>n. unat n \<le> 256) dense"
    "length (filter (\<lambda>n. n \<noteq> 0) dense) \<le> unat n_arrs" by auto
  have "length (filter (\<lambda>n. n \<noteq> 0) (take (unat nl) dense)) \<le> length (filter (\<lambda>n. n \<noteq> 0) dense)"
    by (metis append_take_drop_id filter_append le_add1 length_append)
  moreover have "unat n_arrs \<le> 8" "unat np \<le> unat nl" "0 < unat code_len"
    using g by (auto simp: not_less word_le_nat_alt unat_gt_0)
  ultimately show ?thesis
    using g(2) d t f load_code_valid [OF i]
    by (auto simp: fn_valid_def bc1_limits lin_limits list_all_iff dest: in_set_takeD)
qed

lemma load_fns_valid:
  "load_fns k views n_fns ins_total c = Inr (fs, c') \<Longrightarrow> ins_total \<le> LIN_BC1_MAX_INS_TOTAL \<Longrightarrow>
   length fs = k \<and> list_all (fn_valid (unat n_fns)) (map fst fs) \<and>
   ins_total + sum_list (map (\<lambda>f. length (code (fst f))) fs) \<le> LIN_BC1_MAX_INS_TOTAL"
proof (induction k arbitrary: ins_total c fs)
  case (Suc k)
  from Suc.prems(1) obtain f nlen c1 gs where r: "load_fn views n_fns ins_total c = Inr ((f, nlen), c1)"
    "load_fns k views n_fns (ins_total + length (code f)) c1 = Inr (gs, c')" "fs = (f, nlen) # gs" by auto
  from load_fn_valid [OF r(1)] Suc.IH [OF r(2)] r(3) show ?case by auto
qed simp

lemma load_inv:
  assumes "lin_bc1_load oimg has_out = Inr vm"
  obtains img vm0 c where "oimg = Some img" "57 \<le> length img" "take 6 img = bytes_of_string ''LINBC1''"
    "load_header \<lparr>cur_p = img, cur_len = length img - 32, cur_at = 6\<rparr> = Inr (vm0, c)"
    "cur_at c = cur_len c" "cur_len c = length img - 32"
    "image_hash (take (length img - 32) img) = drop (length img - 32) img"
    "vm = vm0\<lparr>img_sha256 := drop (length img - 32) img, img_len := length img\<rparr>"
proof -
  from assms obtain img where img: "oimg = Some img" by (cases oimg) (auto simp: lin_bc1_load_def)
  from assms obtain vm0 c where r: "57 \<le> length img" "take 6 img = bytes_of_string ''LINBC1''"
    "load_header \<lparr>cur_p = img, cur_len = length img - 32, cur_at = 6\<rparr> = Inr (vm0, c)"
    "cur_at c = cur_len c" "cur_len c + 32 = length img"
    "image_hash (take (cur_len c) img) = drop (length img - 32) img"
    "vm = vm0\<lparr>img_sha256 := image_hash (take (cur_len c) img), img_len := length img\<rparr>"
    unfolding lin_bc1_load_def img by (auto simp: Let_def split: if_splits)
  from r(5) have l: "cur_len c = length img - 32" by simp
  from r(6,7) have "vm = vm0\<lparr>img_sha256 := drop (length img - 32) img, img_len := length img\<rparr>" by simp
  with that [OF img r(1-4) l] r(6) l show ?thesis by simp
qed

lemma load_header_inv:
  assumes "load_header c0 = Inr (vm, c)"
  obtains profile n_strings n_fns n_regions n_abis c7 where
    "unat n_fns \<le> LIN_BC1_MAX_FNS" "load_body profile n_strings n_fns n_regions n_abis c7 = Inr (vm, c)"
  using assms unfolding load_header_def by (auto simp: not_less)

lemma load_body_inv:
  assumes "load_body profile n_strings n_fns n_regions n_abis c7 = Inr (vm, c)"
  obtains views c3 fs where "load_fns (unat n_fns) views n_fns 0 c3 = Inr (fs, c)"
    "bc1_mod vm = map fst fs" "name_len vm = map snd fs"
  using assms unfolding load_body_def by auto

lemma load_module_valid:
  assumes "lin_bc1_load oimg has_out = Inr vm"
  shows "module_valid (bc1_mod vm)"
proof -
  from assms obtain vm0 c img where h: "load_header \<lparr>cur_p = img, cur_len = length img - 32, cur_at = 6\<rparr> = Inr (vm0, c)"
    "bc1_mod vm = bc1_mod vm0" by (auto elim!: load_inv)
  from h(1) obtain n_fns views c3 fs where "unat n_fns \<le> LIN_BC1_MAX_FNS"
    "load_fns (unat n_fns) views n_fns 0 c3 = Inr (fs, c)" "bc1_mod vm0 = map fst fs"
    by (elim load_header_inv load_body_inv) blast
  with load_fns_valid [OF this(2)] h(2) show ?thesis by (simp add: module_valid_def comp_def)
qed

lemma fn_valid_safe: "fn_valid n f \<Longrightarrow> fn_safe f"
  by (force simp: fn_valid_def fn_safe_def list_all_iff ins_valid_def bc1_limits lin_limits)

lemma module_valid_safe: "module_valid md \<Longrightarrow> \<forall>f \<in> set md. fn_safe f"
  by (auto simp: module_valid_def list_all_iff dest: fn_valid_safe)

lemma image_hash_eq: "image_hash body = lin_sha256 (DOM_IMG @ body)"
  unfolding image_hash_def by (rule sha.two_pieces)

section \<open>Names\<close>

lemma rd_keeps:
  "rd_u8 c = Some (v, c') \<Longrightarrow> cur_p c' = cur_p c \<and> cur_len c' = cur_len c"
  "rd_u32 c = Some (v, c') \<Longrightarrow> cur_p c' = cur_p c \<and> cur_len c' = cur_len c"
  by (auto simp: rd_u8_def rd_u32_def split: if_splits)

lemma load_regions_keeps: "load_regions k i t c = Inr (rs, c') \<Longrightarrow> cur_p c' = cur_p c"
  by (induction k arbitrary: i t c rs) (auto dest!: rd_keeps split: if_splits)

lemma load_abis_keeps: "load_abis k as c = Inr (bs, c') \<Longrightarrow> cur_p c' = cur_p c"
  by (induction k arbitrary: as c) (auto dest!: rd_keeps split: if_splits)

lemma load_strings_views:
  "load_strings k sb c = Inr (views, c') \<Longrightarrow>
   cur_p c' = cur_p c \<and> list_all (\<lambda>v. fst v + snd v \<le> cur_len c \<and> snd v \<le> LIN_BC1_MAX_STR_BYTES) views"
proof (induction k arbitrary: sb c views)
  case (Suc k)
  from Suc.prems obtain sl :: u32 and c1 vs where r: "rd_u32 c = Some (sl, c1)" "cur_at c1 + unat sl \<le> cur_len c1"
    "sb + unat sl \<le> LIN_BC1_MAX_STR_BYTES" "load_strings k (sb + unat sl) (skip (unat sl) c1) = Inr (vs, c')"
    "views = (cur_at c1, unat sl) # vs"
    by (auto simp: not_less split: if_splits)
  from Suc.IH [OF r(4)] rd_keeps(2) [OF r(1)] r(2,3,5) show ?case by auto
qed simp

definition names_match :: "LinBc1Vm \<Rightarrow> bool" where
  "names_match vm = (name_len vm = map (\<lambda>f. of_nat (length (fn_name f))) (bc1_mod vm) \<and>
     list_all (\<lambda>f. length (fn_name f) \<le> LIN_BC1_MAX_STR_BYTES) (bc1_mod vm))"

lemma load_fn_name:
  assumes "load_fn views n_fns t c = Inr ((f, nlen), c')"
    "list_all (\<lambda>v. fst v + snd v \<le> length (cur_p c) \<and> snd v \<le> LIN_BC1_MAX_STR_BYTES) views"
  shows "nlen = of_nat (length (fn_name f)) \<and> length (fn_name f) \<le> LIN_BC1_MAX_STR_BYTES"
proof -
  from assms(1) obtain i :: u32 where i: "unat i < length views" "nlen = of_nat (snd (views ! unat i))"
    "fn_name f = string_of_bytes (take (snd (views ! unat i)) (drop (fst (views ! unat i)) (cur_p c)))"
    unfolding load_fn_def by auto
  with assms(2) have "fst (views ! unat i) + snd (views ! unat i) \<le> length (cur_p c)" "snd (views ! unat i) \<le> LIN_BC1_MAX_STR_BYTES"
    by (auto simp: list_all_length)
  with i show ?thesis by (simp add: string_of_bytes_def)
qed

lemma load_arrs_keeps: "load_arrs k nl dense c = Inr (ds, c') \<Longrightarrow> cur_p c' = cur_p c"
  by (induction k arbitrary: dense c) (auto dest!: rd_keeps simp: rd_u16_def split: if_splits)

lemma load_code_keeps: "load_code k cl n nl c = Inr (is, c') \<Longrightarrow> cur_p c' = cur_p c"
proof (induction k arbitrary: c "is")
  case (Suc k)
  from Suc.prems obtain o1 c1 a c2 js where r: "rd_u8 c = Some (o1, c1)" "rd_i64 c1 = Some (a, c2)"
    "load_code k cl n nl c2 = Inr (js, c')" by auto
  from Suc.IH [OF r(3)] rd_keeps(1) [OF r(1)] r(2) show ?case by (auto simp: rd_i64_def split: if_splits)
qed simp

lemma load_fn_keeps: "load_fn views n t c = Inr (f, c') \<Longrightarrow> cur_p c' = cur_p c"
  unfolding load_fn_def by (auto dest!: rd_keeps load_arrs_keeps load_code_keeps)

lemma load_fns_names:
  "load_fns k views n_fns t c = Inr (fs, c') \<Longrightarrow>
   list_all (\<lambda>v. fst v + snd v \<le> length (cur_p c) \<and> snd v \<le> LIN_BC1_MAX_STR_BYTES) views \<Longrightarrow>
   list_all (\<lambda>f. snd f = of_nat (length (fn_name (fst f))) \<and> length (fn_name (fst f)) \<le> LIN_BC1_MAX_STR_BYTES) fs"
proof (induction k arbitrary: t c fs)
  case (Suc k)
  from Suc.prems(1) obtain f nlen c1 gs where r: "load_fn views n_fns t c = Inr ((f, nlen), c1)"
    "load_fns k views n_fns (t + length (code f)) c1 = Inr (gs, c')" "fs = (f, nlen) # gs" by auto
  from Suc.IH [OF r(2)] load_fn_name [OF r(1) Suc.prems(2)] Suc.prems(2) r(3) load_fn_keeps [OF r(1)] show ?case by simp
qed simp

lemma header_keeps:
  assumes "load_header c0 = Inr (vm, c)"
  obtains profile n_strings n_fns n_regions n_abis c7 where
    "load_body profile n_strings n_fns n_regions n_abis c7 = Inr (vm, c)" "cur_p c7 = cur_p c0" "cur_len c7 = cur_len c0"
  using assms unfolding load_header_def by (auto dest!: rd_keeps)

lemma body_names:
  assumes "load_body profile n_strings n_fns n_regions n_abis c = Inr (vm, c')" "cur_len c \<le> length (cur_p c)"
  shows "names_match vm"
proof -
  from assms(1) obtain views c1 rs c2 as c3 fs where r: "load_strings (unat n_strings) 0 c = Inr (views, c1)"
    "load_regions (unat n_regions) 0 0 c1 = Inr (rs, c2)" "load_abis (unat n_abis) (replicate 9 0) c2 = Inr (as, c3)"
    "load_fns (unat n_fns) views n_fns 0 c3 = Inr (fs, c')" "bc1_mod vm = map fst fs" "name_len vm = map snd fs"
    unfolding load_body_def by auto
  have "cur_p c3 = cur_p c" using load_strings_views [OF r(1)] load_regions_keeps [OF r(2)] load_abis_keeps [OF r(3)] by simp
  moreover have "list_all (\<lambda>v. fst v + snd v \<le> length (cur_p c) \<and> snd v \<le> LIN_BC1_MAX_STR_BYTES) views"
    using load_strings_views [OF r(1)] assms(2) by (auto simp: list_all_iff)
  ultimately show ?thesis using load_fns_names [OF r(4)] r(5,6) by (auto simp: names_match_def list_all_iff)
qed

lemma load_names_match:
  assumes "lin_bc1_load oimg has_out = Inr vm"
  shows "names_match vm"
proof -
  from assms obtain img vm0 c where h: "load_header \<lparr>cur_p = img, cur_len = length img - 32, cur_at = 6\<rparr> = Inr (vm0, c)"
    "bc1_mod vm = bc1_mod vm0" "name_len vm = name_len vm0" by (auto elim!: load_inv)
  from h(1) have "names_match vm0" by (elim header_keeps) (auto intro: body_names)
  with h(2,3) show ?thesis by (simp add: names_match_def)
qed

lemma find_fn_from_spec:
  "list_all (\<lambda>f. length (fn_name f) \<le> LIN_BC1_MAX_STR_BYTES) fs \<Longrightarrow>
   find_fn_from i (zip fs (map (\<lambda>f. of_nat (length (fn_name f))) fs)) want =
     (if want \<in> set (map fn_name fs) then int (i + (LEAST k. k < length fs \<and> fn_name (fs ! k) = want)) else -1)"
proof (induction fs arbitrary: i)
  case (Cons f fs)
  have n: "unat (of_nat (length (fn_name f)) :: u16) = length (fn_name f)"
    using Cons.prems by (simp add: unsigned_of_nat take_bit_nat_eq_self bc1_limits)
  have e: "length (fn_name f) = length want \<and> take (length want) (fn_name f) = want \<longleftrightarrow> fn_name f = want" by auto
  show ?case
  proof (cases "fn_name f = want")
    case True
    then have "(LEAST k. k < length (f # fs) \<and> fn_name ((f # fs) ! k) = want) = 0" by (intro Least_equality) auto
    with True n e show ?thesis by simp
  next
    case False
    have "(LEAST k. k < length (f # fs) \<and> fn_name ((f # fs) ! k) = want)
        = Suc (LEAST k. Suc k < length (f # fs) \<and> fn_name ((f # fs) ! Suc k) = want)" if "want \<in> set (map fn_name fs)"
    proof -
      from that obtain k where "k < length fs" "fn_name (fs ! k) = want" by (auto simp: in_set_conv_nth)
      then show ?thesis using False by (intro Least_Suc [of _ "Suc k"]) auto
    qed
    with False Cons n e show ?thesis by (auto simp: image_iff)
  qed
qed simp

end
