(* ===== verification/C0_Image.thy ===== *)
theory C0_Image
  imports Lin_Linbc1
begin

text \<open>
  The LINBC1 encoder \<open>c0_image_encode\<close> of \<open>transpile/c/tool/lin_c0_front.c\<close>, and its
  agreement with the loader: the bytes it writes are a function of the module alone, and the
  loader reads them back to the same module.

  Every writer may fail for lack of memory (\<open>goto oom\<close>); the argument \<open>mem\<close> says which
  buffer sizes \<open>realloc\<close> grants.
\<close>

section \<open>The encoder\<close>

definition oom :: "C0Out option \<Rightarrow> string + C0Out" where
  "oom m = (case m of None \<Rightarrow> Inl ''C0_REJ_OUT_OF_MEMORY'' | Some o1 \<Rightarrow> Inr o1)"

text \<open>The first loop: a partial image is never written.\<close>

fun image_guard :: "VmModule \<Rightarrow> string + unit" where
  "image_guard [] = Inr ()"
| "image_guard (f # fs) =
     (if \<not> fn_ok f then Inl ''C0_REJ_MODULE_NOT_PURE''
      else if length (code f) = 0 then Inl ''C0_REJ_EMPTY_FN''
      else if nparams f > 255 \<or> nlocals f > LIN_VM_MAX_LOCALS then Inl ''C0_REJ_FN_LIMITS''
      else if nlocals f < nparams f then Inl ''C0_REJ_FN_LIMITS''
      else image_guard fs)"

fun put_names :: "(nat \<Rightarrow> bool) \<Rightarrow> VmModule \<Rightarrow> C0Out \<Rightarrow> string + C0Out" where
  "put_names mem [] o1 = Inr o1"
| "put_names mem (f # fs) o1 =
     and_then (oom (c0_put_u32 mem o1 (of_nat (length (fn_name f))))) (\<lambda>o2.
     and_then (oom (c0_put_bytes mem o2 (bytes_of_string (fn_name f)))) (\<lambda>o3.
       put_names mem fs o3))"

fun put_arrs :: "(nat \<Rightarrow> bool) \<Rightarrow> nat \<Rightarrow> u16 list \<Rightarrow> C0Out \<Rightarrow> string + C0Out" where
  "put_arrs mem li [] o1 = Inr o1"
| "put_arrs mem li (n # ns) o1 =
     (if n = 0 then put_arrs mem (Suc li) ns o1
      else if li > 255 then Inl ''C0_REJ_FN_LIMITS''
      else and_then (oom (c0_put_u8 mem o1 (of_nat li))) (\<lambda>o2.
           and_then (oom (c0_put_u16 mem o2 n)) (\<lambda>o3.
             put_arrs mem (Suc li) ns o3)))"

fun put_code :: "(nat \<Rightarrow> bool) \<Rightarrow> VmIns list \<Rightarrow> C0Out \<Rightarrow> string + C0Out" where
  "put_code mem [] o1 = Inr o1"
| "put_code mem (i # is) o1 =
     and_then (oom (c0_put_u8 mem o1 (of_nat (vm_op_ord (op i))))) (\<lambda>o2.
     and_then (oom (c0_put_i64 mem o2 (opa i))) (\<lambda>o3.
       put_code mem is o3))"

text \<open>\<open>uint8_t n_arrs\<close> counts modulo 256.\<close>

definition count_arrs :: "u16 list \<Rightarrow> u8" where
  "count_arrs ns = foldl (\<lambda>k n. if n > 0 then k + 1 else k) 0 ns"

definition put_fn :: "(nat \<Rightarrow> bool) \<Rightarrow> nat \<Rightarrow> VmFn \<Rightarrow> C0Out \<Rightarrow> string + C0Out" where
  "put_fn mem i f o1 =
     (if count_arrs (arr_n f) > 8 then Inl ''C0_REJ_TOO_MANY_ARRAYS''
      else and_then (oom (c0_put_u32 mem o1 (of_nat i))) (\<lambda>o2.
           and_then (oom (c0_put_u8 mem o2 (of_nat (nparams f)))) (\<lambda>o3.
           and_then (oom (c0_put_u8 mem o3 (of_nat (nlocals f)))) (\<lambda>o4.
           and_then (oom (c0_put_u8 mem o4 (count_arrs (arr_n f)))) (\<lambda>o5.
           and_then (oom (c0_put_u32 mem o5 (of_nat (length (code f))))) (\<lambda>o6.
           and_then (put_arrs mem 0 (arr_n f) o6) (\<lambda>o7.
             put_code mem (code f) o7)))))))"

fun put_fns :: "(nat \<Rightarrow> bool) \<Rightarrow> nat \<Rightarrow> VmModule \<Rightarrow> C0Out \<Rightarrow> string + C0Out" where
  "put_fns mem i [] o1 = Inr o1"
| "put_fns mem i (f # fs) o1 = and_then (put_fn mem i f o1) (\<lambda>o2. put_fns mem (Suc i) fs o2)"

definition put_header :: "(nat \<Rightarrow> bool) \<Rightarrow> nat \<Rightarrow> string + C0Out" where
  "put_header mem n =
     and_then (oom (c0_put_bytes mem \<lparr>out_p = [], out_cap = 0\<rparr> (bytes_of_string ''LINBC1''))) (\<lambda>o1.
     and_then (oom (c0_put_u8 mem o1 1)) (\<lambda>o2.
     and_then (oom (c0_put_u8 mem o2 1)) (\<lambda>o3.
     and_then (oom (c0_put_u8 mem o3 0)) (\<lambda>o4.
     and_then (oom (c0_put_u32 mem o4 (of_nat n))) (\<lambda>o5.
     and_then (oom (c0_put_u32 mem o5 (of_nat n))) (\<lambda>o6.
     and_then (oom (c0_put_u32 mem o6 0)) (\<lambda>o7.
       oom (c0_put_u32 mem o7 0))))))))"

definition c0_image_encode :: "(nat \<Rightarrow> bool) \<Rightarrow> VmModule \<Rightarrow> string + bytes" where
  "c0_image_encode mem md =
     and_then (image_guard md) (\<lambda>_.
     and_then (require ''C0_REJ_TOO_MANY_FNS'' (\<not> length md > LIN_BC1_MAX_FNS)) (\<lambda>_.
     and_then (put_header mem (length md)) (\<lambda>o1.
     and_then (put_names mem md o1) (\<lambda>o2.
     and_then (put_fns mem 0 md o2) (\<lambda>o3.
     and_then (oom (c0_put_bytes mem o3 (image_hash (out_p o3)))) (\<lambda>o4.
       Inr (out_p o4)))))))"

section \<open>The bytes of an image\<close>

fun arr_bytes :: "nat \<Rightarrow> u16 list \<Rightarrow> bytes" where
  "arr_bytes li [] = []"
| "arr_bytes li (n # ns) = (if n = 0 then [] else [of_nat li] @ le_bytes 2 n) @ arr_bytes (Suc li) ns"

definition code_bytes :: "VmIns list \<Rightarrow> bytes" where
  "code_bytes is = concat (map (\<lambda>i. [of_nat (vm_op_ord (op i))] @ le_bytes 8 (opa i)) is)"

definition fn_bytes :: "nat \<Rightarrow> VmFn \<Rightarrow> bytes" where
  "fn_bytes i f = le_bytes 4 (of_nat i :: u32) @ [of_nat (nparams f)] @ [of_nat (nlocals f)] @ [count_arrs (arr_n f)]
     @ le_bytes 4 (of_nat (length (code f)) :: u32) @ arr_bytes 0 (arr_n f) @ code_bytes (code f)"

fun fns_bytes :: "nat \<Rightarrow> VmModule \<Rightarrow> bytes" where
  "fns_bytes i [] = []"
| "fns_bytes i (f # fs) = fn_bytes i f @ fns_bytes (Suc i) fs"

definition names_bytes :: "VmModule \<Rightarrow> bytes" where
  "names_bytes md = concat (map (\<lambda>f. le_bytes 4 (of_nat (length (fn_name f)) :: u32) @ bytes_of_string (fn_name f)) md)"

definition header_bytes :: "nat \<Rightarrow> bytes" where
  "header_bytes n = [1] @ [1] @ [0] @ le_bytes 4 (of_nat n :: u32) @ le_bytes 4 (of_nat n :: u32)
     @ le_bytes 4 (0 :: u32) @ le_bytes 4 (0 :: u32)"

definition body_bytes :: "VmModule \<Rightarrow> bytes" where
  "body_bytes md = bytes_of_string ''LINBC1'' @ header_bytes (length md) @ names_bytes md @ fns_bytes 0 md"

lemma oom_eq [simp]: "oom m = Inr o1 \<longleftrightarrow> m = Some o1" "oom m = Inl e \<longleftrightarrow> m = None \<and> e = ''C0_REJ_OUT_OF_MEMORY''"
  by (auto simp: oom_def split: option.splits)

named_theorems written \<open>what a writer appended\<close>

lemmas [dest!, written] = fu8.put_enc fu16.put_enc fu32.put_enc fi64.put_enc put_bytes_enc

lemma put_names_written [dest!, written]: "put_names mem md o1 = Inr o2 \<Longrightarrow> out_p o2 = out_p o1 @ names_bytes md"
  by (induction md arbitrary: o1) (auto simp: names_bytes_def)

lemma put_arrs_written [dest!, written]: "put_arrs mem li ns o1 = Inr o2 \<Longrightarrow> out_p o2 = out_p o1 @ arr_bytes li ns"
  by (induction ns arbitrary: li o1) (auto split: if_splits)

lemma put_code_written [dest!, written]: "put_code mem is o1 = Inr o2 \<Longrightarrow> out_p o2 = out_p o1 @ code_bytes is"
  by (induction "is" arbitrary: o1) (auto simp: code_bytes_def)

lemma put_fn_written [dest!, written]: "put_fn mem i f o1 = Inr o2 \<Longrightarrow> out_p o2 = out_p o1 @ fn_bytes i f"
  unfolding put_fn_def by (auto simp: fn_bytes_def split: if_splits)

lemma put_fns_written [dest!, written]: "put_fns mem i md o1 = Inr o2 \<Longrightarrow> out_p o2 = out_p o1 @ fns_bytes i md"
  by (induction md arbitrary: i o1) auto

lemma put_header_written [dest!, written]: "put_header mem n = Inr o1 \<Longrightarrow> out_p o1 = bytes_of_string ''LINBC1'' @ header_bytes n"
  unfolding put_header_def by (auto simp: header_bytes_def)

text \<open>The image depends on the module only, never on how the buffer grew.\<close>

lemma encode_bytes:
  "c0_image_encode mem md = Inr img \<Longrightarrow> img = body_bytes md @ image_hash (body_bytes md)"
  unfolding c0_image_encode_def by (auto simp: body_bytes_def)

section \<open>With enough memory every valid module is written\<close>

lemma oom_mem:
  assumes "\<And>k. mem k"
  shows "\<exists>o2. oom (c0_put_u8 mem o1 x) = Inr o2" "\<exists>o2. oom (c0_put_u16 mem o1 y) = Inr o2"
    "\<exists>o2. oom (c0_put_u32 mem o1 z) = Inr o2" "\<exists>o2. oom (c0_put_i64 mem o1 w) = Inr o2"
    "\<exists>o2. oom (c0_put_bytes mem o1 b) = Inr o2"
  using fu8.put_mem [OF assms] fu16.put_mem [OF assms]
    fu32.put_mem [OF assms] fi64.put_mem [OF assms]
    put_with_memory [OF assms]
  by (auto simp: c0_put_bytes_def simp del: map_option_eq_Some)

lemma and_then_ex: "\<exists>x. m = Inr x \<Longrightarrow> (\<And>x. m = Inr x \<Longrightarrow> \<exists>y. f x = Inr y) \<Longrightarrow> \<exists>y. and_then m f = Inr y"
  by auto

lemma put_names_mem: "(\<And>k. mem k) \<Longrightarrow> \<exists>o2. put_names mem md o1 = Inr o2"
proof (induction md arbitrary: o1)
  case (Cons f fs)
  show ?case unfolding put_names.simps by (intro and_then_ex oom_mem Cons)
qed simp

lemma put_arrs_mem: "(\<And>k. mem k) \<Longrightarrow> li + length ns \<le> 256 \<Longrightarrow> \<exists>o2. put_arrs mem li ns o1 = Inr o2"
proof (induction ns arbitrary: li o1)
  case (Cons n ns)
  have l: "\<not> li > 255" using Cons.prems(2) by simp
  have r: "\<exists>o2. put_arrs mem (Suc li) ns o1 = Inr o2" for o1
    by (rule Cons.IH [OF Cons.prems(1)]) (use Cons.prems(2) in simp)
  have "\<exists>o2. and_then (oom (c0_put_u8 mem o1 (of_nat li))) (\<lambda>o2. and_then (oom (c0_put_u16 mem o2 n)) (put_arrs mem (Suc li) ns)) = Inr o2"
    by (intro and_then_ex oom_mem r Cons.prems(1))
  with l r show ?case unfolding put_arrs.simps by (simp only: if_False split: if_split) blast
qed simp

lemma put_code_mem: "(\<And>k. mem k) \<Longrightarrow> \<exists>o2. put_code mem is o1 = Inr o2"
proof (induction "is" arbitrary: o1)
  case (Cons i "is")
  show ?case unfolding put_code.simps by (intro and_then_ex oom_mem Cons)
qed simp

lemma count_arrs_filter: "count_arrs ns = of_nat (length (filter (\<lambda>n. n \<noteq> 0) ns))"
proof -
  have "foldl (\<lambda>k n. if n > 0 then k + 1 else k) a ns = a + of_nat (length (filter (\<lambda>n. n \<noteq> 0) ns))" for a :: u8
    by (induction ns arbitrary: a) (auto simp: word_gt_0)
  then show ?thesis by (simp add: count_arrs_def)
qed

lemma small_u8: "k < 256 \<Longrightarrow> unat (of_nat k :: u8) = k"
  by (simp add: unsigned_of_nat take_bit_nat_eq_self)

lemma small_u32: "k < 4294967296 \<Longrightarrow> unat (of_nat k :: u32) = k"
  by (simp add: unsigned_of_nat take_bit_nat_eq_self)

lemma valid_arrs:
  assumes "fn_valid n f"
  shows "unat (count_arrs (arr_n f)) = length (filter (\<lambda>n. n \<noteq> 0) (arr_n f))" "\<not> count_arrs (arr_n f) > 8"
proof -
  from assms have l: "length (filter (\<lambda>n. n \<noteq> 0) (arr_n f)) \<le> 8" by (simp add: fn_valid_def lin_limits)
  then show c: "unat (count_arrs (arr_n f)) = length (filter (\<lambda>n. n \<noteq> 0) (arr_n f))"
    by (simp add: count_arrs_filter small_u8)
  from c l show "\<not> count_arrs (arr_n f) > 8" by (simp add: word_less_nat_alt)
qed

definition arrs_writable :: "VmFn \<Rightarrow> bool" where
  "arrs_writable f = (\<not> count_arrs (arr_n f) > 8 \<and> length (arr_n f) \<le> 256)"

lemma put_fns_mem:
  "(\<And>k. mem k) \<Longrightarrow> list_all arrs_writable md \<Longrightarrow> \<exists>o2. put_fns mem i md o1 = Inr o2"
proof (induction md arbitrary: i o1)
  case (Cons f fs)
  then have v: "\<not> count_arrs (arr_n f) > 8" "0 + length (arr_n f) \<le> 256" by (auto simp: arrs_writable_def)
  have "\<exists>o2. put_fn mem i f o1 = Inr o2"
    unfolding put_fn_def using v(1)
    by (simp only: if_False) (intro and_then_ex oom_mem put_arrs_mem put_code_mem Cons.prems(1) v(2))
  moreover have "\<exists>o3. put_fns mem (Suc i) fs o2 = Inr o3" for o2
    by (rule Cons.IH [OF Cons.prems(1)]) (use Cons.prems(2) in simp)
  ultimately show ?case unfolding put_fns.simps by (rule and_then_ex)
qed simp

lemma encode_mem:
  assumes "\<And>k. mem k" "image_guard md = Inr ()" "list_all arrs_writable md" "length md \<le> LIN_BC1_MAX_FNS"
  shows "\<exists>img. c0_image_encode mem md = Inr img"
  unfolding c0_image_encode_def put_header_def
  using assms(2-4)
  by (intro and_then_ex oom_mem put_names_mem put_fns_mem assms(1)) auto

lemma valid_writable:
  assumes "list_all (fn_valid n) md"
  shows "image_guard md = Inr ()" "list_all arrs_writable md"
proof -
  show "image_guard md = Inr ()" using assms
    by (induction md) (auto simp: fn_valid_def bc1_limits lin_limits)
  show "list_all arrs_writable md" using assms valid_arrs(2)
    by (auto simp: list_all_iff arrs_writable_def fn_valid_def bc1_limits)
qed

section \<open>The loader reads an image back\<close>

lemma read_byte: "ahead c (v # rest) \<Longrightarrow> \<exists>c'. rd_u8 c = Some (ucast v, c') \<and> consumed c c' rest"
  using fu8.reads [of c v rest] by simp

lemma load_strings_read:
  "ahead c (names_bytes md @ rest) \<Longrightarrow> str_bytes + sum_list (map (\<lambda>f. length (fn_name f)) md) \<le> LIN_BC1_MAX_STR_BYTES \<Longrightarrow>
   \<exists>views c'. load_strings (length md) str_bytes c = Inr (views, c') \<and> consumed c c' rest \<and>
     list_all2 (\<lambda>v f. snd v = length (fn_name f) \<and> take (snd v) (drop (fst v) (cur_p c)) = bytes_of_string (fn_name f)) views md"
proof (induction md arbitrary: c str_bytes)
  case Nil
  then show ?case by (simp add: names_bytes_def consumed_def)
next
  case (Cons f fs)
  let ?n = "length (fn_name f)"
  have n: "unat (of_nat ?n :: u32) = ?n" using Cons.prems(2) by (intro small_u32) (simp add: bc1_limits)
  have "ahead c (le_bytes 4 (of_nat ?n :: u32) @ bytes_of_string (fn_name f) @ names_bytes fs @ rest)"
    using Cons.prems(1) by (simp add: names_bytes_def)
  from fu32.reads [OF this] obtain c1 where c1: "rd_u32 c = Some (of_nat ?n, c1)"
    "consumed c c1 (bytes_of_string (fn_name f) @ names_bytes fs @ rest)" by blast
  from c1(2) have c2: "consumed c1 (skip ?n c1) (names_bytes fs @ rest)"
    by (intro consumed_skip) (auto simp: consumed_def)
  have "(str_bytes + ?n) + sum_list (map (\<lambda>f. length (fn_name f)) fs) \<le> LIN_BC1_MAX_STR_BYTES"
    using Cons.prems(2) by simp
  from Cons.IH [OF consumed_ahead [OF c2] this] obtain views c' where r:
    "load_strings (length fs) (str_bytes + ?n) (skip ?n c1) = Inr (views, c')" "consumed (skip ?n c1) c' rest"
    "list_all2 (\<lambda>v f. snd v = length (fn_name f) \<and> take (snd v) (drop (fst v) (cur_p c1)) = bytes_of_string (fn_name f)) views fs"
    by auto
  have "cur_at c1 + ?n \<le> cur_len c1" using c1(2) by (auto simp: consumed_def ahead_def)
  moreover have "take ?n (drop (cur_at c1) (cur_p c1)) = bytes_of_string (fn_name f)"
    using ahead_prefix [OF consumed_ahead [OF c1(2)]] by simp
  moreover have "cur_p c1 = cur_p c" using c1(2) by (simp add: consumed_def)
  moreover have "consumed c c' rest" using c1(2) c2 r(2) by (auto intro: consumed_trans)
  ultimately show ?case using Cons.prems(2) c1(1) r(1,3) by (simp add: n)
qed

lemma load_arrs_read:
  "ahead c (arr_bytes (length pre) ns @ rest) \<Longrightarrow> length ns \<le> m \<Longrightarrow> length pre + length ns \<le> unat nl \<Longrightarrow> unat nl \<le> 64 \<Longrightarrow>
   list_all (\<lambda>n. unat n \<le> 256) ns \<Longrightarrow>
   \<exists>c'. load_arrs (length (filter (\<lambda>n. n \<noteq> 0) ns)) nl (pre @ replicate m 0) c
      = Inr (pre @ ns @ replicate (m - length ns) 0, c') \<and> consumed c c' rest"
proof (induction ns arbitrary: c pre m)
  case Nil
  then show ?case by (simp add: consumed_def)
next
  case (Cons n ns)
  obtain m' where m: "m = Suc m'" "length ns \<le> m'" using Cons.prems(2) by (cases m) auto
  note IH = Cons.IH [of _ "pre @ [n]" m']
  show ?case
  proof (cases "n = 0")
    case True
    with Cons.prems m IH [of c] show ?thesis by simp
  next
    case False
    have li: "unat (of_nat (length pre) :: u8) = length pre" using Cons.prems(3,4) by (intro small_u8) simp
    have "ahead c (of_nat (length pre) # le_bytes 2 n @ arr_bytes (Suc (length pre)) ns @ rest)"
      using Cons.prems(1) False by simp
    from read_byte [OF this] obtain c1 where c1: "rd_u8 c = Some (ucast (of_nat (length pre) :: u8), c1)"
      "consumed c c1 (le_bytes 2 n @ arr_bytes (Suc (length pre)) ns @ rest)" by blast
    from fu16.reads [OF consumed_ahead [OF c1(2)]] obtain c2 where c2: "rd_u16 c1 = Some (ucast n, c2)"
      "consumed c1 c2 (arr_bytes (Suc (length pre)) ns @ rest)" by blast
    from IH [of c2] c2(2) Cons.prems m obtain c' where r: "load_arrs (length (filter (\<lambda>n. n \<noteq> 0) ns)) nl ((pre @ [n]) @ replicate m' 0) c2
      = Inr ((pre @ [n]) @ ns @ replicate (m' - length ns) 0, c')" "consumed c2 c' rest" by (auto dest: consumed_ahead)
    have u: "unat (ucast (of_nat (length pre) :: u8) :: u32) = length pre" "unat (ucast n :: u32) = unat n"
      using li by simp_all
    have g: "\<not> nl \<le> (ucast (of_nat (length pre) :: u8) :: u32)" "(ucast n :: u32) \<noteq> 0" "\<not> 256 < (ucast n :: u32)"
      using Cons.prems(3,5) False u by (auto simp: word_le_nat_alt word_less_nat_alt unat_eq_0 [symmetric])
    have "(ucast (ucast n :: u32) :: u16) = n" by (rule bit_word_eqI) (simp add: bit_ucast_iff)
    with m c1(1) c2(1) r(1) g u(1) False have
      "load_arrs (length (filter (\<lambda>n. n \<noteq> 0) (n # ns))) nl (pre @ replicate m 0) c
        = Inr (pre @ (n # ns) @ replicate (m - length (n # ns)) 0, c')"
      by (simp add: nth_append list_update_append)
    moreover have "consumed c c' rest" using c1(2) c2(2) r(2) by (blast intro: consumed_trans)
    ultimately show ?thesis by blast
  qed
qed

lemma op_ord_inverse: "vm_ops ! vm_op_ord o1 = o1"
  by (cases o1) (simp_all add: vm_ops_def vm_op_ord_def)

lemma op_ord_bound: "o1 \<noteq> OP_ABI_CALL \<Longrightarrow> vm_op_ord o1 \<le> 32"
  by (cases o1) (simp_all add: vm_ops_def vm_op_ord_def)

lemma ins_check_of_valid:
  assumes "ins_valid (unat code_len) (unat n_fns) (unat nl) i"
  shows "ins_check code_len n_fns nl (of_nat (vm_op_ord (op i))) (opa i) = Inr ()"
proof -
  have j: "\<not> (opa i <s 0 \<or> ucast m \<le> opa i) \<longleftrightarrow> unat (opa i) < unat m" for m :: u32 by (rule ucast_u32_le)
  show ?thesis
    using assms j [of code_len] j [of n_fns] j [of nl]
    by (cases "op i") (simp_all add: ins_valid_def jump_op_def local_op_def ins_check_def vm_op_ord_def vm_ops_def)
qed

lemma load_code_read:
  "ahead c (code_bytes is @ rest) \<Longrightarrow> list_all (ins_valid (unat code_len) (unat n_fns) (unat nl)) is \<Longrightarrow>
   \<exists>c'. load_code (length is) code_len n_fns nl c = Inr (is, c') \<and> consumed c c' rest"
proof (induction "is" arbitrary: c)
  case Nil
  then show ?case by (simp add: consumed_def code_bytes_def)
next
  case (Cons i "is")
  have v: "ins_valid (unat code_len) (unat n_fns) (unat nl) i" using Cons.prems(2) by simp
  then have o: "vm_op_ord (op i) \<le> 32" by (intro op_ord_bound) (simp add: ins_valid_def)
  then have u: "unat (of_nat (vm_op_ord (op i)) :: u8) = vm_op_ord (op i)" by (intro small_u8) simp
  then have w: "ucast (of_nat (vm_op_ord (op i)) :: u8) = (of_nat (vm_op_ord (op i)) :: u32)"
    "unat (of_nat (vm_op_ord (op i)) :: u32) = vm_op_ord (op i)"
    using o by (simp_all add: small_u32 word_unat_eq_iff)
  have "ahead c (of_nat (vm_op_ord (op i)) # le_bytes 8 (opa i) @ code_bytes is @ rest)"
    using Cons.prems(1) by (simp add: code_bytes_def)
  from read_byte [OF this] obtain c1 where c1: "rd_u8 c = Some (of_nat (vm_op_ord (op i)), c1)"
    "consumed c c1 (le_bytes 8 (opa i) @ code_bytes is @ rest)" unfolding w(1) by blast
  from fi64.reads [OF consumed_ahead [OF c1(2)]] obtain c2 where c2: "rd_i64 c1 = Some (opa i, c2)"
    "consumed c1 c2 (code_bytes is @ rest)" by blast
  from Cons.IH [OF consumed_ahead [OF c2(2)]] Cons.prems(2) obtain c' where r:
    "load_code (length is) code_len n_fns nl c2 = Inr (is, c')" "consumed c2 c' rest" by auto
  have "consumed c c' rest" using c1(2) c2(2) r(2) by (blast intro: consumed_trans)
  moreover have "\<lparr>op = vm_ops ! vm_op_ord (op i), opa = opa i\<rparr> = i" by (simp add: op_ord_inverse)
  ultimately show ?case using c1(1) c2(1) r(1) ins_check_of_valid [OF v] w(2) by simp
qed

text \<open>What the loader cannot know of a function: the flags it sets itself.\<close>

definition loaded :: "VmFn \<Rightarrow> VmFn" where
  "loaded f = f\<lparr>sig_ok := True, reject := ''''\<rparr>"

lemma string_of_bytes_of_string: "string_of_bytes (bytes_of_string s) = s"
proof -
  have "unat (of_char c :: u8) = of_char c" for c
  proof -
    have "unat (of_char c :: u8) = unat (of_nat (of_char c) :: u8)" by (simp add: of_char_def)
    also have "\<dots> = of_char c" by (rule small_u8) (rule nat_of_char_less_256)
    finally show ?thesis .
  qed
  then show ?thesis by (simp add: string_of_bytes_def bytes_of_string_def map_idI)
qed

lemma bytes_of_string_of_bytes: "bytes_of_string (string_of_bytes bs) = bs"
proof -
  have "of_char (char_of (unat b) :: char) = (b :: u8)" for b
  proof -
    have "of_char (char_of (unat b) :: char) = (of_nat (of_char (char_of (unat b) :: char)) :: u8)" by (simp add: of_char_def)
    also have "\<dots> = of_nat (unat b mod 256)" by simp
    also have "\<dots> = b" using unsigned_less [of b, where 'a = nat] by simp
    finally show ?thesis .
  qed
  then show ?thesis by (simp add: string_of_bytes_def bytes_of_string_def map_idI)
qed

lemma load_fn_read:
  assumes a: "ahead c (fn_bytes i f @ rest)" and v: "fn_valid (unat n_fns) f" and i: "i < length views" "i < 4294967296"
    and s: "snd (views ! i) = length (fn_name f)"
      "take (snd (views ! i)) (drop (fst (views ! i)) (cur_p c)) = bytes_of_string (fn_name f)"
    and t: "ins_total + length (code f) \<le> LIN_BC1_MAX_INS_TOTAL"
  shows "\<exists>c'. load_fn views n_fns ins_total c = Inr ((loaded f, of_nat (length (fn_name f))), c') \<and> consumed c c' rest"
proof -
  have b: "nparams f \<le> nlocals f" "nlocals f \<le> 64" "length (arr_n f) = nlocals f" "code f \<noteq> []" "fn_ok f"
    "list_all (\<lambda>n. unat n \<le> 256) (arr_n f)" "list_all (ins_valid (length (code f)) (unat n_fns) (nlocals f)) (code f)"
    using v by (simp_all add: fn_valid_def bc1_limits lin_limits)
  have n: "unat (of_nat i :: u32) = i" "unat (of_nat (nparams f) :: u8) = nparams f" "unat (of_nat (nlocals f) :: u8) = nlocals f"
    "unat (of_nat (length (code f)) :: u32) = length (code f)"
    using b i t by (simp_all add: small_u8 small_u32 bc1_limits)
  have "ahead c (le_bytes 4 (of_nat i :: u32) @ of_nat (nparams f) # of_nat (nlocals f) # count_arrs (arr_n f)
      # le_bytes 4 (of_nat (length (code f)) :: u32) @ arr_bytes 0 (arr_n f) @ code_bytes (code f) @ rest)"
    using a by (simp add: fn_bytes_def)
  from fu32.reads [OF this] obtain c1 where c1: "rd_u32 c = Some (of_nat i, c1)" "consumed c c1 (of_nat (nparams f) # of_nat (nlocals f)
    # count_arrs (arr_n f) # le_bytes 4 (of_nat (length (code f)) :: u32) @ arr_bytes 0 (arr_n f) @ code_bytes (code f) @ rest)" by blast
  from read_byte [OF consumed_ahead [OF c1(2)]] obtain c2 where c2: "rd_u8 c1 = Some (ucast (of_nat (nparams f) :: u8), c2)"
    "consumed c1 c2 (of_nat (nlocals f) # count_arrs (arr_n f) # le_bytes 4 (of_nat (length (code f)) :: u32)
      @ arr_bytes 0 (arr_n f) @ code_bytes (code f) @ rest)" by blast
  from read_byte [OF consumed_ahead [OF c2(2)]] obtain c3 where c3: "rd_u8 c2 = Some (ucast (of_nat (nlocals f) :: u8), c3)"
    "consumed c2 c3 (count_arrs (arr_n f) # le_bytes 4 (of_nat (length (code f)) :: u32)
      @ arr_bytes 0 (arr_n f) @ code_bytes (code f) @ rest)" by blast
  from read_byte [OF consumed_ahead [OF c3(2)]] obtain c4 where c4: "rd_u8 c3 = Some (ucast (count_arrs (arr_n f)), c4)"
    "consumed c3 c4 (le_bytes 4 (of_nat (length (code f)) :: u32) @ arr_bytes 0 (arr_n f) @ code_bytes (code f) @ rest)" by blast
  from fu32.reads [OF consumed_ahead [OF c4(2)]] obtain c5 where c5: "rd_u32 c4 = Some (of_nat (length (code f)), c5)"
    "consumed c4 c5 (arr_bytes 0 (arr_n f) @ code_bytes (code f) @ rest)" by blast
  let ?nl = "ucast (of_nat (nlocals f) :: u8) :: u32"
  from load_arrs_read [of c5 "[]" "arr_n f" "code_bytes (code f) @ rest" 64 ?nl] obtain c6 where
    c6: "load_arrs (unat (count_arrs (arr_n f))) ?nl (replicate 64 0) c5 = Inr (arr_n f @ replicate (64 - nlocals f) 0, c6)"
      "consumed c5 c6 (code_bytes (code f) @ rest)"
    using b n consumed_ahead [OF c5(2)] by (auto simp: valid_arrs(1) [OF v])
  from load_code_read [OF consumed_ahead [OF c6(2)], of "of_nat (length (code f))" n_fns ?nl] obtain c7 where
    c7: "load_code (length (code f)) (of_nat (length (code f))) n_fns ?nl c6 = Inr (code f, c7)" "consumed c6 c7 rest"
    using b(7) n by auto
  have g: "(of_nat (length (code f)) :: u32) \<noteq> 0" using n(4) b(4) by (metis length_0_conv unat_0)
  have p: "\<not> (ucast (of_nat (nparams f) :: u8) > ?nl \<or> unat ?nl > LIN_BC1_MAX_LOCALS)"
    using n b by (simp add: word_less_nat_alt bc1_limits)
  have q: "\<not> (ucast (count_arrs (arr_n f)) :: u32) > 8"
    using valid_arrs(2) [OF v] by (simp add: word_less_nat_alt)
  have "load_fn views n_fns ins_total c = Inr ((loaded f, of_nat (length (fn_name f))), c7)"
    unfolding load_fn_def c1(1) c2(1) c3(1) c4(1) c5(1) expect_Some and_then.simps prod.case
    using i(1) g p q t b n s c6(1) c7(1)
    by (simp add: loaded_def string_of_bytes_of_string bc1_limits)
  moreover have "consumed c c7 rest"
    using c1(2) c2(2) c3(2) c4(2) c5(2) c6(2) c7(2) by (blast intro: consumed_trans)
  ultimately show ?thesis by blast
qed

lemma load_fns_read:
  "ahead c (fns_bytes i fs @ rest) \<Longrightarrow> list_all (fn_valid (unat n_fns)) fs \<Longrightarrow> length views = i + length fs \<Longrightarrow>
   length views < 4294967296 \<Longrightarrow>
   list_all2 (\<lambda>v f. snd v = length (fn_name f) \<and> take (snd v) (drop (fst v) (cur_p c)) = bytes_of_string (fn_name f)) (drop i views) fs \<Longrightarrow>
   ins_total + sum_list (map (\<lambda>f. length (code f)) fs) \<le> LIN_BC1_MAX_INS_TOTAL \<Longrightarrow>
   \<exists>c'. load_fns (length fs) views n_fns ins_total c = Inr (map (\<lambda>f. (loaded f, of_nat (length (fn_name f)))) fs, c') \<and> consumed c c' rest"
proof (induction fs arbitrary: i c ins_total)
  case Nil
  then show ?case by (simp add: consumed_def)
next
  case (Cons f fs)
  have i: "i < length views" "i < 4294967296" using Cons.prems(3,4) by auto
  then have d: "drop i views = views ! i # drop (Suc i) views" by (simp add: Cons_nth_drop_Suc)
  have a: "ahead c (fn_bytes i f @ fns_bytes (Suc i) fs @ rest)" using Cons.prems(1) by simp
  have v: "fn_valid (unat n_fns) f" using Cons.prems(2) by simp
  have s: "snd (views ! i) = length (fn_name f)"
    "take (snd (views ! i)) (drop (fst (views ! i)) (cur_p c)) = bytes_of_string (fn_name f)"
    using Cons.prems(5) unfolding d by auto
  have t: "ins_total + length (code f) \<le> LIN_BC1_MAX_INS_TOTAL" using Cons.prems(6) by simp
  from load_fn_read [OF a v i s t] obtain c1 where
    c1: "load_fn views n_fns ins_total c = Inr ((loaded f, of_nat (length (fn_name f))), c1)"
      "consumed c c1 (fns_bytes (Suc i) fs @ rest)" by blast
  have p: "cur_p c1 = cur_p c" using c1(2) by (simp add: consumed_def)
  have "\<exists>c'. load_fns (length fs) views n_fns (ins_total + length (code f)) c1
      = Inr (map (\<lambda>f. (loaded f, of_nat (length (fn_name f)))) fs, c') \<and> consumed c1 c' rest"
    by (rule Cons.IH [OF consumed_ahead [OF c1(2)]]) (use Cons.prems d in \<open>simp_all add: p\<close>)
  then obtain c' where r: "load_fns (length fs) views n_fns (ins_total + length (code f)) c1
      = Inr (map (\<lambda>f. (loaded f, of_nat (length (fn_name f)))) fs, c')" "consumed c1 c' rest" by blast
  have "code (loaded f) = code f" by (simp add: loaded_def)
  with c1 r show ?case by (auto intro: consumed_trans)
qed

lemma header_read:
  assumes a: "ahead c (header_bytes n @ rest)" and n: "n \<le> LIN_BC1_MAX_FNS"
  shows "\<exists>c'. load_header c = load_body 1 (of_nat n) (of_nat n) 0 0 c' \<and> consumed c c' rest"
proof -
  let ?n = "of_nat n :: u32"
  have u: "unat ?n = n" using n by (intro small_u32) (simp add: bc1_limits)
  have "ahead c (1 # 1 # 0 # le_bytes 4 ?n @ le_bytes 4 ?n @ le_bytes 4 (0 :: u32) @ le_bytes 4 (0 :: u32) @ rest)"
    using a by (simp add: header_bytes_def)
  from read_byte [OF this] obtain c1 where c1: "rd_u8 c = Some (ucast (1 :: u8), c1)"
    "consumed c c1 (1 # 0 # le_bytes 4 ?n @ le_bytes 4 ?n @ le_bytes 4 (0 :: u32) @ le_bytes 4 (0 :: u32) @ rest)" by blast
  from read_byte [OF consumed_ahead [OF c1(2)]] obtain c2 where c2: "rd_u8 c1 = Some (ucast (1 :: u8), c2)"
    "consumed c1 c2 (0 # le_bytes 4 ?n @ le_bytes 4 ?n @ le_bytes 4 (0 :: u32) @ le_bytes 4 (0 :: u32) @ rest)" by blast
  from read_byte [OF consumed_ahead [OF c2(2)]] obtain c3 where c3: "rd_u8 c2 = Some (ucast (0 :: u8), c3)"
    "consumed c2 c3 (le_bytes 4 ?n @ le_bytes 4 ?n @ le_bytes 4 (0 :: u32) @ le_bytes 4 (0 :: u32) @ rest)" by blast
  from fu32.reads [OF consumed_ahead [OF c3(2)]] obtain c4 where c4: "rd_u32 c3 = Some (?n, c4)"
    "consumed c3 c4 (le_bytes 4 ?n @ le_bytes 4 (0 :: u32) @ le_bytes 4 (0 :: u32) @ rest)" by blast
  from fu32.reads [OF consumed_ahead [OF c4(2)]] obtain c5 where c5: "rd_u32 c4 = Some (?n, c5)"
    "consumed c4 c5 (le_bytes 4 (0 :: u32) @ le_bytes 4 (0 :: u32) @ rest)" by blast
  from fu32.reads [OF consumed_ahead [OF c5(2)]] obtain c6 where c6: "rd_u32 c5 = Some (0, c6)"
    "consumed c5 c6 (le_bytes 4 (0 :: u32) @ rest)" by blast
  from fu32.reads [OF consumed_ahead [OF c6(2)]] obtain c7 where c7: "rd_u32 c6 = Some (0, c7)" "consumed c6 c7 rest" by blast
  have "load_header c = load_body 1 ?n ?n 0 0 c7"
    unfolding load_header_def c1(1) c2(1) c3(1) c4(1) c5(1) c6(1) c7(1) expect_Some and_then.simps prod.case
    using n by (simp add: u bc1_limits)
  moreover have "consumed c c7 rest"
    using c1(2) c2(2) c3(2) c4(2) c5(2) c6(2) c7(2) by (simp add: consumed_def)
  ultimately show ?thesis by blast
qed

lemma load_header_read:
  assumes a: "ahead c (header_bytes (length md) @ names_bytes md @ fns_bytes 0 md)" and v: "module_valid md"
    and s: "sum_list (map (\<lambda>f. length (fn_name f)) md) \<le> LIN_BC1_MAX_STR_BYTES"
  shows "\<exists>vm c'. load_header c = Inr (vm, c') \<and> consumed c c' [] \<and> bc1_mod vm = map loaded md \<and>
    name_len vm = map (\<lambda>f. of_nat (length (fn_name f))) md \<and> bc1_profile vm = 1"
proof -
  let ?n = "of_nat (length md) :: u32"
  have l: "length md \<le> LIN_BC1_MAX_FNS" "list_all (fn_valid (length md)) md"
    "0 + sum_list (map (\<lambda>f. length (code f)) md) \<le> LIN_BC1_MAX_INS_TOTAL"
    using v by (simp_all add: module_valid_def)
  have n: "unat ?n = length md" using l(1) by (intro small_u32) (simp add: bc1_limits)
  from header_read [OF a l(1)] obtain c7 where c7: "load_header c = load_body 1 ?n ?n 0 0 c7"
    "consumed c c7 (names_bytes md @ fns_bytes 0 md)" by blast
  from load_strings_read [OF consumed_ahead [OF c7(2)], of 0] s obtain views c8 where
    c8: "load_strings (length md) 0 c7 = Inr (views, c8)" "consumed c7 c8 (fns_bytes 0 md)"
      "list_all2 (\<lambda>v f. snd v = length (fn_name f) \<and> take (snd v) (drop (fst v) (cur_p c8)) = bytes_of_string (fn_name f)) views md"
    by (auto simp: consumed_def)
  have vl: "length views = length md" using c8(3) by (rule list_all2_lengthD)
  from load_fns_read [of c8 0 md "[]" ?n views 0] c8 l vl obtain c9 where
    c9: "load_fns (length md) views ?n 0 c8 = Inr (map (\<lambda>f. (loaded f, of_nat (length (fn_name f)))) md, c9)" "consumed c8 c9 []"
    by (auto simp: n bc1_limits dest: consumed_ahead)
  have "\<exists>vm. load_header c = Inr (vm, c9) \<and> bc1_mod vm = map loaded md \<and>
      name_len vm = map (\<lambda>f. of_nat (length (fn_name f))) md \<and> bc1_profile vm = 1"
    unfolding c7(1) load_body_def using c8(1) c9(1) by (simp add: n comp_def)
  moreover have "consumed c c9 []" using c7(2) c8(2) c9(2) by (simp add: consumed_def)
  ultimately show ?thesis by blast
qed

lemma length_image_hash [simp]: "length (image_hash body) = 32"
  by (simp add: image_hash_eq)

definition image_bytes :: "VmModule \<Rightarrow> bytes" where
  "image_bytes md = body_bytes md @ image_hash (body_bytes md)"

definition image_cur :: "VmModule \<Rightarrow> Cur" where
  "image_cur md = \<lparr>cur_p = image_bytes md, cur_len = length (image_bytes md) - 32, cur_at = 6\<rparr>"

lemma image_start:
  "57 \<le> length (image_bytes md)" "take 6 (image_bytes md) = bytes_of_string ''LINBC1''"
  "ahead (image_cur md) (header_bytes (length md) @ names_bytes md @ fns_bytes 0 md)"
proof -
  show "57 \<le> length (image_bytes md)" "take 6 (image_bytes md) = bytes_of_string ''LINBC1''"
    by (simp_all add: image_bytes_def body_bytes_def header_bytes_def)
  have "drop 6 (body_bytes md) = header_bytes (length md) @ names_bytes md @ fns_bytes 0 md"
    "6 + length (header_bytes (length md) @ names_bytes md @ fns_bytes 0 md) = length (body_bytes md)"
    by (simp_all add: body_bytes_def)
  then show "ahead (image_cur md) (header_bytes (length md) @ names_bytes md @ fns_bytes 0 md)"
    by (simp add: ahead_def image_cur_def image_bytes_def)
qed

lemma load_image_error:
  "load_header (image_cur md) = Inl e \<Longrightarrow> lin_bc1_load (Some (image_bytes md)) True = Inl e"
  using image_start(1,2) [of md] by (simp add: lin_bc1_load_def image_cur_def)

lemma load_image:
  assumes v: "module_valid md" and s: "sum_list (map (\<lambda>f. length (fn_name f)) md) \<le> LIN_BC1_MAX_STR_BYTES"
  shows "\<exists>vm. lin_bc1_load (Some (image_bytes md)) True = Inr vm \<and>
    bc1_mod vm = map loaded md \<and> name_len vm = map (\<lambda>f. of_nat (length (fn_name f))) md \<and>
    bc1_profile vm = 1 \<and> img_sha256 vm = image_hash (body_bytes md)"
proof -
  from load_header_read [OF image_start(3) v s] obtain vm c' where r: "load_header (image_cur md) = Inr (vm, c')"
    "consumed (image_cur md) c' []" "bc1_mod vm = map loaded md"
    "name_len vm = map (\<lambda>f. of_nat (length (fn_name f))) md" "bc1_profile vm = 1" by blast
  have "cur_at c' = cur_len c'" "cur_len c' = length (body_bytes md)"
    using r(2) by (simp_all add: consumed_def ahead_def image_cur_def image_bytes_def)
  with image_start(1,2) [of md] r show ?thesis
    unfolding lin_bc1_load_def by (simp add: Let_def image_cur_def image_bytes_def)
qed

section \<open>Concrete modules\<close>

definition identity_module :: VmModule where
  "identity_module = [\<lparr>fn_name = ''id'', nparams = 1, nlocals = 2,
     code = [\<lparr>op = OP_LOAD_LOCAL, opa = 0\<rparr>, \<lparr>op = OP_RET, opa = 0\<rparr>],
     sig_ok = True, fn_ok = True, reject = '''', arr_n = [0, 3]\<rparr>]"

definition long_name_module :: VmModule where
  "long_name_module = [\<lparr>fn_name = replicate 4097 CHR ''f'', nparams = 0, nlocals = 0,
     code = [\<lparr>op = OP_RET, opa = 0\<rparr>], sig_ok = True, fn_ok = True, reject = [], arr_n = []\<rparr>]"

lemma identity_module_valid: "module_valid identity_module"
  by (simp add: module_valid_def identity_module_def fn_valid_def ins_valid_def jump_op_def local_op_def bc1_limits lin_limits)

lemma identity_names: "sum_list (map (\<lambda>f. length (fn_name f)) identity_module) \<le> LIN_BC1_MAX_STR_BYTES"
  by (simp add: identity_module_def bc1_limits)

lemma identity_loads:
  "\<exists>vm. lin_bc1_load (Some (image_bytes identity_module)) True = Inr vm \<and>
     bc1_mod vm = identity_module"
  using load_image [OF identity_module_valid identity_names] by (auto simp: identity_module_def loaded_def)

lemma long_name_encodes: "\<exists>img. c0_image_encode (\<lambda>_. True) long_name_module = Inr img"
  by (rule encode_mem) (simp_all add: long_name_module_def arrs_writable_def count_arrs_def bc1_limits lin_limits)

lemma long_name_rejected: "lin_bc1_load (Some (image_bytes long_name_module)) True = Inl LIN_BC1_ERR_COUNT"
proof (rule load_image_error)
  let ?rest = "names_bytes long_name_module @ fns_bytes 0 long_name_module"
  have n: "length long_name_module = 1" by (simp add: long_name_module_def)
  from header_read [OF image_start(3), of long_name_module] obtain c where
    c: "load_header (image_cur long_name_module) = load_body 1 1 1 0 0 c" "ahead c ?rest"
    by (auto simp: n bc1_limits consumed_def)
  let ?m = "bytes_of_string (replicate 4097 CHR ''f'') @ fns_bytes 0 long_name_module"
  have "ahead c (le_bytes 4 (4097 :: u32) @ ?m)"
    using c(2) by (simp add: long_name_module_def names_bytes_def)
  from fu32.reads [OF this] obtain c1 where c1: "rd_u32 c = Some (4097, c1)" "ahead c1 ?m"
    by (auto simp: consumed_def)
  then have "cur_at c1 + 4097 \<le> cur_len c1" by (auto simp: ahead_def)
  with c1(1) have "load_strings (Suc 0) 0 c = Inl LIN_BC1_ERR_COUNT" by (simp add: bc1_limits)
  then show "load_header (image_cur long_name_module) = Inl LIN_BC1_ERR_COUNT"
    unfolding c(1) load_body_def by simp
qed

section \<open>Properties\<close>

text \<open>
  Encode, then load. For every module that meets the static rules of the format and whose
  names fit the string pool, whatever image \<open>c0_image_encode\<close> returns is accepted by
  \<open>lin_bc1_load\<close> and read back to the same functions, names, array tables and code; and
  with enough memory the encoder does return one.
\<close>
theorem image_round_trip:
  assumes "module_valid md" "sum_list (map (\<lambda>f. length (fn_name f)) md) \<le> LIN_BC1_MAX_STR_BYTES"
  shows "(\<forall>img. c0_image_encode mem md = Inr img \<longrightarrow>
      (\<exists>vm. lin_bc1_load (Some img) True = Inr vm \<and> bc1_mod vm = map loaded md)) \<and>
    ((\<forall>k. mem k) \<longrightarrow> (\<exists>img. c0_image_encode mem md = Inr img))"
proof (intro conjI allI impI)
  fix img assume "c0_image_encode mem md = Inr img"
  then have "img = image_bytes md" unfolding image_bytes_def by (rule encode_bytes)
  then show "\<exists>vm. lin_bc1_load (Some img) True = Inr vm \<and> bc1_mod vm = map loaded md"
    using load_image [OF assms] by auto
next
  assume "\<forall>k. mem k"
  then show "\<exists>img. c0_image_encode mem md = Inr img"
    using valid_writable [of "length md" md] assms(1) by (intro encode_mem) (auto simp: module_valid_def)
qed

theorem image_round_trip_witness:
  "\<exists>img vm. c0_image_encode (\<lambda>_. True) identity_module = Inr img \<and> lin_bc1_load (Some img) True = Inr vm \<and>
     bc1_mod vm = map loaded identity_module"
  using image_round_trip [OF identity_module_valid identity_names, of "\<lambda>_. True"] by blast

text \<open>
  C32: what the loader accepts is a valid module. Any image that \<open>lin_bc1_load\<close> accepts,
  from whatever source, gives at most 64 functions and 16384 instructions in which every
  opcode is one of the first 33, every jump stays inside its function, every call inside the
  module, every local operand inside its frame, parameters are locals, and the at most 8
  arrays have at most 256 cells; the recorded name lengths are those of the names.
\<close>
theorem bc1_load_valid:
  assumes "lin_bc1_load oimg has_out = Inr vm"
  shows "module_valid (bc1_mod vm) \<and> names_match vm"
  using load_module_valid [OF assms] load_names_match [OF assms] by blast

theorem bc1_load_valid_witness:
  "\<exists>vm. module_valid (bc1_mod vm) \<and> names_match vm \<and> bc1_mod vm = identity_module"
  using identity_loads bc1_load_valid by blast

text \<open>
  Images are tamper evident. An accepted image ends in the SHA-256 of the domain tag and
  everything before it, the loader reports that digest and the length, and two accepted images
  with the same digest are equal or exhibit a SHA-256 collision.
\<close>
theorem bc1_load_authentic:
  assumes "lin_bc1_load (Some img) True = Inr vm" "lin_bc1_load (Some img') True = Inr vm'"
  shows "drop (length img - 32) img = lin_sha256 (DOM_IMG @ take (length img - 32) img) \<and>
    img_sha256 vm = drop (length img - 32) img \<and> img_len vm = length img \<and>
    (img_sha256 vm = img_sha256 vm' \<longrightarrow> img = img' \<or> (\<exists>x y. x \<noteq> y \<and> lin_sha256 x = lin_sha256 y))"
proof -
  from assms have h: "drop (length img - 32) img = lin_sha256 (DOM_IMG @ take (length img - 32) img)"
    "img_sha256 vm = drop (length img - 32) img" "img_len vm = length img"
    "drop (length img' - 32) img' = lin_sha256 (DOM_IMG @ take (length img' - 32) img')"
    "img_sha256 vm' = drop (length img' - 32) img'"
    by (auto simp: image_hash_eq elim!: load_inv)
  have c: "img = img' \<or> (\<exists>x y. x \<noteq> y \<and> lin_sha256 x = lin_sha256 y)" if "img_sha256 vm = img_sha256 vm'"
  proof (cases "take (length img - 32) img = take (length img' - 32) img'")
    case True
    moreover have "drop (length img - 32) img = drop (length img' - 32) img'" using that h by simp
    ultimately have "img = img'" by (metis append_take_drop_id)
    then show ?thesis ..
  next
    case False
    then have "DOM_IMG @ take (length img - 32) img \<noteq> DOM_IMG @ take (length img' - 32) img'" by simp
    moreover have "lin_sha256 (DOM_IMG @ take (length img - 32) img) = lin_sha256 (DOM_IMG @ take (length img' - 32) img')"
      using that h by simp
    ultimately show ?thesis by (intro disjI2 exI conjI)
  qed
  show ?thesis by (intro conjI impI h(1-3) c)
qed

theorem bc1_load_authentic_witness:
  "\<exists>img (vm :: LinBc1Vm). img_sha256 vm = lin_sha256 (DOM_IMG @ take (length img - 32) img) \<and> bc1_mod vm = identity_module"
proof -
  from identity_loads obtain img vm where "lin_bc1_load (Some img) True = Inr vm" "bc1_mod vm = identity_module" by blast
  moreover from bc1_load_authentic [OF this(1) this(1)]
  have "img_sha256 vm = lin_sha256 (DOM_IMG @ take (length img - 32) img)" by simp
  ultimately show ?thesis by blast
qed

text \<open>
  Lookup by name is exact. On a loaded module \<open>lin_bc1_find_fn\<close> returns the first index
  whose name is the given string, and \<open>-1\<close> exactly when no function has it.
\<close>
theorem bc1_find_fn_exact:
  assumes "lin_bc1_load oimg has_out = Inr vm"
  shows "lin_bc1_find_fn vm want =
    (if want \<in> fn_name ` set (bc1_mod vm)
     then int (LEAST k. k < length (bc1_mod vm) \<and> fn_name (bc1_mod vm ! k) = want) else -1)"
  using load_names_match [OF assms] by (simp add: lin_bc1_find_fn_def names_match_def find_fn_from_spec)

theorem bc1_find_fn_exact_witness:
  "\<exists>vm. bc1_mod vm = identity_module \<and> lin_bc1_find_fn vm ''id'' = 0 \<and> lin_bc1_find_fn vm ''x'' = -1"
proof -
  from identity_loads obtain img vm where v: "lin_bc1_load (Some img) True = Inr vm" "bc1_mod vm = identity_module" by blast
  have "(LEAST k. k < length identity_module \<and> fn_name (identity_module ! k) = ''id'') = 0"
    by (rule Least_equality) (simp_all add: identity_module_def)
  with bc1_find_fn_exact [OF v(1), of "''id''"] bc1_find_fn_exact [OF v(1), of "''x''"] v(2) show ?thesis
    by (auto simp: identity_module_def)
qed

text \<open>
  The encoder does not check everything the loader does. With a function name of 4097
  characters \<open>c0_image_encode\<close> succeeds, and the loader rejects the image it wrote with
  \<open>LIN_BC1_ERR_COUNT\<close>.
\<close>
theorem encoder_misses_string_limit:
  "\<exists>img. c0_image_encode (\<lambda>_. True) long_name_module = Inr img \<and>
     lin_bc1_load (Some img) True = Inl LIN_BC1_ERR_COUNT"
proof -
  from long_name_encodes obtain img where i: "c0_image_encode (\<lambda>_. True) long_name_module = Inr img" by blast
  with encode_bytes [OF i] long_name_rejected show ?thesis by (simp add: image_bytes_def)
qed

end
