(* ===== verification/Lin_Stdlib.thy ===== *)
theory Lin_Stdlib
  imports Lin_Token
begin

text \<open>
  The functions of the C library that the tools of \<open>transpile/c\<close> call on text: \<open>strtoll\<close> with
  its end pointer, the decimal conversions of \<open>printf\<close> and \<open>strchr\<close> as a split. A C string is
  the list of its characters in front of the terminator.
\<close>

section \<open>Numbers\<close>

text \<open>\<open>isspace\<close> in the C locale.\<close>

definition is_space :: "char \<Rightarrow> bool" where
  "is_space c = (c = CHR '' '' \<or> (9 \<le> (of_char c :: nat) \<and> (of_char c :: nat) \<le> 13))"

fun strto_sign :: "string \<Rightarrow> bool \<times> string" where
  "strto_sign [] = (False, [])"
| "strto_sign (c # s) = (if c = CHR ''-'' then (True, s) else if c = CHR ''+'' then (False, s) else (False, c # s))"

definition strto_clamp :: "int \<Rightarrow> i64" where
  "strto_clamp v = word_of_int (max (- (2 ^ 63)) (min (2 ^ 63 - 1) v))"

text \<open>
  \<open>strtoll(s, &end, 10)\<close> and, for a 64-bit \<open>long\<close>, \<open>strtol\<close>: the value and the text at
  \<open>end\<close>, or \<^const>\<open>None\<close> when there is no digit and \<open>end\<close> is \<open>s\<close>. A value outside the
  range saturates.
\<close>

definition strtoll :: "string \<Rightarrow> (i64 \<times> string) option" where
  "strtoll s =
     (let (neg, t) = strto_sign (dropWhile is_space s); ds = takeWhile is_digit t; v = foldl dec_step 0 ds :: int in
      if ds = [] then None else Some (strto_clamp (if neg then - v else v), dropWhile is_digit t))"

text \<open>\<open>%lld\<close>, and \<open>%zu\<close> or \<open>%llu\<close>.\<close>

definition fmt_i64 :: "i64 \<Rightarrow> string" where
  "fmt_i64 x = (if sint x < 0 then ''-'' else []) @ dec_digits (nat \<bar>sint x\<bar>)"

abbreviation fmt_u64 :: "u64 \<Rightarrow> string" where "fmt_u64 x \<equiv> dec_digits (unat x)"

lemma digit_not_space: "is_digit c \<Longrightarrow> \<not> is_space c \<and> c \<noteq> CHR ''-'' \<and> c \<noteq> CHR ''+''"
  by (auto simp: is_digit_def is_space_def less_eq_char_def)

lemma digits_split:
  assumes "\<forall>c \<in> set ds. is_digit c" "rest = [] \<or> \<not> is_digit (hd rest)"
  shows "takeWhile is_digit (ds @ rest) = ds" "dropWhile is_digit (ds @ rest) = rest"
proof -
  have "takeWhile is_digit rest = [] \<and> dropWhile is_digit rest = rest" using assms(2) by (cases rest) auto
  with assms(1) show "takeWhile is_digit (ds @ rest) = ds" "dropWhile is_digit (ds @ rest) = rest" by simp_all
qed

lemma dec_digits_split:
  assumes "rest = [] \<or> \<not> is_digit (hd rest)"
  shows "takeWhile is_digit (dec_digits n @ rest) = dec_digits n" "dropWhile is_digit (dec_digits n @ rest) = rest"
  using digits_split [OF _ assms, of "dec_digits n"] is_digit_dec_digits by blast+

lemma dec_digits_inject: "dec_digits m = dec_digits n \<longleftrightarrow> m = n"
  using dec_digits_value [of m, where 'a = nat] dec_digits_value [of n, where 'a = nat] by (metis of_nat_id)

lemma dec_digits_Cons: obtains d ds where "dec_digits n = d # ds" "is_digit d"
proof (cases "dec_digits n")
  case (Cons d ds)
  then have "is_digit d" using is_digit_dec_digits [of d n] by simp
  with Cons show thesis by (rule that)
qed simp

lemma strto_sign_fmt: "strto_sign (dropWhile is_space (fmt_i64 x @ rest)) = (sint x < 0, dec_digits (nat \<bar>sint x\<bar>) @ rest)"
proof -
  obtain d ds where d: "dec_digits (nat \<bar>sint x\<bar>) = d # ds" "is_digit d" by (rule dec_digits_Cons)
  have "\<not> is_space (CHR ''-'')" by (simp add: is_space_def)
  with d digit_not_space [OF d(2)] show ?thesis by (simp add: fmt_i64_def)
qed

text \<open>Every 64-bit value is read back from its decimal text, up to the first other character.\<close>

lemma strtoll_fmt:
  assumes "rest = [] \<or> \<not> is_digit (hd rest)"
  shows "strtoll (fmt_i64 x @ rest) = Some (x, rest)"
proof -
  define n where "n = nat \<bar>sint x\<bar>"
  have "strto_clamp (if sint x < 0 then - int n else int n) = x"
    using i64_range [of x] by (simp add: strto_clamp_def n_def)
  moreover have "strto_sign (dropWhile is_space (fmt_i64 x @ rest)) = (sint x < 0, dec_digits n @ rest)"
    unfolding n_def by (rule strto_sign_fmt)
  ultimately show ?thesis
    using dec_digits_split [OF assms, of n] dec_digits_value [of n, where 'a = int]
    by (simp only: strtoll_def Let_def prod.case) simp
qed

lemma fmt_i64_not_ident: "c \<in> set (fmt_i64 x) \<Longrightarrow> c = CHR ''-'' \<or> is_digit c"
  using is_digit_dec_digits by (auto simp: fmt_i64_def split: if_splits)

section \<open>Searching\<close>

text \<open>\<open>strchr(s, c)\<close>: the text in front of the first \<open>c\<close> and the one behind it.\<close>

definition strchr_split :: "char \<Rightarrow> string \<Rightarrow> (string \<times> string) option" where
  "strchr_split c s = (if c \<in> set s then Some (takeWhile (\<lambda>x. x \<noteq> c) s, tl (dropWhile (\<lambda>x. x \<noteq> c) s)) else None)"

lemma strchr_split_append: "c \<notin> set s \<Longrightarrow> strchr_split c (s @ c # t) = Some (s, t)"
proof -
  assume "c \<notin> set s"
  then have "\<forall>x \<in> set s. x \<noteq> c" by auto
  then show ?thesis by (simp add: strchr_split_def takeWhile_append2 dropWhile_append2)
qed

lemma strchr_split_Some: "strchr_split c s = Some (a, b) \<longleftrightarrow> s = a @ c # b \<and> c \<notin> set a"
proof
  assume "strchr_split c s = Some (a, b)"
  then have c: "c \<in> set s" and a: "a = takeWhile (\<lambda>x. x \<noteq> c) s" and b: "b = tl (dropWhile (\<lambda>x. x \<noteq> c) s)"
    by (simp_all add: strchr_split_def split: if_splits)
  from c have d: "dropWhile (\<lambda>x. x \<noteq> c) s \<noteq> []" by (auto simp: dropWhile_eq_Nil_conv)
  then have "hd (dropWhile (\<lambda>x. x \<noteq> c) s) = c" using hd_dropWhile [of "\<lambda>x. x \<noteq> c" s] by simp
  then have "dropWhile (\<lambda>x. x \<noteq> c) s = c # b" using d b by (cases "dropWhile (\<lambda>x. x \<noteq> c) s") auto
  then have "s = a @ c # b" using takeWhile_dropWhile_id [of "\<lambda>x. x \<noteq> c" s] by (simp only: a)
  moreover have "c \<notin> set a" unfolding a by (auto dest: set_takeWhileD)
  ultimately show "s = a @ c # b \<and> c \<notin> set a" ..
qed (simp add: strchr_split_append)

section \<open>Text\<close>

definition QUOT :: char where "QUOT = CHR 0x22"

definition quoted :: "string \<Rightarrow> string" where
  "quoted s = QUOT # s @ [QUOT]"

end
