(* ===== verification/Lint_C0.thy ===== *)
theory Lint_C0
  imports C0_Image Lin_Stdlib
begin

text \<open>
  \<open>transpile/c/lint_c0/lint_c0.c\<close>, the compiler of layout texts: indented lines become an arena
  of nodes with parent indices, strings are interned in the order of their first use, and the
  result is written as a LAY1 image.

  \<^item> \<open>lint_lines\<close> is the \<open>fgets\<close> loop of \<open>main\<close>, \<open>lint_line\<close> its body; the local
    arrays of \<open>main\<close> and the static arena are the record \<open>Lint\<close>. A \<open>DIE\<close> or \<open>exit(1)\<close> is a
    value of \<open>LintErr\<close> with the line number it prints.
  \<^item> A fixed-size buffer is a string; where \<open>strncpy\<close> or \<open>strncat\<close> cut, the model cuts.
  \<^item> Opening, writing and closing the two files has no counterpart.
\<close>

section \<open>Limits and data\<close>

definition MAXNODES :: nat where "MAXNODES = 1024"
definition MAXSTR :: nat where "MAXSTR = 1024"
definition STRCAP :: nat where "STRCAP = 8192"
definition LINEBUF :: nat where "LINEBUF = 2048"
definition MAXTEXT :: nat where "MAXTEXT = 500"
definition MAXDEPTH :: nat where "MAXDEPTH = 256"

lemmas lint_limits = MAXNODES_def MAXSTR_def STRCAP_def LINEBUF_def MAXTEXT_def MAXDEPTH_def

datatype LintErr =
    LineTooLong nat | TooManyNodes nat | StyleOutside nat | UnknownTag nat string
  | TooDeep nat | TextTooLong nat | NoView | StringTableFull

definition TAGS :: "(string \<times> u8) list" where
  "TAGS = [(''VIEW'', 0), (''DIV'', 1), (''ROW'', 2), (''COL'', 3),
     (''H1'', 4), (''H2'', 5), (''H3'', 6), (''P'', 7), (''PRE'', 8),
     (''BUTTON'', 9), (''INPUT'', 10), (''SPAN'', 11), (''A'', 12),
     (''IMG'', 13), (''IFRAME'', 14), (''SECTION'', 15)]"

definition tag_lookup :: "string \<Rightarrow> u8 option" where
  "tag_lookup kw = map_of TAGS kw"

record Node =
  nd_parent :: "nat option"
  nd_tag :: u8
  nd_text :: string
  nd_style :: string
  nd_attrs :: string
  nd_action :: string
  nd_children :: nat

record Lint =
  lt_nodes :: "Node list"
  lt_root :: "nat option"
  lt_stack :: "(nat \<times> nat) list"
  lt_first :: bool

section \<open>Lines\<close>

text \<open>\<open>fgets\<close> on a file that is not at its end: the line read, whether the end was met, the rest.\<close>

definition fgets :: "nat \<Rightarrow> string \<Rightarrow> string \<times> bool \<times> string" where
  "fgets cap s =
     (let l = take (cap - 1) s in
      case strchr_split (CHR 0x0A) l of
        Some (a, b) \<Rightarrow> (a @ [CHR 0x0A], False, drop (length a + 1) s)
      | None \<Rightarrow> (l, length l < cap - 1, drop (cap - 1) s))"

fun strip_comment :: "bool \<Rightarrow> string \<Rightarrow> string" where
  "strip_comment inq [] = []"
| "strip_comment inq (c # s) =
     (let inq' = (if c = QUOT then \<not> inq else inq) in
      if \<not> inq' \<and> c = CHR ''/'' \<and> s \<noteq> [] \<and> hd s = CHR ''/'' then []
      else c # strip_comment inq' s)"

text \<open>\<open>tokenize\<close> with room for \<open>cap\<close> more tokens; \<open>cur\<close> is the token begun at \<open>start\<close>.\<close>

fun lay_tokenize :: "nat \<Rightarrow> bool \<Rightarrow> string option \<Rightarrow> string \<Rightarrow> string list" where
  "lay_tokenize 0 inq cur s = []"
| "lay_tokenize (Suc cap) inq cur [] = (case cur of None \<Rightarrow> [] | Some w \<Rightarrow> [w])"
| "lay_tokenize (Suc cap) inq cur (c # s) =
     (let w = (case cur of None \<Rightarrow> [c] | Some w \<Rightarrow> w @ [c]) in
      if c = QUOT then lay_tokenize (Suc cap) (\<not> inq) (Some w) s
      else if \<not> inq \<and> is_blank c then
        (case cur of None \<Rightarrow> lay_tokenize (Suc cap) inq None s | Some v \<Rightarrow> v # lay_tokenize cap inq None s)
      else lay_tokenize (Suc cap) inq (Some w) s)"

definition upchar :: "char \<Rightarrow> char" where
  "upchar c = (if CHR ''a'' \<le> c \<and> c \<le> CHR ''z'' then char_of ((of_char c :: nat) - 32) else c)"

abbreviation upcase :: "string \<Rightarrow> string" where "upcase s \<equiv> map upchar s"

definition line_keyword :: "string \<Rightarrow> string" where
  "line_keyword work =
     upcase (take 31 (case strchr_split (CHR '' '') work of Some (a, b) \<Rightarrow> a | None \<Rightarrow> work))"

section \<open>Nodes\<close>

text \<open>\<open>strncat(dst, src, 512 - strlen(dst) - 1)\<close>.\<close>

definition cat512 :: "string \<Rightarrow> string \<Rightarrow> string" where
  "cat512 dst s = dst @ take (512 - length dst - 1) s"

text \<open>The loop of a \<open>STYLE\<close> line over the tokens behind the keyword.\<close>

fun join_style :: "string \<Rightarrow> string list \<Rightarrow> string" where
  "join_style st [] = st"
| "join_style st (t # ts) = join_style (cat512 (cat512 st '' '') t) ts"

definition style_of :: "string list \<Rightarrow> string" where
  "style_of ts = (case ts of [] \<Rightarrow> [] | t # ts' \<Rightarrow> join_style (cat512 [] t) ts')"

text \<open>One token behind the tag: a quoted text, a key with a value, or a word that is dropped.\<close>

definition text_token :: "string \<Rightarrow> string" where
  "text_token tok = (if length tok \<ge> 2 \<and> last tok = QUOT then butlast (tl tok) else tl tok)"

definition lay_attr :: "nat \<Rightarrow> string \<Rightarrow> Node \<Rightarrow> LintErr + Node" where
  "lay_attr ln tok n =
     (if tok \<noteq> [] \<and> hd tok = QUOT then
        (let t = text_token tok in
         if length t > MAXTEXT then Inl (TextTooLong ln) else Inr (n\<lparr>nd_text := t\<rparr>))
      else case strchr_split (CHR ''='') tok of
          None \<Rightarrow> Inr n
        | Some (key, v) \<Rightarrow>
            (let k = upcase (take 31 key) in
             if k = ''STYLE'' then Inr (n\<lparr>nd_style := take 511 v\<rparr>)
             else if k = ''ACTION'' then Inr (n\<lparr>nd_action := take 127 v\<rparr>)
             else Inr (n\<lparr>nd_attrs := cat512 (if nd_attrs n \<noteq> [] then cat512 (nd_attrs n) '' '' else nd_attrs n) tok\<rparr>)))"

fun lay_attrs :: "nat \<Rightarrow> string list \<Rightarrow> Node \<Rightarrow> LintErr + Node" where
  "lay_attrs ln [] n = Inr n"
| "lay_attrs ln (t # ts) n = and_then (lay_attr ln t n) (lay_attrs ln ts)"

definition empty_node :: "nat option \<Rightarrow> u8 \<Rightarrow> Node" where
  "empty_node parent tag = \<lparr>nd_parent = parent, nd_tag = tag, nd_text = [], nd_style = [], nd_attrs = [],
     nd_action = [], nd_children = 0\<rparr>"

text \<open>Appending a node: the parent's counter, the depth check and the push, as both branches end.\<close>

definition count_child :: "nat option \<Rightarrow> Node list \<Rightarrow> Node list" where
  "count_child parent ns =
     (case parent of None \<Rightarrow> ns | Some p \<Rightarrow> ns[p := (ns ! p)\<lparr>nd_children := nd_children (ns ! p) + 1\<rparr>])"

definition push_node :: "nat \<Rightarrow> nat \<Rightarrow> Node \<Rightarrow> Lint \<Rightarrow> LintErr + Lint" where
  "push_node ln indent n st =
     (if length (lt_stack st) \<ge> MAXDEPTH then Inl (TooDeep ln)
      else Inr (st\<lparr>lt_nodes := count_child (nd_parent n) (lt_nodes st) @ [n],
                  lt_stack := (length (lt_nodes st), indent) # lt_stack st\<rparr>))"

section \<open>One line\<close>

text \<open>The two loops that pop deeper nodes and siblings.\<close>

definition pop_stack :: "nat \<Rightarrow> (nat \<times> nat) list \<Rightarrow> (nat \<times> nat) list" where
  "pop_stack indent stk = dropWhile (\<lambda>(_, ind). indent = ind) (dropWhile (\<lambda>(_, ind). indent < ind) stk)"

definition view_line :: "nat \<Rightarrow> nat \<Rightarrow> nat option \<Rightarrow> Lint \<Rightarrow> LintErr + Lint" where
  "view_line ln indent parent st =
     (if length (lt_nodes st) \<ge> MAXNODES then Inl (TooManyNodes ln)
      else push_node ln indent (empty_node parent 0)
        (st\<lparr>lt_root := (case lt_root st of None \<Rightarrow> Some (length (lt_nodes st)) | Some r \<Rightarrow> Some r)\<rparr>))"

definition style_line :: "nat \<Rightarrow> string list \<Rightarrow> Lint \<Rightarrow> LintErr + Lint" where
  "style_line ln toks st =
     (case lt_stack st of
        [] \<Rightarrow> Inl (StyleOutside ln)
      | (i, _) # _ \<Rightarrow> Inr (st\<lparr>lt_nodes := (lt_nodes st)[i := (lt_nodes st ! i)\<lparr>nd_style := style_of (tl toks)\<rparr>]\<rparr>))"

definition tag_line :: "nat \<Rightarrow> nat \<Rightarrow> nat option \<Rightarrow> string \<Rightarrow> string list \<Rightarrow> Lint \<Rightarrow> LintErr + Lint" where
  "tag_line ln indent parent kw toks st =
     (case tag_lookup kw of
        None \<Rightarrow> Inl (UnknownTag ln (hd toks))
      | Some i \<Rightarrow>
          if length (lt_nodes st) \<ge> MAXNODES then Inl (TooManyNodes ln)
          else and_then (lay_attrs ln (tl toks) (empty_node parent i)) (\<lambda>n. push_node ln indent n st))"

definition lint_statement :: "nat \<Rightarrow> nat \<Rightarrow> string \<Rightarrow> Lint \<Rightarrow> LintErr + Lint" where
  "lint_statement ln indent work st0 =
     (let kw = line_keyword work;
          st = (if kw \<noteq> ''STYLE'' \<and> kw \<noteq> ''END'' then st0\<lparr>lt_stack := pop_stack indent (lt_stack st0)\<rparr> else st0);
          parent = (case lt_stack st of [] \<Rightarrow> None | (i, _) # _ \<Rightarrow> Some i);
          toks = lay_tokenize 64 False None work in
      if toks = [] then Inr st
      else if kw = ''VIEW'' then view_line ln indent parent st
      else if kw = ''STYLE'' then style_line ln toks st
      else if kw = ''END'' then Inr (st\<lparr>lt_stack := tl (lt_stack st)\<rparr>)
      else tag_line ln indent parent kw toks st)"

definition lint_line :: "nat \<Rightarrow> string \<Rightarrow> bool \<Rightarrow> Lint \<Rightarrow> LintErr + Lint" where
  "lint_line ln raw eof st =
     (let buf = cstr raw in
      if CHR 0x0A \<notin> set buf \<and> \<not> eof then Inl (LineTooLong ln)
      else
        (let line = strip_comment False (takeWhile (\<lambda>c. c \<noteq> CHR 0x0D \<and> c \<noteq> CHR 0x0A) buf);
             t = dropWhile is_blank line in
         if t = [] then Inr st
         else if lt_first st \<and> take 5 t = ''@LAY:'' then Inr (st\<lparr>lt_first := False\<rparr>)
         else if hd t = CHR ''@'' then Inr (st\<lparr>lt_first := False\<rparr>)
         else lint_statement ln (length line - length t) t (st\<lparr>lt_first := False\<rparr>)))"

function lint_lines :: "nat \<Rightarrow> string \<Rightarrow> Lint \<Rightarrow> LintErr + Lint" where
  "lint_lines ln s st =
     (if s = [] then Inr st
      else let (line, eof, rest) = fgets LINEBUF s in
        and_then (lint_line ln line eof st) (lint_lines (Suc ln) rest))"
  by pat_completeness auto

lemma fgets_shorter: "s \<noteq> [] \<Longrightarrow> 1 < cap \<Longrightarrow> length (snd (snd (fgets cap s))) < length s"
  by (cases s) (auto simp: fgets_def Let_def split: option.splits)

termination lint_lines
proof (relation "measure (\<lambda>(_, s, _). length s)", simp, clarify)
  fix s :: string and line eof rest assume "s \<noteq> []" "(line, eof, rest) = fgets LINEBUF s"
  then show "((x, rest, y), (z, s, w)) \<in> measure (\<lambda>(_, s, _). length s)" for x y z w
    using fgets_shorter [of s LINEBUF] by (auto simp: LINEBUF_def dest: sym)
qed

declare lint_lines.simps [simp del]

section \<open>The image\<close>

definition intern :: "string \<Rightarrow> string list \<Rightarrow> LintErr + (u16 \<times> string list)" where
  "intern s tab =
     (if s = [] then Inr (0xFFFF, tab)
      else case index_from 0 (\<lambda>t. t = s) tab of
          Some i \<Rightarrow> Inr (of_nat i, tab)
        | None \<Rightarrow>
            if length tab \<ge> MAXSTR \<or> sum_list (map length tab) + length s > STRCAP then Inl StringTableFull
            else Inr (of_nat (length tab), tab @ [s]))"

text \<open>The strings of a node in the order they are interned, and the references of all nodes.\<close>

fun intern_list :: "string list \<Rightarrow> string list \<Rightarrow> LintErr + (u16 list \<times> string list)" where
  "intern_list [] tab = Inr ([], tab)"
| "intern_list (s # ss) tab =
     and_then (intern s tab) (\<lambda>(r, tab'). and_then (intern_list ss tab') (\<lambda>(rs, tab''). Inr (r # rs, tab'')))"

definition node_strings :: "Node \<Rightarrow> string list" where
  "node_strings n = [nd_text n, nd_style n, nd_attrs n, nd_action n]"

fun intern_nodes :: "Node list \<Rightarrow> string list \<Rightarrow> LintErr + (u16 list list \<times> string list)" where
  "intern_nodes [] tab = Inr ([], tab)"
| "intern_nodes (n # ns) tab =
     and_then (intern_list (node_strings n) tab) (\<lambda>(r, tab'). and_then (intern_nodes ns tab') (\<lambda>(rs, tab''). Inr (r # rs, tab'')))"

abbreviation w16 :: "u16 \<Rightarrow> bytes" where "w16 v \<equiv> le_bytes 2 v"

definition node_flags :: "Node \<Rightarrow> u8" where
  "node_flags n = (if nd_text n \<noteq> [] then 1 else 0) OR (if nd_style n \<noteq> [] then 2 else 0) OR
     (if nd_attrs n \<noteq> [] then 4 else 0) OR (if nd_action n \<noteq> [] then 8 else 0)"

definition node_bytes :: "Node \<Rightarrow> u16 list \<Rightarrow> bytes" where
  "node_bytes n refs =
     w16 (case nd_parent n of None \<Rightarrow> 0xFFFF | Some p \<Rightarrow> of_nat p) @ [nd_tag n] @ [node_flags n] @
     concat (map w16 refs) @ [of_nat (nd_children n)] @ [0]"

definition string_bytes :: "string \<Rightarrow> bytes" where
  "string_bytes s = w16 (of_nat (length s)) @ bytes_of_string s"

definition lay_image :: "nat \<Rightarrow> Node list \<Rightarrow> u16 list list \<Rightarrow> string list \<Rightarrow> bytes" where
  "lay_image root ns refs tab =
     bytes_of_string ''LAY1'' @ [1] @ w16 (of_nat root) @ w16 (of_nat (length ns)) @ w16 (of_nat (length tab)) @
     concat (map string_bytes tab) @ concat (map2 node_bytes ns refs)"

definition lint_parse :: "string \<Rightarrow> LintErr + (nat \<times> Node list)" where
  "lint_parse s =
     and_then (lint_lines 1 s \<lparr>lt_nodes = [], lt_root = None, lt_stack = [], lt_first = True\<rparr>) (\<lambda>st.
       case lt_root st of
         Some r \<Rightarrow> Inr (r, lt_nodes st)
       | None \<Rightarrow> if lt_nodes st = [] then Inl NoView else Inr (0, lt_nodes st))"

definition lint_c0 :: "string \<Rightarrow> LintErr + bytes" where
  "lint_c0 s =
     and_then (lint_parse s) (\<lambda>(root, ns).
     and_then (intern_nodes ns []) (\<lambda>(refs, tab). Inr (lay_image root ns refs tab)))"

section \<open>Reading an image\<close>

text \<open>The decoder the format defines: the specification of what an image stands for.\<close>

definition rd16 :: "bytes \<Rightarrow> (nat \<times> bytes) option" where
  "rd16 bs = (if length bs < 2 then None else Some (unat (le_value 2 bs :: u16), drop 2 bs))"

fun dec_strings :: "nat \<Rightarrow> bytes \<Rightarrow> (string list \<times> bytes) option" where
  "dec_strings 0 bs = Some ([], bs)"
| "dec_strings (Suc n) bs =
     Option.bind (rd16 bs) (\<lambda>(l, b1).
       if length b1 < l then None
       else Option.bind (dec_strings n (drop l b1)) (\<lambda>(ss, b2). Some (string_of_bytes (take l b1) # ss, b2)))"

definition dec_ref :: "string list \<Rightarrow> nat \<Rightarrow> string option" where
  "dec_ref tab r = (if r = 0xFFFF then Some [] else if r < length tab then Some (tab ! r) else None)"

fun dec_refs :: "nat \<Rightarrow> string list \<Rightarrow> bytes \<Rightarrow> (string list \<times> bytes) option" where
  "dec_refs 0 tab bs = Some ([], bs)"
| "dec_refs (Suc n) tab bs =
     Option.bind (rd16 bs) (\<lambda>(r, b1). Option.bind (dec_ref tab r) (\<lambda>s.
       Option.bind (dec_refs n tab b1) (\<lambda>(ss, b2). Some (s # ss, b2))))"

definition dec_node :: "string list \<Rightarrow> bytes \<Rightarrow> (Node \<times> bytes) option" where
  "dec_node tab bs =
     Option.bind (rd16 bs) (\<lambda>(p, b1).
       if length b1 < 2 then None
       else Option.bind (dec_refs 4 tab (drop 2 b1)) (\<lambda>(ss, b2).
         if length b2 < 2 then None
         else Some (\<lparr>nd_parent = (if p = 0xFFFF then None else Some p), nd_tag = b1 ! 0, nd_text = ss ! 0,
           nd_style = ss ! 1, nd_attrs = ss ! 2, nd_action = ss ! 3, nd_children = unat (b2 ! 0)\<rparr>, drop 2 b2)))"

fun dec_nodes :: "nat \<Rightarrow> string list \<Rightarrow> bytes \<Rightarrow> Node list option" where
  "dec_nodes 0 tab bs = (if bs = [] then Some [] else None)"
| "dec_nodes (Suc n) tab bs =
     Option.bind (dec_node tab bs) (\<lambda>(nd, b1). map_option ((#) nd) (dec_nodes n tab b1))"

definition lay_decode :: "bytes \<Rightarrow> (nat \<times> Node list) option" where
  "lay_decode bs =
     (if take 5 bs \<noteq> bytes_of_string ''LAY1'' @ [1] then None
      else Option.bind (rd16 (drop 5 bs)) (\<lambda>(root, b1). Option.bind (rd16 b1) (\<lambda>(nn, b2).
        Option.bind (rd16 b2) (\<lambda>(nt, b3). Option.bind (dec_strings nt b3) (\<lambda>(tab, b4).
          map_option (Pair root) (dec_nodes nn tab b4))))))"

section \<open>The string table\<close>

definition tab_ok :: "string list \<Rightarrow> bool" where
  "tab_ok tab = (length tab \<le> MAXSTR \<and> sum_list (map length tab) \<le> STRCAP)"

definition ref_of :: "string list \<Rightarrow> u16 \<Rightarrow> string \<Rightarrow> bool" where
  "ref_of tab r s = (if s = [] then r = 0xFFFF else unat r < length tab \<and> tab ! unat r = s)"

lemma unat_index: "i < MAXSTR \<Longrightarrow> unat (of_nat i :: u16) = i"
  by (simp add: unsigned_of_nat take_bit_nat_eq_self lint_limits)

lemma intern_ref:
  assumes "intern s tab = Inr (r, tab')" "tab_ok tab"
  shows "tab_ok tab' \<and> (\<exists>xs. tab' = tab @ xs) \<and> ref_of tab' r s"
proof (cases "s = []")
  case False
  show ?thesis
  proof (cases "index_from 0 (\<lambda>t. t = s) tab")
    case None
    with assms False show ?thesis
      by (auto simp: intern_def tab_ok_def ref_of_def unat_index nth_append split: if_splits)
  next
    case (Some i)
    with assms False index_from_Some [OF Some] unat_index [of i] show ?thesis
      by (auto simp: intern_def tab_ok_def ref_of_def)
  qed
qed (use assms in \<open>auto simp: intern_def ref_of_def\<close>)

lemma ref_of_append: "ref_of tab r s \<Longrightarrow> ref_of (tab @ xs) r s"
  by (auto simp: ref_of_def nth_append split: if_splits)

lemma refs_append: "list_all2 (ref_of tab) rs ss \<Longrightarrow> list_all2 (ref_of (tab @ xs)) rs ss"
  by (erule list_all2_mono) (rule ref_of_append)

lemma intern_list_refs:
  "intern_list ss tab = Inr (rs, tab') \<Longrightarrow> tab_ok tab \<Longrightarrow>
     tab_ok tab' \<and> (\<exists>xs. tab' = tab @ xs) \<and> list_all2 (ref_of tab') rs ss"
proof (induction ss arbitrary: tab rs)
  case (Cons s ss)
  from Cons.prems(1) obtain r tab1 rs' where i: "intern s tab = Inr (r, tab1)" "intern_list ss tab1 = Inr (rs', tab')" "rs = r # rs'"
    by auto
  from intern_ref [OF i(1) Cons.prems(2)] obtain xs where t: "tab_ok tab1" "tab1 = tab @ xs" "ref_of tab1 r s" by blast
  from Cons.IH [OF i(2) t(1)] obtain ys where "tab_ok tab'" "tab' = tab1 @ ys" "list_all2 (ref_of tab') rs' ss" by blast
  with t i(3) ref_of_append [OF t(3), of ys] show ?case by auto
qed simp

lemma intern_nodes_refs:
  "intern_nodes ns tab = Inr (refs, tab') \<Longrightarrow> tab_ok tab \<Longrightarrow>
     tab_ok tab' \<and> (\<exists>xs. tab' = tab @ xs) \<and> list_all2 (\<lambda>rs n. list_all2 (ref_of tab') rs (node_strings n)) refs ns"
proof (induction ns arbitrary: tab refs)
  case (Cons n ns)
  from Cons.prems(1) obtain r tab1 rs' where i: "intern_list (node_strings n) tab = Inr (r, tab1)" "intern_nodes ns tab1 = Inr (rs', tab')" "refs = r # rs'"
    by auto
  from intern_list_refs [OF i(1) Cons.prems(2)] obtain xs where t: "tab_ok tab1" "tab1 = tab @ xs" "list_all2 (ref_of tab1) r (node_strings n)" by blast
  from Cons.IH [OF i(2) t(1)] obtain ys where "tab_ok tab'" "tab' = tab1 @ ys" "list_all2 (\<lambda>rs n. list_all2 (ref_of tab') rs (node_strings n)) rs' ns" by blast
  with t i(3) refs_append [OF t(3), of ys] show ?case by auto
qed simp

section \<open>Decoding what was encoded\<close>

lemma rd16_w16 [simp]: "rd16 (w16 v @ bs) = Some (unat v, bs)"
  using le_value_bytes [of 2 v bs] by (simp add: rd16_def)

lemma dec_strings_bytes:
  "\<forall>s \<in> set tab. length s < 2 ^ 16 \<Longrightarrow> dec_strings (length tab) (concat (map string_bytes tab) @ bs) = Some (tab, bs)"
proof (induction tab)
  case (Cons s tab)
  then have "unat (of_nat (length s) :: u16) = length s"
    by (simp add: unsigned_of_nat take_bit_nat_eq_self)
  with Cons show ?case by (simp add: string_bytes_def string_of_bytes_of_string)
qed simp

lemma dec_ref_of: "ref_of tab r s \<Longrightarrow> tab_ok tab \<Longrightarrow> dec_ref tab (unat r) = Some s"
  by (auto simp: ref_of_def dec_ref_def tab_ok_def lint_limits split: if_splits)

lemma dec_refs_bytes:
  "list_all2 (ref_of tab) rs ss \<Longrightarrow> tab_ok tab \<Longrightarrow> dec_refs (length rs) tab (concat (map w16 rs) @ bs) = Some (ss, bs)"
  by (induction rs ss rule: list_all2_induct) (simp_all add: dec_ref_of)

text \<open>The only field an image does not hold exactly: the children counter is one byte.\<close>

definition wrap_children :: "Node \<Rightarrow> Node" where
  "wrap_children n = n\<lparr>nd_children := nd_children n mod 256\<rparr>"

lemma dec_node_bytes:
  assumes "list_all2 (ref_of tab) rs (node_strings n)" "tab_ok tab" "\<forall>p. nd_parent n = Some p \<longrightarrow> p < MAXNODES"
  shows "dec_node tab (node_bytes n rs @ bs) = Some (wrap_children n, bs)"
proof -
  have "length rs = 4" using list_all2_lengthD [OF assms(1)] by (simp add: node_strings_def)
  then have r: "dec_refs 4 tab (concat (map w16 rs) @ cs) = Some (node_strings n, cs)" for cs
    using dec_refs_bytes [OF assms(1,2)] by simp
  have p: "(if unat q = 0xFFFF then None else Some (unat q)) = nd_parent n"
    if "q = (case nd_parent n of None \<Rightarrow> 0xFFFF | Some p \<Rightarrow> of_nat p)" for q :: u16
  proof (cases "nd_parent n")
    case (Some p)
    then have "p < 1024" using assms(3) by (simp add: lint_limits)
    then have "unat (of_nat p :: u16) = p" by (simp add: unsigned_of_nat take_bit_nat_eq_self)
    with Some that \<open>p < 1024\<close> show ?thesis by simp
  qed (simp add: that)
  have "unat (of_nat (nd_children n) :: u8) = nd_children n mod 256" by (simp add: unsigned_of_nat take_bit_eq_mod)
  with p [OF refl] show ?thesis
    by (simp add: dec_node_def node_bytes_def r wrap_children_def) (simp add: node_strings_def)
qed

lemma dec_nodes_bytes:
  assumes "list_all2 (\<lambda>rs n. list_all2 (ref_of tab) rs (node_strings n)) refs ns" "tab_ok tab"
    "\<forall>n \<in> set ns. \<forall>p. nd_parent n = Some p \<longrightarrow> p < MAXNODES"
  shows "dec_nodes (length ns) tab (concat (map2 node_bytes ns refs)) = Some (map wrap_children ns)"
  using assms by (induction refs ns rule: list_all2_induct) (simp_all add: dec_node_bytes)

section \<open>The tree\<close>

definition children :: "nat \<Rightarrow> Node list \<Rightarrow> nat" where
  "children i ns = length (filter (\<lambda>n. nd_parent n = Some i) ns)"

definition node_ok :: "Node \<Rightarrow> bool" where
  "node_ok n = (nd_tag n < 16 \<and> length (nd_text n) \<le> MAXTEXT \<and> length (nd_style n) \<le> 511 \<and>
     length (nd_attrs n) \<le> 511 \<and> length (nd_action n) \<le> 127)"

text \<open>
  Every parent stands before its node, every counter is the number of children, and each field
  has its bounds.
\<close>

definition lay_tree :: "Node list \<Rightarrow> bool" where
  "lay_tree ns = (length ns \<le> MAXNODES \<and> list_all node_ok ns \<and>
     (\<forall>i < length ns. (\<forall>p. nd_parent (ns ! i) = Some p \<longrightarrow> p < i) \<and> nd_children (ns ! i) = children i ns))"

text \<open>The stack is the path of open nodes to the root of the subtree, indented more and more.\<close>

fun open_path :: "Node list \<Rightarrow> (nat \<times> nat) list \<Rightarrow> bool" where
  "open_path ns [] = True"
| "open_path ns ((i, ind) # stk) =
     (i < length ns \<and> nd_parent (ns ! i) = (case stk of [] \<Rightarrow> None | (j, _) # _ \<Rightarrow> Some j) \<and>
      (case stk of [] \<Rightarrow> True | (_, ind') # _ \<Rightarrow> ind' < ind) \<and> open_path ns stk)"

definition lint_ok :: "Lint \<Rightarrow> bool" where
  "lint_ok st = (lay_tree (lt_nodes st) \<and> open_path (lt_nodes st) (lt_stack st) \<and>
     length (lt_stack st) \<le> MAXDEPTH \<and> (\<forall>r. lt_root st = Some r \<longrightarrow> r < length (lt_nodes st)))"

text \<open>Changing fields of a node other than its parent.\<close>

lemma children_update:
  "i < length ns \<Longrightarrow> nd_parent n = nd_parent (ns ! i) \<Longrightarrow> children k (ns[i := n]) = children k ns"
proof -
  assume a: "i < length ns" "nd_parent n = nd_parent (ns ! i)"
  then have "map nd_parent (ns[i := n]) = map nd_parent ns"
    by (metis list_update_id map_update nth_map)
  then have "map (\<lambda>x. x = Some k) (map nd_parent (ns[i := n])) = map (\<lambda>x. x = Some k) (map nd_parent ns)" by (rule arg_cong)
  moreover have "children k xs = length (filter id (map (\<lambda>x. x = Some k) (map nd_parent xs)))" for xs
    by (simp add: children_def filter_map comp_def)
  ultimately show ?thesis by (simp only:)
qed

lemma open_path_update:
  "open_path ns stk \<Longrightarrow> length ns \<le> length ns' \<Longrightarrow> \<forall>i < length ns. nd_parent (ns' ! i) = nd_parent (ns ! i) \<Longrightarrow> open_path ns' stk"
  by (induction ns stk rule: open_path.induct) auto

lemma open_path_drop: "open_path ns stk \<Longrightarrow> open_path ns (dropWhile P stk)"
  by (induction ns stk rule: open_path.induct) auto

lemma open_path_tl: "open_path ns stk \<Longrightarrow> open_path ns (tl stk)"
  by (cases stk) (auto simp: case_prod_beta split: list.splits)

lemma open_path_below: "open_path ns ((i, ind) # stk) \<Longrightarrow> \<forall>(j, d) \<in> set stk. d < ind"
proof (induction stk arbitrary: i ind)
  case (Cons x stk)
  obtain j d where x: "x = (j, d)" by fastforce
  with Cons.prems have "d < ind" "open_path ns ((j, d) # stk)" by auto
  with Cons.IH [OF this(2)] x show ?case by fastforce
qed simp

text \<open>After the two loops every open node is indented less than the line.\<close>

lemma pop_stack_below:
  assumes "open_path ns stk"
  shows "\<forall>(j, d) \<in> set (pop_stack indent stk). d < indent"
  using assms
proof (induction stk)
  case (Cons x stk)
  obtain j d where x: "x = (j, d)" by fastforce
  have b: "\<forall>(j, d') \<in> set stk. d' < d" using open_path_below Cons.prems x by blast
  have o1: "open_path ns stk" using Cons.prems x by simp
  consider "indent < d" | "indent = d" | "d < indent" by linarith
  then show ?case
  proof cases
    case 1
    then show ?thesis using Cons.IH [OF o1] by (simp add: x pop_stack_def)
  next
    case 2
    have "dropWhile (\<lambda>(_, ind). indent = ind) stk = stk" using b 2 by (cases stk) auto
    then show ?thesis using b 2 by (simp add: x pop_stack_def)
  next
    case 3
    then show ?thesis using b by (fastforce simp: x pop_stack_def)
  qed
qed (simp add: pop_stack_def)

lemma count_child_parent [simp]: "length (count_child par ns) = length ns"
  by (simp add: count_child_def split: option.split)

lemma count_child_nth:
  "(\<forall>p. par = Some p \<longrightarrow> p < length ns) \<Longrightarrow> i < length ns \<Longrightarrow>
     count_child par ns ! i = (ns ! i)\<lparr>nd_children := nd_children (ns ! i) + (if par = Some i then 1 else 0)\<rparr>"
  by (auto simp: count_child_def nth_list_update split: option.split)

lemma children_count_child: "(\<forall>p. par = Some p \<longrightarrow> p < length ns) \<Longrightarrow> children k (count_child par ns) = children k ns"
  by (auto simp: count_child_def children_update split: option.split)

lemma no_children: "lay_tree ns \<Longrightarrow> length ns \<le> k \<Longrightarrow> children k ns = 0"
  by (fastforce simp: lay_tree_def children_def filter_empty_conv in_set_conv_nth)

lemma lay_tree_add:
  assumes t: "lay_tree ns" and n: "length ns < MAXNODES" "node_ok n" "nd_children n = 0"
    and p: "\<forall>p. nd_parent n = Some p \<longrightarrow> p < length ns"
  shows "lay_tree (count_child (nd_parent n) ns @ [n])"
proof -
  let ?ns = "count_child (nd_parent n) ns"
  have c: "children k (?ns @ [n]) = children k ns + (if nd_parent n = Some k then 1 else 0)" for k
    using children_count_child [OF p, of k] by (simp add: children_def)
  have "list_all node_ok ?ns"
    using t count_child_nth [OF p] by (simp add: lay_tree_def list_all_length node_ok_def)
  moreover have "(\<forall>q. nd_parent ((?ns @ [n]) ! i) = Some q \<longrightarrow> q < i) \<and> nd_children ((?ns @ [n]) ! i) = children i (?ns @ [n])"
    if "i < length (?ns @ [n])" for i
  proof (cases "i < length ns")
    case True
    with t show ?thesis unfolding c by (simp add: nth_append count_child_nth [OF p True] lay_tree_def)
  next
    case False
    with that have "i = length ns" by simp
    with n(3) p no_children [OF t, of i] show ?thesis unfolding c by (auto simp: nth_append)
  qed
  ultimately show ?thesis using n(1,2) by (simp add: lay_tree_def)
qed

definition top_node :: "Lint \<Rightarrow> nat option" where
  "top_node st = (case lt_stack st of [] \<Rightarrow> None | (i, _) # _ \<Rightarrow> Some i)"

lemma top_node_bound: "open_path ns (lt_stack st) \<Longrightarrow> top_node st = Some p \<Longrightarrow> p < length ns"
  by (cases "lt_stack st") (auto simp: top_node_def)

lemma push_node_ok:
  assumes "lint_ok (st\<lparr>lt_root := None\<rparr>)" "\<forall>r. lt_root st = Some r \<longrightarrow> r \<le> length (lt_nodes st)"
    and n: "length (lt_nodes st) < MAXNODES" "node_ok n" "nd_children n = 0" "nd_parent n = top_node st"
    and d: "\<forall>(j, d) \<in> set (lt_stack st). d < indent" and "push_node ln indent n st = Inr st'"
  shows "lint_ok st'"
proof -
  let ?ns = "lt_nodes st" and ?ns' = "count_child (nd_parent n) (lt_nodes st) @ [n]"
  have ok: "lay_tree ?ns" "open_path ?ns (lt_stack st)" using assms(1) by (simp_all add: lint_ok_def)
  have p: "\<forall>p. nd_parent n = Some p \<longrightarrow> p < length ?ns" using ok(2) n(4) top_node_bound by auto
  have "nd_parent (?ns' ! i) = nd_parent (?ns ! i)" if "i < length ?ns" for i
    using count_child_nth [OF p that] that by (simp add: nth_append)
  then have "open_path ?ns' (lt_stack st)" by (intro open_path_update [OF ok(2)]) simp_all
  moreover have "case lt_stack st of [] \<Rightarrow> True | (_, ind') # _ \<Rightarrow> ind' < indent"
    using d by (auto split: list.split)
  ultimately have "open_path ?ns' ((length ?ns, indent) # lt_stack st)"
    using n(4) by (simp add: nth_append top_node_def)
  with lay_tree_add [OF ok(1) n(1-3) p] assms(2,8) show ?thesis
    by (auto simp: lint_ok_def push_node_def split: if_splits)
qed

section \<open>Every line keeps the invariant\<close>

lemma cat512_length: "length a \<le> 511 \<Longrightarrow> length (cat512 a b) \<le> 511"
  by (simp add: cat512_def)

lemma join_style_length: "length st \<le> 511 \<Longrightarrow> length (join_style st ts) \<le> 511"
  by (induction st ts rule: join_style.induct) (simp_all add: cat512_length)

lemma style_of_length: "length (style_of ts) \<le> 511"
  by (simp add: style_of_def join_style_length cat512_length split: list.split)

lemma lay_attrs_ok:
  "lay_attrs ln ts n = Inr n' \<Longrightarrow> node_ok n \<Longrightarrow>
     node_ok n' \<and> nd_parent n' = nd_parent n \<and> nd_children n' = nd_children n"
proof (induction ts arbitrary: n)
  case (Cons t ts)
  from Cons.prems(1) obtain m where m: "lay_attr ln t n = Inr m" "lay_attrs ln ts m = Inr n'" by auto
  have "node_ok m \<and> nd_parent m = nd_parent n \<and> nd_children m = nd_children n"
    using m(1) Cons.prems(2) by (auto simp: lay_attr_def Let_def node_ok_def cat512_length split: if_splits option.splits)
  with Cons.IH [OF m(2)] show ?case by simp
qed simp

lemma tag_lookup_bound: "tag_lookup kw = Some i \<Longrightarrow> i < 16"
  using map_of_SomeD [of TAGS kw i] by (auto simp: tag_lookup_def TAGS_def)

lemma empty_node_ok: "t < 16 \<Longrightarrow> node_ok (empty_node p t)" "nd_parent (empty_node p t) = p" "nd_children (empty_node p t) = 0"
  by (simp_all add: node_ok_def empty_node_def)

lemma view_line_ok:
  assumes "lint_ok st" "\<forall>(j, d) \<in> set (lt_stack st). d < indent" "view_line ln indent (top_node st) st = Inr st'"
  shows "lint_ok st'"
proof -
  let ?st = "st\<lparr>lt_root := (case lt_root st of None \<Rightarrow> Some (length (lt_nodes st)) | Some r \<Rightarrow> Some r)\<rparr>"
  from assms(3) have a: "length (lt_nodes st) < MAXNODES" "push_node ln indent (empty_node (top_node st) 0) ?st = Inr st'"
    by (auto simp: view_line_def split: if_splits)
  show ?thesis
    by (rule push_node_ok [OF _ _ _ _ _ _ _ a(2)])
       (use assms(1,2) a(1) in \<open>auto simp: lint_ok_def empty_node_ok top_node_def split: option.split\<close>)
qed

lemma tag_line_ok:
  assumes "lint_ok st" "\<forall>(j, d) \<in> set (lt_stack st). d < indent" "tag_line ln indent (top_node st) kw toks st = Inr st'"
  shows "lint_ok st'"
proof -
  from assms(3) obtain i n where a: "tag_lookup kw = Some i" "length (lt_nodes st) < MAXNODES"
    "lay_attrs ln (tl toks) (empty_node (top_node st) i) = Inr n" "push_node ln indent n st = Inr st'"
    by (auto simp: tag_line_def split: option.splits if_splits)
  have "node_ok n" "nd_parent n = top_node st" "nd_children n = 0"
    using lay_attrs_ok [OF a(3) empty_node_ok(1)] tag_lookup_bound [OF a(1)] by (simp_all add: empty_node_ok)
  then show ?thesis
    by (intro push_node_ok [OF _ _ _ _ _ _ _ a(4)]) (use assms(1,2) a(2) in \<open>auto simp: lint_ok_def\<close>)
qed

lemma style_line_ok:
  assumes "lint_ok st" "style_line ln toks st = Inr st'"
  shows "lint_ok st'"
proof -
  from assms(2) obtain i d stk where i: "lt_stack st = (i, d) # stk"
    "st' = st\<lparr>lt_nodes := (lt_nodes st)[i := (lt_nodes st ! i)\<lparr>nd_style := style_of (tl toks)\<rparr>]\<rparr>"
    by (auto simp: style_line_def split: list.splits)
  let ?n = "(lt_nodes st ! i)\<lparr>nd_style := style_of (tl toks)\<rparr>"
  have ok: "lay_tree (lt_nodes st)" "open_path (lt_nodes st) (lt_stack st)" "i < length (lt_nodes st)"
    using assms(1) i(1) by (simp_all add: lint_ok_def)
  then have "node_ok ?n" by (simp add: lay_tree_def list_all_length node_ok_def style_of_length)
  then have "lay_tree ((lt_nodes st)[i := ?n])"
    using ok by (auto simp: lay_tree_def list_all_length nth_list_update children_update)
  moreover have "open_path ((lt_nodes st)[i := ?n]) (lt_stack st)"
    using ok(3) by (intro open_path_update [OF ok(2)]) (auto simp: nth_list_update)
  ultimately show ?thesis using assms(1) i(2) by (simp add: lint_ok_def)
qed

lemma lint_statement_ok:
  assumes "lint_ok st" "lint_statement ln indent work st = Inr st'"
  shows "lint_ok st'"
proof -
  let ?st = "st\<lparr>lt_stack := pop_stack indent (lt_stack st)\<rparr>"
  have path: "open_path (lt_nodes st) (lt_stack st)" "length (lt_stack st) \<le> MAXDEPTH"
    using assms(1) by (simp_all add: lint_ok_def)
  have "length (pop_stack indent (lt_stack st)) \<le> length (lt_stack st)"
    unfolding pop_stack_def by (meson le_trans length_dropWhile_le)
  then have ok: "lint_ok ?st"
    using assms(1) path by (auto simp: lint_ok_def pop_stack_def intro: open_path_drop)
  have "lint_ok (st\<lparr>lt_stack := tl (lt_stack st)\<rparr>)"
    using assms(1) open_path_tl [OF path(1)] by (auto simp: lint_ok_def)
  with ok pop_stack_below [OF path(1), of indent] assms view_line_ok [OF ok, of indent ln st']
    tag_line_ok [OF ok, of indent ln "line_keyword work" _ st'] style_line_ok
  show ?thesis unfolding lint_statement_def Let_def top_node_def
    by (auto split: if_splits)
qed

lemma lint_line_ok: "lint_ok st \<Longrightarrow> lint_line ln raw eof st = Inr st' \<Longrightarrow> lint_ok st'"
proof -
  assume a: "lint_ok st" "lint_line ln raw eof st = Inr st'"
  then have "lint_ok (st\<lparr>lt_first := False\<rparr>)" by (simp add: lint_ok_def)
  with a show ?thesis by (auto simp: lint_line_def Let_def split: if_splits dest: lint_statement_ok)
qed

lemma lint_lines_ok: "lint_lines ln s st = Inr st' \<Longrightarrow> lint_ok st \<Longrightarrow> lint_ok st'"
proof (induction ln s st rule: lint_lines.induct)
  case (1 ln s st)
  show ?case
  proof (cases "s = []")
    case True
    with "1.prems" show ?thesis by (simp add: lint_lines.simps)
  next
    case False
    obtain line eof rest where f: "fgets LINEBUF s = (line, eof, rest)" by (cases "fgets LINEBUF s") auto
    with False "1.prems"(1) obtain st1 where st1: "lint_line ln line eof st = Inr st1" "lint_lines (Suc ln) rest st1 = Inr st'"
      by (subst (asm) lint_lines.simps) auto
    show ?thesis
      by (rule "1.IH" [OF False f [symmetric] refl refl st1]) (rule lint_line_ok [OF "1.prems"(2) st1(1)])
  qed
qed

lemma lint_parse_tree:
  assumes "lint_parse s = Inr (root, ns)"
  shows "lay_tree ns \<and> root < length ns"
proof -
  let ?st0 = "\<lparr>lt_nodes = [], lt_root = None, lt_stack = [], lt_first = True\<rparr>"
  from assms obtain st where st: "lint_lines 1 s ?st0 = Inr st" "ns = lt_nodes st"
    "root = (case lt_root st of Some r \<Rightarrow> r | None \<Rightarrow> 0)" "lt_root st = None \<longrightarrow> ns \<noteq> []"
    by (auto simp: lint_parse_def split: option.splits if_splits)
  have "lint_ok ?st0" by (simp add: lint_ok_def lay_tree_def)
  from lint_lines_ok [OF st(1) this] st(2-4) show ?thesis by (auto simp: lint_ok_def split: option.splits)
qed

lemma lint_c0_parts:
  assumes "lint_c0 s = Inr img"
  obtains root ns refs tab where "lint_parse s = Inr (root, ns)" "img = lay_image root ns refs tab" "tab_ok tab"
    "list_all2 (\<lambda>rs n. list_all2 (ref_of tab) rs (node_strings n)) refs ns" "lay_tree ns" "root < length ns"
proof -
  from assms obtain root ns refs tab where p: "lint_parse s = Inr (root, ns)" "intern_nodes ns [] = Inr (refs, tab)"
    "img = lay_image root ns refs tab"
    by (auto simp: lint_c0_def)
  have "tab_ok []" by (simp add: tab_ok_def)
  from intern_nodes_refs [OF p(2) this] lint_parse_tree [OF p(1)] show thesis by (intro that [OF p(1,3)]) auto
qed

lemma lay_image_decode:
  assumes "tab_ok tab" "list_all2 (\<lambda>rs n. list_all2 (ref_of tab) rs (node_strings n)) refs ns" "lay_tree ns" "root < length ns"
  shows "lay_decode (lay_image root ns refs tab) = Some (root, map wrap_children ns)"
proof -
  have len: "length ns \<le> 1024" "length tab \<le> 1024" using assms(1,3) by (simp_all add: lay_tree_def tab_ok_def lint_limits)
  have u: "unat (of_nat k :: u16) = k" if "k \<le> 1024" for k
    using that by (simp add: unsigned_of_nat take_bit_nat_eq_self)
  have "\<forall>n \<in> set ns. \<forall>p. nd_parent n = Some p \<longrightarrow> p < MAXNODES"
    using assms(3) by (fastforce simp: lay_tree_def in_set_conv_nth)
  then have nodes: "dec_nodes (length ns) tab (concat (map2 node_bytes ns refs)) = Some (map wrap_children ns)"
    by (rule dec_nodes_bytes [OF assms(2,1)])
  have "\<forall>s \<in> set tab. length s < 2 ^ 16"
    using assms(1) member_le_sum_list [of _ "map length tab"] by (fastforce simp: tab_ok_def lint_limits)
  note strs = dec_strings_bytes [OF this]
  have "unat (of_nat root :: u16) = root" using assms(4) len by (intro u) simp
  then show ?thesis
    by (simp add: lay_decode_def lay_image_def bytes_of_string_def strs u [OF len(1)] u [OF len(2)] nodes)
qed

lemma lay_image_length:
  assumes "tab_ok tab" "list_all2 (\<lambda>rs n. list_all2 (ref_of tab) rs (node_strings n)) refs ns" "lay_tree ns"
  shows "length (lay_image root ns refs tab) \<le> 24587"
proof -
  have "length (concat (map2 node_bytes ns refs)) = 14 * length ns"
    using assms(2)
  proof (induction refs ns rule: list_all2_induct)
    case (Cons rs refs n ns)
    have "length rs = 4" using list_all2_lengthD [OF Cons.hyps(1)] by (simp add: node_strings_def)
    then have "length (concat (map w16 rs)) = 8" by (simp add: length_concat comp_def sum_list_triv)
    with Cons.IH show ?case by (simp add: node_bytes_def)
  qed simp
  moreover have "length (concat (map string_bytes tab)) = 2 * length tab + sum_list (map length tab)"
    by (induction tab) (simp_all add: string_bytes_def)
  ultimately show ?thesis
    using assms(1,3) by (simp add: lay_image_def tab_ok_def lay_tree_def lint_limits)
qed

text \<open>The smallest layout of the repository's golden files.\<close>

definition minimal_lay :: string where
  "minimal_lay = ''@LAY:1.0'' @ [CHR 0x0A] @ ''VIEW app'' @ [CHR 0x0A] @ ''    H1 '' @ [QUOT] @ ''Hello'' @ [QUOT] @ [CHR 0x0A] @
     ''    P '' @ [QUOT] @ ''World'' @ [QUOT] @ [CHR 0x0A] @ ''END'' @ [CHR 0x0A]"

lemma minimal_golden: "lint_c0 minimal_lay = Inr
  [76, 65, 89, 49, 1, 0, 0, 3, 0, 2, 0, 5, 0, 72, 101, 108, 108, 111, 5, 0, 87, 111, 114, 108, 100,
   255, 255, 0, 0, 255, 255, 255, 255, 255, 255, 255, 255, 2, 0, 0, 0, 4, 1, 0, 0, 255, 255, 255, 255, 255, 255, 0, 0,
   0, 0, 7, 1, 1, 0, 255, 255, 255, 255, 255, 255, 0, 0]"
  by code_simp

section \<open>Properties\<close>

text \<open>
  C8: an image of the layout compiler holds the whole layout. Decoding the bytes written for an
  accepted text gives the root and every node with its parent, tag, text, style, attributes and
  action, in order; only the counter of children is reduced to one byte, although the compiler
  allows 1023 children. The image always fits the output buffer.
\<close>
theorem lint_image_decodes:
  assumes "lint_c0 s = Inr img"
  shows "\<exists>root ns. lint_parse s = Inr (root, ns) \<and> lay_decode img = Some (root, map wrap_children ns) \<and> length img \<le> 65536"
proof -
  from assms obtain root ns refs tab where p: "lint_parse s = Inr (root, ns)" "img = lay_image root ns refs tab" "tab_ok tab"
    "list_all2 (\<lambda>rs n. list_all2 (ref_of tab) rs (node_strings n)) refs ns" "lay_tree ns" "root < length ns"
    by (rule lint_c0_parts)
  with lay_image_decode [OF p(3-6)] lay_image_length [OF p(3-5), of root] show ?thesis by simp
qed

theorem lint_image_decodes_witness:
  "\<exists>img root ns. lint_c0 minimal_lay = Inr img \<and> lint_parse minimal_lay = Inr (root, ns) \<and>
     lay_decode img = Some (root, map wrap_children ns)"
  using lint_image_decodes [OF minimal_golden] minimal_golden by blast

text \<open>
  C9: the nodes of an accepted layout are a forest in order. There are at most 1024, the root
  index is one of them, every parent stands before its children, every counter is the number of
  children, and tags, texts, styles, attributes and actions are within the sizes of the struct.
\<close>
theorem lint_nodes_form_tree:
  assumes "lint_parse s = Inr (root, ns)"
  shows "root < length ns \<and> length ns \<le> MAXNODES \<and> list_all node_ok ns \<and>
    (\<forall>i < length ns. (\<forall>p. nd_parent (ns ! i) = Some p \<longrightarrow> p < i) \<and>
       nd_children (ns ! i) = length (filter (\<lambda>n. nd_parent n = Some i) ns))"
  using lint_parse_tree [OF assms] by (simp add: lay_tree_def children_def)

theorem lint_nodes_form_tree_witness:
  "\<exists>root ns. lint_parse minimal_lay = Inr (root, ns) \<and> root < length ns"
proof -
  obtain root ns refs tab where "lint_parse minimal_lay = Inr (root, ns)"
    using minimal_golden by (rule lint_c0_parts)
  with lint_nodes_form_tree [OF this] show ?thesis by blast
qed

end
