(* ===== verification/Lin_Lower.thy ===== *)
theory Lin_Lower
  imports Lin_Vm_Safety Lin_Grammar
begin

text \<open>
  \<open>transpile/c/lin_c/lin_vm.c\<close>, the lowerer: \<open>lower_emit\<close> and \<open>lower_arena\<close>
  turn an arena into stack code. Like the evaluator it follows the child indices, so it is a
  \<open>partial_function\<close>; \<open>LoweredCode\<close> is the list of the instructions emitted so far.

  \<open>gen\<close> is the compilation of expression trees. The lowerer emits exactly \<open>gen\<close> of the
  represented tree, and running that code on the VM computes \<open>eval_expr\<close>.
\<close>

section \<open>The lowerer\<close>

text \<open>
  The operator of a binary tag. The \<open>default\<close> arm of the C switch is unreachable: the
  function is only applied to the eleven binary tags.
\<close>

fun binary_op :: "AstTag \<Rightarrow> VmOp" where
  "binary_op TAG_ADD = OP_ADD"
| "binary_op TAG_SUB = OP_SUB"
| "binary_op TAG_MUL = OP_MUL"
| "binary_op TAG_DIV = OP_DIV"
| "binary_op TAG_MOD = OP_MOD"
| "binary_op TAG_EQ = OP_CMP_EQ"
| "binary_op TAG_NEQ = OP_CMP_NE"
| "binary_op TAG_LT = OP_CMP_LT"
| "binary_op TAG_LTE = OP_CMP_LE"
| "binary_op TAG_GT = OP_CMP_GT"
| "binary_op TAG_GTE = OP_CMP_GE"
| "binary_op _ = OP_ADD"

text \<open>The search loop of the \<open>TAG_VAR_REF\<close> case: the first binding of that name.\<close>

fun env_index :: "string \<Rightarrow> VarBinding list \<Rightarrow> nat option" where
  "env_index x [] = None"
| "env_index x (b # env) =
     (if lin_str_eq_cstr x (bind_name b) then Some 0 else map_option Suc (env_index x env))"

definition emit :: "VmOp \<Rightarrow> i64 \<Rightarrow> VmIns list \<Rightarrow> LinErr + VmIns list" where
  "emit o1 a out =
     (if length out \<ge> LIN_LOWER_CAP then Inl LIN_ERR_ARENA_OOM else Inr (out @ [\<lparr>op = o1, opa = a\<rparr>]))"

partial_function (option) lower_emit ::
  "AstArena \<Rightarrow> nat \<Rightarrow> VarBinding list \<Rightarrow> VmIns list \<Rightarrow> (LinErr + VmIns list) option" where
  "lower_emit a node env out =
     (if node \<ge> len a then Some (Inl LIN_ERR_INVALID_NODE)
      else if tags a ! node = TAG_LIT then Some (emit OP_PUSH_CONST (vals a ! node) out)
      else if tags a ! node = TAG_VAR_REF then
        Some (case env_index (names a ! node) env of
                None \<Rightarrow> Inl LIN_ERR_UNDEF_VAR
              | Some found \<Rightarrow> emit OP_LOAD_LOCAL (of_nat found) out)
      else if tags a ! node = TAG_UNARY_POS then lower_emit a (lhs a ! node) env out
      else if tags a ! node = TAG_UNARY_NEG then
        opt_then (lower_emit a (lhs a ! node) env out) (\<lambda>out1. Some (emit OP_NEG 0 out1))
      else if tags a ! node = TAG_CALL \<or> tags a ! node = TAG_CALL_ARG then
        Some (Inl LIN_ERR_UNDEF_VAR)
      else
        opt_then (lower_emit a (lhs a ! node) env out) (\<lambda>out1.
        opt_then (lower_emit a (rhs a ! node) env out1) (\<lambda>out2.
        Some (emit (binary_op (tags a ! node)) 0 out2))))"

definition lower_arena :: "AstArena \<Rightarrow> nat \<Rightarrow> VarBinding list \<Rightarrow> (LinErr + VmIns list) option" where
  "lower_arena a root env =
     opt_then (lower_emit a root env []) (\<lambda>out. Some (emit OP_RET 0 out))"

section \<open>Compilation of trees\<close>

text \<open>
  \<open>gen t env\<close> is the code of \<open>t\<close>, and the error that cuts it short, if one does.
\<close>

type_synonym chunk = "VmIns list \<times> LinErr option"

fun chunk_append :: "chunk \<Rightarrow> chunk \<Rightarrow> chunk" where
  "chunk_append (is, Some e) c = (is, Some e)"
| "chunk_append (is, None) (js, e) = (is @ js, e)"

fun gen :: "expr \<Rightarrow> VarBinding list \<Rightarrow> chunk" where
  "gen (Lit v) env = ([\<lparr>op = OP_PUSH_CONST, opa = v\<rparr>], None)"
| "gen (Var x) env =
     (case env_index x env of None \<Rightarrow> ([], Some LIN_ERR_UNDEF_VAR)
      | Some i \<Rightarrow> ([\<lparr>op = OP_LOAD_LOCAL, opa = of_nat i\<rparr>], None))"
| "gen (UPos t) env = gen t env"
| "gen (UNeg t) env = chunk_append (gen t env) ([\<lparr>op = OP_NEG, opa = 0\<rparr>], None)"
| "gen (Bin b t1 t2) env =
     chunk_append (gen t1 env) (chunk_append (gen t2 env) ([\<lparr>op = binary_op b, opa = 0\<rparr>], None))"
| "gen (Call f ts) env = ([], Some LIN_ERR_UNDEF_VAR)"

text \<open>Emitting a chunk under the \<open>LIN_LOWER_CAP\<close> bound.\<close>

definition emit_chunk :: "VmIns list \<Rightarrow> chunk \<Rightarrow> LinErr + VmIns list" where
  "emit_chunk out c =
     (if length out + length (fst c) > LIN_LOWER_CAP then Inl LIN_ERR_ARENA_OOM
      else case snd c of Some e \<Rightarrow> Inl e | None \<Rightarrow> Inr (out @ fst c))"

lemma emit_chunk_append:
  "length out \<le> LIN_LOWER_CAP \<Longrightarrow>
   and_then (emit_chunk out c) (\<lambda>o1. emit_chunk o1 d) = emit_chunk out (chunk_append c d)"
  by (cases "(c, d)" rule: chunk_append.cases) (auto simp: emit_chunk_def split: option.splits)

lemma emit_chunk_fits: "emit_chunk out c = Inr o1 \<Longrightarrow> length o1 \<le> LIN_LOWER_CAP"
  by (auto simp: emit_chunk_def split: if_splits option.splits)

lemma emit_one: "length out \<le> LIN_LOWER_CAP \<Longrightarrow> emit o1 a out = emit_chunk out ([\<lparr>op = o1, opa = a\<rparr>], None)"
  by (auto simp: emit_def emit_chunk_def)

lemma emit_chunk_err: "length out \<le> LIN_LOWER_CAP \<Longrightarrow> emit_chunk out ([], Some e) = Inl e"
  by (simp add: emit_chunk_def)

lemma chunk_append_assoc: "chunk_append (chunk_append a b) c = chunk_append a (chunk_append b c)"
  by (cases "(a, b)" rule: chunk_append.cases; cases "(b, c)" rule: chunk_append.cases) auto

lemma emit_chunk_then:
  assumes "length out \<le> LIN_LOWER_CAP" "\<And>o1. length o1 \<le> LIN_LOWER_CAP \<Longrightarrow> f o1 = Some (emit_chunk o1 d)"
  shows "opt_then (Some (emit_chunk out c)) f = Some (emit_chunk out (chunk_append c d))"
proof (cases "emit_chunk out c")
  case (Inl e)
  then have "emit_chunk out (chunk_append c d) = Inl e"
    using emit_chunk_append [OF assms(1), of c d, symmetric] by simp
  with Inl show ?thesis by simp
next
  case (Inr o1)
  with emit_chunk_append [OF assms(1), of c d] emit_chunk_fits [OF Inr] show ?thesis
    by (simp add: assms(2))
qed

text \<open>The lowerer emits the code of the represented tree.\<close>

lemma lower_emit_repr:
  "repr a n t \<Longrightarrow> length out \<le> LIN_LOWER_CAP \<Longrightarrow> lower_emit a n env out = Some (emit_chunk out (gen t env))"
  and lower_args_trivial: "repr_args a n ts \<Longrightarrow> True"
proof (induction arbitrary: out rule: repr_repr_args.inducts)
  case (lit n a)
  then show ?case by (subst lower_emit.simps) (simp add: emit_one)
next
  case (var n a)
  then show ?case by (subst lower_emit.simps) (simp add: emit_one emit_chunk_err split: option.split)
next
  case (pos n a t)
  then show ?case by (subst lower_emit.simps) simp
next
  case (neg n a t)
  then show ?case by (subst lower_emit.simps) (simp add: emit_one emit_chunk_then)
next
  case (bin n a b t1 t2)
  have "lower_emit a n env out =
      opt_then (lower_emit a (lhs a ! n) env out) (\<lambda>out1.
      opt_then (lower_emit a (rhs a ! n) env out1) (\<lambda>out2. Some (emit (binary_op b) 0 out2)))"
    using bin.hyps by (subst lower_emit.simps) (auto simp: binary_tag_def)
  also have "\<dots> = Some (emit_chunk out (gen (Bin b t1 t2) env))"
    unfolding bin.IH(1) [OF bin.prems] gen.simps
    by (intro emit_chunk_then bin.prems) (simp add: bin.IH(2) emit_one emit_chunk_then)
  finally show ?case .
next
  case (call n a ts f)
  then show ?case by (subst lower_emit.simps) (simp add: emit_chunk_err)
qed simp_all

lemma lower_arena_repr:
  assumes "repr a root t"
  shows "lower_arena a root env = Some (emit_chunk [] (chunk_append (gen t env) ([\<lparr>op = OP_RET, opa = 0\<rparr>], None)))"
  unfolding lower_arena_def lower_emit_repr [OF assms, of "[]", simplified]
  by (intro emit_chunk_then) (simp_all add: emit_one)

section \<open>Sizes\<close>

fun stack_need :: "expr \<Rightarrow> nat" where
  "stack_need (UPos t) = stack_need t"
| "stack_need (UNeg t) = stack_need t"
| "stack_need (Bin b t1 t2) = max (stack_need t1) (Suc (stack_need t2))"
| "stack_need _ = 1"

lemma gen_length_nodes: "length (fst (gen t env)) \<le> nodes t"
proof (induction t rule: nodes.induct)
  case (4 t)
  then show ?case by (cases "gen t env"; cases "snd (gen t env)") auto
next
  case (5 b t1 t2)
  then show ?case
    by (cases "gen t1 env"; cases "snd (gen t1 env)"; cases "gen t2 env"; cases "snd (gen t2 env)") auto
qed (auto split: option.split)

text \<open>
  A binary operator is one instruction for two operands, so code of \<open>n\<close> instructions never
  has more than \<open>(n + 1) div 2\<close> operands waiting: 512 instructions fit a stack of 256.
\<close>

lemma stack_need_pos: "0 < stack_need t"
  by (induction t rule: stack_need.induct) auto

lemma stack_need_bound: "gen t env = (is, None) \<Longrightarrow> 2 * stack_need t \<le> length is + 1"
proof (induction t arbitrary: "is" rule: nodes.induct)
  case (2 x)
  then show ?case by (auto split: option.splits)
next
  case (4 t)
  then obtain js where "gen t env = (js, None)" "is = js @ [\<lparr>op = OP_NEG, opa = 0\<rparr>]"
    by (cases "gen t env"; cases "snd (gen t env)") auto
  with 4 show ?case by fastforce
next
  case (5 b t1 t2)
  then obtain js ks where "gen t1 env = (js, None)" "gen t2 env = (ks, None)"
    "is = js @ ks @ [\<lparr>op = binary_op b, opa = 0\<rparr>]"
    by (cases "gen t1 env"; cases "snd (gen t1 env)"; cases "gen t2 env"; cases "snd (gen t2 env)") auto
  with "5.IH"(1) [of js] "5.IH"(2) [of ks] stack_need_pos [of t1] show ?case by (auto simp: max_def)
qed auto

section \<open>Correctness of the compiled code\<close>

lemma env_index_lookup:
  "env_index x env = Some i \<Longrightarrow> i < length env \<and> env_lookup x env = Inr (bind_val (env ! i))"
  by (induction x env arbitrary: i rule: env_index.induct) (auto split: if_splits)

lemma env_index_None: "env_index x env = None \<longleftrightarrow> env_lookup x env = Inl LIN_ERR_UNDEF_VAR"
  by (induction x env rule: env_index.induct) auto

lemma env_lookup_error: "env_lookup x env = Inl e \<Longrightarrow> e = LIN_ERR_UNDEF_VAR"
  by (induction x env rule: env_index.induct) (auto split: if_splits)

text \<open>The errors of an expression as the VM reports them.\<close>

definition vm_error_of :: "LinErr \<Rightarrow> LinErr" where
  "vm_error_of e = (if e = LIN_ERR_DIV_ZERO then LIN_ERR_VM_DIV_ZERO else e)"

lemma vm_binary_eval:
  "binary_tag b \<Longrightarrow> vm_binary (binary_op b) x y = map_sum vm_error_of id (eval_binary b x y)"
  by (cases b) (auto simp: binary_tag_def vm_error_of_def)

fun wf_expr :: "expr \<Rightarrow> bool" where
  "wf_expr (UPos t) = wf_expr t"
| "wf_expr (UNeg t) = wf_expr t"
| "wf_expr (Bin b t1 t2) = (binary_tag b \<and> wf_expr t1 \<and> wf_expr t2)"
| "wf_expr _ = True"

lemma repr_wf: "repr a n t \<Longrightarrow> wf_expr t" and repr_args_wf: "repr_args a n ts \<Longrightarrow> True"
  by (induction rule: repr_repr_args.inducts) auto

text \<open>The frame and the counters a piece of code needs to run.\<close>

definition ready :: "LinVmContext \<Rightarrow> VarBinding list \<Rightarrow> nat \<Rightarrow> nat \<Rightarrow> nat \<Rightarrow> vm_state \<Rightarrow> bool" where
  "ready ctx env dep tp k st \<longleftrightarrow> (let fr = fst st ! dep in
     dep < length (fst st) \<and> length (stack fr) = LIN_VM_MAX_STACK \<and> length env \<le> LIN_VM_MAX_LOCALS \<and>
     (\<forall>i < length env. locals fr ! i = bind_val (env ! i)) \<and>
     tp \<le> LIN_VM_MAX_STACK \<and> unat (snd st) + k \<le> unat (step_limit ctx))"

text \<open>\<open>st'\<close> is \<open>st\<close> after \<open>k\<close> steps that left \<open>v\<close> on the stack above \<open>sp\<close>.\<close>

definition pushed :: "nat \<Rightarrow> nat \<Rightarrow> nat \<Rightarrow> i64 \<Rightarrow> vm_state \<Rightarrow> vm_state \<Rightarrow> bool" where
  "pushed dep sp k v st st' \<longleftrightarrow> (\<exists>stk. length stk = LIN_VM_MAX_STACK \<and> (\<forall>i < sp. stk ! i = stack (fst st ! dep) ! i) \<and>
     stk ! sp = v \<and> st' = ((fst st)[dep := (fst st ! dep)\<lparr>stack := stk\<rparr>], snd st + of_nat k))"

lemma unat_u64_bound: "unat (x :: u64) < 2 ^ 64"
  using unsigned_less [of x] by simp

lemma ready_step:
  assumes "ready ctx env dep tp k st" "0 < k"
  shows "snd st + 1 \<le> step_limit ctx" "unat (snd st + 1) = unat (snd st) + 1"
proof -
  have "unat (snd st) + 1 \<le> unat (step_limit ctx)" using assms by (simp add: ready_def Let_def)
  moreover note unat_u64_bound [of "step_limit ctx"]
  ultimately show "unat (snd st + 1) = unat (snd st) + 1" "snd st + 1 \<le> step_limit ctx"
    by (simp_all add: unat_word_ariths word_le_nat_alt)
qed

lemma ready_less: "ready ctx env dep tp k st \<Longrightarrow> tp' \<le> tp \<Longrightarrow> k' \<le> k \<Longrightarrow> ready ctx env dep tp' k' st"
  by (simp add: ready_def Let_def)

lemma ready_pushed:
  assumes "ready ctx env dep tp k st" "pushed dep sp j v st st'" "j \<le> k"
  shows "ready ctx env dep tp (k - j) st'"
proof -
  have "unat (snd st) + j < 2 ^ 64"
    using assms(1,3) unat_u64_bound [of "step_limit ctx"] by (simp add: ready_def Let_def)
  then have "unat (snd st + of_nat j) = unat (snd st) + j"
    by (simp add: unat_word_ariths unsigned_of_nat take_bit_nat_eq_self mod_less)
  with assms show ?thesis by (auto simp: ready_def pushed_def Let_def)
qed

lemma pushed_two:
  assumes "pushed dep sp j v st st1" "pushed dep (Suc sp) k w st1 st2" "dep < length (fst st)"
  shows "\<exists>stk. length stk = LIN_VM_MAX_STACK \<and> (\<forall>i < sp. stk ! i = stack (fst st ! dep) ! i) \<and> stk ! sp = v \<and>
    stk ! Suc sp = w \<and> st2 = ((fst st)[dep := (fst st ! dep)\<lparr>stack := stk\<rparr>], snd st + of_nat (j + k))"
proof -
  from assms(1) obtain x where x: "length x = LIN_VM_MAX_STACK" "\<forall>i < sp. x ! i = stack (fst st ! dep) ! i" "x ! sp = v"
    "st1 = ((fst st)[dep := (fst st ! dep)\<lparr>stack := x\<rparr>], snd st + of_nat j)" by (auto simp: pushed_def)
  from assms(2) obtain y where y: "length y = LIN_VM_MAX_STACK" "\<forall>i < Suc sp. y ! i = stack (fst st1 ! dep) ! i"
    "y ! Suc sp = w" "st2 = ((fst st1)[dep := (fst st1 ! dep)\<lparr>stack := y\<rparr>], snd st1 + of_nat k)"
    by (auto simp: pushed_def)
  from x y assms(3) show ?thesis by (intro exI [of _ y]) (simp add: less_Suc_eq add.assoc)
qed

text \<open>What running the code of a tree amounts to: its value pushed, or its error raised.\<close>

definition computes ::
  "LinVmContext \<Rightarrow> VmModule \<Rightarrow> VmFn \<Rightarrow> nat \<Rightarrow> nat \<Rightarrow> nat \<Rightarrow> nat \<Rightarrow> vm_state \<Rightarrow> LinErr + i64 \<Rightarrow> bool" where
  "computes ctx md f dep pc k sp st res \<longleftrightarrow>
     (case res of
        Inr v \<Rightarrow> \<exists>st'. pushed dep sp k v st st' \<and>
          (\<forall>n. vm_loop (k + n) ctx md f dep pc sp st = vm_loop n ctx md f dep (pc + k) (Suc sp) st')
      | Inl e \<Rightarrow> \<exists>s'. \<forall>n. vm_loop (k + n) ctx md f dep pc sp st = Some (Inl (VmErr (vm_error_of e), s')))"

lemma computes_Inl_more:
  "computes ctx md f dep pc j sp st (Inl e) \<Longrightarrow> computes ctx md f dep pc (j + k) sp st (Inl e)"
  by (auto simp: computes_def add.assoc)

lemma computes_unary:
  assumes c: "computes ctx md f dep pc k sp st (Inr v)" and r: "ready ctx env dep (Suc sp) (k + 1) st"
    and i: "pc + k < length (code f)" "code f ! (pc + k) = i" "op i \<noteq> OP_CALL"
    and ins: "\<And>fr. length (stack fr) = LIN_VM_MAX_STACK \<Longrightarrow> stack fr ! sp = v \<Longrightarrow>
      vm_ins ctx i (Suc (pc + k)) (Suc sp) fr = Inr (Next (Suc (pc + k)) (Suc sp) (fr\<lparr>stack := (stack fr)[sp := w]\<rparr>))"
  shows "computes ctx md f dep pc (k + 1) sp st (Inr w)"
proof -
  from c obtain st' where p: "pushed dep sp k v st st'"
    and run: "\<And>n. vm_loop (k + n) ctx md f dep pc sp st = vm_loop n ctx md f dep (pc + k) (Suc sp) st'"
    by (auto simp: computes_def)
  have r': "ready ctx env dep (Suc sp) 1 st'" using ready_pushed [OF r p] by simp
  from p obtain stk where stk: "length stk = LIN_VM_MAX_STACK" "\<forall>i < sp. stk ! i = stack (fst st ! dep) ! i"
    "stk ! sp = v" "st' = ((fst st)[dep := (fst st ! dep)\<lparr>stack := stk\<rparr>], snd st + of_nat k)"
    by (auto simp: pushed_def)
  have d: "dep < length (fst st)" "sp < LIN_VM_MAX_STACK" using r by (simp_all add: ready_def Let_def)
  let ?st = "((fst st)[dep := (fst st ! dep)\<lparr>stack := stk[sp := w]\<rparr>], snd st + of_nat (k + 1))"
  have "vm_loop (Suc n) ctx md f dep (pc + k) (Suc sp) st' = vm_loop n ctx md f dep (pc + k + 1) (Suc sp) ?st" for n
    using vm_loop_ins [of "pc + k" f "snd st'" ctx n md dep "Suc sp" "fst st'"] ready_step [OF r'] i stk d
      ins [of "(fst st ! dep)\<lparr>stack := stk\<rparr>"]
    by (simp add: add.commute add.left_commute)
  with run [of "Suc _"] have "vm_loop (k + 1 + n) ctx md f dep pc sp st = vm_loop n ctx md f dep (pc + k + 1) (Suc sp) ?st" for n
    by simp
  moreover have "pushed dep sp (k + 1) w st ?st"
    using stk d by (auto simp: pushed_def intro!: exI [of _ "stk[sp := w]"])
  ultimately show ?thesis by (auto simp: computes_def add.assoc)
qed

lemma computes_binary:
  assumes l: "computes ctx md f dep pc j sp st (Inr v)"
    and r: "\<And>st'. pushed dep sp j v st st' \<Longrightarrow> computes ctx md f dep (pc + j) k (Suc sp) st' (Inr w)"
    and rd: "ready ctx env dep (sp + 2) (j + k + 1) st" and b: "binary_tag b"
    and i: "pc + j + k < length (code f)" "code f ! (pc + j + k) = \<lparr>op = binary_op b, opa = 0\<rparr>"
  shows "computes ctx md f dep pc (j + k + 1) sp st (eval_binary b v w)"
proof -
  from l obtain st1 where p1: "pushed dep sp j v st st1"
    and run1: "\<And>n. vm_loop (j + n) ctx md f dep pc sp st = vm_loop n ctx md f dep (pc + j) (Suc sp) st1"
    by (auto simp: computes_def)
  from r [OF p1] obtain st2 where p2: "pushed dep (Suc sp) k w st1 st2"
    and run2: "\<And>n. vm_loop (k + n) ctx md f dep (pc + j) (Suc sp) st1 = vm_loop n ctx md f dep (pc + j + k) (Suc (Suc sp)) st2"
    by (auto simp: computes_def)
  have d: "dep < length (fst st)" "Suc sp < LIN_VM_MAX_STACK" using rd by (simp_all add: ready_def Let_def)
  from pushed_two [OF p1 p2 d(1)] obtain stk where stk: "length stk = LIN_VM_MAX_STACK"
    "\<forall>i < sp. stk ! i = stack (fst st ! dep) ! i" "stk ! sp = v" "stk ! Suc sp = w"
    "st2 = ((fst st)[dep := (fst st ! dep)\<lparr>stack := stk\<rparr>], snd st + of_nat (j + k))" by blast
  have "ready ctx env dep (sp + 2) (j + k + 1 - j - k) st2"
    by (rule ready_pushed [OF ready_pushed [OF rd p1] p2]) simp_all
  then have s: "snd st2 + 1 \<le> step_limit ctx" using ready_step(1) [of ctx env dep "sp + 2" 1 st2] by simp
  have ops: "binary_op b \<noteq> OP_CALL" "vm_ins ctx \<lparr>op = binary_op b, opa = 0\<rparr> = vm_binary_ins (binary_op b)"
    using b by (auto simp: binary_tag_def vm_ins_def fun_eq_iff)
  have run: "vm_loop (j + k + 1 + n) ctx md f dep pc sp st = vm_loop (Suc n) ctx md f dep (pc + j + k) (Suc (Suc sp)) st2" for n
    using run1 [of "k + Suc n"] run2 [of "Suc n"] by (simp add: ac_simps)
  have fr: "fst st2 ! dep = (fst st ! dep)\<lparr>stack := stk\<rparr>" using stk(5) d by simp
  show ?thesis
  proof (cases "eval_binary b v w")
    case (Inl e)
    have "vm_loop (Suc n) ctx md f dep (pc + j + k) (Suc (Suc sp)) st2 = Some (Inl (VmErr (vm_error_of e), snd st2 + 1))" for n
      using vm_loop_ins [of "pc + j + k" f "snd st2" ctx n md dep "Suc (Suc sp)" "fst st2"] i s ops stk(3,4) fr Inl
      by (simp add: vm_binary_ins_def vm_need_def vm_binary_eval [OF b])
    with run Inl show ?thesis by (auto simp: computes_def)
  next
    case (Inr x)
    let ?st = "((fst st)[dep := (fst st ! dep)\<lparr>stack := stk[sp := x]\<rparr>], snd st + of_nat (j + k + 1))"
    have "vm_loop (Suc n) ctx md f dep (pc + j + k) (Suc (Suc sp)) st2
        = vm_loop n ctx md f dep (pc + (j + k + 1)) (Suc sp) ?st" for n
      using vm_loop_ins [of "pc + j + k" f "snd st2" ctx n md dep "Suc (Suc sp)" "fst st2"] i s ops stk fr Inr d
      by (simp add: vm_binary_ins_def vm_need_def vm_binary_eval [OF b] ac_simps)
    moreover have "pushed dep sp (j + k + 1) x st ?st"
      using stk d by (auto simp: pushed_def intro!: exI [of _ "stk[sp := x]"])
    ultimately show ?thesis using run Inr by (auto simp: computes_def)
  qed
qed

lemma computes_push:
  assumes "ready ctx env dep (Suc sp) 1 st" "pc < length (code f)" "code f ! pc = i" "op i \<noteq> OP_CALL"
    "vm_ins ctx i (Suc pc) sp (fst st ! dep)
      = Inr (Next (Suc pc) (Suc sp) ((fst st ! dep)\<lparr>stack := (stack (fst st ! dep))[sp := v]\<rparr>))"
  shows "computes ctx md f dep pc (Suc 0) sp st (Inr v)"
  unfolding computes_def sum.case
proof -
  let ?fr = "fst st ! dep"
  let ?st = "((fst st)[dep := ?fr\<lparr>stack := (stack ?fr)[sp := v]\<rparr>], snd st + 1)"
  have "pushed dep sp 1 v st ?st"
    using assms(1) by (auto simp: ready_def pushed_def Let_def intro!: exI [of _ "(stack ?fr)[sp := v]"])
  moreover have "vm_loop (Suc n) ctx md f dep pc sp st = vm_loop n ctx md f dep (Suc pc) (Suc sp) ?st" for n
    using vm_loop_ins [of pc f "snd st" ctx n md dep sp "fst st"] ready_step [OF assms(1)] assms(2-5) by simp
  ultimately show "\<exists>st'. pushed dep sp (Suc 0) v st st' \<and>
      (\<forall>n. vm_loop (Suc 0 + n) ctx md f dep pc sp st = vm_loop n ctx md f dep (pc + Suc 0) (Suc sp) st')" by auto
qed

lemma gen_UNegE:
  assumes "gen (UNeg t) env = (is, None)"
  obtains js where "gen t env = (js, None)" "is = js @ [\<lparr>op = OP_NEG, opa = 0\<rparr>]"
  using assms by (cases "gen t env"; cases "snd (gen t env)") auto

lemma gen_BinE:
  assumes "gen (Bin b t1 t2) env = (is, None)"
  obtains js ks where "gen t1 env = (js, None)" "gen t2 env = (ks, None)"
    "is = js @ ks @ [\<lparr>op = binary_op b, opa = 0\<rparr>]"
  using assms
  by (cases "gen t1 env"; cases "snd (gen t1 env)"; cases "gen t2 env"; cases "snd (gen t2 env)") auto

lemma gen_computes:
  "gen t env = (is, None) \<Longrightarrow> wf_expr t \<Longrightarrow> code f = pre @ is @ post \<Longrightarrow>
   ready ctx env dep (sp + stack_need t) (length is) st \<Longrightarrow>
   computes ctx md f dep (length pre) (length is) sp st (eval_expr t env)"
proof (induction t arbitrary: "is" pre post sp st rule: stack_need.induct [case_names paren uneg bin num var call])
  case (paren t)
  then show ?case by simp
next
  case (uneg t)
  from uneg.prems(1) obtain js where js: "gen t env = (js, None)" "is = js @ [\<lparr>op = OP_NEG, opa = 0\<rparr>]"
    by (rule gen_UNegE)
  have c: "computes ctx md f dep (length pre) (length js) sp st (eval_expr t env)"
    using uneg.prems js by (intro uneg.IH [of js]) (auto intro: ready_less)
  show ?case
  proof (cases "eval_expr t env")
    case (Inl e)
    with c js show ?thesis by (auto dest: computes_Inl_more [where k = 1])
  next
    case (Inr v)
    have "computes ctx md f dep (length pre) (length js + 1) sp st (Inr (lin_wsub 0 v))"
    proof (rule computes_unary [OF c [unfolded Inr]])
      show "ready ctx env dep (Suc sp) (length js + 1) st"
        using uneg.prems(4) js(2) stack_need_pos [of t] by (auto intro: ready_less)
    qed (use uneg.prems(3) js(2) in \<open>auto simp: nth_append vm_ins_def vm_top_def vm_need_def\<close>)
    with Inr js show ?thesis by simp
  qed
next
  case (bin b t1 t2)
  from bin.prems(1) obtain js ks where js: "gen t1 env = (js, None)" "gen t2 env = (ks, None)"
    "is = js @ ks @ [\<lparr>op = binary_op b, opa = 0\<rparr>]" by (rule gen_BinE)
  have c1: "computes ctx md f dep (length pre) (length js) sp st (eval_expr t1 env)"
    using bin.prems js by (intro bin.IH(1) [of js _ "ks @ \<lparr>op = binary_op b, opa = 0\<rparr> # post"]) (auto intro: ready_less)
  have c2: "computes ctx md f dep (length pre + length js) (length ks) (Suc sp) st' (eval_expr t2 env)"
    if "pushed dep sp (length js) v st st'" for v st'
  proof -
    have "ready ctx env dep (sp + stack_need (Bin b t1 t2)) (length is - length js) st'"
      using ready_pushed [OF bin.prems(4) that] js(3) by simp
    then have "ready ctx env dep (Suc sp + stack_need t2) (length ks) st'"
      by (rule ready_less) (simp_all add: js(3))
    then show ?thesis using bin.IH(2) [of ks "pre @ js"] bin.prems(2,3) js by simp
  qed
  show ?case
  proof (cases "eval_expr t1 env")
    case (Inl e)
    with c1 js show ?thesis by (auto dest: computes_Inl_more [where k = "length ks + 1"])
  next
    case l: (Inr v)
    show ?thesis
    proof (cases "eval_expr t2 env")
      case (Inl e)
      from c1 l obtain st1 where p: "pushed dep sp (length js) v st st1" and
        run: "\<And>n. vm_loop (length js + n) ctx md f dep (length pre) sp st
          = vm_loop n ctx md f dep (length pre + length js) (Suc sp) st1"
        by (auto simp: computes_def)
      from c2 [OF p] Inl obtain s' where "\<And>n. vm_loop (length ks + n) ctx md f dep (length pre + length js) (Suc sp) st1
          = Some (Inl (VmErr (vm_error_of e), s'))" by (auto simp: computes_def)
      from run [of "length ks + (1 + _)"] this [of "1 + _"] l Inl js(3) show ?thesis
        by (auto simp: computes_def add.assoc)
    next
      case r: (Inr w)
      have "computes ctx md f dep (length pre) (length js + length ks + 1) sp st (eval_binary b v w)"
      proof (rule computes_binary [OF c1 [unfolded l] c2 [unfolded r]])
        show "ready ctx env dep (sp + 2) (length js + length ks + 1) st"
          using bin.prems(4) js(3) stack_need_pos [of t2] by (auto intro: ready_less)
      qed (use bin.prems(2,3) js(3) in \<open>auto simp: nth_append\<close>)
      with l r js(3) show ?thesis by simp
    qed
  qed
next
  case (num v)
  then show ?case
    by (auto intro!: computes_push simp: vm_ins_def vm_push_def ready_def Let_def)
next
  case (var x)
  then obtain i where i: "env_index x env = Some i" "is = [\<lparr>op = OP_LOAD_LOCAL, opa = of_nat i\<rparr>]"
    by (auto split: option.splits)
  from env_index_lookup [OF i(1)] have l: "i < length env" "env_lookup x env = Inr (bind_val (env ! i))" by auto
  have "unat (of_nat i :: i64) = i" "i < 64"
    using l(1) var.prems(4) by (simp_all add: ready_def Let_def lin_limits unsigned_of_nat take_bit_nat_eq_self)
  with i l var.prems show ?case
    by (auto intro!: computes_push simp: vm_ins_def vm_push_def vm_local_def ready_def Let_def lin_limits)
next
  case (call g ts)
  then show ?case by simp
qed

section \<open>A lowered expression as a function\<close>

text \<open>How \<open>lin_c_receipt.c\<close> and the tests wrap the code: one parameter per binding.\<close>

definition expr_fn :: "VarBinding list \<Rightarrow> VmIns list \<Rightarrow> VmFn" where
  "expr_fn env c = \<lparr>fn_name = ''xver_expr'', nparams = length env, nlocals = length env, code = c,
     sig_ok = True, fn_ok = True, reject = [], arr_n = []\<rparr>"

lemma init_args_locals:
  assumes "idx + length vs \<le> LIN_VM_MAX_LOCALS" "length (locals fr) = LIN_VM_MAX_LOCALS"
  shows "\<exists>ls. vm_init_args vs idx [] fr = Inr (fr\<lparr>locals := ls\<rparr>) \<and> (\<forall>i < idx. ls ! i = locals fr ! i) \<and>
    (\<forall>i < length vs. ls ! (idx + i) = vs ! i)"
  using assms
proof (induction vs arbitrary: idx fr)
  case Nil
  show ?case by (intro exI [of _ "locals fr"]) simp
next
  case (Cons v vs)
  from Cons.IH [of "Suc idx" "fr\<lparr>locals := (locals fr)[idx := v]\<rparr>"] Cons.prems obtain ls where
    ls: "vm_init_args vs (Suc idx) [] (fr\<lparr>locals := (locals fr)[idx := v]\<rparr>) = Inr (fr\<lparr>locals := ls\<rparr>)"
    "\<forall>i < Suc idx. ls ! i = (locals fr)[idx := v] ! i" "\<forall>i < length vs. ls ! (Suc idx + i) = vs ! i"
    by auto
  have "ls ! (idx + i) = (v # vs) ! i" if "i < length (v # vs)" for i
    using ls(2,3) that Cons.prems by (cases i) auto
  with ls Cons.prems show ?case by (intro exI [of _ ls]) auto
qed

lemma expr_fn_runs:
  assumes "gen t env = (is, None)" "wf_expr t" "length is < LIN_LOWER_CAP" "length env \<le> LIN_VM_MAX_LOCALS"
    "unat (step_limit ctx) = l" "length is < l" "store_ok frs"
  defines "c \<equiv> is @ [\<lparr>op = OP_RET, opa = 0\<rparr>]"
  shows "case eval_expr t env of
      Inr v \<Rightarrow> \<exists>frs'. vm_call (l + 2) ctx [expr_fn env c] 0 (map bind_val env) 0 (frs, 0)
        = Some (Inr (\<lparr>res_val = v, sp_at_ret = 1\<rparr>, frs', of_nat (length c)))
    | Inl e \<Rightarrow> \<exists>s. vm_call (l + 2) ctx [expr_fn env c] 0 (map bind_val env) 0 (frs, 0)
        = Some (Inl (VmErr (vm_error_of e), s))"
proof -
  let ?f = "expr_fn env c"
  let ?fr0 = "(frs ! 0)\<lparr>locals := replicate LIN_VM_MAX_LOCALS 0, pool_used := 0, pool_len := replicate LIN_VM_MAX_ARRS 0\<rparr>"
  from init_args_locals [of 0 "map bind_val env" ?fr0] assms(4) obtain ls where
    ls: "vm_init_args (map bind_val env) 0 [] ?fr0 = Inr (?fr0\<lparr>locals := ls\<rparr>)"
    "\<forall>i < length env. ls ! i = bind_val (env ! i)" by auto
  let ?st = "(frs[0 := ?fr0\<lparr>locals := ls\<rparr>], 0 :: u64)"
  have call: "vm_call n ctx [?f] 0 (map bind_val env) 0 (frs, 0) = vm_loop n ctx [?f] ?f 0 0 0 ?st" for n
    using ls(1) by (simp add: vm_call_def vm_call_with_def vm_enter_def vm_init_frame_def expr_fn_def)
  have "frame_ok (frs ! 0)" "0 < length frs" using store_ok_nth [OF assms(7), of 0] assms(7) by (simp_all add: store_ok_def)
  then have rd: "ready ctx env 0 (0 + stack_need t) (length is + 1) ?st"
    using assms(3-6) ls(2) stack_need_bound [OF assms(1)]
    by (auto simp: ready_def Let_def frame_ok_def lin_limits)
  have comp: "computes ctx [?f] ?f 0 0 (length is) 0 ?st (eval_expr t env)"
    using gen_computes [OF assms(1,2), of ?f "[]" "[\<lparr>op = OP_RET, opa = 0\<rparr>]" ctx 0 0 ?st "[?f]"] ready_less [OF rd]
    by (simp add: expr_fn_def c_def)
  have fuel: "l + 2 = length is + Suc (l + 1 - length is)" using assms(6) by simp
  show ?thesis
  proof (cases "eval_expr t env")
    case (Inl e)
    with comp obtain s where "\<And>n. vm_loop (length is + n) ctx [?f] ?f 0 0 0 ?st = Some (Inl (VmErr (vm_error_of e), s))"
      by (auto simp: computes_def)
    from this [of "Suc (l + 1 - length is)"] show ?thesis unfolding call fuel Inl sum.case by (rule exI)
  next
    case (Inr v)
    with comp obtain st' where p: "pushed 0 0 (length is) v ?st st'"
      and run: "\<And>n. vm_loop (length is + n) ctx [?f] ?f 0 0 0 ?st = vm_loop n ctx [?f] ?f 0 (length is) 1 st'"
      by (auto simp: computes_def)
    have "stack (fst st' ! 0) ! 0 = v" "snd st' = of_nat (length is)"
      using p \<open>0 < length frs\<close> by (auto simp: pushed_def)
    moreover have "snd st' + 1 \<le> step_limit ctx"
      using ready_step(1) [OF ready_pushed [OF rd p]] by simp
    ultimately have "vm_loop (Suc n) ctx [?f] ?f 0 (length is) 1 st'
        = Some (Inr (\<lparr>res_val = v, sp_at_ret = 1\<rparr>, fst st', of_nat (length c)))" for n
      using vm_loop_ins [of "length is" ?f "snd st'" ctx n "[?f]" 0 1 "fst st'"]
      by (cases st') (simp add: expr_fn_def c_def nth_append vm_ins_def vm_need_def add.commute)
    with Inr show ?thesis unfolding call fuel run by auto
  qed
qed

section \<open>From source text to value\<close>

text \<open>Everything the later stages need to know of an accepted source.\<close>

lemma parse_full_tree:
  assumes "parse_full s = Inr (root, q)"
  obtains t where "gexpr 0 (token_stream s 0) t" "repr (arena q) root t" "nodes t \<le> LIN_ARENA_CAP"
proof -
  from assms have "parse_full_fuel (parse_fuel s) s = Some (Inr (root, q))"
    using parse_full_fuel_returns [of s "parse_fuel s"] by (auto simp: parse_full_def)
  from parse_full_fuel_sound [OF this] obtain t where t: "gexpr 0 (token_stream s 0) t" "repr (arena q) root t"
    "arena_ok (arena q)" "nodes t \<le> len (arena q)" by blast
  show thesis by (rule that [OF t(1,2)]) (use t(3,4) in \<open>simp add: arena_ok_def\<close>)
qed

lemma gen_error: "gen t env = (is, Some e) \<Longrightarrow> e = LIN_ERR_UNDEF_VAR"
proof (induction t arbitrary: "is" rule: nodes.induct)
  case (4 t)
  then show ?case by (cases "gen t env"; cases "snd (gen t env)") auto
next
  case (5 b t1 t2)
  then show ?case
    by (cases "gen t1 env"; cases "snd (gen t1 env)"; cases "gen t2 env"; cases "snd (gen t2 env)") auto
qed (auto split: option.splits)

lemma gen_of_value: "eval_expr t env = Inr v \<Longrightarrow> \<exists>is. gen t env = (is, None)"
proof (induction t arbitrary: v rule: nodes.induct)
  case (2 x)
  then show ?case using env_index_None [of x env] by (cases "env_index x env") auto
qed fastforce+

lemma eval_error:
  "eval_expr t env = Inl e \<Longrightarrow> wf_expr t \<Longrightarrow> e = LIN_ERR_DIV_ZERO \<or> e = LIN_ERR_UNDEF_VAR \<and> snd (gen t env) = Some e"
proof (induction t rule: nodes.induct)
  case (2 x)
  then show ?case using env_index_None [of x env] env_lookup_error [of x env] by (auto split: option.splits)
next
  case (4 t)
  then show ?case by (cases "gen t env"; cases "snd (gen t env)") auto
next
  case (5 b t1 t2)
  have div: "e = LIN_ERR_DIV_ZERO" if "eval_binary b x y = Inl e" for x y
    using that "5.prems"(2) by (cases b) (auto simp: binary_tag_def split: if_splits)
  from "5.prems"(1) consider "eval_expr t1 env = Inl e"
    | x where "eval_expr t1 env = Inr x" "eval_expr t2 env = Inl e"
    | x y where "eval_binary b x y = Inl e" by auto
  then show ?case
  proof cases
    case 1
    with 5 show ?thesis by (cases "gen t1 env") auto
  next
    case 2
    with gen_of_value [of t1 env] obtain js where "gen t1 env = (js, None)" by blast
    with 2 5 show ?thesis by (cases "gen t2 env") auto
  qed (auto dest: div)
qed auto

lemma lower_tree:
  assumes "repr a root t" "nodes t \<le> LIN_ARENA_CAP"
  shows "lower_arena a root env =
    Some (case gen t env of (is, None) \<Rightarrow> Inr (is @ [\<lparr>op = OP_RET, opa = 0\<rparr>]) | (is, Some e) \<Rightarrow> Inl e)"
    "length (fst (gen t env)) \<le> LIN_ARENA_CAP"
proof -
  show l: "length (fst (gen t env)) \<le> LIN_ARENA_CAP"
    using gen_length_nodes [of t env] assms(2) by simp
  show "lower_arena a root env =
    Some (case gen t env of (is, None) \<Rightarrow> Inr (is @ [\<lparr>op = OP_RET, opa = 0\<rparr>]) | (is, Some e) \<Rightarrow> Inl e)"
    unfolding lower_arena_repr [OF assms(1)] using l
    by (cases "gen t env"; cases "snd (gen t env)") (auto simp: emit_chunk_def lin_limits)
qed

text \<open>Evaluator, lowerer and machine on one accepted source.\<close>

lemma tree_code_runs:
  assumes "repr a root t" "nodes t \<le> LIN_ARENA_CAP" "length env \<le> LIN_VM_MAX_LOCALS"
  shows "(\<exists>v c. ast_arena_eval a root env = Some (Inr v) \<and> lower_arena a root env = Some (Inr c) \<and>
      vm_exec True (Some [expr_fn env c]) 0 (map bind_val env) 0 (Some 0)
        = Some (Inr (\<lparr>res_val = v, sp_at_ret = 1\<rparr>, None, of_nat (length c))))
    \<or> (\<exists>e. ast_arena_eval a root env = Some (Inl e) \<and> e \<in> {LIN_ERR_DIV_ZERO, LIN_ERR_UNDEF_VAR} \<and>
        lower_arena a root env = Some (Inl LIN_ERR_UNDEF_VAR))
    \<or> (\<exists>c n. ast_arena_eval a root env = Some (Inl LIN_ERR_DIV_ZERO) \<and>
        lower_arena a root env = Some (Inr c) \<and>
        vm_exec True (Some [expr_fn env c]) 0 (map bind_val env) 0 (Some 0)
          = Some (Inl (VmErr LIN_ERR_VM_DIV_ZERO, Some n)))"
proof -
  note t = assms(1,2)
  have ev: "ast_arena_eval a root env = Some (eval_expr t env)" by (rule arena_eval_repr [OF t(1)])
  note low = lower_tree [OF t, of env] and wf = repr_wf [OF t(1)]
  obtain "is" eo where g: "gen t env = (is, eo)" by fastforce
  show ?thesis
  proof (cases eo)
    case (Some e)
    then have "e = LIN_ERR_UNDEF_VAR" using gen_error g by simp
    moreover have "\<exists>e. eval_expr t env = Inl e" using gen_of_value [of t env] g Some by (cases "eval_expr t env") auto
    ultimately show ?thesis using ev low(1) g Some eval_error [OF _ wf] by fastforce
  next
    case None
    let ?c = "is @ [\<lparr>op = OP_RET, opa = 0\<rparr>]"
    let ?ctx = "\<lparr>vm_module = Some [expr_fn env ?c], vm_regions = None, vm_abi = None, step_limit = LIN_VM_STEP_LIMIT,
       vm_profile = LIN_VM_PROFILE_LINVM1, vm_abi_version = LIN_HOST_ABI_1, frames = None\<rparr>"
    let ?x = "replicate (LIN_VM_MAX_DEPTH + 1) zero_frame"
    have ok: "store_ok ?x" using store_ok_alloc [of True] by (simp add: lin_vm_frames_alloc_def)
    have n: "length is < LIN_LOWER_CAP" "length is < 200000000" using low(2) g by (simp_all add: lin_limits)
    have lim: "unat (step_limit ?ctx) = 200000000" by (simp add: LIN_VM_STEP_LIMIT_def)
    note run = expr_fn_runs [OF g [unfolded None] wf n(1) assms(3) lim n(2) ok]
    have exec: "vm_exec True (Some [expr_fn env ?c]) 0 (map bind_val env) 0 (Some 0)
        = map_option (map_sum (map_prod id Some) (\<lambda>(r, _, s). (r, None, s)))
            (vm_call (200000000 + 2) ?ctx [expr_fn env ?c] 0 (map bind_val env) 0 (?x, 0))"
      unfolding vm_exec_def by (subst vm_exec_ctx_alloc) (simp_all add: LIN_VM_STEP_LIMIT_def)
    show ?thesis
    proof (cases "eval_expr t env")
      case (Inl e)
      then have "e = LIN_ERR_DIV_ZERO" using eval_error [OF Inl wf] g None by simp
      with Inl run ev low(1) g None exec show ?thesis by (auto simp: vm_error_of_def)
    next
      case (Inr v)
      with run ev low(1) g None exec show ?thesis by auto
    qed
  qed
qed

lemma lowered_code_runs:
  assumes "parse_full s = Inr (root, q)" "length env \<le> LIN_VM_MAX_LOCALS"
  shows "(\<exists>v c. ast_arena_eval (arena q) root env = Some (Inr v) \<and> lower_arena (arena q) root env = Some (Inr c) \<and>
      vm_exec True (Some [expr_fn env c]) 0 (map bind_val env) 0 (Some 0)
        = Some (Inr (\<lparr>res_val = v, sp_at_ret = 1\<rparr>, None, of_nat (length c))))
    \<or> (\<exists>e. ast_arena_eval (arena q) root env = Some (Inl e) \<and> e \<in> {LIN_ERR_DIV_ZERO, LIN_ERR_UNDEF_VAR} \<and>
        lower_arena (arena q) root env = Some (Inl LIN_ERR_UNDEF_VAR))
    \<or> (\<exists>c n. ast_arena_eval (arena q) root env = Some (Inl LIN_ERR_DIV_ZERO) \<and>
        lower_arena (arena q) root env = Some (Inr c) \<and>
        vm_exec True (Some [expr_fn env c]) 0 (map bind_val env) 0 (Some 0)
          = Some (Inl (VmErr LIN_ERR_VM_DIV_ZERO, Some n)))"
proof -
  from assms(1) obtain t where "repr (arena q) root t" "nodes t \<le> LIN_ARENA_CAP" by (rule parse_full_tree)
  from tree_code_runs [OF this assms(2)] show ?thesis .
qed

section \<open>Properties\<close>

text \<open>
  C1: the bytecode compiler is correct for every accepted source. Whenever \<open>parse_full\<close>
  accepts a text, the AST evaluator returns, and its answer fixes what the compiled code does:
  a value \<open>v\<close> means that lowering succeeds and that \<open>vm_exec\<close> returns \<open>v\<close>
  with exactly one operand left on the stack after one step per instruction; an error means
  that lowering reports the undefined variable, or that it is a division by zero which the VM
  reports too.
\<close>
theorem lowered_code_computes_ast_value:
  assumes "parse_full s = Inr (root, q)" "length env \<le> LIN_VM_MAX_LOCALS"
  shows "(\<exists>v c. ast_arena_eval (arena q) root env = Some (Inr v) \<and> lower_arena (arena q) root env = Some (Inr c) \<and>
      vm_exec True (Some [expr_fn env c]) 0 (map bind_val env) 0 (Some 0)
        = Some (Inr (\<lparr>res_val = v, sp_at_ret = 1\<rparr>, None, of_nat (length c))))
    \<or> (\<exists>e. ast_arena_eval (arena q) root env = Some (Inl e) \<and> e \<in> {LIN_ERR_DIV_ZERO, LIN_ERR_UNDEF_VAR} \<and>
        lower_arena (arena q) root env = Some (Inl LIN_ERR_UNDEF_VAR))
    \<or> (\<exists>c n. ast_arena_eval (arena q) root env = Some (Inl LIN_ERR_DIV_ZERO) \<and>
        lower_arena (arena q) root env = Some (Inr c) \<and>
        vm_exec True (Some [expr_fn env c]) 0 (map bind_val env) 0 (Some 0)
          = Some (Inl (VmErr LIN_ERR_VM_DIV_ZERO, Some n)))"
  by (rule lowered_code_runs [OF assms])

theorem lowered_code_computes_ast_value_witness:
  "\<exists>root q r. parse_full ''1+2'' = Inr (root, q) \<and> ast_arena_eval (arena q) root [] = Some r"
proof -
  have "isl (parse_full ''1+2'') = False" by code_simp
  then obtain root q where p: "parse_full ''1+2'' = Inr (root, q)" by (cases "parse_full ''1+2''") auto
  with lowered_code_computes_ast_value [OF p, of "[]"] show ?thesis by (auto simp: LIN_VM_MAX_LOCALS_def)
qed

text \<open>
  The instruction buffer is large enough. On an arena built by the parser \<open>lower_arena\<close>
  never runs into \<open>LIN_LOWER_CAP\<close>: it either emits at most one instruction per arena node
  and a final \<open>ret\<close>, or stops at an undefined variable or call.
\<close>
theorem lowering_fits_buffer:
  assumes "parse_full s = Inr (root, q)"
  shows "lower_arena (arena q) root env = Some (Inl LIN_ERR_UNDEF_VAR) \<or>
    (\<exists>is. lower_arena (arena q) root env = Some (Inr (is @ [\<lparr>op = OP_RET, opa = 0\<rparr>])) \<and> length is \<le> LIN_ARENA_CAP)"
proof -
  from assms obtain t where t: "repr (arena q) root t" "nodes t \<le> LIN_ARENA_CAP" by (rule parse_full_tree)
  from lower_tree [OF t, of env] gen_error [of t env] show ?thesis
    by (cases "gen t env"; cases "snd (gen t env)") auto
qed

theorem lowering_fits_buffer_witness:
  "\<exists>root q. parse_full ''x'' = Inr (root, q) \<and> lower_arena (arena q) root [] \<noteq> Some (Inl LIN_ERR_ARENA_OOM)"
proof -
  have "isl (parse_full ''x'') = False" by code_simp
  then obtain root q where p: "parse_full ''x'' = Inr (root, q)" by (cases "parse_full ''x''") auto
  with lowering_fits_buffer [OF p, of "[]"] show ?thesis by auto
qed

end
