(* ===== verification/Lin_Receipt.thy ===== *)
theory Lin_Receipt
  imports Lin_Lower C0_Image Lin_Stdlib
begin

text \<open>
  \<open>transpile/c/tool/lin_c_receipt.c\<close>, the cross-version receipt: one expression is evaluated
  on the arena and by the machine, and a Merkle root over source, environment, bytecode and
  result is printed. \<open>xver_run\<close> is \<open>main\<close> behind the argument loop \<open>xver_args\<close>, \<open>xver_line\<close>
  the line each outcome prints and \<open>xver_exit\<close> its exit code. An access outside an array of
  a machine frame is an outcome of its own.
\<close>

section \<open>Environment\<close>

definition MAX_ENV :: nat where "MAX_ENV = 32"

definition DEFAULT_ENV :: string where "DEFAULT_ENV = ''x=10,y=20,z=5,x1=15''"

text \<open>The loop of \<open>parse_env\<close> with room for \<open>n\<close> more bindings.\<close>

fun parse_env :: "nat \<Rightarrow> string \<Rightarrow> VarBinding list" where
  "parse_env 0 p = []"
| "parse_env (Suc n) p =
     (case strchr_split (CHR ''='') p of
        None \<Rightarrow> []
      | Some (nm, val_start) \<Rightarrow>
          if nm = [] \<or> length nm \<ge> 64 then []
          else case strtoll val_start of
              None \<Rightarrow> []
            | Some (v, e) \<Rightarrow>
                \<lparr>bind_name = nm, bind_val = v\<rparr> #
                (case e of [] \<Rightarrow> [] | c # rest \<Rightarrow> if c = CHR '','' then parse_env n rest else []))"

section \<open>Hashing\<close>

definition leaf :: "string \<Rightarrow> bytes \<Rightarrow> bytes" where
  "leaf domain data =
     lin_sha256_final (lin_sha256_update (lin_sha256_update (lin_sha256_init raw_ctx) (bytes_of_string domain)) data)"

definition node :: "bytes \<Rightarrow> bytes \<Rightarrow> bytes" where
  "node l r =
     lin_sha256_final (lin_sha256_update (lin_sha256_update (lin_sha256_update (lin_sha256_init raw_ctx)
       (bytes_of_string ''node:'')) l) r)"

text \<open>What a receipt commits to.\<close>

record Receipt =
  rc_expr :: string
  rc_env :: string
  rc_code :: "VmIns list"
  rc_val :: i64
  rc_steps :: u64
  rc_sp :: nat

text \<open>The canonical image of the code: opcode ordinal and operand, little-endian.\<close>

definition code_img :: "VmIns list \<Rightarrow> bytes" where
  "code_img c = concat (map (\<lambda>i. of_nat (vm_op_ord (op i)) # le_bytes 8 (opa i)) c)"

definition exec_buf :: "Receipt \<Rightarrow> string" where
  "exec_buf r = fmt_i64 (rc_val r) @ '':'' @ fmt_u64 (rc_steps r) @ '':'' @ dec_digits (rc_sp r)"

definition leaf_source :: "Receipt \<Rightarrow> bytes" where
  "leaf_source r = leaf ''lin:xver:source:'' (bytes_of_string (rc_expr r))"

definition leaf_env :: "Receipt \<Rightarrow> bytes" where
  "leaf_env r = leaf ''lin:xver:env:'' (bytes_of_string (rc_env r))"

definition leaf_code :: "Receipt \<Rightarrow> bytes" where
  "leaf_code r = leaf ''lin:xver:code:'' (code_img (rc_code r))"

definition leaf_exec :: "Receipt \<Rightarrow> bytes" where
  "leaf_exec r = leaf ''lin:xver:exec:'' (bytes_of_string (exec_buf r))"

definition root_hash :: "Receipt \<Rightarrow> bytes" where
  "root_hash r = node (node (leaf_source r) (leaf_env r)) (node (leaf_code r) (leaf_exec r))"

section \<open>The tool\<close>

datatype XverOut =
    XvHelp
  | XvUsage
  | XvRejected string LinErr
  | XvFault vm_array
  | XvEvaluated i64 Receipt

definition xver_run :: "bool \<Rightarrow> string \<Rightarrow> string \<Rightarrow> XverOut option" where
  "xver_run mem expr env_spec =
     (let env = parse_env MAX_ENV env_spec in
      case parse_full expr of
        Inl err \<Rightarrow> Some (XvRejected ''parse'' err)
      | Inr (root, p) \<Rightarrow>
          (case ast_arena_eval (arena p) root env of
             None \<Rightarrow> None
           | Some (Inl err) \<Rightarrow> Some (XvRejected ''eval'' err)
           | Some (Inr ast_val) \<Rightarrow>
               (case lower_arena (arena p) root env of
                  None \<Rightarrow> None
                | Some (Inl err) \<Rightarrow> Some (XvRejected ''lower'' err)
                | Some (Inr lc) \<Rightarrow>
                    (case vm_exec mem (Some [expr_fn env lc]) 0 (map bind_val env) 0 (Some 0) of
                       None \<Rightarrow> None
                     | Some (Inl (VmErr err, _)) \<Rightarrow> Some (XvRejected ''vm'' err)
                     | Some (Inl (VmFault x, _)) \<Rightarrow> Some (XvFault x)
                     | Some (Inr (res, _, steps)) \<Rightarrow>
                         Some (XvEvaluated ast_val
                           \<lparr>rc_expr = expr, rc_env = env_spec, rc_code = lc, rc_val = res_val res,
                            rc_steps = steps, rc_sp = sp_at_ret res\<rparr>)))))"

text \<open>The argument loop: \<^const>\<open>None\<close> for \<open>--help\<close>, else expression and environment.\<close>

fun xver_args :: "string list \<Rightarrow> string option \<Rightarrow> string \<Rightarrow> (string option \<times> string) option" where
  "xver_args [] expr env_spec = Some (expr, env_spec)"
| "xver_args [a] expr env_spec = (if a = ''--help'' then None else Some (expr, env_spec))"
| "xver_args (a # b # rest) expr env_spec =
     (if a = ''--expr'' then xver_args rest (Some b) env_spec
      else if a = ''--env'' then xver_args rest expr b
      else if a = ''--help'' then None
      else xver_args (b # rest) expr env_spec)"

definition xver_main :: "bool \<Rightarrow> string list \<Rightarrow> XverOut option" where
  "xver_main mem args =
     (case xver_args args None DEFAULT_ENV of
        None \<Rightarrow> Some XvHelp
      | Some (None, env_spec) \<Rightarrow> Some XvUsage
      | Some (Some expr, env_spec) \<Rightarrow> xver_run mem expr env_spec)"

fun xver_exit :: "XverOut \<Rightarrow> nat option" where
  "xver_exit XvHelp = Some 0"
| "xver_exit XvUsage = Some 1"
| "xver_exit (XvRejected stage err) = Some 2"
| "xver_exit (XvFault x) = None"
| "xver_exit (XvEvaluated v r) = Some 0"

definition xver_rejected_line :: "string \<Rightarrow> string \<Rightarrow> string \<Rightarrow> LinErr \<Rightarrow> string" where
  "xver_rejected_line expr env_spec stage err =
     ''@LIN:XVER:1.0 engine='' @ quoted ''C'' @ '' status='' @ quoted ''REJECTED'' @ '' stage='' @ quoted stage @
     '' error='' @ quoted (lin_err_name err) @ '' expr='' @ quoted expr @ '' env='' @ quoted env_spec @ [CHR 0x0A]"

definition xver_evaluated_line :: "i64 \<Rightarrow> Receipt \<Rightarrow> string" where
  "xver_evaluated_line ast_val r =
     ''@LIN:XVER:1.0 engine='' @ quoted ''C'' @ '' status='' @ quoted ''EVALUATED'' @
     '' expr='' @ quoted (rc_expr r) @ '' env='' @ quoted (rc_env r) @
     '' ast_val='' @ fmt_i64 ast_val @ '' result='' @ fmt_i64 (rc_val r) @ '' steps='' @ fmt_u64 (rc_steps r) @
     '' sp_at_ret='' @ dec_digits (rc_sp r) @ '' insts='' @ dec_digits (length (rc_code r)) @
     '' code_sha256='' @ quoted (lin_sha256_hex (leaf_code r)) @
     '' root='' @ quoted (''sha256:'' @ lin_sha256_hex (root_hash r)) @ [CHR 0x0A]"

section \<open>Lemmas on the environment\<close>

lemma parse_env_length: "length (parse_env n p) \<le> n"
  by (induction n p rule: parse_env.induct) (auto split: option.splits list.splits)

fun env_text :: "VarBinding list \<Rightarrow> string" where
  "env_text [] = []"
| "env_text [b] = bind_name b @ ''='' @ fmt_i64 (bind_val b)"
| "env_text (b # b' # bs) = bind_name b @ ''='' @ fmt_i64 (bind_val b) @ '','' @ env_text (b' # bs)"

definition name_ok :: "string \<Rightarrow> bool" where
  "name_ok nm = (nm \<noteq> [] \<and> length nm < 64 \<and> CHR ''='' \<notin> set nm)"

lemma parse_env_text: "length bs \<le> n \<Longrightarrow> \<forall>b \<in> set bs. name_ok (bind_name b) \<Longrightarrow> parse_env n (env_text bs) = bs"
proof (induction bs arbitrary: n rule: env_text.induct)
  case 1
  then show ?case by (cases n) (simp_all add: strchr_split_def)
next
  case (2 b)
  then show ?case using strtoll_fmt [of "[]" "bind_val b"]
    by (cases n) (auto simp: name_ok_def strchr_split_append)
next
  case (3 b b' bs)
  then obtain m where n: "n = Suc m" by (cases n) auto
  have "\<not> is_digit (CHR '','')" by (simp add: is_digit_def less_eq_char_def)
  with 3 strtoll_fmt [of "'','' @ env_text (b' # bs)" "bind_val b"] show ?case
    by (auto simp: n name_ok_def strchr_split_append)
qed

section \<open>Lemmas on the receipt\<close>

lemma leaf_hash: "leaf d x = lin_sha256 (bytes_of_string d @ x)"
  unfolding leaf_def by (rule sha.two_pieces)

lemma node_hash: "node l r = lin_sha256 (bytes_of_string ''node:'' @ l @ r)"
  unfolding node_def by (rule sha.three_pieces)

lemmas receipt_hash = root_hash_def leaf_source_def leaf_env_def leaf_code_def leaf_exec_def leaf_hash node_hash

lemma bytes_of_string_inject: "bytes_of_string s = bytes_of_string t \<longleftrightarrow> s = t"
  using string_of_bytes_of_string [of s] string_of_bytes_of_string [of t] by metis

lemma code_img_inject: "code_img c = code_img c' \<Longrightarrow> c = c'"
proof (induction c arbitrary: c')
  case Nil
  then show ?case by (cases c') (simp_all add: code_img_def)
next
  case (Cons i "is")
  then obtain j js where c': "c' = j # js" by (cases c') (simp_all add: code_img_def)
  from Cons.prems have o1: "(of_nat (vm_op_ord (op i)) :: u8) = of_nat (vm_op_ord (op j))"
    and a: "le_bytes 8 (opa i) = le_bytes 8 (opa j)" and r: "code_img is = code_img js"
    by (simp_all add: c' code_img_def)
  have "vm_op_ord o' < 2 ^ LENGTH(8)" for o' by (cases o') (simp_all add: vm_op_ord_def vm_ops_def)
  then have "vm_op_ord (op i) = vm_op_ord (op j)" using arg_cong [OF o1, of unat] by (simp add: unat_of_nat)
  then have "op i = op j" using op_ord_inverse by metis
  moreover from a have "opa i = opa j" using le_value_bytes [of 8 "opa i" "[]"] le_value_bytes [of 8 "opa j" "[]"] by simp
  ultimately have "i = j" by simp
  with r Cons.IH c' show ?case by simp
qed

lemma exec_buf_inject:
  assumes "exec_buf r = exec_buf r'"
  shows "rc_val r = rc_val r'" "rc_steps r = rc_steps r'" "rc_sp r = rc_sp r'"
proof -
  have c: "\<not> is_digit (CHR '':'')" by (simp add: is_digit_def less_eq_char_def)
  have e: "strtoll (exec_buf s) = Some (rc_val s, '':'' @ fmt_u64 (rc_steps s) @ '':'' @ dec_digits (rc_sp s))" for s
    unfolding exec_buf_def by (rule strtoll_fmt) (simp add: c)
  with assms have "rc_val r = rc_val r' \<and> fmt_u64 (rc_steps r) @ '':'' @ dec_digits (rc_sp r) = fmt_u64 (rc_steps r') @ '':'' @ dec_digits (rc_sp r')"
    using e [of r] e [of r'] by simp
  moreover have "takeWhile is_digit (fmt_u64 (rc_steps s) @ '':'' @ dec_digits (rc_sp s)) = fmt_u64 (rc_steps s)" for s
    by (rule dec_digits_split) (simp add: c)
  ultimately show "rc_val r = rc_val r'" "rc_steps r = rc_steps r'" "rc_sp r = rc_sp r'"
    using dec_digits_inject word_unat_eq_iff by (metis, metis, metis same_append_eq)
qed

text \<open>The seven messages hashed for a root, in the order of the code.\<close>

definition hashed :: "Receipt \<Rightarrow> bytes list" where
  "hashed r =
     [bytes_of_string ''lin:xver:source:'' @ bytes_of_string (rc_expr r),
      bytes_of_string ''lin:xver:env:'' @ bytes_of_string (rc_env r),
      bytes_of_string ''lin:xver:code:'' @ code_img (rc_code r),
      bytes_of_string ''lin:xver:exec:'' @ bytes_of_string (exec_buf r),
      bytes_of_string ''node:'' @ leaf_source r @ leaf_env r,
      bytes_of_string ''node:'' @ leaf_code r @ leaf_exec r,
      bytes_of_string ''node:'' @ node (leaf_source r) (leaf_env r) @ node (leaf_code r) (leaf_exec r)]"

lemma leaf_lengths [simp]:
  "length (leaf_source r) = 32" "length (leaf_env r) = 32" "length (leaf_code r) = 32" "length (leaf_exec r) = 32"
  "length (node a b) = 32"
  by (simp_all add: receipt_hash)

text \<open>Without a collision between corresponding messages the hash can be inverted at every node.\<close>

lemma root_inject:
  assumes "root_hash r = root_hash r'"
    and nc: "\<forall>(x, y) \<in> set (zip (hashed r) (hashed r')). lin_sha256 x = lin_sha256 y \<longrightarrow> x = y"
  shows "r = r'"
proof -
  have "node (leaf_source r) (leaf_env r) @ node (leaf_code r) (leaf_exec r)
      = node (leaf_source r') (leaf_env r') @ node (leaf_code r') (leaf_exec r')"
    using nc assms(1) by (simp add: hashed_def root_hash_def node_hash)
  then have "leaf_source r @ leaf_env r = leaf_source r' @ leaf_env r'"
    "leaf_code r @ leaf_exec r = leaf_code r' @ leaf_exec r'"
    using nc by (simp_all add: hashed_def node_hash)
  then have "leaf_source r = leaf_source r'" "leaf_env r = leaf_env r'" "leaf_code r = leaf_code r'" "leaf_exec r = leaf_exec r'"
    by simp_all
  then have "bytes_of_string (rc_expr r) = bytes_of_string (rc_expr r')" "bytes_of_string (rc_env r) = bytes_of_string (rc_env r')"
    "code_img (rc_code r) = code_img (rc_code r')" "bytes_of_string (exec_buf r) = bytes_of_string (exec_buf r')"
    using nc by (simp_all add: hashed_def leaf_source_def leaf_env_def leaf_code_def leaf_exec_def leaf_hash)
  then show ?thesis
    using exec_buf_inject [of r r'] code_img_inject by (simp add: bytes_of_string_inject)
qed

section \<open>Properties\<close>

text \<open>
  C7: the two engines of the receipt agree. For every expression and every environment text the
  tool returns when memory is available. It rejects a text that does not parse, or one whose
  evaluation on the arena divides by zero or meets an undefined variable; otherwise it prints a
  receipt whose machine result is the arena value, with one operand on the stack at the return
  and one step per instruction. The stages \<open>lower\<close> and \<open>vm\<close> never reject and no array is left.
\<close>
theorem receipt_engines_agree:
  "(\<exists>err. parse_full expr = Inl err \<and> xver_run True expr spec = Some (XvRejected ''parse'' err)) \<or>
   xver_run True expr spec = Some (XvRejected ''eval'' LIN_ERR_DIV_ZERO) \<or>
   xver_run True expr spec = Some (XvRejected ''eval'' LIN_ERR_UNDEF_VAR) \<or>
   (\<exists>v c. xver_run True expr spec =
      Some (XvEvaluated v \<lparr>rc_expr = expr, rc_env = spec, rc_code = c, rc_val = v, rc_steps = of_nat (length c), rc_sp = 1\<rparr>))"
proof (cases "parse_full expr")
  case (Inl err)
  then show ?thesis by (simp add: xver_run_def)
next
  case (Inr rp)
  obtain root q where rp: "parse_full expr = Inr (root, q)" using Inr by (cases rp) auto
  have "length (parse_env MAX_ENV spec) \<le> LIN_VM_MAX_LOCALS"
    using parse_env_length [of MAX_ENV spec] by (simp add: MAX_ENV_def lin_limits)
  from lowered_code_runs [OF rp this] show ?thesis
    by (elim disjE exE conjE) (auto simp: xver_run_def rp)
qed

text \<open>
  C15: a receipt root commits to its contents. If two receipts have the same root, they have the
  same expression, environment text, instructions, result, step count and stack depth, unless
  two different messages hashed at the same place of the tree have the same SHA-256.
\<close>
theorem receipt_root_commits:
  assumes "root_hash r = root_hash r'"
  shows "r = r' \<or> (\<exists>(x, y) \<in> set (zip (hashed r) (hashed r')). x \<noteq> y \<and> lin_sha256 x = lin_sha256 y)"
  using root_inject [OF assms] by fastforce

theorem receipt_root_commits_witness:
  "\<exists>r. root_hash r = node (node (leaf_source r) (leaf_env r)) (node (leaf_code r) (leaf_exec r)) \<and>
     (r = \<lparr>rc_expr = ''1'', rc_env = [], rc_code = [], rc_val = 1, rc_steps = 2, rc_sp = 1\<rparr> \<or>
      (\<exists>(x, y) \<in> set (zip (hashed r) (hashed r)). x \<noteq> y \<and> lin_sha256 x = lin_sha256 y))"
proof -
  let ?r = "\<lparr>rc_expr = ''1'', rc_env = [], rc_code = [], rc_val = 1, rc_steps = 2, rc_sp = 1\<rparr> :: Receipt"
  from receipt_root_commits [of ?r ?r] show ?thesis by (intro exI [of _ ?r]) (auto simp: root_hash_def)
qed

text \<open>
  Environments are read back. Up to 32 bindings with names of 1 to 63 characters other than
  the equals sign, written as \<open>name=value\<close> separated by commas, are parsed to themselves for
  all 2^64 values.
\<close>
theorem parse_env_round_trip:
  assumes "length bs \<le> MAX_ENV" "\<forall>b \<in> set bs. name_ok (bind_name b)"
  shows "parse_env MAX_ENV (env_text bs) = bs"
  by (rule parse_env_text [OF assms])

theorem parse_env_round_trip_witness:
  "parse_env MAX_ENV (env_text [\<lparr>bind_name = ''x'', bind_val = 10\<rparr>, \<lparr>bind_name = ''y'', bind_val = - 20\<rparr>])
     = [\<lparr>bind_name = ''x'', bind_val = 10\<rparr>, \<lparr>bind_name = ''y'', bind_val = - 20\<rparr>]"
  by (rule parse_env_round_trip) (simp_all add: MAX_ENV_def name_ok_def)

end
