(* ===== verification/Linp_C0.thy ===== *)
theory Linp_C0
  imports Lin_Receipt
begin

text \<open>
  \<open>transpile/c/linp_c0/linp_c0.c\<close>, the packer: it reads a plan of directives and a payload, and
  writes the bytecode of the plan, the payload split into numbered disks with their SHA-256,
  and three manifests.

  \<^item> The two input files are the contents that \<open>read_all\<close> was given; \<open>None\<close> is a file that
    cannot be opened. The output files are a list of names and contents. Failing to create the
    directory or to write a file has no counterpart.
  \<^item> The static variables of the plan are the record \<open>Plan\<close>. A \<open>DIE\<close> is a value of \<open>LinpErr\<close>.
\<close>

section \<open>Data\<close>

definition PAYLOAD_MAX :: nat where "PAYLOAD_MAX = 4 * 1024 * 1024"
definition PLAN_MAX :: nat where "PLAN_MAX = 65536"
definition PLAN_LINEBUF :: nat where "PLAN_LINEBUF = 2048"

datatype LinpErr =
    BadOrig | BadComp | NoPlan | PlanLineTooLong nat | DupJob nat | BadJob nat | DupFile nat
  | PathOutside nat | PathTooLong nat | DupAlgo nat | UnknownAlgo nat | DupChunk nat | BadChunk nat
  | ManyPacks nat | BadDirective nat | PlanIncomplete | NoPayload | EmptyPayload | ManyDisks

record Plan =
  g_job :: string
  g_file :: string
  g_algo :: string
  g_chunk :: i64
  g_packs :: nat
  plan_complete :: bool

abbreviation w32 :: "u32 \<Rightarrow> bytes" where "w32 v \<equiv> le_bytes 4 v"

abbreviation linp_w16 :: "u16 \<Rightarrow> bytes" where "linp_w16 v \<equiv> le_bytes 2 v"

definition algo_id :: "string \<Rightarrow> u8 option" where
  "algo_id a = (if a = ''deflate'' then Some 0 else if a = ''gzip'' then Some 1 else if a = ''brotli'' then Some 2 else None)"

section \<open>Quoting\<close>

definition BSL :: char where "BSL = CHR 0x5C"

definition hex2 :: "nat \<Rightarrow> string" where
  "hex2 n = [hexd ! (n div 16), hexd ! (n mod 16)]"

text \<open>One character of \<open>json_str\<close> and of \<open>go_quote\<close>.\<close>

definition json_esc :: "char \<Rightarrow> string" where
  "json_esc c =
     (if c = QUOT then [BSL, QUOT]
      else if c = BSL then [BSL, BSL]
      else if c = CHR 0x0A then [BSL, CHR ''n'']
      else if c = CHR 0x0D then [BSL, CHR ''r'']
      else if c = CHR 0x09 then [BSL, CHR ''t'']
      else if c = CHR ''<'' then BSL # ''u003c''
      else if c = CHR ''>'' then BSL # ''u003e''
      else if c = CHR ''&'' then BSL # ''u0026''
      else if (of_char c :: nat) < 0x20 then BSL # ''u00'' @ hex2 (of_char c)
      else [c])"

definition go_esc :: "char \<Rightarrow> string" where
  "go_esc c =
     (if c = QUOT then [BSL, QUOT]
      else if c = BSL then [BSL, BSL]
      else if c = CHR 0x0A then [BSL, CHR ''n'']
      else if c = CHR 0x0D then [BSL, CHR ''r'']
      else if c = CHR 0x09 then [BSL, CHR ''t'']
      else if (of_char c :: nat) < 0x20 \<or> (of_char c :: nat) = 0x7F then BSL # ''x'' @ hex2 (of_char c)
      else [c])"

definition json_str :: "string \<Rightarrow> string" where
  "json_str s = QUOT # concat (map json_esc s) @ [QUOT]"

definition go_quote :: "string \<Rightarrow> string" where
  "go_quote s = QUOT # concat (map go_esc s) @ [QUOT]"

section \<open>The plan\<close>

definition read_all :: "string option \<Rightarrow> nat \<Rightarrow> string option" where
  "read_all content cap =
     (case content of None \<Rightarrow> None | Some s \<Rightarrow> if length s \<ge> cap then None else Some s)"

definition rstrip :: "(char \<Rightarrow> bool) \<Rightarrow> string \<Rightarrow> string" where
  "rstrip P s = rev (dropWhile P (rev s))"

fun has_dotdot :: "string \<Rightarrow> bool" where
  "has_dotdot (a # b # s) = (a = CHR ''.'' \<and> b = CHR ''.'' \<or> has_dotdot (b # s))"
| "has_dotdot _ = False"

definition linp_directive :: "nat \<Rightarrow> string \<Rightarrow> Plan \<Rightarrow> LinpErr + Plan" where
  "linp_directive ln s p =
     (if take 4 s = ''JOB '' then
        (if g_job p \<noteq> [] then Inl (DupJob ln)
         else if length (drop 4 s) = 0 \<or> length (drop 4 s) > 255 then Inl (BadJob ln)
         else Inr (p\<lparr>g_job := drop 4 s\<rparr>))
      else if take 5 s = ''FILE '' then
        (let f = drop 5 s in
         if g_file p \<noteq> [] then Inl (DupFile ln)
         else if has_dotdot f \<or> f = [] \<or> hd f = CHR ''/'' then Inl (PathOutside ln)
         else if length f > 1023 then Inl (PathTooLong ln)
         else Inr (p\<lparr>g_file := f\<rparr>))
      else if take 5 s = ''ALGO '' then
        (if g_algo p \<noteq> [] then Inl (DupAlgo ln)
         else if algo_id (drop 5 s) = None then Inl (UnknownAlgo ln)
         else Inr (p\<lparr>g_algo := drop 5 s\<rparr>))
      else if take 6 s = ''CHUNK '' then
        (if g_chunk p \<noteq> 0 then Inl (DupChunk ln)
         else case strtoll (drop 6 s) of
             None \<Rightarrow> Inl (BadChunk ln)
           | Some (v, e2) \<Rightarrow>
               if e2 \<noteq> [] \<or> v <s 64 \<or> 1800000 <s v then Inl (BadChunk ln) else Inr (p\<lparr>g_chunk := v\<rparr>))
      else if s = ''PACK'' then
        (if g_packs p + 1 > 1 then Inl (ManyPacks ln) else Inr (p\<lparr>g_packs := g_packs p + 1\<rparr>))
      else if s = ''END'' then Inr (p\<lparr>plan_complete := True\<rparr>)
      else Inl (BadDirective ln))"

definition linp_line :: "nat \<Rightarrow> string \<Rightarrow> Plan \<Rightarrow> LinpErr + Plan" where
  "linp_line ln line p =
     (if length line \<ge> PLAN_LINEBUF then Inl (PlanLineTooLong ln)
      else
        (let s = rstrip (\<lambda>c. is_blank c \<or> c = CHR 0x0D) (dropWhile is_blank line) in
         if s = [] then Inr p
         else if ln = 1 \<and> take 8 s = ''@LINP:1.'' then Inr p
         else linp_directive ln s p))"

text \<open>The loop over the lines; the last one has no newline and ends it.\<close>

function linp_lines :: "nat \<Rightarrow> string \<Rightarrow> Plan \<Rightarrow> LinpErr + Plan" where
  "linp_lines ln cur p =
     (case strchr_split (CHR 0x0A) cur of
        None \<Rightarrow> linp_line ln cur p
      | Some (line, rest) \<Rightarrow> and_then (linp_line ln line p) (linp_lines (Suc ln) rest))"
  by pat_completeness auto
termination linp_lines
  by (relation "measure (\<lambda>(_, s, _). length s)") (auto simp: strchr_split_Some)

declare linp_lines.simps [simp del]

definition empty_plan :: Plan where
  "empty_plan = \<lparr>g_job = [], g_file = [], g_algo = [], g_chunk = 0, g_packs = 0, plan_complete = False\<rparr>"

definition linp_plan :: "string \<Rightarrow> LinpErr + Plan" where
  "linp_plan plan =
     and_then (linp_lines 1 (cstr plan) empty_plan) (\<lambda>p.
       if g_job p = [] \<or> g_file p = [] \<or> g_algo p = [] \<or> g_chunk p = 0 \<or> g_packs p \<noteq> 1 \<or> \<not> plan_complete p
       then Inl PlanIncomplete else Inr p)"

section \<open>Output\<close>

definition linp_bc :: "Plan \<Rightarrow> bytes" where
  "linp_bc p =
     bytes_of_string ''LNP1'' @ [1] @ linp_w16 0 @ linp_w16 1 @ [the (algo_id (g_algo p))] @ [0] @
     w32 (ucast (g_chunk p)) @ linp_w16 2 @
     linp_w16 (of_nat (length (g_job p))) @ bytes_of_string (g_job p) @
     linp_w16 (of_nat (length (g_file p))) @ bytes_of_string (g_file p)"

definition sha_hex :: "string \<Rightarrow> string" where
  "sha_hex s = lin_sha256_hex (lin_sha256 (bytes_of_string s))"

definition disk_total :: "nat \<Rightarrow> nat \<Rightarrow> nat" where
  "disk_total paylen chunk = (paylen + chunk - 1) div chunk"

definition disk_slice :: "string \<Rightarrow> nat \<Rightarrow> nat \<Rightarrow> string" where
  "disk_slice pay chunk i =
     (let st = i * chunk; en = min (st + chunk) (length pay) in take (en - st) (drop st pay))"

text \<open>\<open>%02zu\<close>, and one disk: \<open>%.*s\<close> stops at a NUL.\<close>

definition fmt2 :: "nat \<Rightarrow> string" where
  "fmt2 n = (if n < 10 then ''0'' else []) @ dec_digits n"

definition disk_text :: "Plan \<Rightarrow> string \<Rightarrow> nat \<Rightarrow> string" where
  "disk_text p pay i =
     (let c = unat (g_chunk p); s = disk_slice pay c i in
      ''v2;'' @ g_algo p @ '';['' @ dec_digits (i + 1) @ ''/'' @ dec_digits (disk_total (length pay) c) @ ''];'' @
      sha_hex s @ '';'' @ sha_hex pay @ '';'' @ cstr s)"

definition disk_hashes :: "Plan \<Rightarrow> string \<Rightarrow> string list" where
  "disk_hashes p pay =
     map (\<lambda>i. sha_hex (disk_slice pay (unat (g_chunk p)) i)) [0..<disk_total (length pay) (unat (g_chunk p))]"

definition NL :: string where "NL = [CHR 0x0A]"

definition json_key :: "string \<Rightarrow> string" where
  "json_key k = ''  '' @ quoted k @ '': ''"

definition manifest_json :: "Plan \<Rightarrow> i64 \<Rightarrow> i64 \<Rightarrow> string \<Rightarrow> string" where
  "manifest_json p orig compb pay =
     (let hs = disk_hashes p pay in
      ''{'' @ NL @ json_key ''algorithm'' @ json_str (g_algo p) @
      '','' @ NL @ json_key ''compressed_bytes'' @ fmt_i64 compb @
      '','' @ NL @ json_key ''disk_hashes'' @ ''['' @
      concat (map2 (\<lambda>i h. (if i = 0 then [] else '','') @ NL @ ''    '' @ quoted h) [0..<length hs] hs) @ NL @ ''  ]'' @
      '','' @ NL @ json_key ''encoded_chars'' @ dec_digits (length pay) @
      '','' @ NL @ json_key ''format_version'' @ quoted ''v2'' @
      '','' @ NL @ json_key ''job'' @ json_str (g_job p) @
      '','' @ NL @ json_key ''original_bytes'' @ fmt_i64 orig @
      '','' @ NL @ json_key ''root_sha256'' @ quoted (sha_hex pay) @
      '','' @ NL @ json_key ''source_file'' @ json_str (g_file p) @
      '','' @ NL @ json_key ''total_disks'' @ dec_digits (length hs) @ NL @ ''}'')"

definition manifest_rulel :: "Plan \<Rightarrow> i64 \<Rightarrow> i64 \<Rightarrow> string \<Rightarrow> string" where
  "manifest_rulel p orig compb pay =
     (let hs = disk_hashes p pay in
      ''@RULEL:FLOPPY_MANIFEST:2.0.0'' @ NL @
      ''~R{.s=source .a=algo .o=orig_bytes .c=comp_bytes .e=enc_chars .t=total_disks .r=root_sha .f=format}'' @ NL @
      ''.source='' @ go_quote (g_file p) @ NL @ ''.algo='' @ go_quote (g_algo p) @
      NL @ ''.format='' @ quoted ''v2'' @ NL @ ''.orig_bytes='' @ fmt_i64 orig @ NL @ ''.comp_bytes='' @ fmt_i64 compb @
      NL @ ''.enc_chars='' @ dec_digits (length pay) @ NL @ ''.total_disks='' @ dec_digits (length hs) @
      NL @ ''.root_sha256='' @ quoted (sha_hex pay) @ NL @ ''.disk_hashes=['' @ NL @
      concat (map (\<lambda>h. ''  '' @ quoted h @ '','' @ NL) hs) @ '']'' @ NL)"

definition receipt_json :: "Plan \<Rightarrow> string \<Rightarrow> string \<Rightarrow> string" where
  "receipt_json p plan_src pay =
     ''{'' @ NL @ json_key ''algo'' @ json_str (g_algo p) @
     '','' @ NL @ json_key ''bytecode_sha256'' @ quoted (lin_sha256_hex (lin_sha256 (linp_bc p))) @
     '','' @ NL @ json_key ''job'' @ json_str (g_job p) @
     '','' @ NL @ json_key ''root_sha256'' @ quoted (sha_hex pay) @
     '','' @ NL @ json_key ''source_sha256'' @ quoted (sha_hex plan_src) @ NL @ ''}''"

section \<open>The tool\<close>

text \<open>What is written: the bytecode, the disks in order and the three manifests.\<close>

record LinpOut =
  out_bc :: bytes
  out_disks :: "(string \<times> string) list"
  out_manifest :: string
  out_rulel :: string
  out_receipt :: string

text \<open>\<open>strtol\<close> with the test of its end and sign; \<^const>\<open>None\<close> is an invalid argument.\<close>

definition size_arg :: "string \<Rightarrow> i64 option" where
  "size_arg a =
     (case strtoll a of
        None \<Rightarrow> (if a = [] then Some 0 else None)
      | Some (v, e) \<Rightarrow> if e \<noteq> [] \<or> v <s 0 then None else Some v)"

definition linp_payload :: "string option \<Rightarrow> LinpErr + string" where
  "linp_payload content =
     (case read_all content PAYLOAD_MAX of
        None \<Rightarrow> Inl NoPayload
      | Some s \<Rightarrow>
          let pay = rstrip (\<lambda>c. c = CHR 0x0A \<or> c = CHR 0x0D) s in
          if pay = [] then Inl EmptyPayload else Inr pay)"

definition linp_pack :: "Plan \<Rightarrow> string \<Rightarrow> string \<Rightarrow> i64 \<Rightarrow> i64 \<Rightarrow> LinpErr + LinpOut" where
  "linp_pack p plan_src pay orig compb =
     (let total = disk_total (length pay) (unat (g_chunk p)) in
      if total > 65536 then Inl ManyDisks
      else Inr \<lparr>out_bc = linp_bc p,
        out_disks = map (\<lambda>i. (''disk_'' @ fmt2 (i + 1) @ ''.txt'', disk_text p pay i)) [0..<total],
        out_manifest = manifest_json p orig compb pay, out_rulel = manifest_rulel p orig compb pay,
        out_receipt = receipt_json p plan_src pay\<rparr>)"

definition linp_c0 :: "string option \<Rightarrow> string option \<Rightarrow> string \<Rightarrow> string \<Rightarrow> LinpErr + LinpOut" where
  "linp_c0 plan_file pay_file orig_arg comp_arg =
     (case size_arg orig_arg of
        None \<Rightarrow> Inl BadOrig
      | Some orig \<Rightarrow>
        (case size_arg comp_arg of
           None \<Rightarrow> Inl BadComp
         | Some compb \<Rightarrow>
           (case read_all plan_file PLAN_MAX of
              None \<Rightarrow> Inl NoPlan
            | Some plan \<Rightarrow>
                and_then (linp_plan plan) (\<lambda>p.
                and_then (linp_payload pay_file) (\<lambda>pay. linp_pack p plan pay orig compb)))))"

section \<open>Quoted text is uniquely readable\<close>

text \<open>
  The interface of a quoting: an escape never starts with the quote and a reader finds the
  character back whatever follows. Then a quoted text determines its contents and its end.
\<close>

locale quoting =
  fixes esc :: "char \<Rightarrow> string" and unesc :: "string \<Rightarrow> char"
  assumes esc_head: "\<exists>h t. esc c = h # t \<and> h \<noteq> QUOT"
    and unesc_esc: "unesc (esc c @ r) = c"
begin

lemma esc_inject: "esc c @ r = esc d @ r' \<Longrightarrow> c = d"
  using unesc_esc [of c r] unesc_esc [of d r'] by simp

lemma body_inject:
  "concat (map esc s) @ QUOT # r = concat (map esc t) @ QUOT # r' \<Longrightarrow> s = t \<and> r = r'"
proof (induction s arbitrary: t)
  case Nil
  then show ?case using esc_head by (cases t) (auto, metis append_Cons list.inject)
next
  case (Cons c s)
  show ?case
  proof (cases t)
    case Nil
    with Cons.prems esc_head [of c] show ?thesis by auto
  next
    case (Cons d t')
    with Cons.prems have e: "esc c @ concat (map esc s) @ QUOT # r = esc d @ concat (map esc t') @ QUOT # r'" by simp
    then have "c = d" by (rule esc_inject)
    with e Cons.IH [of t'] Cons show ?thesis by simp
  qed
qed

end

text \<open>The reader of one escape, for both quotings.\<close>

definition hex_digit :: "char \<Rightarrow> nat" where
  "hex_digit h = length (takeWhile (\<lambda>x. x \<noteq> h) hexd)"

definition unesc :: "string \<Rightarrow> char" where
  "unesc s =
     (if s ! 0 \<noteq> BSL then s ! 0
      else if s ! 1 = CHR ''n'' then CHR 0x0A
      else if s ! 1 = CHR ''r'' then CHR 0x0D
      else if s ! 1 = CHR ''t'' then CHR 0x09
      else if s ! 1 = CHR ''u'' then char_of (16 * hex_digit (s ! 4) + hex_digit (s ! 5))
      else if s ! 1 = CHR ''x'' then char_of (16 * hex_digit (s ! 2) + hex_digit (s ! 3))
      else s ! 1)"

lemma hex_digit_hexd: "n < 16 \<Longrightarrow> hex_digit (hexd ! n) = n"
proof -
  assume "n < 16"
  then have "n \<in> set [0..<16]" by simp
  then show ?thesis by (simp add: upt_rec hexd_def) (elim disjE; simp add: hex_digit_def hexd_def)
qed

lemma hex2_read: "char_of (16 * hex_digit (hexd ! (of_char c div 16)) + hex_digit (hexd ! (of_char c mod 16))) = (c :: char)"
proof -
  have "(of_char c :: nat) < 16 * 16" using nat_of_char_less_256 [of c] by simp
  then have "(of_char c :: nat) div 16 < 16" by (rule less_mult_imp_div_less)
  then show ?thesis by (simp add: hex_digit_hexd)
qed

lemma quote_chars: "QUOT \<noteq> BSL" "BSL \<noteq> QUOT"
  by (simp_all add: BSL_def QUOT_def)

lemma html_chars: "char_of (60 :: nat) = CHR ''<''" "char_of (62 :: nat) = CHR ''>''" "char_of (38 :: nat) = CHR ''&''"
  by code_simp+

lemma json_unesc: "unesc (json_esc c @ r) = c"
proof (cases "c \<in> {QUOT, BSL, CHR 0x0A, CHR 0x0D, CHR 0x09, CHR ''<'', CHR ''>'', CHR ''&''}")
  case True
  then show ?thesis unfolding insert_iff empty_iff
    by (elim disjE; simp add: json_esc_def unesc_def QUOT_def BSL_def; simp add: hex_digit_def hexd_def html_chars)
next
  case False
  then show ?thesis using hex2_read [of c] by (simp add: json_esc_def unesc_def hex2_def)
qed

lemma go_unesc: "unesc (go_esc c @ r) = c"
proof (cases "c \<in> {QUOT, BSL, CHR 0x0A, CHR 0x0D, CHR 0x09}")
  case True
  then show ?thesis by (auto simp: go_esc_def unesc_def QUOT_def BSL_def)
next
  case False
  then show ?thesis using hex2_read [of c] by (simp add: go_esc_def unesc_def hex2_def)
qed

interpretation js: quoting json_esc unesc
proof
  show "\<exists>h t. json_esc c = h # t \<and> h \<noteq> QUOT" for c by (auto simp: json_esc_def quote_chars)
qed (rule json_unesc)

interpretation go: quoting go_esc unesc
proof
  show "\<exists>h t. go_esc c = h # t \<and> h \<noteq> QUOT" for c by (auto simp: go_esc_def quote_chars)
qed (rule go_unesc)

lemma quoted_unique:
  "json_str s @ r = json_str t @ r' \<Longrightarrow> s = t \<and> r = r'" "go_quote s @ r = go_quote t @ r' \<Longrightarrow> s = t \<and> r = r'"
  using js.body_inject [of s r t r'] go.body_inject [of s r t r'] by (simp_all add: json_str_def go_quote_def)

section \<open>Splitting\<close>

lemma disk_slice_take: "disk_slice pay c i = take c (drop (i * c) pay)"
  by (auto simp: disk_slice_def Let_def min_def)

lemma concat_slices: "concat (map (disk_slice pay c) [0..<n]) = take (n * c) pay"
  by (induction n) (simp_all add: disk_slice_take take_add [symmetric] add.commute)

lemma total_covers: "0 < c \<Longrightarrow> n \<le> disk_total n c * c" "0 < c \<Longrightarrow> 0 < n \<Longrightarrow> (disk_total n c - 1) * c < n \<and> 0 < disk_total n c"
proof -
  assume c: "0 < c"
  have d: "(n + c - 1) = disk_total n c * c + (n + c - 1) mod c" "(n + c - 1) mod c < c"
    using c by (simp_all add: disk_total_def)
  then show "n \<le> disk_total n c * c" by linarith
  assume n: "0 < n"
  have "0 < disk_total n c" using c n by (simp add: disk_total_def div_greater_zero_iff)
  then have "(disk_total n c - 1) * c + c = disk_total n c * c" by (cases "disk_total n c") simp_all
  with d c n \<open>0 < disk_total n c\<close> show "(disk_total n c - 1) * c < n \<and> 0 < disk_total n c" by linarith
qed

lemma slice_lengths:
  assumes "0 < c" "0 < length pay" "i < disk_total (length pay) c"
  shows "0 < length (disk_slice pay c i) \<and> length (disk_slice pay c i) \<le> c \<and>
    (Suc i < disk_total (length pay) c \<longrightarrow> length (disk_slice pay c i) = c)"
proof -
  let ?t = "disk_total (length pay) c"
  have l: "(?t - 1) * c < length pay" using total_covers(2) [OF assms(1,2)] by simp
  have "i * c \<le> (?t - 1) * c" using assms(3) by (intro mult_right_mono) simp_all
  moreover have "i * c + c \<le> (?t - 1) * c" if "Suc i < ?t"
  proof -
    have "Suc i * c \<le> (?t - 1) * c" using that by (intro mult_right_mono) simp_all
    then show ?thesis by simp
  qed
  ultimately have "i * c < length pay" "Suc i < ?t \<longrightarrow> i * c + c \<le> length pay" using l by linarith+
  then show ?thesis using assms(1) by (auto simp: disk_slice_take)
qed

section \<open>Accepted plans\<close>

definition job_ok :: "string \<Rightarrow> bool" where "job_ok s = (length s \<le> 255)"

definition file_ok :: "string \<Rightarrow> bool" where
  "file_ok s = (length s \<le> 1023 \<and> \<not> has_dotdot s \<and> (s = [] \<or> hd s \<noteq> CHR ''/''))"

definition chunk_ok :: "i64 \<Rightarrow> bool" where
  "chunk_ok v = (64 \<le> unat v \<and> unat v \<le> 1800000)"

text \<open>Every directive sets its field once, to a valid value.\<close>

definition plan_ok :: "Plan \<Rightarrow> bool" where
  "plan_ok p = (job_ok (g_job p) \<and> file_ok (g_file p) \<and> (g_algo p = [] \<or> algo_id (g_algo p) \<noteq> None) \<and>
     (g_chunk p = 0 \<or> chunk_ok (g_chunk p)))"

lemma chunk_range: "\<not> v <s 64 \<Longrightarrow> \<not> 1800000 <s v \<Longrightarrow> chunk_ok v"
proof -
  assume "\<not> v <s 64" "\<not> 1800000 <s v"
  then have s: "64 \<le> sint v" "sint v \<le> 1800000" by (simp_all add: word_sless_alt)
  then have "unat v = nat (sint v)" using sint_nonneg [of v] by simp
  with s show ?thesis by (simp add: chunk_ok_def le_nat_iff nat_le_iff)
qed

lemma linp_directive_ok: "linp_directive ln s p = Inr p' \<Longrightarrow> plan_ok p \<Longrightarrow> plan_ok p'"
  by (auto simp: linp_directive_def Let_def plan_ok_def job_ok_def file_ok_def chunk_range split: if_splits option.splits)

lemma linp_line_ok: "linp_line ln s p = Inr p' \<Longrightarrow> plan_ok p \<Longrightarrow> plan_ok p'"
  by (auto simp: linp_line_def Let_def split: if_splits dest: linp_directive_ok)

lemma linp_lines_ok: "linp_lines ln s p = Inr p' \<Longrightarrow> plan_ok p \<Longrightarrow> plan_ok p'"
proof (induction ln s p rule: linp_lines.induct)
  case (1 ln s p)
  show ?case
  proof (cases "strchr_split (CHR 0x0A) s")
    case None
    with "1.prems" show ?thesis by (simp add: linp_lines.simps linp_line_ok)
  next
    case (Some ab)
    obtain a b where ab: "ab = (a, b)" by fastforce
    with Some "1.prems"(1) obtain p1 where p1: "linp_line ln a p = Inr p1" "linp_lines (Suc ln) b p1 = Inr p'"
      by (subst (asm) linp_lines.simps) auto
    show ?thesis
      by (rule "1.IH" [OF Some ab [symmetric] p1]) (rule linp_line_ok [OF p1(1) "1.prems"(2)])
  qed
qed

lemma linp_plan_ok:
  assumes "linp_plan plan = Inr p"
  shows "plan_ok p" "g_job p \<noteq> []" "g_file p \<noteq> []" "algo_id (g_algo p) \<noteq> None" "chunk_ok (g_chunk p)"
proof -
  have "plan_ok empty_plan" by (simp add: plan_ok_def empty_plan_def job_ok_def file_ok_def)
  with assms show ok: "plan_ok p" by (auto simp: linp_plan_def split: if_splits dest: linp_lines_ok)
  from assms show "g_job p \<noteq> []" "g_file p \<noteq> []" by (auto simp: linp_plan_def split: if_splits)
  from assms ok show "algo_id (g_algo p) \<noteq> None" "chunk_ok (g_chunk p)"
    by (auto simp: linp_plan_def plan_ok_def split: if_splits)
qed

text \<open>With the limits of payload and chunk there are never too many disks.\<close>

lemma total_bound: "n < PAYLOAD_MAX \<Longrightarrow> 64 \<le> c \<Longrightarrow> disk_total n c \<le> 65536"
proof -
  assume n: "n < PAYLOAD_MAX" and c: "64 \<le> c"
  have "n + c - 1 < 65537 * c" using n c by (simp add: PAYLOAD_MAX_def)
  then have "disk_total n c < 65537" unfolding disk_total_def by (rule less_mult_imp_div_less)
  then show ?thesis by simp
qed

lemma linp_payload_facts:
  assumes "linp_payload content = Inr pay"
  shows "pay \<noteq> []" "length pay < PAYLOAD_MAX"
proof -
  from assms obtain s where s: "length s < PAYLOAD_MAX" "pay = rstrip (\<lambda>c. c = CHR 0x0A \<or> c = CHR 0x0D) s" "pay \<noteq> []"
    by (auto simp: linp_payload_def read_all_def Let_def not_le split: option.splits if_splits)
  then show "pay \<noteq> []" by simp
  have "length pay \<le> length s" unfolding s(2) rstrip_def using length_dropWhile_le by (metis length_rev)
  with s(1) show "length pay < PAYLOAD_MAX" by simp
qed

lemma linp_pack_returns:
  assumes "linp_plan plan = Inr p" "linp_payload content = Inr pay"
  shows "linp_pack p plan_src pay orig compb = Inr \<lparr>out_bc = linp_bc p,
        out_disks = map (\<lambda>i. (''disk_'' @ fmt2 (i + 1) @ ''.txt'', disk_text p pay i)) [0..<disk_total (length pay) (unat (g_chunk p))],
        out_manifest = manifest_json p orig compb pay, out_rulel = manifest_rulel p orig compb pay,
        out_receipt = receipt_json p plan_src pay\<rparr>"
  using total_bound [OF linp_payload_facts(2) [OF assms(2)], of "unat (g_chunk p)"] linp_plan_ok(5) [OF assms(1)]
  by (simp add: linp_pack_def chunk_ok_def)

section \<open>Reading disks back\<close>

text \<open>What a disk carries: the text behind its fifth semicolon.\<close>

definition after_semi :: "string \<Rightarrow> string" where
  "after_semi s = tl (dropWhile (\<lambda>c. c \<noteq> CHR '';'') s)"

definition disk_payload :: "string \<Rightarrow> string" where
  "disk_payload s = after_semi (after_semi (after_semi (after_semi (after_semi s))))"

lemma after_semi_append: "CHR '';'' \<notin> set a \<Longrightarrow> after_semi (a @ CHR '';'' # b) = b"
proof -
  assume "CHR '';'' \<notin> set a"
  then have "\<forall>x \<in> set a. x \<noteq> CHR '';''" by auto
  then show ?thesis by (simp add: after_semi_def dropWhile_append2)
qed

lemma digits_no_semi: "CHR '';'' \<notin> set (dec_digits n)"
  using is_digit_dec_digits [of "CHR '';''" n] by (auto simp: is_digit_def less_eq_char_def)

lemma hex_no_semi: "CHR '';'' \<notin> set (lin_sha256_hex d)"
proof -
  have "hexd ! n \<in> set hexd" if "n < 16" for n using that by (intro nth_mem) (simp add: hexd_def)
  then have "set (lin_sha256_hex d) \<subseteq> set hexd" by (auto simp: lin_sha256_hex_def low_nibble nibbles)
  then show ?thesis by (auto simp: hexd_def)
qed

lemma algo_no_semi: "algo_id a \<noteq> None \<Longrightarrow> CHR '';'' \<notin> set a"
  by (auto simp: algo_id_def split: if_splits)

lemma disk_payload_text:
  assumes "algo_id (g_algo p) \<noteq> None"
  shows "disk_payload (disk_text p pay i) = cstr (disk_slice pay (unat (g_chunk p)) i)"
proof -
  let ?s = "disk_slice pay (unat (g_chunk p)) i" and ?n = "dec_digits (disk_total (length pay) (unat (g_chunk p)))"
  have "disk_text p pay i = ''v2'' @ CHR '';'' # g_algo p @ CHR '';'' # (''['' @ dec_digits (i + 1) @ ''/'' @ ?n @ '']'') @
      CHR '';'' # sha_hex ?s @ CHR '';'' # sha_hex pay @ CHR '';'' # cstr ?s"
    by (simp add: disk_text_def Let_def)
  moreover have "CHR '';'' \<notin> set ''v2''" "CHR '';'' \<notin> set (''['' @ dec_digits (i + 1) @ ''/'' @ ?n @ '']'')"
    by (simp_all add: digits_no_semi)
  ultimately show ?thesis
    using algo_no_semi [OF assms] hex_no_semi
    by (simp only: disk_payload_def after_semi_append sha_hex_def not_False_eq_True)
qed

lemma cstr_id: "CHR 0x00 \<notin> set s \<Longrightarrow> cstr s = s"
  by (auto simp: cstr_def takeWhile_eq_all_conv)

section \<open>Bytecode\<close>

lemma le_bytes_inject: "LENGTH('a) = 8 * n \<Longrightarrow> le_bytes n (v :: 'a::len word) = le_bytes n w \<longleftrightarrow> v = w"
  using le_value_bytes [of n v "[]"] le_value_bytes [of n w "[]"] by (metis append_Nil2)

lemma algo_id_inject: "algo_id a = algo_id b \<Longrightarrow> algo_id a \<noteq> None \<Longrightarrow> a = b"
  by (auto simp: algo_id_def split: if_splits)

lemma u16_of_length: "n \<le> 1023 \<Longrightarrow> unat (of_nat n :: u16) = n"
  by (simp add: unsigned_of_nat take_bit_nat_eq_self)

lemma chunk_ucast: "chunk_ok v \<Longrightarrow> unat (ucast v :: u32) = unat v"
  by (simp add: chunk_ok_def unsigned_ucast_eq take_bit_nat_eq_self)

text \<open>A counted text in front of anything is determined by the bytes.\<close>

lemma counted_inject:
  assumes "linp_w16 (of_nat (length a)) @ bytes_of_string a @ r = linp_w16 (of_nat (length b)) @ bytes_of_string b @ r'"
    "length a \<le> 1023" "length b \<le> 1023"
  shows "a = b \<and> r = r'"
proof -
  from assms(1) have "(of_nat (length a) :: u16) = of_nat (length b)" by (simp add: le_bytes_inject)
  then have l: "length a = length b" using u16_of_length [OF assms(2)] u16_of_length [OF assms(3)] by metis
  with assms(1) have "bytes_of_string a = bytes_of_string b" "r = r'" by simp_all
  then show ?thesis by (simp add: bytes_of_string_inject)
qed

lemma linp_bc_inject:
  assumes "linp_bc p = linp_bc q" "plan_ok p" "plan_ok q" "algo_id (g_algo p) \<noteq> None" "algo_id (g_algo q) \<noteq> None"
    "chunk_ok (g_chunk p)" "chunk_ok (g_chunk q)"
  shows "g_job p = g_job q \<and> g_file p = g_file q \<and> g_algo p = g_algo q \<and> g_chunk p = g_chunk q"
proof -
  from assms(1) have a: "the (algo_id (g_algo p)) = the (algo_id (g_algo q))"
    and c: "(ucast (g_chunk p) :: u32) = ucast (g_chunk q)"
    and t: "linp_w16 (of_nat (length (g_job p))) @ bytes_of_string (g_job p) @
       linp_w16 (of_nat (length (g_file p))) @ bytes_of_string (g_file p) @ [] =
       linp_w16 (of_nat (length (g_job q))) @ bytes_of_string (g_job q) @
       linp_w16 (of_nat (length (g_file q))) @ bytes_of_string (g_file q) @ []"
    by (simp_all add: linp_bc_def le_bytes_inject)
  have len: "length (g_job p) \<le> 1023" "length (g_job q) \<le> 1023" "length (g_file p) \<le> 1023" "length (g_file q) \<le> 1023"
    using assms(2,3) by (simp_all add: plan_ok_def job_ok_def file_ok_def)
  from counted_inject [OF t len(1,2)] counted_inject [OF _ len(3,4), of "[]" "[]"]
  have "g_job p = g_job q" "g_file p = g_file q" by auto
  moreover have "g_algo p = g_algo q" using a assms(4,5) by (intro algo_id_inject) (auto simp: option.expand)
  moreover have "g_chunk p = g_chunk q"
    using arg_cong [OF c, of unat] by (simp add: chunk_ucast assms(6,7) word_unat_eq_iff)
  ultimately show ?thesis by simp
qed

section \<open>The receipt\<close>

lemma lin_sha256_hex_inject: "lin_sha256_hex d = lin_sha256_hex e \<Longrightarrow> d = e"
proof (induction d arbitrary: e)
  case Nil
  then show ?case by (cases e) (simp_all add: lin_sha256_hex_def)
next
  case (Cons b d)
  then obtain c e' where e: "e = c # e'" by (cases e) (simp_all add: lin_sha256_hex_def)
  from Cons.prems have h: "hexd ! unat (drop_bit 4 b) = hexd ! unat (drop_bit 4 c)"
    "hexd ! unat (take_bit 4 b) = hexd ! unat (take_bit 4 c)" and r: "lin_sha256_hex d = lin_sha256_hex e'"
    by (simp_all add: e lin_sha256_hex_def low_nibble)
  then have "drop_bit 4 b = drop_bit 4 c" "take_bit 4 b = take_bit 4 c"
    using hex_digit_hexd nibbles by (metis word_unat_eq_iff)+
  then have "b = c" by (metis bits_ident)
  with Cons.IH [OF r] e show ?case by simp
qed

lemma quoted_hex_inject:
  assumes "quoted (lin_sha256_hex (lin_sha256 x)) @ r = quoted (lin_sha256_hex (lin_sha256 y)) @ r'"
  shows "lin_sha256 x = lin_sha256 y \<and> r = r'"
proof -
  have "length (lin_sha256_hex d) = 2 * length d" for d by (induction d) (simp_all add: lin_sha256_hex_def)
  with assms have "lin_sha256_hex (lin_sha256 x) = lin_sha256_hex (lin_sha256 y)" "r = r'"
    by (simp_all add: quoted_def)
  then show ?thesis using lin_sha256_hex_inject by blast
qed

lemma receipt_json_fields:
  assumes "receipt_json p ps pay = receipt_json q ps2 pay'"
  shows "g_algo p = g_algo q" "g_job p = g_job q" "lin_sha256 (linp_bc p) = lin_sha256 (linp_bc q)"
    "lin_sha256 (bytes_of_string pay) = lin_sha256 (bytes_of_string pay')"
    "lin_sha256 (bytes_of_string ps) = lin_sha256 (bytes_of_string ps2)"
proof -
  let ?t3 = "\<lambda>s. '','' @ NL @ json_key ''source_sha256'' @ quoted (sha_hex s) @ NL @ ''}''"
  let ?t2 = "\<lambda>s y. '','' @ NL @ json_key ''root_sha256'' @ quoted (sha_hex y) @ ?t3 s"
  let ?t1 = "\<lambda>p s y. '','' @ NL @ json_key ''job'' @ json_str (g_job p) @ ?t2 s y"
  let ?t0 = "\<lambda>p s y. '','' @ NL @ json_key ''bytecode_sha256'' @ quoted (lin_sha256_hex (lin_sha256 (linp_bc p))) @ ?t1 p s y"
  from assms have "json_str (g_algo p) @ ?t0 p ps pay = json_str (g_algo q) @ ?t0 q ps2 pay'"
    unfolding receipt_json_def same_append_eq .
  from quoted_unique(1) [OF this] have a: "g_algo p = g_algo q" and e0: "?t0 p ps pay = ?t0 q ps2 pay'" by blast+
  from quoted_hex_inject [OF e0 [unfolded same_append_eq]] have b: "lin_sha256 (linp_bc p) = lin_sha256 (linp_bc q)"
    and e1: "?t1 p ps pay = ?t1 q ps2 pay'" by blast+
  from quoted_unique(1) [OF e1 [unfolded same_append_eq]] have j: "g_job p = g_job q" and e2: "?t2 ps pay = ?t2 ps2 pay'" by blast+
  from quoted_hex_inject [OF e2 [unfolded same_append_eq sha_hex_def]]
  have y: "lin_sha256 (bytes_of_string pay) = lin_sha256 (bytes_of_string pay')" and e3: "?t3 ps = ?t3 ps2"
    by (simp_all add: sha_hex_def)
  from quoted_hex_inject [OF e3 [unfolded same_append_eq sha_hex_def]]
  have z: "lin_sha256 (bytes_of_string ps) = lin_sha256 (bytes_of_string ps2)" by blast
  from a j b y z show "g_algo p = g_algo q" "g_job p = g_job q" "lin_sha256 (linp_bc p) = lin_sha256 (linp_bc q)"
    "lin_sha256 (bytes_of_string pay) = lin_sha256 (bytes_of_string pay')"
    "lin_sha256 (bytes_of_string ps) = lin_sha256 (bytes_of_string ps2)" .
qed

section \<open>Properties\<close>

definition demo_plan :: string where
  "demo_plan = ''@LINP:1.0'' @ NL @ ''JOB demo'' @ NL @ ''FILE input.html'' @ NL @ ''ALGO deflate'' @ NL @
     ''CHUNK 64'' @ NL @ ''PACK'' @ NL @ ''END'' @ NL"

lemma demo_plan_parses: "linp_plan demo_plan = Inr \<lparr>g_job = ''demo'', g_file = ''input.html'', g_algo = ''deflate'',
   g_chunk = 64, g_packs = 1, plan_complete = True\<rparr>"
  by code_simp

lemma linp_c0_parts:
  assumes "linp_c0 (Some plan) (Some content) oa ca = Inr out"
  obtains p pay orig compb where "linp_plan plan = Inr p" "linp_payload (Some content) = Inr pay"
    "linp_pack p plan pay orig compb = Inr out"
  using assms by (auto simp: linp_c0_def read_all_def split: option.splits if_splits)

lemma demo_packs: "\<exists>out. linp_c0 (Some demo_plan) (Some (replicate 100 CHR ''a'')) ''1'' ''1'' = Inr out"
proof -
  have "linp_payload (Some (replicate 100 CHR ''a'')) = Inr (replicate 100 CHR ''a'')"
    by (simp add: linp_payload_def read_all_def PAYLOAD_MAX_def rstrip_def)
  moreover have "size_arg ''1'' = Some 1" by code_simp
  moreover have "length demo_plan < PLAN_MAX" by (simp add: demo_plan_def NL_def PLAN_MAX_def)
  ultimately show ?thesis
    using linp_pack_returns [OF demo_plan_parses] by (simp add: linp_c0_def read_all_def demo_plan_parses)
qed

text \<open>
  C10: the disks hold the payload. Whenever the packer succeeds, it writes one disk per started
  chunk, at least one and at most 65536; every disk but the last carries exactly the chunk size of
  the plan, the last one at least a character, and the texts behind the fifth semicolons of the
  disks, in order, are the payload without its final line ends, if it holds no NUL.
\<close>
theorem linp_disks_reassemble:
  assumes "linp_c0 (Some plan) (Some content) oa ca = Inr out"
  shows "\<exists>p pay. linp_plan plan = Inr p \<and> linp_payload (Some content) = Inr pay \<and>
    0 < length (out_disks out) \<and> length (out_disks out) \<le> 65536 \<and>
    (CHR 0x00 \<notin> set pay \<longrightarrow> concat (map (\<lambda>(nm, d). disk_payload d) (out_disks out)) = pay \<and>
      (\<forall>i < length (out_disks out). 0 < length (disk_payload (snd (out_disks out ! i))) \<and>
         length (disk_payload (snd (out_disks out ! i))) \<le> unat (g_chunk p) \<and>
         (Suc i < length (out_disks out) \<longrightarrow> length (disk_payload (snd (out_disks out ! i))) = unat (g_chunk p))))"
proof -
  from assms obtain p pay orig compb where p: "linp_plan plan = Inr p" "linp_payload (Some content) = Inr pay"
    "linp_pack p plan pay orig compb = Inr out" by (rule linp_c0_parts)
  let ?c = "unat (g_chunk p)"
  let ?n = "disk_total (length pay) ?c"
  have c: "64 \<le> ?c" using linp_plan_ok(5) [OF p(1)] by (simp add: chunk_ok_def)
  note pay = linp_payload_facts [OF p(2)]
  have d: "out_disks out = map (\<lambda>i. (''disk_'' @ fmt2 (i + 1) @ ''.txt'', disk_text p pay i)) [0..<?n]"
    using p(3) unfolding linp_pack_returns [OF p(1,2)] by auto
  have n: "0 < ?n" "?n \<le> 65536" "length pay \<le> ?n * ?c"
    using total_covers [of ?c "length pay"] total_bound [OF pay(2) c] c pay(1) by simp_all
  have t: "disk_payload (disk_text p pay i) = disk_slice pay ?c i" if "CHR 0x00 \<notin> set pay" for i
  proof -
    have "CHR 0x00 \<notin> set (disk_slice pay ?c i)"
      using that by (auto simp: disk_slice_take dest: in_set_takeD in_set_dropD)
    then show ?thesis using linp_plan_ok(4) [OF p(1)] by (simp add: disk_payload_text cstr_id)
  qed
  have "concat (map (disk_slice pay ?c) [0..<?n]) = pay" using n(3) by (simp add: concat_slices)
  then have "concat (map (\<lambda>(nm, d). disk_payload d) (out_disks out)) = pay" if "CHR 0x00 \<notin> set pay"
    using t [OF that] by (simp add: d comp_def)
  then show ?thesis
    using p(1,2) n(1,2) slice_lengths [of ?c pay] c pay(1) t by (auto simp: d)
qed

theorem linp_disks_reassemble_witness:
  "\<exists>out p. linp_c0 (Some demo_plan) (Some (replicate 100 CHR ''a'')) ''1'' ''1'' = Inr out \<and>
     linp_plan demo_plan = Inr p \<and> 0 < length (out_disks out)"
  using demo_packs linp_disks_reassemble by blast

text \<open>
  C11: a packing receipt commits to its inputs. If two runs of the packer on plans and payloads it
  accepts write the same receipt, they have the same algorithm, job, file and chunk size, the
  same plan text and the same payload, unless the bytecodes, the plans or the payloads are
  different messages with the same SHA-256.
\<close>
theorem linp_receipt_commits:
  assumes "linp_plan ps = Inr p" "linp_plan ps2 = Inr q" "receipt_json p ps pay = receipt_json q ps2 pay'"
  shows "g_algo p = g_algo q \<and> g_job p = g_job q \<and>
    (g_file p = g_file q \<and> g_chunk p = g_chunk q \<and> ps = ps2 \<and> pay = pay' \<or>
     (\<exists>(x, y) \<in> {(linp_bc p, linp_bc q), (bytes_of_string pay, bytes_of_string pay'), (bytes_of_string ps, bytes_of_string ps2)}.
        x \<noteq> y \<and> lin_sha256 x = lin_sha256 y))"
proof -
  note f = receipt_json_fields [OF assms(3)]
  have "linp_bc p = linp_bc q \<longrightarrow> g_file p = g_file q \<and> g_chunk p = g_chunk q"
    using linp_bc_inject [of p q] linp_plan_ok [OF assms(1)] linp_plan_ok [OF assms(2)] by blast
  with f bytes_of_string_inject show ?thesis by auto
qed

theorem linp_receipt_commits_witness:
  "\<exists>p. linp_plan demo_plan = Inr p \<and> g_file p = ''input.html'' \<and>
     (g_file p = g_file p \<and> g_chunk p = g_chunk p \<and> demo_plan = demo_plan \<and> ''a'' = ''a'' \<or>
      (\<exists>(x, y) \<in> {(linp_bc p, linp_bc p), (bytes_of_string ''a'', bytes_of_string ''a''), (bytes_of_string demo_plan, bytes_of_string demo_plan)}.
         x \<noteq> y \<and> lin_sha256 x = lin_sha256 y))"
  using linp_receipt_commits [OF demo_plan_parses demo_plan_parses refl, of "''a''"] demo_plan_parses by simp

end
