(* ===== verification/C0_Arena.thy ===== *)
theory C0_Arena
  imports Lin_Common
begin

text \<open>
  The chunked bump arena of \<open>transpile/c/tool/lin_c0_front.c\<close>. Chunks are never moved, so a
  pointer is a chunk and an offset into its payload; a chunk is named by the number of chunks
  that were there before it. Sizes are \<open>size_t\<close>, with its wrap-around; \<open>mem\<close> says which
  \<open>malloc\<close> sizes succeed.
\<close>

record C0Chunk =
  chunk_cap :: u64
  chunk_used :: u64

text \<open>The list of chunks, newest first: \<open>head\<close> and its \<open>next\<close> pointers.\<close>

type_synonym C0Arena = "C0Chunk list"

definition C0_CHUNK_DEFAULT :: u64 where "C0_CHUNK_DEFAULT = push_bit 16 1"

text \<open>\<open>sizeof(C0Chunk) - 1\<close>: a pointer, two sizes and the padded one-byte tail.\<close>

definition CHUNK_HEADER :: u64 where "CHUNK_HEADER = 31"

definition c0_chunk_new :: "(u64 \<Rightarrow> bool) \<Rightarrow> u64 \<Rightarrow> C0Chunk option" where
  "c0_chunk_new mem payload =
     (let cap = (if payload > C0_CHUNK_DEFAULT then payload else C0_CHUNK_DEFAULT) in
      if \<not> mem (CHUNK_HEADER + cap) then None
      else Some \<lparr>chunk_cap = cap, chunk_used = 0\<rparr>)"

definition c0_arena_new :: "(u64 \<Rightarrow> bool) \<Rightarrow> C0Arena option" where
  "c0_arena_new mem = map_option (\<lambda>c. [c]) (c0_chunk_new mem 0)"

text \<open>A pointer into the arena.\<close>

type_synonym arena_ptr = "nat \<times> u64"

definition align8 :: "u64 \<Rightarrow> u64" where
  "align8 n = (if n = 0 then 8 else (n + 7) AND NOT 7)"

fun c0_arena_alloc :: "(u64 \<Rightarrow> bool) \<Rightarrow> C0Arena \<Rightarrow> u64 \<Rightarrow> (arena_ptr \<times> C0Arena) option" where
  "c0_arena_alloc mem [] n = None"
| "c0_arena_alloc mem (c # cs) n =
     (let bump = (\<lambda>c cs. ((length cs, chunk_used c), c\<lparr>chunk_used := chunk_used c + align8 n\<rparr> # cs)) in
      if chunk_used c + align8 n > chunk_cap c
      then map_option (\<lambda>nc. bump nc (c # cs)) (c0_chunk_new mem (align8 n))
      else Some (bump c cs))"

text \<open>The bytes handed out so far: the used prefix of every chunk.\<close>

definition handed_out :: "C0Arena \<Rightarrow> (nat \<times> nat) set" where
  "handed_out a = {(k, i). k < length a \<and> i < unat (chunk_used (rev a ! k))}"

definition payload :: "C0Arena \<Rightarrow> (nat \<times> nat) set" where
  "payload a = {(k, i). k < length a \<and> i < unat (chunk_cap (rev a ! k))}"

definition block :: "arena_ptr \<Rightarrow> nat \<Rightarrow> (nat \<times> nat) set" where
  "block p n = {(k, i). k = fst p \<and> unat (snd p) \<le> i \<and> i < unat (snd p) + n}"

text \<open>Every chunk is used within its capacity, in multiples of 8, and leaves room to round up.\<close>

definition arena_ok :: "C0Arena \<Rightarrow> bool" where
  "arena_ok a = (a \<noteq> [] \<and> list_all (\<lambda>c. chunk_used c \<le> chunk_cap c \<and> 8 dvd unat (chunk_used c) \<and>
     unat (chunk_cap c) < 2 ^ 63) a)"

lemma and_not_mask: "(x :: 'a::len word) AND NOT (mask k) = push_bit k (drop_bit k x)"
  by (rule bit_word_eqI) (auto simp: bit_and_iff bit_not_iff bit_mask_iff bit_push_bit_iff bit_drop_bit_eq)

lemma unat_align8:
  assumes "unat n < 2 ^ 62"
  shows "unat (align8 n) = (if n = 0 then 8 else 8 * ((unat n + 7) div 8))"
proof (cases "n = 0")
  case False
  have s: "unat (n + 7) = unat n + 7" using assms by (simp add: unat_word_ariths)
  have m: "(7 :: u64) = mask 3" by (simp add: mask_eq_exp_minus_1)
  have t: "take_bit 64 (unat (n + 7)) = unat (n + 7)"
    using unsigned_less [of "n + 7"] by (intro take_bit_nat_eq_self) simp
  have "unat (push_bit 3 (drop_bit 3 (n + 7))) = take_bit 64 (8 * (unat (n + 7) div 8))"
    by (simp only: unsigned_push_bit_eq unsigned_drop_bit_eq) (simp add: push_bit_eq_mult drop_bit_eq_div mult.commute t)
  also have "\<dots> = 8 * ((unat n + 7) div 8)"
    unfolding s by (rule take_bit_nat_eq_self) (use assms in simp)
  finally show ?thesis using False m and_not_mask [of "n + 7" 3] by (simp add: align8_def)
qed (simp add: align8_def)

lemma unat_add_small: "unat x + unat y < 2 ^ 64 \<Longrightarrow> unat (x + y :: u64) = unat x + unat y"
  by (simp add: unat_word_ariths)

lemma chunk_new_ok:
  assumes "c0_chunk_new mem n = Some c" "unat n < 2 ^ 63"
  shows "chunk_used c = 0" "n \<le> chunk_cap c" "unat (chunk_cap c) < 2 ^ 63"
  using assms by (auto simp: c0_chunk_new_def Let_def C0_CHUNK_DEFAULT_def split: if_splits)

lemma align8_bounds:
  assumes "unat n < 2 ^ 62"
  shows "unat n \<le> unat (align8 n)" "unat (align8 n) < 2 ^ 63" "8 dvd unat (align8 n)"
  using assms by (auto simp: unat_align8)

text \<open>The effect of one allocation on the chunk it lands in.\<close>

lemma arena_alloc_cases:
  assumes "c0_arena_alloc mem a n = Some (p, a')" "arena_ok a" "unat n < 2 ^ 62"
  obtains c cs where "a' = c\<lparr>chunk_used := chunk_used c + align8 n\<rparr> # cs" "p = (length cs, chunk_used c)"
    "arena_ok (c # cs)" "unat (chunk_used c) + unat (align8 n) \<le> unat (chunk_cap c)"
    "c # cs = a \<or> cs = a \<and> chunk_used c = 0"
proof -
  from assms(2) obtain c cs where a: "a = c # cs" by (cases a) (auto simp: arena_ok_def)
  note b = align8_bounds [OF assms(3)]
  have c: "unat (chunk_used c) \<le> unat (chunk_cap c)" "unat (chunk_cap c) < 2 ^ 63"
    using assms(2) by (auto simp: a arena_ok_def word_le_nat_alt)
  then have s: "unat (chunk_used c + align8 n) = unat (chunk_used c) + unat (align8 n)"
    using b(2) by (intro unat_add_small) simp
  show ?thesis
  proof (cases "chunk_used c + align8 n > chunk_cap c")
    case True
    with assms(1) obtain nc where nc: "c0_chunk_new mem (align8 n) = Some nc"
      "a' = nc\<lparr>chunk_used := chunk_used nc + align8 n\<rparr> # a" "p = (length a, chunk_used nc)"
      by (auto simp: a Let_def)
    from chunk_new_ok [OF nc(1) b(2)] assms(2) have "arena_ok (nc # a)" by (auto simp: arena_ok_def word_le_nat_alt)
    with nc chunk_new_ok [OF nc(1) b(2)] show ?thesis by (intro that [of nc a]) (auto simp: word_le_nat_alt)
  next
    case False
    with assms(1) have r: "a' = c\<lparr>chunk_used := chunk_used c + align8 n\<rparr> # cs" "p = (length cs, chunk_used c)"
      by (auto simp: a Let_def)
    from False s have "unat (chunk_used c) + unat (align8 n) \<le> unat (chunk_cap c)"
      by (simp add: word_less_nat_alt not_less)
    with r assms(2) show ?thesis by (intro that [of c cs]) (auto simp: a)
  qed
qed

section \<open>Properties\<close>

text \<open>
  The arena hands out disjoint memory. An allocation returns an 8-byte aligned block of at
  least the requested size, inside the payload of one chunk and disjoint from every byte
  handed out before; earlier blocks stay handed out, and the arena stays well-formed.
\<close>
theorem arena_alloc_disjoint:
  assumes "c0_arena_alloc mem a n = Some (p, a')" "arena_ok a" "unat n < 2 ^ 62"
  shows "arena_ok a' \<and> 8 dvd unat (snd p) \<and> block p (unat n) \<subseteq> payload a' \<and>
    block p (unat n) \<inter> handed_out a = {} \<and> handed_out a \<union> block p (unat n) \<subseteq> handed_out a'"
proof -
  from arena_alloc_cases [OF assms] obtain c cs where r: "a' = c\<lparr>chunk_used := chunk_used c + align8 n\<rparr> # cs"
    "p = (length cs, chunk_used c)" "arena_ok (c # cs)" "unat (chunk_used c) + unat (align8 n) \<le> unat (chunk_cap c)"
    "c # cs = a \<or> cs = a \<and> chunk_used c = 0" by blast
  note b = align8_bounds [OF assms(3)]
  have c: "8 dvd unat (chunk_used c)" "unat (chunk_cap c) < 2 ^ 63" using r(3) by (auto simp: arena_ok_def)
  have s: "unat (chunk_used c + align8 n) = unat (chunk_used c) + unat (align8 n)"
    using r(4) c(2) by (intro unat_add_small) simp
  have "arena_ok a'" using r(1,3,4) b(3) c s by (auto simp: arena_ok_def word_le_nat_alt)
  moreover have "8 dvd unat (snd p)" using r(2) c(1) by simp
  moreover have "block p (unat n) \<subseteq> payload a'"
    using r(1,2,4) b(1) by (auto simp: block_def payload_def nth_append)
  moreover have "block p (unat n) \<inter> handed_out a = {}"
    using r(2,5) by (auto simp: block_def handed_out_def nth_append)
  moreover have "handed_out a \<subseteq> handed_out a'"
    using r(1,5) s by (auto simp: handed_out_def nth_append less_Suc_eq)
  moreover have "block p (unat n) \<subseteq> handed_out a'"
    using r(1,2) b(1) s by (auto simp: block_def handed_out_def nth_append)
  ultimately show ?thesis by blast
qed

theorem arena_alloc_disjoint_witness:
  "\<exists>a p a'. c0_arena_new (\<lambda>_. True) = Some a \<and> c0_arena_alloc (\<lambda>_. True) a 3 = Some (p, a') \<and> 8 dvd unat (snd p)"
proof -
  let ?a = "[\<lparr>chunk_cap = 65536, chunk_used = 0\<rparr>]"
  have n: "c0_arena_new (\<lambda>_. True) = Some ?a" by (simp add: c0_arena_new_def c0_chunk_new_def C0_CHUNK_DEFAULT_def)
  obtain p a' where r: "c0_arena_alloc (\<lambda>_. True) ?a 3 = Some (p, a')"
    by (cases "65536 < align8 3") (auto simp: Let_def c0_chunk_new_def)
  have "arena_ok ?a" by (simp add: arena_ok_def)
  from arena_alloc_disjoint [OF r this] have "8 dvd unat (snd p)" by simp
  with n r show ?thesis by (intro exI conjI)
qed

end
