(* ===== verification/C0_Scan.thy ===== *)
theory C0_Scan
  imports Lin_Token
begin

text \<open>
  The text level of the front-end \<open>transpile/c/tool/lin_c0_front.c\<close>: character classes,
  trimming and searching, \<open>c0_parse_fn_infos\<close> (the declarations of a source text),
  \<open>c0_tokenize\<close> (the tokens of a body) and the two integer literal parsers.

  A position in the source is the suffix that starts there; a view (pointer, length) is a
  string. An allocation failure makes the whole call return \<open>NULL\<close>, whenever it happens,
  so \<open>mem\<close> is one bit: all allocations of the call succeed.
\<close>

section \<open>Characters and views\<close>

definition c0_is_name_char :: "char \<Rightarrow> bool" where
  "c0_is_name_char c = ((CHR ''a'' \<le> c \<and> c \<le> CHR ''z'') \<or> (CHR ''A'' \<le> c \<and> c \<le> CHR ''Z'') \<or>
     (CHR ''0'' \<le> c \<and> c \<le> CHR ''9'') \<or> c = CHR ''_'' \<or> c = CHR ''$'')"

definition c0_is_space :: "char \<Rightarrow> bool" where
  "c0_is_space c = (c = CHR '' '' \<or> c = CHR 0x09 \<or> c = CHR 0x0D \<or> c = CHR 0x0A)"

definition trim_by :: "(char \<Rightarrow> bool) \<Rightarrow> string \<Rightarrow> string" where
  "trim_by P s = rev (dropWhile P (rev (dropWhile P s)))"

definition c0_trim :: "string \<Rightarrow> string" where
  "c0_trim s = trim_by c0_is_space s"

fun c0_index_char :: "string \<Rightarrow> char \<Rightarrow> nat option" where
  "c0_index_char [] ch = None"
| "c0_index_char (c # s) ch = (if c = ch then Some 0 else map_option Suc (c0_index_char s ch))"

fun c0_index_str :: "string \<Rightarrow> string \<Rightarrow> nat option" where
  "c0_index_str [] needle = (if needle = [] then Some 0 else None)"
| "c0_index_str (c # s) needle =
     (if take (length needle) (c # s) = needle then Some 0
      else map_option Suc (c0_index_str s needle))"

section \<open>Declarations\<close>

record C0Param =
  param_name :: string
  type_name :: string

record C0FnInfo =
  info_name :: string
  info_params :: "C0Param list"
  return_type :: string
  info_body :: string
  info_line :: nat

definition QUOTE :: char where "QUOTE = CHR 0x22"
definition NEWLINE :: char where "NEWLINE = CHR 0x0A"

definition newlines :: "string \<Rightarrow> nat" where
  "newlines s = length (filter (\<lambda>c. c = NEWLINE) s)"

text \<open>A double-quoted piece after its opening quote: consumed text and rest.\<close>

definition scan_quoted :: "string \<Rightarrow> string \<times> string" where
  "scan_quoted s = (takeWhile (\<lambda>c. c \<noteq> QUOTE) s @ take 1 (dropWhile (\<lambda>c. c \<noteq> QUOTE) s),
                    drop 1 (dropWhile (\<lambda>c. c \<noteq> QUOTE) s))"

lemma scan_quoted_append: "fst (scan_quoted s) @ snd (scan_quoted s) = s"
  by (simp add: scan_quoted_def)

lemma scan_quoted_length: "length (snd (scan_quoted s)) \<le> length s"
  using arg_cong [OF scan_quoted_append [of s], of length] by simp

text \<open>The two depth-counting loops, over parentheses and over braces.\<close>

function scan_balanced :: "char \<Rightarrow> char \<Rightarrow> nat \<Rightarrow> string \<Rightarrow> string \<times> string" where
  "scan_balanced opn cls d [] = ([], [])"
| "scan_balanced opn cls d (c # s) =
     (if d = 0 then ([], c # s)
      else if c = QUOTE then
        let (x, y) = scan_balanced opn cls d (snd (scan_quoted s)) in (c # fst (scan_quoted s) @ x, y)
      else
        let (x, y) = scan_balanced opn cls (if c = opn then d + 1 else if c = cls then d - 1 else d) s in (c # x, y))"
  by pat_completeness auto
termination
  by (relation "measure (\<lambda>(opn, cls, d, s). length s)") (auto simp: le_imp_less_Suc scan_quoted_length)

fun split_comma :: "string \<Rightarrow> string list" where
  "split_comma [] = [[]]"
| "split_comma (c # s) = (if c = CHR '','' then [] # split_comma s
     else case split_comma s of x # xs \<Rightarrow> (c # x) # xs | [] \<Rightarrow> [[c]])"

definition parse_param :: "string \<Rightarrow> C0Param option" where
  "parse_param piece0 =
     (let piece = c0_trim piece0 in
      if piece = [] then None
      else case c0_index_char piece (CHR '':'') of
        Some colon \<Rightarrow> Some \<lparr>param_name = c0_trim (take colon piece), type_name = c0_trim (drop (colon + 1) piece)\<rparr>
      | None \<Rightarrow> Some \<lparr>param_name = piece, type_name = ''any''\<rparr>)"

definition parse_return :: "string \<Rightarrow> string" where
  "parse_return hdr =
     (case c0_index_str hdr ''->'' of
        Some arrow \<Rightarrow> c0_trim (drop (arrow + 2) hdr)
      | None \<Rightarrow> (case c0_index_char hdr (CHR '':'') of
                   Some colon \<Rightarrow> c0_trim (drop (colon + 1) hdr)
                 | None \<Rightarrow> ''any''))"

text \<open>
  What follows a \<open>!\<close>: \<open>Inr (info, rest, line)\<close> for a declaration, \<open>Inl line\<close> when it is none.
  The line counter has moved over everything that was looked at, in both cases.
\<close>

definition parse_decl :: "string \<Rightarrow> nat \<Rightarrow> nat + (C0FnInfo \<times> string \<times> nat)" where
  "parse_decl s fn_line =
     (let s1 = dropWhile c0_is_space s;
          line1 = fn_line + newlines (takeWhile c0_is_space s);
          fname = takeWhile c0_is_name_char s1;
          s2 = dropWhile c0_is_name_char s1 in
      if \<not> (fname \<noteq> [] \<and> s2 \<noteq> [] \<and> hd s2 = CHR ''('') then Inl line1
      else
        let (inside, s3) = scan_balanced (CHR ''('') (CHR '')'') 1 (tl s2);
            raw_params = butlast inside;
            params = List.map_filter parse_param (split_comma raw_params);
            hdr = takeWhile (\<lambda>c. c \<noteq> CHR ''{'') s3;
            s4 = dropWhile (\<lambda>c. c \<noteq> CHR ''{'') s3;
            line2 = line1 + newlines inside + newlines hdr in
        if s4 = [] then Inl line2
        else
          let (body, s5) = scan_balanced (CHR ''{'') (CHR ''}'') 1 (tl s4) in
          Inr (\<lparr>info_name = fname, info_params = params, return_type = parse_return hdr,
                info_body = butlast body, info_line = fn_line\<rparr>,
               s5, line2 + newlines body))"

lemma scan_balanced_append: "fst (scan_balanced opn cls d s) @ snd (scan_balanced opn cls d s) = s"
proof (induction opn cls d s rule: scan_balanced.induct)
  case (2 opn cls d c s)
  then show ?case
    using scan_quoted_append [of s] by (auto simp: Let_def split: prod.splits)
qed simp

lemma scan_balanced_length: "length (snd (scan_balanced opn cls d s)) \<le> length s"
  using arg_cong [OF scan_balanced_append [of opn cls d s], of length] by simp

lemma length_tl_dropWhile: "dropWhile P s \<noteq> [] \<Longrightarrow> length (tl (dropWhile P s)) < length s"
  using length_dropWhile_le [of P s] by (cases "dropWhile P s") auto

lemma parse_decl_length: "parse_decl s l = Inr (info, r, l') \<Longrightarrow> length r < length s"
proof -
  assume a: "parse_decl s l = Inr (info, r, l')"
  define s2 where "s2 = dropWhile c0_is_name_char (dropWhile c0_is_space s)"
  define s3 where "s3 = snd (scan_balanced (CHR ''('') (CHR '')'') 1 (tl s2))"
  define s4 where "s4 = dropWhile (\<lambda>c. c \<noteq> CHR ''{'') s3"
  from a have r: "s2 \<noteq> []" "s4 \<noteq> []" "r = snd (scan_balanced (CHR ''{'') (CHR ''}'') 1 (tl s4))"
    unfolding parse_decl_def by (auto simp: Let_def s2_def s3_def s4_def split: if_splits prod.splits)
  have "length r \<le> length (tl s4)" unfolding r(3) by (rule scan_balanced_length)
  also have "\<dots> \<le> length s3" using length_dropWhile_le [of _ s3] unfolding s4_def by (simp add: le_diff_conv le_SucI)
  also have "length s3 \<le> length (tl s2)" unfolding s3_def by (rule scan_balanced_length)
  also have "length (tl s2) < length s2" using r(1) by (cases s2) auto
  also have "length s2 \<le> length s"
    unfolding s2_def using length_dropWhile_le le_trans by blast
  finally show ?thesis .
qed

function parse_infos_from :: "string \<Rightarrow> nat \<Rightarrow> C0FnInfo list" where
  "parse_infos_from [] line = []"
| "parse_infos_from (c # s) line0 =
     (let line = (if c = NEWLINE then line0 + 1 else line0) in
      if c = CHR ''!'' \<and> \<not> (s \<noteq> [] \<and> hd s = CHR ''='') then
        (case parse_decl s line of
           Inr (info, rest, line') \<Rightarrow> info # parse_infos_from rest line'
         | Inl line' \<Rightarrow> parse_infos_from s line')
      else parse_infos_from s line)"
  by pat_completeness auto
termination
  by (relation "measure (\<lambda>(s, line). length s)") (auto dest!: parse_decl_length intro: less_SucI)

text \<open>
  \<open>NULL\<close> for lack of memory, and also for a text without declarations: the list pointer is
  then still \<open>NULL\<close>.
\<close>

definition c0_parse_fn_infos :: "bool \<Rightarrow> string \<Rightarrow> C0FnInfo list option" where
  "c0_parse_fn_infos mem src =
     (let infos = parse_infos_from src 1 in
      if \<not> mem \<or> infos = [] then None else Some infos)"

section \<open>Tokens\<close>

datatype C0TokKind = C0_TK_IDENT | C0_TK_NUMBER | C0_TK_PUNCT | C0_TK_STR | C0_TK_EOF

record C0Tok =
  tk_kind :: C0TokKind
  tk_text :: string

definition c0_is_ident_start :: "char \<Rightarrow> bool" where
  "c0_is_ident_start c = ((CHR ''a'' \<le> c \<and> c \<le> CHR ''z'') \<or> (CHR ''A'' \<le> c \<and> c \<le> CHR ''Z'') \<or>
     c = CHR ''_'' \<or> c = CHR ''$'')"

definition c0_is_ident_part :: "char \<Rightarrow> bool" where
  "c0_is_ident_part c = (c0_is_ident_start c \<or> (CHR ''0'' \<le> c \<and> c \<le> CHR ''9''))"

definition TWO :: "string list" where
  "TWO = [''=='', ''!='', ''<='', ''>='', ''&&'', ''||'', ''->'', ''<<'', ''>>'']"

text \<open>A string literal after its opening quote; a backslash takes the next character along.\<close>

function scan_str :: "string \<Rightarrow> string \<times> string" where
  "scan_str [] = ([], [])"
| "scan_str (c # s) =
     (if c = QUOTE then ([c], s)
      else if c = CHR 0x5C \<and> s \<noteq> [] then
        let (x, y) = scan_str (tl s) in (c # hd s # x, y)
      else let (x, y) = scan_str s in (c # x, y))"
  by pat_completeness auto
termination by (relation "measure length") (auto simp: less_Suc_eq_le)

text \<open>The first token of a text that starts with neither white space nor a comment, and the rest.\<close>

definition next_tok :: "char \<Rightarrow> string \<Rightarrow> C0Tok \<times> string" where
  "next_tok c s =
     (if c = QUOTE then
        (let (x, y) = scan_str s in (\<lparr>tk_kind = C0_TK_STR, tk_text = c # x\<rparr>, y))
      else if CHR ''0'' \<le> c \<and> c \<le> CHR ''9'' then
        (\<lparr>tk_kind = C0_TK_NUMBER, tk_text = takeWhile is_digit (c # s)\<rparr>, dropWhile is_digit (c # s))
      else if c0_is_ident_start c then
        (\<lparr>tk_kind = C0_TK_IDENT, tk_text = takeWhile c0_is_ident_part (c # s)\<rparr>, dropWhile c0_is_ident_part (c # s))
      else if s \<noteq> [] \<and> [c, hd s] \<in> set TWO then
        (\<lparr>tk_kind = C0_TK_PUNCT, tk_text = [c, hd s]\<rparr>, tl s)
      else (\<lparr>tk_kind = C0_TK_PUNCT, tk_text = [c]\<rparr>, s))"

lemma scan_str_append: "fst (scan_str s) @ snd (scan_str s) = s"
  by (induction s rule: scan_str.induct) (auto simp: Let_def split: prod.splits)

lemma ident_start_part: "c0_is_ident_start c \<Longrightarrow> c0_is_ident_part c"
  by (simp add: c0_is_ident_part_def)

lemma next_tok_append: "tk_text (fst (next_tok c s)) @ snd (next_tok c s) = c # s"
  using scan_str_append [of s]
  by (auto simp: next_tok_def Let_def split: prod.splits)

lemma next_tok_text: "tk_text (fst (next_tok c s)) \<noteq> []"
  by (auto simp: next_tok_def Let_def is_digit_def ident_start_part split: prod.splits)

lemma next_tok_kind: "tk_kind (fst (next_tok c s)) \<noteq> C0_TK_EOF"
  by (auto simp: next_tok_def Let_def split: prod.splits)

lemma next_tok_length: "length (snd (next_tok c s)) \<le> length s"
  using arg_cong [OF next_tok_append [of c s], of length] next_tok_text [of c s]
  by (cases "tk_text (fst (next_tok c s))") auto

function tokens_of :: "string \<Rightarrow> C0Tok list" where
  "tokens_of [] = [\<lparr>tk_kind = C0_TK_EOF, tk_text = []\<rparr>]"
| "tokens_of (c # s) =
     (if c0_is_space c then tokens_of s
      else if c = CHR ''/'' \<and> s \<noteq> [] \<and> hd s = CHR ''/'' then tokens_of (dropWhile (\<lambda>c. c \<noteq> NEWLINE) s)
      else fst (next_tok c s) # tokens_of (snd (next_tok c s)))"
  by pat_completeness auto
termination
  by (relation "measure length")
     (auto simp: le_imp_less_Suc length_dropWhile_le next_tok_length)

definition c0_tokenize :: "bool \<Rightarrow> string \<Rightarrow> C0Tok list option" where
  "c0_tokenize mem src = (if mem then Some (tokens_of src) else None)"

section \<open>Integer literals\<close>

text \<open>
  \<open>std.fmt.parseInt\<close>: the magnitude is accumulated in \<open>uint64_t\<close> and checked against
  the bound of the sign before every step.
\<close>

fun parse_mag :: "u64 \<Rightarrow> string \<Rightarrow> u64 \<Rightarrow> u64 option" where
  "parse_mag max_mag [] acc = Some acc"
| "parse_mag max_mag (c # t) acc =
     (if c < CHR ''0'' \<or> c > CHR ''9'' then None
      else let d = of_nat (of_char c - of_char (CHR ''0'')) in
           if acc > (max_mag - d) div 10 then None
           else parse_mag max_mag t (acc * 10 + d))"

definition c0_parse_i64 :: "string \<Rightarrow> i64 option" where
  "c0_parse_i64 t =
     (if t = [] then None
      else let neg = (hd t = CHR ''-'');
               ds = (if hd t = CHR ''-'' \<or> hd t = CHR ''+'' then tl t else t);
               max_mag = (if neg then 9223372036854775807 + 1 else 9223372036854775807) in
           case parse_mag max_mag ds 0 of
             None \<Rightarrow> None
           | Some acc \<Rightarrow> if ds = [] then None else Some (if neg then 0 - acc else acc))"

fun parse_u16_from :: "string \<Rightarrow> u32 \<Rightarrow> u32 option" where
  "parse_u16_from [] acc = Some acc"
| "parse_u16_from (c # t) acc =
     (if c < CHR ''0'' \<or> c > CHR ''9'' then None
      else let acc' = acc * 10 + of_nat (of_char c - of_char (CHR ''0'')) in
           if acc' > 65535 then None else parse_u16_from t acc')"

definition c0_parse_u16 :: "string \<Rightarrow> u16 option" where
  "c0_parse_u16 t = (if t = [] then None else map_option ucast (parse_u16_from t 0))"

section \<open>Literals are parsed exactly\<close>

lemma digit_of_char: "is_digit c \<Longrightarrow> \<exists>d < 10. of_char c = 48 + (d :: nat)"
  by (rule exI [of _ "of_char c - 48"]) (auto simp: is_digit_def less_eq_char_def)

lemma is_digit_bounds: "(c < CHR ''0'' \<or> c > CHR ''9'') \<longleftrightarrow> \<not> is_digit c"
  by (auto simp: is_digit_def)

lemma dec_fold_ge: "(acc :: nat) \<le> foldl dec_step acc ds"
proof (induction ds arbitrary: acc)
  case (Cons c ds)
  have "acc \<le> dec_step acc c" by (simp add: dec_step_def)
  also have "\<dots> \<le> foldl dec_step (dec_step acc c) ds" by (rule Cons)
  finally show ?case by simp
qed simp

lemma mag_step:
  fixes acc M :: u64
  assumes "is_digit c" "unat acc \<le> unat M" "9 \<le> unat M" "unat M < 2 ^ 64 div 2 + 1"
  shows "acc > (M - of_nat (of_char c - of_char (CHR ''0''))) div 10 \<longleftrightarrow> unat M < dec_step (unat acc) c"
    "dec_step (unat acc) c \<le> unat M \<Longrightarrow> unat (acc * 10 + of_nat (of_char c - of_char (CHR ''0''))) = dec_step (unat acc) c"
proof -
  from digit_of_char [OF assms(1)] obtain d where d: "d < 10" "of_char c = 48 + (d :: nat)" by blast
  have s: "dec_step (unat acc) c = unat acc * 10 + d" by (simp add: dec_step_def d(2))
  have w: "of_nat (of_char c - of_char (CHR ''0'')) = (of_nat d :: u64)" by (simp add: d(2))
  have u: "unat (of_nat d :: u64) = d" using d(1) by (simp add: unsigned_of_nat take_bit_nat_eq_self)
  have "(of_nat d :: u64) \<le> M" using assms(3) d(1) u by (simp add: word_le_nat_alt)
  then have "unat (M - of_nat d) = unat M - d" by (simp add: unat_sub u)
  then have "unat ((M - of_nat d) div 10) = (unat M - d) div 10" by (simp add: unat_div)
  then show "acc > (M - of_nat (of_char c - of_char (CHR ''0''))) div 10 \<longleftrightarrow> unat M < dec_step (unat acc) c"
    unfolding w s word_less_nat_alt using assms(3) d(1) by linarith
  assume "dec_step (unat acc) c \<le> unat M"
  then have "unat acc * 10 + d < 2 ^ 64" using assms(4) s by simp
  then show "unat (acc * 10 + of_nat (of_char c - of_char (CHR ''0''))) = dec_step (unat acc) c"
    unfolding w s by (simp add: unat_word_ariths u)
qed

lemma parse_mag_exact:
  "unat acc \<le> unat M \<Longrightarrow> 9 \<le> unat M \<Longrightarrow> unat M < 2 ^ 64 div 2 + 1 \<Longrightarrow>
   parse_mag M ds acc = (if list_all is_digit ds \<and> foldl dec_step (unat acc) ds \<le> unat M
                         then Some (of_nat (foldl dec_step (unat acc) ds)) else None)"
proof (induction ds arbitrary: acc)
  case (Cons c ds)
  show ?case
  proof (cases "is_digit c")
    case True
    note st = mag_step [OF True Cons.prems]
    show ?thesis
    proof (cases "unat M < dec_step (unat acc) c")
      case True
      then have "unat M < foldl dec_step (dec_step (unat acc) c) ds" using dec_fold_ge less_le_trans by blast
      with True st(1) show ?thesis by (simp add: Let_def del: of_char_of)
    next
      case False
      with Cons.IH [of "acc * 10 + of_nat (of_char c - of_char (CHR ''0''))"] Cons.prems(2,3) st True
      show ?thesis by (simp add: Let_def is_digit_bounds [simplified] not_less)
    qed
  qed (simp add: is_digit_bounds)
qed (simp add: of_nat_unat)

text \<open>The sign and the digits of a literal, and the bound of its magnitude.\<close>

definition lit_neg :: "string \<Rightarrow> bool" where
  "lit_neg t = (t \<noteq> [] \<and> hd t = CHR ''-'')"

definition lit_digits :: "string \<Rightarrow> string" where
  "lit_digits t = (if t \<noteq> [] \<and> (hd t = CHR ''-'' \<or> hd t = CHR ''+'') then tl t else t)"

lemma u16_from_exact:
  "unat acc \<le> 65535 \<Longrightarrow>
   parse_u16_from ds acc = (if list_all is_digit ds \<and> foldl dec_step (unat acc) ds \<le> 65535
                            then Some (of_nat (foldl dec_step (unat acc) ds)) else None)"
proof (induction ds arbitrary: acc)
  case (Cons c ds)
  show ?case
  proof (cases "is_digit c")
    case True
    from digit_of_char [OF True] obtain d where d: "d < 10" "of_char c = 48 + (d :: nat)" by blast
    have s: "dec_step (unat acc) c = unat acc * 10 + d" by (simp add: dec_step_def d(2))
    have u: "unat (acc * 10 + of_nat d) = unat acc * 10 + d"
      using Cons.prems d(1) by (simp add: unat_word_ariths unsigned_of_nat take_bit_nat_eq_self)
    have w: "of_nat (of_char c - of_char (CHR ''0'')) = (of_nat d :: u32)" by (simp add: d(2))
    show ?thesis
    proof (cases "unat acc * 10 + d \<le> 65535")
      case True2: True
      with Cons.IH [of "acc * 10 + of_nat d"] True u show ?thesis
        by (simp add: Let_def is_digit_bounds [simplified] w [simplified] s word_less_nat_alt not_less)
    next
      case False
      then have "65535 < foldl dec_step (dec_step (unat acc) c) ds"
        using dec_fold_ge [of "dec_step (unat acc) c" ds] s by linarith
      with False True u show ?thesis
        by (simp add: Let_def is_digit_bounds [simplified] w [simplified] word_less_nat_alt)
    qed
  qed (simp add: is_digit_bounds)
qed (simp add: of_nat_unat)

lemma parse_u16_exact:
  "c0_parse_u16 t = (if t \<noteq> [] \<and> list_all is_digit t \<and> foldl dec_step (0 :: nat) t \<le> 65535
     then Some (of_nat (foldl dec_step 0 t)) else None)"
proof -
  have "ucast (of_nat k :: u32) = (of_nat k :: u16)" if "k \<le> 65535" for k
    using that by (simp add: word_unat_eq_iff unsigned_ucast_eq unsigned_of_nat take_bit_nat_eq_self)
  then show ?thesis by (auto simp: c0_parse_u16_def u16_from_exact)
qed

section \<open>The tokens cover the text\<close>

text \<open>\<open>blank s\<close>: white space and comments only. A comment ends before a newline or at the end.\<close>

inductive blank :: "string \<Rightarrow> bool" where
  blank_nil: "blank []"
| blank_space: "c0_is_space c \<Longrightarrow> blank s \<Longrightarrow> blank (c # s)"
| blank_comment: "NEWLINE \<notin> set s \<Longrightarrow> t = [] \<or> hd t = NEWLINE \<Longrightarrow> blank t \<Longrightarrow>
    blank (CHR ''/'' # CHR ''/'' # s @ t)"

text \<open>
  \<open>lexes src toks\<close>: the texts of the tokens, with blanks before each and at the end, are the
  source, and exactly the last token is the end marker.
\<close>

inductive lexes :: "string \<Rightarrow> C0Tok list \<Rightarrow> bool" where
  lexes_eof: "blank g \<Longrightarrow> lexes g [\<lparr>tk_kind = C0_TK_EOF, tk_text = []\<rparr>]"
| lexes_tok: "blank g \<Longrightarrow> tk_kind t \<noteq> C0_TK_EOF \<Longrightarrow> tk_text t \<noteq> [] \<Longrightarrow> lexes s ts \<Longrightarrow>
    lexes (g @ tk_text t @ s) (t # ts)"

inductive_simps lexes_nil [simp]: "lexes s []"

lemma blank_lexes:
  assumes "lexes s ts"
  shows "c0_is_space c \<Longrightarrow> lexes (c # s) ts"
    and "NEWLINE \<notin> set u \<Longrightarrow> s = [] \<or> hd s = NEWLINE \<Longrightarrow> lexes (CHR ''/'' # CHR ''/'' # u @ s) ts"
  using assms
proof (induction rule: lexes.induct)
  case (lexes_eof g)
  {
    case 1
    then show ?case using lexes_eof by (intro lexes.lexes_eof blank_space)
  next
    case 2
    then show ?case using lexes_eof by (intro lexes.lexes_eof blank_comment)
  }
next
  case (lexes_tok g t s ts)
  {
    case 1
    then show ?case using lexes.lexes_tok [OF blank_space [OF 1 lexes_tok.hyps(1)] lexes_tok.hyps(2,3,4)] by simp
  next
    case 2
    show ?case
    proof (cases "g = []")
      case True
      then show ?thesis
        using 2 lexes_tok.hyps(2,3,4) lexes.lexes_tok [OF blank_comment [OF 2(1), of "[]"], of t s ts] blank_nil by simp
    next
      case False
      then have "g = [] \<or> hd g = NEWLINE" using 2(2) by auto
      from lexes.lexes_tok [OF blank_comment [OF 2(1) this lexes_tok.hyps(1)] lexes_tok.hyps(2,3,4)]
      show ?thesis by simp
    qed
  }
qed

lemma tokens_of_lexes: "lexes s (tokens_of s)"
proof (induction s rule: tokens_of.induct)
  case 1
  then show ?case by (simp add: lexes_eof blank_nil)
next
  case (2 c s)
  consider (space) "c0_is_space c" | (comment) "\<not> c0_is_space c" "c = CHR ''/''" "s \<noteq> []" "hd s = CHR ''/''"
    | (tok) "\<not> c0_is_space c" "\<not> (c = CHR ''/'' \<and> s \<noteq> [] \<and> hd s = CHR ''/'')" by blast
  then show ?case
  proof cases
    case space
    then show ?thesis using 2(1) by (simp add: blank_lexes)
  next
    case comment
    let ?u = "takeWhile (\<lambda>c. c \<noteq> NEWLINE) (tl s)" let ?v = "dropWhile (\<lambda>c. c \<noteq> NEWLINE) (tl s)"
    have s: "s = CHR ''/'' # ?u @ ?v" using comment(3,4) by (cases s) auto
    then have d: "dropWhile (\<lambda>c. c \<noteq> NEWLINE) s = ?v" by (cases s) (auto simp: NEWLINE_def)
    have "lexes ?v (tokens_of ?v)" using 2(2) comment d by simp
    moreover have "?v = [] \<or> hd ?v = NEWLINE" using hd_dropWhile [of "\<lambda>c. c \<noteq> NEWLINE" "tl s"] by blast
    moreover have "NEWLINE \<notin> set ?u" by (auto dest: set_takeWhileD)
    ultimately have "lexes (CHR ''/'' # CHR ''/'' # ?u @ ?v) (tokens_of ?v)" using blank_lexes(2) by blast
    then show ?thesis using comment s d by simp
  next
    case tok
    have "lexes (snd (next_tok c s)) (tokens_of (snd (next_tok c s)))" using 2(3) tok by simp
    from lexes_tok [OF blank_nil next_tok_kind [of c s] next_tok_text this] next_tok_append [of c s]
    have "lexes (c # s) (fst (next_tok c s) # tokens_of (snd (next_tok c s)))" by simp
    then show ?thesis unfolding tokens_of.simps(2) using tok by (simp only: if_False)
  qed
qed

lemma lexes_last: "lexes s ts \<Longrightarrow> ts \<noteq> [] \<and> tk_kind (last ts) = C0_TK_EOF \<and> (\<forall>t \<in> set (butlast ts). tk_kind t \<noteq> C0_TK_EOF)"
  by (induction rule: lexes.induct) auto

section \<open>Properties\<close>

text \<open>
  Integer literals are exact. \<open>c0_parse_i64\<close> accepts a text exactly when it is an
  optional sign followed by at least one digit and nothing else and its value fits
  \<open>int64_t\<close> (so \<open>-9223372036854775808\<close> but not \<open>9223372036854775808\<close>), and then returns
  that value, for literals of any length.
\<close>
theorem c0_parse_i64_exact:
  "c0_parse_i64 t =
    (let v = foldl dec_step 0 (lit_digits t) in
     if lit_digits t \<noteq> [] \<and> list_all is_digit (lit_digits t) \<and> v \<le> (if lit_neg t then 2 ^ 63 else 2 ^ 63 - 1)
     then Some (if lit_neg t then - of_nat v else of_nat v) else None)"
proof (cases "t = []")
  case False
  define M :: u64 where "M = (if lit_neg t then 9223372036854775807 + 1 else 9223372036854775807)"
  have M: "unat M = (if lit_neg t then 2 ^ 63 else 2 ^ 63 - 1)" by (simp add: M_def)
  then have "9 \<le> unat M" "unat M < 2 ^ 64 div 2 + 1" by (simp_all split: if_splits)
  from parse_mag_exact [OF _ this, of 0 "lit_digits t"]
  have "parse_mag M (lit_digits t) 0 = (if list_all is_digit (lit_digits t) \<and> foldl dec_step 0 (lit_digits t) \<le> unat M
      then Some (of_nat (foldl dec_step 0 (lit_digits t))) else None)" by simp
  moreover have "c0_parse_i64 t = (case parse_mag M (lit_digits t) 0 of None \<Rightarrow> None
      | Some acc \<Rightarrow> if lit_digits t = [] then None else Some (if lit_neg t then 0 - acc else acc))"
    unfolding c0_parse_i64_def M_def lit_neg_def lit_digits_def Let_def
    by (simp only: False simp_thms if_False not_False_eq_True)
  ultimately show ?thesis unfolding M by (simp add: Let_def)
qed (simp add: c0_parse_i64_def lit_digits_def)

text \<open>
  The tokenizer loses nothing. The token texts, separated by white space and comments
  only, make up the whole source; every token but the last has a text, and the last is the
  only end marker, whatever the source, unterminated strings included.
\<close>
theorem c0_tokenize_covers:
  assumes "c0_tokenize mem src = Some toks"
  shows "lexes src toks \<and> toks \<noteq> [] \<and> tk_kind (last toks) = C0_TK_EOF \<and>
    (\<forall>t \<in> set (butlast toks). tk_kind t \<noteq> C0_TK_EOF)"
  using assms tokens_of_lexes [of src] lexes_last [OF tokens_of_lexes [of src]]
  by (auto simp: c0_tokenize_def split: if_splits)

theorem c0_tokenize_covers_witness:
  "lexes ''a // b'' (tokens_of ''a // b'')"
  using c0_tokenize_covers [of True "''a // b''"] by (simp add: c0_tokenize_def)

text \<open>
  Line numbers drift. When a \<open>!\<close> does not start a declaration, the newlines the scanner
  looked at while finding that out are counted again: a declaration on line 3 is reported on
  line 5.
\<close>
theorem c0_line_counted_twice:
  "map info_line (parse_infos_from [CHR ''!'', NEWLINE, NEWLINE, CHR ''!'', CHR ''f'', CHR ''('', CHR '')'', CHR ''{'', CHR ''}''] 1) = [5]"
  by code_simp

end
