(* ===== verification/C0_Check.thy ===== *)
theory C0_Check
  imports C0_Scan Lin_Stdlib
begin

text \<open>
  The checker of \<open>transpile/c/tool/lin_c0_check.c\<close>: its string buffer, the scanners, the syntax
  check \<open>c0_syntax_valid\<close>, the type check \<open>c0_type_check\<close> with the inference of expression
  types, and the report \<open>c0_check_rulel\<close>. The linter is in the theory \<open>C0_Lint\<close>.

  \<^item> A position in a text is the suffix that starts there, a view (pointer, length) a string;
    a scanner that returns an index returns the suffix at that index.
  \<^item> The buffer is modelled with its capacity and the success of each reallocation. The
    functions that fill one return the text they append, as the buffer gives it when memory is
    available (\<open>c0b_n_appends\<close>).
  \<^item> Names and types of declarations are C strings: they are read up to the first NUL.
\<close>

section \<open>Buffer\<close>

definition SIZE_LIM :: nat where "SIZE_LIM = 2 ^ 64 - 1"

record C0Buf =
  buf_p :: string
  buf_cap :: nat

definition c0b_init :: C0Buf where
  "c0b_init = \<lparr>buf_p = [], buf_cap = 0\<rparr>"

text \<open>The doubling loop from a positive capacity.\<close>

function c0b_grow :: "nat \<Rightarrow> nat \<Rightarrow> nat" where
  "c0b_grow nc need =
     (if nc = 0 \<or> nc \<ge> need then nc
      else if nc > SIZE_LIM div 2 then need
      else c0b_grow (nc * 2) need)"
  by pat_completeness auto
termination c0b_grow
  by (relation "measure (\<lambda>(nc, need). need - nc)") auto

declare c0b_grow.simps [simp del]

definition c0b_reserve :: "(nat \<Rightarrow> bool) \<Rightarrow> C0Buf \<Rightarrow> nat \<Rightarrow> bool \<times> C0Buf" where
  "c0b_reserve mem b extra =
     (let n = length (buf_p b) in
      if extra > SIZE_LIM - n - 1 then (False, b)
      else
        (let need = n + extra + 1 in
         if need \<le> buf_cap b then (True, b)
         else
           (let need1 = (if need < 64 then 64 else need);
                need2 = (if need1 > SIZE_LIM div 2 then n + extra + 1
                         else c0b_grow (if buf_cap b \<noteq> 0 then buf_cap b else 64) need1) in
            if \<not> mem need2 then (False, b) else (True, b\<lparr>buf_cap := need2\<rparr>))))"

definition c0b_n :: "(nat \<Rightarrow> bool) \<Rightarrow> C0Buf \<Rightarrow> string \<Rightarrow> bool \<times> C0Buf" where
  "c0b_n mem b s =
     (let (ok, b1) = c0b_reserve mem b (length s) in
      if ok then (True, b1\<lparr>buf_p := buf_p b1 @ s\<rparr>) else (False, b1))"

section \<open>Scanners\<close>

definition c0c_is_ident_start :: "char \<Rightarrow> bool" where
  "c0c_is_ident_start c = ((CHR ''a'' \<le> c \<and> c \<le> CHR ''z'') \<or> (CHR ''A'' \<le> c \<and> c \<le> CHR ''Z'') \<or>
     c = CHR ''_'' \<or> c = CHR ''$'')"

definition c0c_is_ident :: "char \<Rightarrow> bool" where
  "c0c_is_ident c = (c0c_is_ident_start c \<or> (CHR ''0'' \<le> c \<and> c \<le> CHR ''9''))"

function c0c_skip_ws :: "string \<Rightarrow> string" where
  "c0c_skip_ws [] = []"
| "c0c_skip_ws (c # s) =
     (if c0_is_space c then c0c_skip_ws s
      else if c = CHR ''/'' \<and> s \<noteq> [] \<and> hd s = CHR ''/'' then c0c_skip_ws (dropWhile (\<lambda>c. c \<noteq> NEWLINE) (tl s))
      else c # s)"
  by pat_completeness auto
termination c0c_skip_ws
proof (relation "measure length")
  show "(dropWhile (\<lambda>c. c \<noteq> NEWLINE) (tl s), c # s) \<in> measure length" for c :: char and s
    using length_dropWhile_le [of "\<lambda>c. c \<noteq> NEWLINE" "tl s"] by (cases s) auto
qed auto

definition c0c_read_ident :: "string \<Rightarrow> string" where
  "c0c_read_ident s =
     (case s of [] \<Rightarrow> [] | c # r \<Rightarrow> if c0c_is_ident_start c then c # takeWhile c0c_is_ident r else [])"

text \<open>\<open>strchr(set, c)\<close> also finds the terminator of \<open>set\<close>, so a NUL is trimmed too.\<close>

definition c0c_trim_set :: "string \<Rightarrow> string \<Rightarrow> string" where
  "c0c_trim_set cs s = trim_by (\<lambda>c. c \<in> set cs \<or> c = CHR 0x00) s"

definition c0c_starts_lit :: "string \<Rightarrow> string \<Rightarrow> bool" where
  "c0c_starts_lit s lit = (take (length lit) s = lit)"

text \<open>
  \<open>c0c_match_paren\<close> and \<open>c0c_match_brace\<close> differ in their delimiters only: texts in quotes are
  skipped, the result is the suffix at the delimiter that closes the first open one.
\<close>

definition skip_quoted :: "string \<Rightarrow> string" where
  "skip_quoted s = tl (dropWhile (\<lambda>c. c \<noteq> QUOTE) s)"

lemma length_skip_quoted: "length (skip_quoted s) \<le> length s"
  using length_dropWhile_le [of "\<lambda>c. c \<noteq> QUOTE" s] by (simp add: skip_quoted_def)

function match_delim :: "char \<Rightarrow> char \<Rightarrow> int \<Rightarrow> string \<Rightarrow> string option" where
  "match_delim l r d [] = None"
| "match_delim l r d (c # s) =
     (if c = QUOTE then match_delim l r d (skip_quoted s)
      else if c = l then match_delim l r (d + 1) s
      else if c = r then (if d - 1 = 0 then Some (c # s) else match_delim l r (d - 1) s)
      else match_delim l r d s)"
  by pat_completeness auto
termination match_delim
  by (relation "measure (\<lambda>(_, _, _, s). length s)") (auto simp: less_Suc_eq_le length_skip_quoted)

definition c0c_match_paren :: "string \<Rightarrow> string option" where
  "c0c_match_paren s = match_delim (CHR ''('') (CHR '')'') 0 s"

definition c0c_match_brace :: "string \<Rightarrow> string option" where
  "c0c_match_brace s = match_delim (CHR ''{'') (CHR ''}'') 0 s"

fun c0c_find_paren :: "bool \<Rightarrow> int \<Rightarrow> string \<Rightarrow> string option" where
  "c0c_find_paren inq d [] = None"
| "c0c_find_paren inq d (c # s) =
     (if c = QUOTE then c0c_find_paren (\<not> inq) d s
      else if \<not> inq \<and> c = CHR ''('' then c0c_find_paren inq (d + 1) s
      else if \<not> inq \<and> c = CHR '')'' then (if d - 1 = 0 then Some (c # s) else c0c_find_paren inq (d - 1) s)
      else c0c_find_paren inq d s)"

text \<open>The digits for the powers of ten in turn.\<close>

fun rgs_digits :: "int \<Rightarrow> bool \<Rightarrow> int list \<Rightarrow> string" where
  "rgs_digits x started [] = []"
| "rgs_digits x started (p # ps) =
     (let d = x div p mod 10 in
      if d > 0 \<or> started \<or> p = 1 then digit_char (nat d) # rgs_digits (x mod p) True ps
      else rgs_digits (x mod p) started ps)"

definition c0c_rgs_num :: "int \<Rightarrow> string" where
  "c0c_rgs_num v = (if v \<le> 0 then ''0'' else rgs_digits v False [10000, 1000, 100, 10, 1])"

fun c0c_count_lit :: "string \<Rightarrow> string \<Rightarrow> nat" where
  "c0c_count_lit needle [] = 0"
| "c0c_count_lit needle (c # s) =
     (if c0c_starts_lit (c # s) needle then 1 else 0) + c0c_count_lit needle s"

section \<open>Names, header and exports\<close>

definition c0c_find_brace :: "string \<Rightarrow> string" where
  "c0c_find_brace s = dropWhile (\<lambda>c. c \<noteq> CHR ''{'') s"

text \<open>From a \<open>!\<close> to behind the body of the function, or to the next character.\<close>

definition c0c_each_fn :: "string \<Rightarrow> string" where
  "c0c_each_fn s =
     (let nm = c0c_read_ident (tl s); p = c0c_skip_ws (drop (1 + length nm) s) in
      if nm = [] then tl s
      else if p = [] \<or> hd p \<noteq> CHR ''('' then tl s
      else
        (let close_p = dropWhile (\<lambda>c. c \<noteq> CHR '')'') (tl p); b = c0c_find_brace (tl close_p) in
         if b = [] then tl s
         else case c0c_match_brace b of None \<Rightarrow> tl s | Some r \<Rightarrow> tl r))"

lemma skip_ws_length: "length (c0c_skip_ws s) \<le> length s"
proof (induction s rule: c0c_skip_ws.induct)
  case (2 c s)
  then show ?case
    using length_dropWhile_le [of "\<lambda>c. c \<noteq> NEWLINE" "tl s"] by (auto simp: le_SucI intro: le_trans)
qed simp

lemma match_delim_length: "match_delim l r d s = Some t \<Longrightarrow> length t \<le> length s \<and> t \<noteq> []"
proof (induction l r d s rule: match_delim.induct)
  case (2 l r d c s)
  then show ?case using length_skip_quoted [of s] by (auto split: if_splits)
qed simp

lemma each_fn_shorter: "s \<noteq> [] \<Longrightarrow> length (c0c_each_fn s) < length s"
proof -
  assume s: "s \<noteq> []"
  let ?p = "c0c_skip_ws (drop (1 + length (c0c_read_ident (tl s))) s)"
  let ?b = "c0c_find_brace (tl (dropWhile (\<lambda>c. c \<noteq> CHR '')'') (tl ?p)))"
  have "length ?b \<le> length ?p"
    unfolding c0c_find_brace_def
    by (rule le_trans [OF length_dropWhile_le]) (simp add: le_diff_conv le_SucI le_trans [OF length_dropWhile_le])
  also have "\<dots> \<le> length s" using skip_ws_length [of "drop (1 + length (c0c_read_ident (tl s))) s"] by simp
  finally have "length (tl t) < length s" if "c0c_match_brace ?b = Some t" for t
    using match_delim_length [OF that [unfolded c0c_match_brace_def]] by (cases t) auto
  then show ?thesis using s by (auto simp: c0c_each_fn_def Let_def split: option.split)
qed

function fn_name_list :: "string \<Rightarrow> string list" where
  "fn_name_list src =
     (let s = c0c_skip_ws src in
      if s = [] then []
      else if hd s = CHR ''!'' \<and> (tl s = [] \<or> hd (tl s) \<noteq> CHR ''='') \<and> c0c_read_ident (tl s) \<noteq> [] then
        c0c_read_ident (tl s) # fn_name_list (c0c_each_fn s)
      else fn_name_list (tl s))"
  by pat_completeness auto
termination fn_name_list
proof (relation "measure length", simp)
  fix src s :: string assume s: "s = c0c_skip_ws src" "s \<noteq> []"
  then have "length s \<le> length src" by (simp add: skip_ws_length)
  with s(2) each_fn_shorter [OF s(2)] show "(c0c_each_fn s, src) \<in> measure length" "(tl s, src) \<in> measure length"
    by (cases s, auto)+
qed

declare fn_name_list.simps [simp del]

fun comma_join :: "string list \<Rightarrow> string" where
  "comma_join [] = []"
| "comma_join [x] = x"
| "comma_join (x # xs) = x @ '','' @ comma_join xs"

definition c0c_fn_names :: "string \<Rightarrow> string" where
  "c0c_fn_names src = comma_join (fn_name_list src)"

definition c0c_header :: "string \<Rightarrow> string" where
  "c0c_header src =
     (let s = dropWhile (\<lambda>c. c \<noteq> CHR ''@'') src in
      if s = [] then ''@LIN:L1c:0.2'' else takeWhile (\<lambda>c. c \<noteq> NEWLINE) s)"

fun c0c_exports :: "string \<Rightarrow> string" where
  "c0c_exports [] = []"
| "c0c_exports (c # s) =
     (if take 4 (c # s) = ''=ex{'' then takeWhile (\<lambda>c. c \<noteq> CHR ''}'') (drop 4 (c # s)) else c0c_exports s)"

function csv_idents :: "string \<Rightarrow> string list" where
  "csv_idents [] = []"
| "csv_idents (c # s) =
     (let nm = c0c_read_ident (c # s) in
      if nm \<noteq> [] then nm # csv_idents (drop (length nm) (c # s)) else csv_idents s)"
  by pat_completeness auto
termination csv_idents
  by (relation "measure length") auto

definition c0c_csv_json_arr :: "string \<Rightarrow> string" where
  "c0c_csv_json_arr csv = ''['' @ comma_join (map quoted (csv_idents csv)) @ '']''"

section \<open>Syntax\<close>

fun braces_balance :: "int \<Rightarrow> string \<Rightarrow> bool \<Rightarrow> bool" where
  "braces_balance d [] inq = (d = 0)"
| "braces_balance d (c # s) inq =
     (if inq then braces_balance d s (c \<noteq> QUOTE)
      else if c = QUOTE then braces_balance d s True
      else if c = CHR ''{'' then braces_balance (d + 1) s False
      else if c = CHR ''}'' then (if d - 1 < 0 then False else braces_balance (d - 1) s False)
      else braces_balance d s False)"

definition c0_syntax_valid :: "string \<Rightarrow> bool" where
  "c0_syntax_valid src = (braces_balance 0 src False \<and> c0c_fn_names src \<noteq> [])"

section \<open>Types of expressions\<close>

type_synonym C0Locals = "(string \<times> string) list"

definition c0c_local_get :: "C0Locals \<Rightarrow> string \<Rightarrow> string option" where
  "c0c_local_get locals nm = map_of locals nm"

fun c0c_local_put :: "C0Locals \<Rightarrow> string \<Rightarrow> string \<Rightarrow> C0Locals" where
  "c0c_local_put [] nm ty = [(nm, ty)]"
| "c0c_local_put ((x, t) # ls) nm ty = (if x = nm then (x, ty) # ls else (x, t) # c0c_local_put ls nm ty)"

definition c0c_is_valid_ident :: "string \<Rightarrow> bool" where
  "c0c_is_valid_ident s = (s \<noteq> [] \<and> c0c_is_ident_start (hd s) \<and> list_all c0c_is_ident (tl s))"

definition c0c_is_integer_literal :: "string \<Rightarrow> bool" where
  "c0c_is_integer_literal s =
     (s \<noteq> [] \<and> (if hd s = CHR ''-'' then tl s \<noteq> [] \<and> list_all is_digit (tl s) else list_all is_digit s))"

text \<open>One character of the scanners that look at depth 0 outside quotes: quote, parentheses, braces.\<close>

type_synonym depths = "bool \<times> int \<times> int"

fun top_step :: "char \<Rightarrow> depths \<Rightarrow> depths" where
  "top_step c (inq, pd, bd) =
     (if c = QUOTE then (\<not> inq, pd, bd)
      else if inq then (inq, pd, bd)
      else if c = CHR ''('' then (inq, pd + 1, bd)
      else if c = CHR '')'' then (inq, pd - 1, bd)
      else if c = CHR ''{'' then (inq, pd, bd + 1)
      else if c = CHR ''}'' then (inq, pd, bd - 1)
      else (inq, pd, bd))"

definition delim_char :: "char \<Rightarrow> bool" where
  "delim_char c = (c \<in> {QUOTE, CHR ''('', CHR '')'', CHR ''{'', CHR ''}''})"

abbreviation at_top :: "char \<Rightarrow> depths \<Rightarrow> bool" where
  "at_top c st \<equiv> \<not> delim_char c \<and> st = (False, 0, 0)"

fun top_op_from :: "depths \<Rightarrow> string \<Rightarrow> string \<Rightarrow> bool" where
  "top_op_from st opr [] = False"
| "top_op_from st opr (c # s) =
     (at_top c st \<and> c0c_starts_lit (c # s) opr \<or> top_op_from (top_step c st) opr s)"

definition c0c_has_top_op :: "string \<Rightarrow> string \<Rightarrow> bool" where
  "c0c_has_top_op s opr = top_op_from (False, 0, 0) opr s"

fun split_top_from :: "depths \<Rightarrow> char \<Rightarrow> string \<Rightarrow> string \<Rightarrow> (string \<times> string) option" where
  "split_top_from st ch l [] = None"
| "split_top_from st ch l (c # s) =
     (if at_top c st \<and> c = ch then Some (l, s) else split_top_from (top_step c st) ch (l @ [c]) s)"

definition c0c_split_top_op :: "string \<Rightarrow> char \<Rightarrow> (string \<times> string) option" where
  "c0c_split_top_op s ch = split_top_from (False, 0, 0) ch [] s"

lemma split_top_from_parts: "split_top_from st ch l s = Some (a, b) \<Longrightarrow> l @ s = a @ ch # b"
  by (induction st ch l s rule: split_top_from.induct) (auto split: if_splits)

lemma split_top_length: "c0c_split_top_op s ch = Some (a, b) \<Longrightarrow> length a < length s \<and> length b < length s"
  unfolding c0c_split_top_op_def by (drule split_top_from_parts) simp

lemma length_trim_by: "length (trim_by P s) \<le> length s"
  unfolding trim_by_def by (metis le_trans length_dropWhile_le length_rev)

lemma length_trim_set: "length (c0c_trim_set cs s) \<le> length s"
  unfolding c0c_trim_set_def by (rule length_trim_by)

lemma split_trimmed_length:
  "c0c_split_top_op (c0c_trim_set cs s) ch = Some (a, b) \<Longrightarrow> length a < length s \<and> length b < length s"
  using split_top_length [of "c0c_trim_set cs s" ch a b] length_trim_set [of cs s] by simp

lemma inner_trimmed_length: "2 \<le> length (c0c_trim_set cs s) \<Longrightarrow> length (c0c_trim_set cs s) - Suc (Suc 0) < length s"
  using length_trim_set [of cs s] by simp

definition INFER_BLANKS :: string where "INFER_BLANKS = [CHR '' '', CHR 0x09, CHR 0x0D, CHR 0x0A, CHR '';'']"
definition LINE_BLANKS :: string where "LINE_BLANKS = [CHR '' '', CHR 0x09]"
definition ARG_BLANKS :: string where "ARG_BLANKS = [CHR '' '', CHR 0x09, CHR 0x0D, CHR 0x0A]"

text \<open>The declared return type of a call \<open>name(...)\<close> to a known function.\<close>

definition call_type :: "C0FnInfo list \<Rightarrow> string \<Rightarrow> string option" where
  "call_type fns t =
     (case strchr_split (CHR ''('') t of
        None \<Rightarrow> None
      | Some (cn, _) \<Rightarrow>
          if last t \<noteq> CHR '')'' then None
          else map_option (\<lambda>f. cstr (return_type f))
            (find (\<lambda>f. cstr (info_name f) = c0c_trim_set LINE_BLANKS cn) fns))"

function c0c_infer :: "C0Locals \<Rightarrow> C0FnInfo list \<Rightarrow> string \<Rightarrow> string" where
  "c0c_infer locals fns e =
     (let t = c0c_trim_set INFER_BLANKS e in
      if t = [] then ''any''
      else if length t \<ge> 2 \<and> hd t = QUOTE \<and> last t = QUOTE then ''string''
      else if t = ''true'' \<or> t = ''false'' then ''bool''
      else if c0c_is_valid_ident t then (case c0c_local_get locals t of None \<Rightarrow> ''any'' | Some ty \<Rightarrow> ty)
      else if c0c_is_integer_literal t then ''int''
      else case call_type fns t of
          Some ty \<Rightarrow> ty
        | None \<Rightarrow>
          if list_ex (c0c_has_top_op t) [''=='', ''!='', ''<='', ''>='', ''<'', ''>''] then ''bool''
          else if list_ex (c0c_has_top_op t) [''&&'', ''||'', '' and '', '' or ''] then ''bool''
          else if c0c_has_top_op t ''+'' then
            (case c0c_split_top_op t (CHR ''+'') of
               None \<Rightarrow> ''int''
             | Some (l, r) \<Rightarrow>
                 (let tl = c0c_infer locals fns l; tr = c0c_infer locals fns r in
                  if tl = ''string'' \<or> tr = ''string'' then ''string'' else ''int''))
          else if list_ex (c0c_has_top_op t) [''-'', ''*'', ''/'', ''%''] then ''int''
          else if length t \<ge> 2 \<and> hd t = CHR ''('' \<and> last t = CHR '')'' then
            c0c_infer locals fns (butlast (tl t))
          else ''any'')"
  by pat_completeness auto
termination c0c_infer
  by (relation "measure (\<lambda>(_, _, e). length e)")
     (auto dest!: split_trimmed_length simp: inner_trimmed_length)

declare c0c_infer.simps [simp del]

section \<open>Statements\<close>

text \<open>
  The pieces of a text between the separators at depth 0, as both \<open>c0c_split_args\<close> and the
  statement loop of \<open>c0_type_check\<close> find them; the last piece ends the text.
\<close>

fun split_pieces :: "depths \<Rightarrow> char \<Rightarrow> string \<Rightarrow> string \<Rightarrow> string list" where
  "split_pieces st sep cur [] = [cur]"
| "split_pieces st sep cur (c # s) =
     (if at_top c st \<and> c = sep then cur # split_pieces st sep [] s
      else split_pieces (top_step c st) sep (cur @ [c]) s)"

definition c0c_split_args :: "string \<Rightarrow> string list" where
  "c0c_split_args raw = filter (\<lambda>a. a \<noteq> []) (map (c0c_trim_set ARG_BLANKS) (split_pieces (False, 0, 0) (CHR '','') [] raw))"

definition body_stmts :: "string \<Rightarrow> string list" where
  "body_stmts body = filter (\<lambda>a. a \<noteq> []) (map (c0c_trim_set INFER_BLANKS) (split_pieces (False, 0, 0) (CHR '';'') [] body))"

text \<open>An assignment: the first \<open>=\<close>, unless it belongs to a comparison.\<close>

definition stmt_assign :: "C0FnInfo list \<Rightarrow> string \<Rightarrow> C0Locals \<Rightarrow> C0Locals" where
  "stmt_assign fns stmt locals =
     (case strchr_split (CHR ''='') stmt of
        None \<Rightarrow> locals
      | Some (l, r) \<Rightarrow>
          if l \<noteq> [] \<and> last l \<notin> {CHR ''='', CHR ''!'', CHR ''<'', CHR ''>''} \<and> (r = [] \<or> hd r \<noteq> CHR ''='') then
            (let lhs = c0c_trim_set LINE_BLANKS l in
             if c0c_is_valid_ident lhs
             then c0c_local_put locals lhs (c0c_infer locals fns (c0c_trim_set LINE_BLANKS r)) else locals)
          else locals)"

definition stmt_return :: "string \<Rightarrow> string option" where
  "stmt_return stmt =
     (if stmt \<noteq> [] \<and> hd stmt = CHR ''^'' then Some (c0c_trim_set LINE_BLANKS (tl stmt))
      else if take 7 stmt = ''return '' then Some (c0c_trim_set LINE_BLANKS (drop 7 stmt))
      else None)"

definition return_bad :: "string \<Rightarrow> string \<Rightarrow> bool" where
  "return_bad ex act =
     (ex = ''int'' \<and> (act = ''string'' \<or> act = ''bool'') \<or>
      ex = ''string'' \<and> (act = ''int'' \<or> act = ''bool'') \<or>
      ex = ''bool'' \<and> (act = ''string'' \<or> act = ''int''))"

definition tick :: "string \<Rightarrow> string" where
  "tick s = CHR 0x27 # s @ [CHR 0x27]"

definition return_error :: "C0FnInfo list \<Rightarrow> C0FnInfo \<Rightarrow> C0Locals \<Rightarrow> string \<Rightarrow> string option" where
  "return_error fns F locals stmt =
     (case stmt_return stmt of
        None \<Rightarrow> None
      | Some rx \<Rightarrow>
          (let act = c0c_infer locals fns rx; ex = cstr (return_type F) in
           if ex \<noteq> ''any'' \<and> act \<noteq> ''any'' \<and> return_bad ex act
           then Some (''LIN_TYPE_ERROR: function '' @ tick (cstr (info_name F)) @
             '' return type mismatch: expected '' @ ex @ '', got '' @ act)
           else None))"

text \<open>The occurrences of a name, each with the character before it and the text behind it.\<close>

function call_sites :: "string \<Rightarrow> char option \<Rightarrow> string \<Rightarrow> (char option \<times> string) list" where
  "call_sites nm prev s =
     (if nm = [] \<or> s = [] then []
      else if take (length nm) s = nm then
        (prev, drop (length nm) s) # call_sites nm (Some (last nm)) (drop (length nm) s)
      else call_sites nm (Some (hd s)) (tl s))"
  by pat_completeness auto
termination call_sites
  by (relation "measure (\<lambda>(_, _, s). length s)") auto

declare call_sites.simps [simp del]

text \<open>The first argument whose type differs from that of its parameter.\<close>

fun arg_error :: "C0FnInfo list \<Rightarrow> C0FnInfo \<Rightarrow> C0Locals \<Rightarrow> C0Param list \<Rightarrow> string list \<Rightarrow> string option" where
  "arg_error fns C locals (p # ps) (a # as) =
     (let ex = cstr (type_name p); act = c0c_infer locals fns a in
      if ex \<noteq> ''any'' \<and> act \<noteq> ''any'' \<and> ex \<noteq> act
      then Some (''LIN_TYPE_ERROR: function '' @ tick (cstr (info_name C)) @ '' argument '' @ tick (cstr (param_name p)) @
        '' expected type '' @ ex @ '', got '' @ act)
      else arg_error fns C locals ps as)"
| "arg_error fns C locals _ _ = None"

definition site_error :: "C0FnInfo list \<Rightarrow> C0FnInfo \<Rightarrow> C0Locals \<Rightarrow> char option \<times> string \<Rightarrow> string option" where
  "site_error fns C locals site =
     (let (prev, after) = site in
      if (case prev of None \<Rightarrow> False | Some c \<Rightarrow> c0c_is_ident c) then None
      else if after = [] \<or> hd after \<noteq> CHR ''('' then None
      else case c0c_find_paren False 0 after of
          None \<Rightarrow> None
        | Some close_p \<Rightarrow>
            arg_error fns C locals (info_params C)
              (c0c_split_args (take (length after - 1 - length close_p) (tl after))))"

text \<open>The first error a list of checks finds.\<close>

fun first_error :: "('a \<Rightarrow> string option) \<Rightarrow> 'a list \<Rightarrow> string option" where
  "first_error f [] = None"
| "first_error f (x # xs) = (case f x of Some m \<Rightarrow> Some m | None \<Rightarrow> first_error f xs)"

definition calls_error :: "C0FnInfo list \<Rightarrow> C0Locals \<Rightarrow> string \<Rightarrow> string option" where
  "calls_error fns locals stmt =
     first_error (\<lambda>C. first_error (site_error fns C locals) (call_sites (cstr (info_name C)) None stmt)) fns"

fun stmts_error :: "C0FnInfo list \<Rightarrow> C0FnInfo \<Rightarrow> C0Locals \<Rightarrow> string list \<Rightarrow> string option" where
  "stmts_error fns F locals [] = None"
| "stmts_error fns F locals (stmt # ss) =
     (let locals1 = stmt_assign fns stmt locals in
      case return_error fns F locals1 stmt of
        Some m \<Rightarrow> Some m
      | None \<Rightarrow>
          (case calls_error fns locals1 stmt of Some m \<Rightarrow> Some m | None \<Rightarrow> stmts_error fns F locals1 ss))"

definition param_locals :: "C0FnInfo \<Rightarrow> C0Locals" where
  "param_locals F = foldl (\<lambda>ls p. c0c_local_put ls (cstr (param_name p)) (cstr (type_name p))) [] (info_params F)"

definition c0_type_check :: "C0FnInfo list \<Rightarrow> string option" where
  "c0_type_check fns = first_error (\<lambda>F. stmts_error fns F (param_locals F) (body_stmts (info_body F))) fns"

section \<open>The report\<close>

definition fn_types_line :: "C0FnInfo \<Rightarrow> string" where
  "fn_types_line f =
     ''  .'' @ cstr (info_name f) @ ''{ params=['' @
     comma_join (map (\<lambda>p. quoted (cstr (param_name p) @ '':'' @ cstr (type_name p))) (info_params f)) @
     ''] return='' @ quoted (cstr (return_type f)) @ '' }'' @ [NEWLINE]"

definition c0_check_rulel :: "string \<Rightarrow> C0FnInfo list \<Rightarrow> string" where
  "c0_check_rulel src fns =
     ''@RULEL:LIN_CHECK:1.0.0'' @ [NEWLINE] @ ''.header='' @ quoted (c0c_header src) @
     [NEWLINE] @ ''.fns='' @ c0c_csv_json_arr (c0c_fn_names src) @
     [NEWLINE] @ ''.exports='' @ c0c_csv_json_arr (c0c_exports src) @
     [NEWLINE] @ ''.types{'' @ [NEWLINE] @ concat (map fn_types_line fns) @
     ''}'' @ [NEWLINE] @ ''.typecheck=passed'' @ [NEWLINE]"

section \<open>The buffer\<close>

definition buf_ok :: "C0Buf \<Rightarrow> bool" where
  "buf_ok b = (buf_p b = [] \<and> buf_cap b = 0 \<or> length (buf_p b) < buf_cap b \<and> buf_cap b \<le> SIZE_LIM)"

lemma c0b_grow_bounds:
  "0 < nc \<Longrightarrow> nc \<le> SIZE_LIM \<Longrightarrow> need \<le> SIZE_LIM \<Longrightarrow> need \<le> c0b_grow nc need \<and> c0b_grow nc need \<le> SIZE_LIM"
proof (induction nc need rule: c0b_grow.induct)
  case (1 nc need)
  show ?case
  proof (cases "nc \<ge> need \<or> nc > SIZE_LIM div 2")
    case True
    with "1.prems" show ?thesis by (subst (1 2) c0b_grow.simps) auto
  next
    case False
    then have "nc * 2 \<le> SIZE_LIM" by linarith
    with False 1 show ?thesis by (subst (1 2) c0b_grow.simps) auto
  qed
qed

lemma c0b_reserve_ok:
  assumes "buf_ok b" "c0b_reserve mem b extra = (True, b')"
  shows "buf_p b' = buf_p b \<and> length (buf_p b) + extra < buf_cap b' \<and> buf_cap b' \<le> SIZE_LIM"
proof -
  let ?n = "length (buf_p b)"
  let ?need = "?n + extra + 1"
  have n: "?n < SIZE_LIM" using assms(1) by (auto simp: buf_ok_def SIZE_LIM_def)
  have fit: "?need \<le> SIZE_LIM" using assms(2) n by (auto simp: c0b_reserve_def Let_def split: if_splits)
  have g: "need1 \<le> c0b_grow (if buf_cap b \<noteq> 0 then buf_cap b else 64) need1 \<and>
      c0b_grow (if buf_cap b \<noteq> 0 then buf_cap b else 64) need1 \<le> SIZE_LIM" if "need1 \<le> SIZE_LIM" for need1
    using that assms(1) by (intro c0b_grow_bounds) (auto simp: buf_ok_def SIZE_LIM_def)
  have "64 \<le> SIZE_LIM" by (simp add: SIZE_LIM_def)
  with g [of "if ?need < 64 then 64 else ?need"] fit assms show ?thesis
    by (auto simp: c0b_reserve_def Let_def buf_ok_def split: if_splits)
qed

text \<open>
  What the callers rely on: a successful append appends exactly the text and leaves room for the
  terminator, a failed one changes nothing, and the buffer stays well-formed.
\<close>

lemma c0b_n_appends:
  assumes "buf_ok b" "c0b_n mem b s = (ok, b')"
  shows "buf_ok b' \<and> buf_p b' = (if ok then buf_p b @ s else buf_p b)"
proof (cases "fst (c0b_reserve mem b (length s))")
  case True
  obtain b1 where r: "c0b_reserve mem b (length s) = (True, b1)" using True by (cases "c0b_reserve mem b (length s)") auto
  from c0b_reserve_ok [OF assms(1) r] r assms(2) show ?thesis by (auto simp: c0b_n_def buf_ok_def)
next
  case False
  then have "c0b_reserve mem b (length s) = (False, b)" by (auto simp: c0b_reserve_def Let_def split: if_splits)
  with assms show ?thesis by (auto simp: c0b_n_def)
qed

section \<open>Braces\<close>

text \<open>The braces of a text outside quotes, an opening one as \<open>True\<close>, and their grammar.\<close>

fun braces :: "bool \<Rightarrow> string \<Rightarrow> bool list" where
  "braces inq [] = []"
| "braces inq (c # s) =
     (if c = QUOTE then braces (\<not> inq) s
      else if \<not> inq \<and> c = CHR ''{'' then True # braces inq s
      else if \<not> inq \<and> c = CHR ''}'' then False # braces inq s
      else braces inq s)"

inductive nested :: "bool list \<Rightarrow> bool" where
  nested_empty: "nested []"
| nested_pair: "nested u \<Longrightarrow> nested v \<Longrightarrow> nested (True # u @ False # v)"

fun counts :: "int \<Rightarrow> bool list \<Rightarrow> bool" where
  "counts d [] = (d = 0)"
| "counts d (True # bs) = counts (d + 1) bs"
| "counts d (False # bs) = (0 < d \<and> counts (d - 1) bs)"

lemma balance_counts: "0 \<le> d \<Longrightarrow> braces_balance d s inq = counts d (braces inq s)"
  by (induction d s inq rule: braces_balance.induct) (auto simp: QUOTE_def)

lemma nested_append: "nested u \<Longrightarrow> nested v \<Longrightarrow> nested (u @ v)"
proof (induction rule: nested.induct)
  case (nested_pair u w)
  then show ?case using nested.nested_pair [of u "w @ v"] by simp
qed simp

lemma counts_nested: "nested u \<Longrightarrow> 0 \<le> d \<Longrightarrow> counts d (u @ v) = counts d v"
  by (induction arbitrary: d v rule: nested.induct) auto

text \<open>A text that closes \<open>d\<close> open braces, piece by piece.\<close>

fun closes :: "nat \<Rightarrow> bool list \<Rightarrow> bool" where
  "closes 0 w = nested w"
| "closes (Suc d) w = (\<exists>u v. w = u @ False # v \<and> nested u \<and> closes d v)"

lemma closes_append: "nested u \<Longrightarrow> closes d w \<Longrightarrow> closes d (u @ w)"
proof (cases d)
  case (Suc d')
  assume "nested u" "closes d w"
  then obtain x v where "w = x @ False # v" "nested x" "closes d' v" using Suc by auto
  then have "u @ w = (u @ x) @ False # v \<and> nested (u @ x) \<and> closes d' v" using \<open>nested u\<close> by (simp add: nested_append)
  then show ?thesis unfolding Suc closes.simps by blast
qed (simp add: nested_append)

lemma counts_closes: "counts (int d) w \<Longrightarrow> closes d w"
proof (induction w arbitrary: d)
  case Nil
  then show ?case by (simp add: nested_empty)
next
  case (Cons b w)
  show ?case
  proof (cases b)
    case True
    with Cons.prems have "counts (int (Suc d)) w" by (simp add: add.commute)
    from Cons.IH [OF this] obtain u v where w: "w = u @ False # v" "nested u" "closes d v" by auto
    have "nested (True # u @ [False])" using nested_pair [OF w(2) nested_empty] by simp
    from closes_append [OF this w(3)] show ?thesis by (simp add: True w(1))
  next
    case False
    with Cons.prems have "0 < int d" "counts (int d - 1) w" by simp_all
    then obtain d' where d: "d = Suc d'" "counts (int d') w" by (cases d) auto
    have "b # w = [] @ False # w" by (simp add: False)
    with Cons.IH [OF d(2)] nested_empty show ?thesis unfolding d(1) closes.simps by blast
  qed
qed

lemma counts_iff_nested: "counts 0 w \<longleftrightarrow> nested w"
  using counts_closes [of 0 w] counts_nested [of w 0 "[]"] by auto

lemma comma_join_Nil: "[] \<notin> set xs \<Longrightarrow> comma_join xs = [] \<longleftrightarrow> xs = []"
  by (induction xs rule: comma_join.induct) auto

lemma fn_names_nonempty: "[] \<notin> set (fn_name_list src)"
proof (induction src rule: fn_name_list.induct)
  case (1 src)
  then show ?case by (subst fn_name_list.simps) (auto simp: Let_def)
qed

section \<open>Type errors\<close>

definition return_message :: "C0FnInfo \<Rightarrow> string \<Rightarrow> string" where
  "return_message F act = ''LIN_TYPE_ERROR: function '' @ tick (cstr (info_name F)) @
     '' return type mismatch: expected '' @ cstr (return_type F) @ '', got '' @ act"

definition arg_message :: "C0FnInfo \<Rightarrow> C0Param \<Rightarrow> string \<Rightarrow> string" where
  "arg_message C p act = ''LIN_TYPE_ERROR: function '' @ tick (cstr (info_name C)) @ '' argument '' @ tick (cstr (param_name p)) @
     '' expected type '' @ cstr (type_name p) @ '', got '' @ act"

definition type_mismatch :: "C0FnInfo \<Rightarrow> string \<Rightarrow> bool" where
  "type_mismatch F m =
     ((\<exists>act. return_bad (cstr (return_type F)) act \<and> m = return_message F act) \<or>
      (\<exists>p \<in> set (info_params F). \<exists>act. act \<noteq> ''any'' \<and> cstr (type_name p) \<noteq> ''any'' \<and> cstr (type_name p) \<noteq> act \<and>
         m = arg_message F p act))"

lemma first_error_Some: "first_error f xs = Some m \<Longrightarrow> \<exists>x \<in> set xs. f x = Some m"
  by (induction xs) (auto split: option.splits)

lemma arg_error_mismatch:
  "arg_error fns C locals ps as = Some m \<Longrightarrow> set ps \<subseteq> set (info_params C) \<Longrightarrow> type_mismatch C m"
proof (induction fns C locals ps as rule: arg_error.induct)
  case (1 fns C locals p ps a as)
  let ?act = "c0c_infer locals fns a"
  show ?case
  proof (cases "cstr (type_name p) \<noteq> ''any'' \<and> ?act \<noteq> ''any'' \<and> cstr (type_name p) \<noteq> ?act")
    case True
    with "1.prems" have "m = arg_message C p ?act" by (auto simp: Let_def arg_message_def)
    with True "1.prems"(2) show ?thesis unfolding type_mismatch_def by (intro disjI2) auto
  next
    case False
    with "1.prems"(1) have "arg_error fns C locals ps as = Some m" by (auto simp: Let_def split: if_splits)
    with 1 False show ?thesis by auto
  qed
qed simp_all

lemma site_error_mismatch: "site_error fns C locals site = Some m \<Longrightarrow> type_mismatch C m"
  by (auto simp: site_error_def Let_def split: if_splits option.splits prod.splits intro: arg_error_mismatch)

lemma calls_error_mismatch: "calls_error fns locals stmt = Some m \<Longrightarrow> \<exists>C \<in> set fns. type_mismatch C m"
  unfolding calls_error_def by (blast dest: first_error_Some site_error_mismatch)

lemma return_error_mismatch: "return_error fns F locals stmt = Some m \<Longrightarrow> type_mismatch F m"
  by (auto simp: return_error_def type_mismatch_def return_message_def Let_def split: option.splits if_splits)

lemma stmts_error_mismatch: "stmts_error fns F locals ss = Some m \<Longrightarrow> F \<in> set fns \<Longrightarrow> \<exists>C \<in> set fns. type_mismatch C m"
proof (induction fns F locals ss rule: stmts_error.induct)
  case (2 fns F locals stmt ss)
  then show ?case
    by (auto simp: Let_def split: option.splits dest: return_error_mismatch calls_error_mismatch)
qed simp

text \<open>
  What the type check looks for, said without the order of the search: in the scope behind each
  statement its returned expression has a type the declared one allows, and every argument of
  every call site in it has the type of its parameter, where neither is \<open>any\<close>.
\<close>

definition arg_typed :: "C0FnInfo list \<Rightarrow> C0Locals \<Rightarrow> C0Param \<Rightarrow> string \<Rightarrow> bool" where
  "arg_typed fns locals p a = (cstr (type_name p) \<in> {''any'', c0c_infer locals fns a} \<or> c0c_infer locals fns a = ''any'')"

definition site_typed :: "C0FnInfo list \<Rightarrow> C0Locals \<Rightarrow> C0FnInfo \<Rightarrow> char option \<times> string \<Rightarrow> bool" where
  "site_typed fns locals C site =
     (\<forall>prev args close_p. site = (prev, CHR ''('' # args @ close_p) \<and> \<not> (\<exists>c. prev = Some c \<and> c0c_is_ident c) \<and>
        c0c_find_paren False 0 (CHR ''('' # args @ close_p) = Some close_p \<longrightarrow>
        list_all (\<lambda>(p, a). arg_typed fns locals p a) (zip (info_params C) (c0c_split_args args)))"

definition stmt_typed :: "C0FnInfo list \<Rightarrow> C0FnInfo \<Rightarrow> C0Locals \<Rightarrow> string \<Rightarrow> bool" where
  "stmt_typed fns F locals stmt =
     ((\<forall>rx. stmt_return stmt = Some rx \<longrightarrow> \<not> return_bad (cstr (return_type F)) (c0c_infer locals fns rx)) \<and>
      (\<forall>C \<in> set fns. \<forall>site \<in> set (call_sites (cstr (info_name C)) None stmt). site_typed fns locals C site))"

definition scope_at :: "C0FnInfo list \<Rightarrow> C0FnInfo \<Rightarrow> string list \<Rightarrow> C0Locals" where
  "scope_at fns F stmts = fold (stmt_assign fns) stmts (param_locals F)"

definition well_typed :: "C0FnInfo list \<Rightarrow> bool" where
  "well_typed fns =
     (\<forall>F \<in> set fns. \<forall>pre stmt post. body_stmts (info_body F) = pre @ stmt # post \<longrightarrow>
        stmt_typed fns F (scope_at fns F (pre @ [stmt])) stmt)"

lemma first_error_None: "first_error f xs = None \<longleftrightarrow> (\<forall>x \<in> set xs. f x = None)"
  by (induction xs) (auto split: option.splits)

lemma arg_error_None:
  "arg_error fns C locals ps as = None \<longleftrightarrow> list_all (\<lambda>(p, a). arg_typed fns locals p a) (zip ps as)"
  by (induction fns C locals ps as rule: arg_error.induct) (auto simp: arg_typed_def Let_def)

lemma find_paren_suffix: "c0c_find_paren inq d s = Some t \<Longrightarrow> \<exists>l. s = l @ t"
proof (induction inq d s rule: c0c_find_paren.induct)
  case (2 inq d c s)
  show ?case
  proof (cases "t = c # s")
    case False
    with 2 have "\<exists>l. s = l @ t" by (auto split: if_splits)
    then show ?thesis by (auto intro: exI [of _ "c # l" for l])
  qed auto
qed simp

lemma find_paren_open: "c0c_find_paren False 0 (CHR ''('' # s) = Some t \<Longrightarrow> \<exists>args. s = args @ t"
  using find_paren_suffix [of False 1 s t] by (simp add: QUOTE_def)

lemma site_error_None: "site_error fns C locals site = None \<longleftrightarrow> site_typed fns locals C site"
proof (cases site)
  case (Pair prev after)
  show ?thesis
  proof (cases "(\<exists>c. prev = Some c \<and> c0c_is_ident c) \<or> after = [] \<or> hd after \<noteq> CHR ''(''")
    case True
    then show ?thesis by (auto simp: Pair site_error_def site_typed_def split: option.splits)
  next
    case False
    then obtain s where a: "after = CHR ''('' # s" by (cases after) auto
    show ?thesis
    proof (cases "c0c_find_paren False 0 after")
      case None
      then show ?thesis using False by (auto simp: Pair a site_error_def site_typed_def simp del: c0c_find_paren.simps split: option.splits)
    next
      case (Some t)
      then obtain args where s: "s = args @ t" using find_paren_open a by blast
      from Some False show ?thesis
        by (auto simp: Pair a s site_error_def site_typed_def arg_error_None simp del: c0c_find_paren.simps split: option.splits)
    qed
  qed
qed

lemma return_error_None:
  "return_error fns F locals stmt = None \<longleftrightarrow>
     (\<forall>rx. stmt_return stmt = Some rx \<longrightarrow> \<not> return_bad (cstr (return_type F)) (c0c_infer locals fns rx))"
  by (auto simp: return_error_def Let_def return_bad_def split: option.split)

lemma stmt_error_None:
  "return_error fns F locals stmt = None \<and> calls_error fns locals stmt = None \<longleftrightarrow> stmt_typed fns F locals stmt"
  by (simp add: stmt_typed_def return_error_None calls_error_def first_error_None site_error_None)

lemma all_splits_Cons:
  "(\<forall>pre x post. s # ss = pre @ x # post \<longrightarrow> P pre x) \<longleftrightarrow>
     P [] s \<and> (\<forall>pre x post. ss = pre @ x # post \<longrightarrow> P (s # pre) x)"
proof (intro iffI conjI allI impI)
  fix pre x post
  assume a: "P [] s \<and> (\<forall>pre x post. ss = pre @ x # post \<longrightarrow> P (s # pre) x)" and e: "s # ss = pre @ x # post"
  show "P pre x"
  proof (cases pre)
    case (Cons y ys)
    with e have "y = s" "ss = ys @ x # post" by simp_all
    with a Cons show ?thesis by blast
  qed (use a e in auto)
qed auto

lemma stmts_error_None:
  "stmts_error fns F locals ss = None \<longleftrightarrow>
     (\<forall>pre stmt post. ss = pre @ stmt # post \<longrightarrow> stmt_typed fns F (fold (stmt_assign fns) (pre @ [stmt]) locals) stmt)"
proof (induction ss arbitrary: locals)
  case (Cons s ss)
  let ?l = "stmt_assign fns s locals"
  have "stmts_error fns F locals (s # ss) = None \<longleftrightarrow> stmt_typed fns F ?l s \<and> stmts_error fns F ?l ss = None"
    using stmt_error_None [of fns F ?l s] by (auto simp: Let_def split: option.split)
  then show ?case unfolding Cons.IH all_splits_Cons by simp
qed simp

section \<open>Properties\<close>

text \<open>
  C39: the syntax check accepts exactly the texts whose braces outside quotes are nested, by the
  usual grammar of matching pairs, and that declare at least one function name.
\<close>
theorem syntax_valid_iff_nested:
  "c0_syntax_valid src \<longleftrightarrow> nested (braces False src) \<and> fn_name_list src \<noteq> []"
  by (simp add: c0_syntax_valid_def balance_counts counts_iff_nested c0c_fn_names_def comma_join_Nil fn_names_nonempty)


text \<open>
  Every type error is about a declared type. A message of \<open>c0_type_check\<close> names a declared
  function and either its declared return type and another basic type, or one of its parameters
  whose declared type is neither \<open>any\<close> nor the type found. So a program without declared types
  always passes.
\<close>
theorem type_errors_are_mismatches:
  assumes "c0_type_check fns = Some m"
  shows "\<exists>F \<in> set fns. (\<exists>act. return_bad (cstr (return_type F)) act \<and> m = return_message F act) \<or>
    (\<exists>p \<in> set (info_params F). \<exists>act. act \<noteq> ''any'' \<and> cstr (type_name p) \<noteq> ''any'' \<and> cstr (type_name p) \<noteq> act \<and>
       m = arg_message F p act)"
proof -
  from first_error_Some [OF assms [unfolded c0_type_check_def]] obtain F where
    "F \<in> set fns" "stmts_error fns F (param_locals F) (body_stmts (info_body F)) = Some m" by blast
  from stmts_error_mismatch [OF this(2,1)] show ?thesis by (simp add: type_mismatch_def)
qed

definition bad_fn :: C0FnInfo where
  "bad_fn = \<lparr>info_name = ''f'', info_params = [], return_type = ''int'', info_body = ''^1 < 2'', info_line = 1\<rparr>"

theorem type_errors_are_mismatches_witness:
  "\<exists>m. c0_type_check [bad_fn] = Some m \<and> m = return_message bad_fn ''bool''"
proof -
  have e: "c0_type_check [bad_fn] = Some (return_message bad_fn ''bool'')" by code_simp
  from type_errors_are_mismatches [OF e] e show ?thesis by blast
qed

end
