(* ===== verification/C0_Lint.thy ===== *)
theory C0_Lint
  imports C0_Check
begin

text \<open>
  The linter of \<open>transpile/c/tool/lin_c0_check.c\<close>: \<open>c0c_cks_ops\<close> on operators and literals,
  \<open>c0c_cks_params\<close> on parameter lists, and the report \<open>c0_lint\<close>. A diagnostic is the position
  it is given for, its code and its advice; \<open>c0c_diag\<close> prints it as the C function of that name
  appends it.
\<close>

section \<open>Diagnostics\<close>

record C0Diag =
  d_at :: nat
  d_code :: string
  d_fix :: string

definition diag_line :: "string \<Rightarrow> nat \<Rightarrow> nat" where
  "diag_line src at' = 1 + length (filter (\<lambda>c. c = NEWLINE) (take at' src))"

definition diag_col :: "string \<Rightarrow> nat \<Rightarrow> nat" where
  "diag_col src at' = 1 + length (takeWhile (\<lambda>c. c \<noteq> NEWLINE) (rev (take at' src)))"

definition c0c_diag :: "string \<Rightarrow> C0Diag \<Rightarrow> string" where
  "c0c_diag src d =
     ''  .d{ code='' @ d_code d @ '' line='' @ c0c_rgs_num (int (diag_line src (d_at d))) @
     '' col='' @ c0c_rgs_num (int (diag_col src (d_at d))) @ '' fix='' @ quoted (d_fix d) @ '' }'' @ [NEWLINE]"

definition heur_prefixes :: "string list" where
  "heur_prefixes = [''q'', ''body'', ''params'', ''names'', ''chs'', ''out'', ''js_p'', ''rewrite_'', ''lin_'', ''zig_'',
     ''emit_'', ''param_'', ''fn_ret'', ''andor'', ''kw_space'', ''rgs_'', ''jss_'', ''cks_'', ''slice2'', ''read_ident'',
     ''fromCharCode'', ''charAt'']"

definition c0c_heur_str :: "string \<Rightarrow> bool" where
  "c0c_heur_str nm = (nm \<noteq> [] \<and> (list_ex (c0c_starts_lit nm) heur_prefixes \<or> nm = ''id'' \<or> nm = ''src''))"

section \<open>Operators\<close>

text \<open>
  The two sides of an operator of length \<open>oplen\<close>; \<open>before\<close> is the text in front of it,
  backwards, \<open>s\<close> the suffix at it.
\<close>

definition c0c_side_literal :: "string \<Rightarrow> string \<Rightarrow> nat \<Rightarrow> bool" where
  "c0c_side_literal before s oplen =
     (let l = dropWhile is_blank before; r = c0c_skip_ws (drop oplen s) in
      l \<noteq> [] \<and> hd l = QUOTE \<or> r \<noteq> [] \<and> hd r = QUOTE)"

text \<open>Backwards from a closing parenthesis to its open one: the text in front of that.\<close>

fun back_paren :: "int \<Rightarrow> string \<Rightarrow> string option" where
  "back_paren d [] = None"
| "back_paren d (c # s) =
     (if c = CHR '')'' then back_paren (d + 1) s
      else if c = CHR ''('' then (if d - 1 = 0 then Some s else back_paren (d - 1) s)
      else back_paren d s)"

definition c0c_call_left_str :: "string \<Rightarrow> bool" where
  "c0c_call_left_str before =
     (let l = dropWhile is_blank before in
      if l = [] \<or> hd l \<noteq> CHR '')'' then False
      else case back_paren 0 l of
          None \<Rightarrow> False
        | Some r \<Rightarrow>
            r \<noteq> [] \<and> c0c_is_ident (hd r) \<and> c0c_heur_str (c0c_read_ident (rev (takeWhile c0c_is_ident r))))"

definition literal_escapes :: "nat \<Rightarrow> string \<Rightarrow> C0Diag list" where
  "literal_escapes at' lit =
     map (\<lambda>(k, _). \<lparr>d_at = at' + k, d_code = ''ESCAPE_IN_LITERAL'', d_fix = ''literals carry no escapes; call q() to emit a quote''\<rparr>)
       (filter (\<lambda>(k, c). c = CHR 0x5C) (List.enumerate 0 lit))"

text \<open>What the loop does at one character: the diagnostics and the number of characters consumed.\<close>

definition cks_op :: "string \<Rightarrow> string \<Rightarrow> C0Diag list \<times> nat" where
  "cks_op before s =
     (let i = length before; c = hd s; nxt = (\<lambda>x. tl s \<noteq> [] \<and> hd (tl s) = x) in
      if c = QUOTE then
        (let lit = takeWhile (\<lambda>c. c \<noteq> QUOTE) (tl s) in (literal_escapes (i + 1) lit, length lit + 2))
      else if c = CHR ''/'' \<and> nxt (CHR ''/'') then ([], length (takeWhile (\<lambda>c. c \<noteq> NEWLINE) s))
      else if c = CHR ''/'' then
        ([\<lparr>d_at = i, d_code = ''INT_DIVISION'', d_fix = ''no integer division; subtract in a loop or pass a power of ten''\<rparr>], 1)
      else if c = CHR ''<'' \<and> nxt (CHR ''<'') then
        ([\<lparr>d_at = i, d_code = ''SHIFT_OPERATOR'', d_fix = ''no shift operator; call _lia_shl(a, b)''\<rparr>], 2)
      else if c = CHR ''>'' \<and> nxt (CHR ''>'') then
        ([\<lparr>d_at = i, d_code = ''SHIFT_OPERATOR'', d_fix = ''no shift operator; call _lia_shr(a, b)''\<rparr>], 2)
      else if c = CHR ''='' \<and> nxt (CHR ''='') then
        (if c0c_side_literal before s 2
         then [\<lparr>d_at = i, d_code = ''STRING_COMPARE'', d_fix = ''no string equality; compare .length then starts_lit(s, 0, lit)''\<rparr>]
         else [], 2)
      else if c = CHR ''!'' \<and> nxt (CHR ''='') then
        (if c0c_side_literal before s 2
         then [\<lparr>d_at = i, d_code = ''STRING_COMPARE'', d_fix = ''no string inequality; compare .length then starts_lit(s, 0, lit)''\<rparr>]
         else [], 2)
      else if c = CHR ''+'' \<and> nxt (CHR ''+'') then ([], 2)
      else if c = CHR ''+'' then
        (if c0c_call_left_str before
         then [\<lparr>d_at = i, d_code = ''CALL_LEFT_OF_CONCAT'', d_fix = ''bind the call result to a variable first, then concatenate''\<rparr>]
         else [], 1)
      else ([], 1))"

lemma cks_op_consumes: "s \<noteq> [] \<Longrightarrow> 0 < snd (cks_op before s)"
  by (cases s) (auto simp: cks_op_def Let_def NEWLINE_def)

function cks_ops_from :: "string \<Rightarrow> string \<Rightarrow> C0Diag list" where
  "cks_ops_from before s =
     (if s = [] then []
      else let (ds, k) = cks_op before s in ds @ cks_ops_from (rev (take k s) @ before) (drop k s))"
  by pat_completeness auto
termination cks_ops_from
proof (relation "measure (\<lambda>(_, s). length s)", simp)
  fix before s :: string and x ds k assume "s \<noteq> []" "x = cks_op before s" "(ds, k) = x"
  then show "((rev (take k s) @ before, drop k s), before, s) \<in> measure (\<lambda>(_, s). length s)"
    using cks_op_consumes [of s before] by (cases "cks_op before s") auto
qed

declare cks_ops_from.simps [simp del]

definition c0c_cks_ops :: "string \<Rightarrow> C0Diag list" where
  "c0c_cks_ops src = cks_ops_from [] src"

section \<open>Parameters\<close>

fun split_commas :: "string \<Rightarrow> string \<Rightarrow> string list" where
  "split_commas cur [] = [cur]"
| "split_commas cur (c # s) = (if c = CHR '','' then cur # split_commas [] s else split_commas (cur @ [c]) s)"

definition param_collides :: "string \<Rightarrow> bool" where
  "param_collides seg =
     (let s = c0c_skip_ws seg; nm = c0c_read_ident s; p = c0c_skip_ws (drop (length nm) s);
          ty = (if p \<noteq> [] \<and> hd p = CHR '':'' then c0c_read_ident (c0c_skip_ws (tl p)) else []) in
      nm \<noteq> [] \<and> ty \<noteq> [] \<and> \<not> c0c_starts_lit ty ''string'' \<and> \<not> c0c_starts_lit ty ''str'' \<and> \<not> c0c_starts_lit ty ''bool'' \<and>
      c0c_heur_str nm)"

definition c0c_cks_plist :: "string \<Rightarrow> nat \<Rightarrow> C0Diag list" where
  "c0c_cks_plist plist at' =
     map (\<lambda>_. \<lparr>d_at = at', d_code = ''NAME_TYPE_COLLISION'',
                 d_fix = ''parameter name is read as a string by the type heuristic; rename it''\<rparr>)
       (filter param_collides (split_commas [] plist))"

text \<open>
  The loop over the source of length \<open>len\<close>: at a declaration the parameter list is checked and
  skipped. The second component of \<open>cks_decl\<close> is the suffix to go on with.
\<close>

definition cks_decl :: "nat \<Rightarrow> string \<Rightarrow> C0Diag list \<times> string" where
  "cks_decl len s =
     (let nm = c0c_read_ident (tl s); opn = c0c_skip_ws (drop (1 + length nm) s) in
      if hd s \<noteq> CHR ''!'' \<or> nm = [] \<or> opn = [] \<or> hd opn \<noteq> CHR ''('' then ([], tl s)
      else case c0c_match_paren opn of
          None \<Rightarrow> ([], tl s)
        | Some cl \<Rightarrow>
            (c0c_cks_plist (take (length opn - 1 - length cl) (tl opn)) (len - length opn), tl cl))"

lemma cks_decl_shorter: "s \<noteq> [] \<Longrightarrow> length (snd (cks_decl len s)) < length s"
proof -
  assume s: "s \<noteq> []"
  have "length (tl cl) < length s" if "c0c_match_paren (c0c_skip_ws (drop k s)) = Some cl" for cl k
    using match_delim_length [OF that [unfolded c0c_match_paren_def]] skip_ws_length [of "drop k s"] s by (cases cl) auto
  then show ?thesis using s by (auto simp: cks_decl_def Let_def split: option.split)
qed

function cks_params_from :: "nat \<Rightarrow> string \<Rightarrow> C0Diag list" where
  "cks_params_from len s =
     (if s = [] then [] else let (ds, r) = cks_decl len s in ds @ cks_params_from len r)"
  by pat_completeness auto
termination cks_params_from
proof (relation "measure (\<lambda>(_, s). length s)", simp)
  fix len :: nat and s :: string and x ds r assume "s \<noteq> []" "x = cks_decl len s" "(ds, r) = x"
  then show "((len, r), len, s) \<in> measure (\<lambda>(_, s). length s)"
    using cks_decl_shorter [of s len] by (cases "cks_decl len s") auto
qed

declare cks_params_from.simps [simp del]

definition c0c_cks_params :: "string \<Rightarrow> C0Diag list" where
  "c0c_cks_params src = cks_params_from (length src) src"

section \<open>The report\<close>

definition lint_body :: "string \<Rightarrow> string" where
  "lint_body src = concat (map (c0c_diag src) (c0c_cks_ops src @ c0c_cks_params src))"

definition c0_lint :: "string \<Rightarrow> string" where
  "c0_lint src =
     ''@RULEL:LIN_LINT:1.0.0'' @ [NEWLINE] @ ''.policy{ level=error fail_closed=true '' @
     ''rationale=every_rejected_construct_names_its_supported_alternative }'' @ [NEWLINE] @
     ''.diagnostics{'' @ [NEWLINE] @ lint_body src @ ''}'' @ [NEWLINE] @ ''.summary{ errors='' @
     c0c_rgs_num (int (c0c_count_lit ''  .d{'' (lint_body src))) @ '' }'' @ [NEWLINE]"

section \<open>Counting diagnostics\<close>

lemma rgs_digits_digits: "c \<in> set (rgs_digits x st ps) \<Longrightarrow> is_digit c"
proof (induction x st ps rule: rgs_digits.induct)
  case (2 x st p ps)
  have "nat (x div p mod 10) < 10" by (simp add: nat_less_iff)
  with 2 show ?case by (auto simp: Let_def split: if_splits)
qed simp

lemma rgs_num_digits: "c \<in> set (c0c_rgs_num v) \<Longrightarrow> is_digit c"
  using rgs_digits_digits [of c v False] by (cases "v \<le> 0") (auto simp: c0c_rgs_num_def is_digit_def less_eq_char_def simp del: rgs_digits.simps)

text \<open>Up to five digits the number is printed in decimal.\<close>

lemma dec_digits_high:
  "10 ^ k \<le> n \<Longrightarrow> n < 10 ^ Suc k \<Longrightarrow>
     dec_digits n = map (\<lambda>i. digit_char (n div 10 ^ i mod 10)) (rev [0..<Suc k])"
proof (induction k arbitrary: n)
  case 0
  then show ?case by (subst dec_digits.simps) simp
next
  case (Suc k)
  have n: "10 ^ k \<le> n div 10" "n div 10 < 10 ^ Suc k" using Suc.prems by (simp_all add: less_eq_div_iff_mult_less_eq div_less_iff_less_mult)
  have "(1 :: nat) \<le> 10 ^ k" by simp
  then have "\<not> n < 10" using Suc.prems(1) unfolding power_Suc by linarith
  moreover have "map (\<lambda>i. digit_char (n div 10 div 10 ^ i mod 10)) (rev [0..<Suc k])
      = map (\<lambda>i. digit_char (n div 10 ^ i mod 10)) (rev [1..<Suc (Suc k)])"
    by (simp add: map_Suc_upt [symmetric] rev_map comp_def div_mult2_eq [symmetric] del: upt_Suc)
  moreover have "rev [0..<Suc (Suc k)] = rev [1..<Suc (Suc k)] @ [0]" by (simp add: upt_rec del: upt_Suc)
  ultimately show ?case by (subst dec_digits.simps) (simp add: Suc.IH [OF n] del: upt_Suc)
qed

lemma int_digit: "int n mod 10 ^ k = int (n mod 10 ^ k)" "int n div 10 ^ k mod 10 = int (n div 10 ^ k mod 10)"
  by (simp_all add: zmod_int zdiv_int)

lemma digit_of_mod: "i < k \<Longrightarrow> n mod 10 ^ k div 10 ^ i mod 10 = n div 10 ^ i mod (10 :: nat)"
proof -
  assume "i < k"
  then obtain j where k: "k = i + Suc j" using less_iff_Suc_add by auto
  have "n mod (10 ^ i * 10 ^ Suc j) = 10 ^ i * (n div 10 ^ i mod 10 ^ Suc j) + n mod 10 ^ i" by (rule mod_mult2_eq)
  then have "n mod 10 ^ k div 10 ^ i = n div 10 ^ i mod 10 ^ Suc j" unfolding k power_add by simp
  then show ?thesis by (simp add: mod_mod_cancel)
qed

lemma rgs_digits_started:
  "rgs_digits (int n) True (map (\<lambda>i. 10 ^ i) (rev [0..<k])) = map (\<lambda>i. digit_char (n div 10 ^ i mod 10)) (rev [0..<k])"
proof (induction k arbitrary: n)
  case (Suc k)
  have "map (\<lambda>i. digit_char (n mod 10 ^ k div 10 ^ i mod 10)) (rev [0..<k]) = map (\<lambda>i. digit_char (n div 10 ^ i mod 10)) (rev [0..<k])"
    by (simp add: digit_of_mod)
  with Suc.IH [of "n mod 10 ^ k"] show ?case by (simp add: Let_def int_digit)
qed simp

lemma rgs_digits_decimal:
  "10 ^ k \<le> n \<Longrightarrow> n < 10 ^ Suc k \<Longrightarrow> k \<le> m \<Longrightarrow> rgs_digits (int n) False (map (\<lambda>i. 10 ^ i) (rev [0..<Suc m])) = dec_digits n"
proof (induction m)
  case 0
  then show ?case using dec_digits_high [of 0 n] by (simp add: Let_def nat_mod_distrib)
next
  case (Suc m)
  have "1 < (10 :: int) ^ Suc m" by (rule one_less_power) simp_all
  then have ne: "(10 :: int) ^ Suc m \<noteq> 1" by linarith
  have u: "rgs_digits (int n) False (map (\<lambda>i. 10 ^ i) (rev [0..<Suc (Suc m)])) =
      (if 0 < n div 10 ^ Suc m mod 10 then digit_char (n div 10 ^ Suc m mod 10) # rgs_digits (int (n mod 10 ^ Suc m)) True (map (\<lambda>i. 10 ^ i) (rev [0..<Suc m]))
       else rgs_digits (int (n mod 10 ^ Suc m)) False (map (\<lambda>i. 10 ^ i) (rev [0..<Suc m])))"
    unfolding upt_Suc [of 0 "Suc m"] by (simp add: Let_def int_digit ne del: upt_Suc power_Suc)
  show ?case
  proof (cases "k = Suc m")
    case True
    have "n div 10 ^ Suc m < 10" using Suc.prems(2) True by (simp add: div_less_iff_less_mult)
    moreover have "0 < n div 10 ^ Suc m" using Suc.prems(1) True by (simp add: div_greater_zero_iff del: power_Suc)
    ultimately have "0 < n div 10 ^ Suc m mod 10" by simp
    then show ?thesis unfolding u
      using dec_digits_high [OF Suc.prems(1,2)] rgs_digits_started [of "n mod 10 ^ Suc m" "Suc m"]
      by (simp add: True digit_of_mod del: power_Suc)
  next
    case False
    with Suc.prems have l: "n < 10 ^ Suc m" by (meson le_SucE less_le_trans one_le_numeral power_increasing Suc_le_mono)
    then have "n div 10 ^ Suc m = 0" "n mod 10 ^ Suc m = n" by (simp_all del: power_Suc)
    with u Suc.IH [OF Suc.prems(1,2)] Suc.prems(3) False show ?thesis by (simp del: power_Suc)
  qed
qed

lemma rgs_num_decimal: "n < 100000 \<Longrightarrow> c0c_rgs_num (int n) = dec_digits n"
proof (cases "n = 0")
  case True
  have "dec_digits 0 = ''0''" by code_simp
  with True show ?thesis by (simp add: c0c_rgs_num_def)
next
  case False
  assume n: "n < 100000"
  have "\<exists>k \<le> 4. 10 ^ k \<le> n \<and> n < 10 ^ Suc k"
  proof -
    consider "n < 10" | "10 \<le> n" "n < 100" | "100 \<le> n" "n < 1000" | "1000 \<le> n" "n < 10000" | "10000 \<le> n" by linarith
    then show ?thesis
    proof cases
      case 1 then show ?thesis using False by (intro exI [of _ 0]) simp
    next
      case 2 then show ?thesis by (intro exI [of _ 1]) simp
    next
      case 3 then show ?thesis by (intro exI [of _ 2]) simp
    next
      case 4 then show ?thesis by (intro exI [of _ 3]) simp
    next
      case 5 then show ?thesis using n by (intro exI [of _ 4]) simp
    qed
  qed
  then obtain k where "10 ^ k \<le> n" "n < 10 ^ Suc k" "k \<le> 4" by blast
  have "rev [0..<Suc 4] = [4, 3, 2, 1, 0]" by code_simp
  with rgs_digits_decimal [OF \<open>10 ^ k \<le> n\<close> \<open>n < 10 ^ Suc k\<close> \<open>k \<le> 4\<close>]
  have "rgs_digits (int n) False [10000, 1000, 100, 10, 1] = dec_digits n"
    by (simp del: rgs_digits.simps upt_Suc)
  then show ?thesis using False by (simp add: c0c_rgs_num_def)
qed

text \<open>A line without another opening brace holds the marker once, at its start.\<close>

lemma count_lit_none:
  assumes "needle = l @ [x]" "x \<notin> set d" "d = [] \<or> last d \<notin> set needle"
  shows "c0c_count_lit needle (d @ rest) = c0c_count_lit needle rest"
  using assms(2,3)
proof (induction d)
  case (Cons c d)
  have "\<not> c0c_starts_lit ((c # d) @ rest) needle"
  proof
    assume a: "c0c_starts_lit ((c # d) @ rest) needle"
    then have n: "needle = take (length needle) ((c # d) @ rest)" by (simp add: c0c_starts_lit_def)
    show False
    proof (cases "length needle \<le> length (c # d)")
      case True
      then have "set needle \<subseteq> set (c # d)" using n by (metis set_take_subset take_append diff_is_0_eq take0 append_Nil2)
      with assms(1) Cons.prems(1) show False by auto
    next
      case False
      then have "last (c # d) \<in> set needle" using n
        by (metis append_take_drop_id le_cases list.distinct(1) last_in_set set_append take_all take_append Un_iff)
      with Cons.prems(2) show False by simp
    qed
  qed
  with Cons show ?case by (cases d) auto
qed simp

definition diag_ok :: "C0Diag \<Rightarrow> bool" where
  "diag_ok d = (CHR ''{'' \<notin> set (d_code d) \<and> CHR ''{'' \<notin> set (d_fix d))"

lemma count_diag:
  assumes "diag_ok d"
  shows "c0c_count_lit ''  .d{'' (c0c_diag src d @ rest) = Suc (c0c_count_lit ''  .d{'' rest)"
proof -
  let ?t = "'' code='' @ d_code d @ '' line='' @ c0c_rgs_num (int (diag_line src (d_at d))) @
     '' col='' @ c0c_rgs_num (int (diag_col src (d_at d))) @ '' fix='' @ quoted (d_fix d) @ '' }'' @ [NEWLINE]"
  have "CHR ''{'' \<notin> set (c0c_rgs_num v)" for v
    using rgs_num_digits [of "CHR ''{''" v] by (auto simp: is_digit_def less_eq_char_def)
  then have t: "CHR ''{'' \<notin> set ?t" using assms by (auto simp: diag_ok_def quoted_def QUOT_def NEWLINE_def)
  have "last ?t = NEWLINE" by simp
  then have "?t = [] \<or> last ?t \<notin> set ''  .d{''" by (simp add: NEWLINE_def)
  with t have "c0c_count_lit ''  .d{'' (?t @ rest) = c0c_count_lit ''  .d{'' rest"
    by (intro count_lit_none [of _ "''  .d''" "CHR ''{''"]) (simp only: append.simps)
  moreover have "c0c_count_lit ''  .d{'' (''  .d{'' @ t) = Suc (c0c_count_lit ''  .d{'' t)" for t
    by (simp add: c0c_starts_lit_def)
  ultimately show ?thesis unfolding c0c_diag_def append_assoc by (metis append_Cons append_Nil append_assoc)
qed

lemma cks_op_ok: "list_all diag_ok (fst (cks_op before s))"
  by (auto simp: cks_op_def Let_def diag_ok_def literal_escapes_def list_all_iff)

lemma cks_ops_ok: "list_all diag_ok (cks_ops_from before s)"
proof (induction before s rule: cks_ops_from.induct)
  case (1 before s)
  then show ?case using cks_op_ok [of before s] by (subst cks_ops_from.simps) (auto split: prod.splits)
qed

lemma cks_params_ok: "list_all diag_ok (cks_params_from len s)"
proof (induction len s rule: cks_params_from.induct)
  case (1 len s)
  have "list_all diag_ok (fst (cks_decl len s))"
    by (auto simp: cks_decl_def Let_def c0c_cks_plist_def diag_ok_def list_all_iff split: option.split)
  with 1 show ?case by (subst cks_params_from.simps) (auto split: prod.splits)
qed

lemma count_diags: "list_all diag_ok ds \<Longrightarrow> c0c_count_lit ''  .d{'' (concat (map (c0c_diag src) ds)) = length ds"
  by (induction ds) (simp_all add: count_diag)

section \<open>Properties\<close>

text \<open>
  The linter's summary is right. The number it finds by searching the printed report for the
  marker of a diagnostic is the number of diagnostics, and for fewer than 100000 of them the
  summary shows that number in decimal.
\<close>
theorem lint_summary_exact:
  assumes "length (c0c_cks_ops src @ c0c_cks_params src) < 100000"
  shows "\<exists>report. c0_lint src = report @ lint_body src @ ''}'' @ [NEWLINE] @ ''.summary{ errors='' @
    dec_digits (length (c0c_cks_ops src @ c0c_cks_params src)) @ '' }'' @ [NEWLINE]"
proof -
  have "c0c_count_lit ''  .d{'' (lint_body src) = length (c0c_cks_ops src @ c0c_cks_params src)"
    unfolding lint_body_def
    by (rule count_diags) (simp add: c0c_cks_ops_def c0c_cks_params_def cks_ops_ok cks_params_ok)
  then show ?thesis using rgs_num_decimal [OF assms] unfolding c0_lint_def
    by (metis append.assoc)
qed

theorem lint_summary_exact_witness:
  "\<exists>report. c0_lint ''a/b'' = report @ lint_body ''a/b'' @ ''}'' @ [NEWLINE] @ ''.summary{ errors=1 }'' @ [NEWLINE]"
proof -
  have l: "length (c0c_cks_ops ''a/b'' @ c0c_cks_params ''a/b'') = 1" by code_simp
  have "dec_digits 1 = ''1''" by code_simp
  with lint_summary_exact [of "''a/b''"] l show ?thesis by simp
qed

end
