(* ===== verification/C0_Comp.thy ===== *)
theory C0_Comp
  imports C0_Scan Lin_Linbc1
begin

text \<open>
  The one-pass compiler of \<open>transpile/c/tool/lin_c0_front.c\<close>: the compiler state
  \<open>C0Comp\<close>, the expression levels \<open>c0_e_or\<close> .. \<open>c0_e_primary\<close> and the statements, each
  as a function on the state.

  \<^item> A statement function is a \<open>step\<close>: it returns the new state, or \<open>None\<close> when its
    fuel runs out. \<open>c0_while\<close> is a C loop, \<open>c0_seq f g\<close> the idiom
    \<open>f(c); if (c->reject) return; g(c)\<close>.
  \<^item> The recursion through parentheses, calls and blocks goes through the arguments
    \<open>ex\<close> (\<open>c0_expr\<close>) and \<open>st\<close> (\<open>c0_stmt\<close>) with one unit of fuel less; \<open>m\<close> is the
    fuel of the loops. \<open>c0_stmt_returns\<close> shows that the number of tokens is enough.
  \<^item> Growing a buffer may fail and then rejects the function with the sentinel
    \<open>C0_OOM\<close>; \<open>cmem\<close> says at which sizes it does not.
\<close>

section \<open>State\<close>

datatype c0_reject = C0_OOM | Rej string

datatype c0_site = AtCode | AtLocals | AtEnds

record C0Comp =
  ctoks :: "C0Tok list"
  cpos :: nat
  ccode :: "VmIns list"
  clocals :: "string list"
  carrn :: "u16 list"
  cfns :: "VmFn list"
  creject :: "c0_reject option"
  allow_div :: bool
  allow_shift :: bool
  cmem :: "c0_site \<Rightarrow> nat \<Rightarrow> bool"

type_synonym step = "C0Comp \<Rightarrow> C0Comp option"

definition c0_tok_eq :: "C0Tok \<Rightarrow> string \<Rightarrow> bool" where
  "c0_tok_eq t s = (tk_text t = s)"

definition c0_peek :: "C0Comp \<Rightarrow> C0Tok" where
  "c0_peek c = ctoks c ! cpos c"

definition c0_bump :: "C0Comp \<Rightarrow> C0Comp" where
  "c0_bump c = (if tk_kind (c0_peek c) \<noteq> C0_TK_EOF then c\<lparr>cpos := cpos c + 1\<rparr> else c)"

definition c0_at_punct :: "C0Comp \<Rightarrow> string \<Rightarrow> bool" where
  "c0_at_punct c t = (tk_kind (c0_peek c) = C0_TK_PUNCT \<and> c0_tok_eq (c0_peek c) t)"

definition c0_at_ident :: "C0Comp \<Rightarrow> string \<Rightarrow> bool" where
  "c0_at_ident c t = (tk_kind (c0_peek c) = C0_TK_IDENT \<and> c0_tok_eq (c0_peek c) t)"

definition c0_accept_punct :: "string \<Rightarrow> C0Comp \<Rightarrow> bool \<times> C0Comp" where
  "c0_accept_punct t c = (if c0_at_punct c t then (True, c0_bump c) else (False, c))"

definition c0_fail :: "c0_reject \<Rightarrow> C0Comp \<Rightarrow> C0Comp" where
  "c0_fail r c = (if creject c = None then c\<lparr>creject := Some r\<rparr> else c)"

definition c0_emit :: "VmOp \<Rightarrow> i64 \<Rightarrow> C0Comp \<Rightarrow> nat \<times> C0Comp" where
  "c0_emit o1 a c =
     (if \<not> cmem c AtCode (length (ccode c)) then (0, c0_fail C0_OOM c)
      else (length (ccode c), c\<lparr>ccode := ccode c @ [\<lparr>op = o1, opa = a\<rparr>]\<rparr>))"

definition c0_here :: "C0Comp \<Rightarrow> i64" where
  "c0_here c = of_nat (length (ccode c))"

definition c0_patch :: "nat \<Rightarrow> C0Comp \<Rightarrow> C0Comp" where
  "c0_patch at1 c = c\<lparr>ccode := (ccode c)[at1 := (ccode c ! at1)\<lparr>opa := c0_here c\<rparr>]\<rparr>"

definition c0_find_local :: "C0Comp \<Rightarrow> string \<Rightarrow> nat option" where
  "c0_find_local c nm = index_from 0 (\<lambda>l. l = nm) (clocals c)"

definition c0_local_idx :: "string \<Rightarrow> C0Comp \<Rightarrow> nat \<times> C0Comp" where
  "c0_local_idx nm c =
     (case c0_find_local c nm of
        Some v \<Rightarrow> (v, c)
      | None \<Rightarrow>
        if length (clocals c) \<ge> LIN_VM_MAX_LOCALS then (0, c0_fail (Rej ''VM_REJ_TOO_MANY_LOCALS'') c)
        else if \<not> cmem c AtLocals (length (clocals c)) then (0, c0_fail C0_OOM c)
        else (length (clocals c), c\<lparr>clocals := clocals c @ [nm], carrn := carrn c @ [0]\<rparr>))"

definition c0_local_arr_n :: "C0Comp \<Rightarrow> nat \<Rightarrow> u16" where
  "c0_local_arr_n c li = (if li \<ge> length (carrn c) then 0 else carrn c ! li)"

definition c0_mark_arr :: "nat \<Rightarrow> u16 \<Rightarrow> C0Comp \<Rightarrow> C0Comp" where
  "c0_mark_arr li n c = (if li < length (carrn c) then c\<lparr>carrn := (carrn c)[li := n]\<rparr> else c)"

definition c0_find_fn :: "C0Comp \<Rightarrow> string \<Rightarrow> nat option" where
  "c0_find_fn c nm = index_from 0 (\<lambda>f. sig_ok f \<and> fn_name f = nm) (cfns c)"

section \<open>Control\<close>

definition rejected :: "C0Comp \<Rightarrow> bool" where
  "rejected c = (creject c \<noteq> None)"

definition c0_seq :: "step \<Rightarrow> step \<Rightarrow> step" where
  "c0_seq f g c = Option.bind (f c) (\<lambda>c1. if rejected c1 then Some c1 else g c1)"

primrec c0_while :: "nat \<Rightarrow> (C0Comp \<Rightarrow> bool) \<Rightarrow> step \<Rightarrow> step" where
  "c0_while 0 P f c = (if P c then None else Some c)"
| "c0_while (Suc n) P f c = (if P c then Option.bind (f c) (c0_while n P f) else Some c)"

definition emit_s :: "VmOp \<Rightarrow> i64 \<Rightarrow> step" where
  "emit_s o1 a c = Some (snd (c0_emit o1 a c))"

definition fail_s :: "string \<Rightarrow> step" where
  "fail_s r c = Some (c0_fail (Rej r) c)"

definition bump_s :: step where
  "bump_s c = Some (c0_bump c)"

text \<open>\<open>if (!c0_accept_punct(c, t)) { c0_fail(c, r); return; } k(c)\<close>.\<close>

definition expect_punct :: "string \<Rightarrow> string \<Rightarrow> step \<Rightarrow> step" where
  "expect_punct t r k c = (if c0_at_punct c t then k (c0_bump c) else fail_s r c)"

text \<open>\<open>(void)c0_accept_punct(c, t)\<close>.\<close>

definition skip_punct :: "string \<Rightarrow> step" where
  "skip_punct t c = Some (snd (c0_accept_punct t c))"

section \<open>Expressions\<close>

text \<open>Bump the operator, compile the right operand, emit.\<close>

definition binop_body :: "step \<Rightarrow> VmOp \<Rightarrow> step" where
  "binop_body sub o1 c = c0_seq sub (emit_s o1 0) (c0_bump c)"

text \<open>The short-circuit operators: a jump over the right operand, patched behind it.\<close>

definition short_circuit_body :: "step \<Rightarrow> VmOp \<Rightarrow> step" where
  "short_circuit_body sub jop c =
     (let (j, c1) = c0_emit jop 0 (c0_bump c) in
      if rejected c1 then Some c1
      else c0_seq (emit_s OP_POP 0) (c0_seq sub (\<lambda>c2. Some (c0_patch j c2))) c1)"

fun args_loop :: "nat \<Rightarrow> step \<Rightarrow> nat \<Rightarrow> C0Comp \<Rightarrow> (nat \<times> C0Comp) option" where
  "args_loop 0 ex argc c = None"
| "args_loop (Suc k) ex argc c =
     (if rejected c then Some (argc, c)
      else Option.bind (ex c) (\<lambda>c1.
        if rejected c1 then Some (argc, c1)
        else if c0_at_punct c1 '','' then args_loop k ex (argc + 1) (c0_bump c1)
        else Some (argc + 1, c1)))"

definition intrinsic_op :: "string \<Rightarrow> VmOp option" where
  "intrinsic_op t =
     (if t = ''_lia_shl'' then Some OP_SHL
      else if t = ''_lia_shr'' then Some OP_SHR
      else if t = ''_lia_ushr'' then Some OP_USHR
      else if t = ''_lia_mod'' \<or> t = ''@rem'' then Some OP_MOD
      else None)"

text \<open>After the closing parenthesis of a call with \<open>argc\<close> arguments.\<close>

definition finish_call :: "string \<Rightarrow> nat \<Rightarrow> step" where
  "finish_call t argc c =
     (case intrinsic_op t of
        Some o1 \<Rightarrow> if argc \<noteq> 2 then fail_s ''VM_REJ_ARITY'' c else emit_s o1 0 c
      | None \<Rightarrow>
        (case c0_find_fn c t of
           Some fi \<Rightarrow> if nparams (cfns c ! fi) \<noteq> argc then fail_s ''VM_REJ_ARITY'' c
                      else emit_s OP_CALL (of_nat fi) c
         | None \<Rightarrow> fail_s ''VM_REJ_UNKNOWN_CALL'' c))"

definition compile_call :: "nat \<Rightarrow> step \<Rightarrow> string \<Rightarrow> step" where
  "compile_call m ex t c =
     (if \<not> c0_at_punct c '')'' then
        Option.bind (args_loop m ex 0 c) (\<lambda>(argc, c1).
          if rejected c1 then Some c1
          else expect_punct '')'' ''VM_REJ_PARSE'' (finish_call t argc) c1)
      else expect_punct '')'' ''VM_REJ_PARSE'' (finish_call t 0) c)"

definition compile_member :: "string \<Rightarrow> step" where
  "compile_member t c =
     (if tk_kind (c0_peek c) = C0_TK_IDENT \<and> (c0_tok_eq (c0_peek c) ''length'' \<or> c0_tok_eq (c0_peek c) ''len'') then
        (case c0_find_local (c0_bump c) t of
           Some li \<Rightarrow> if c0_local_arr_n (c0_bump c) li = 0 then fail_s ''VM_REJ_LENGTH_NOT_ARRAY'' (c0_bump c)
                      else emit_s OP_ARR_LEN (of_nat li) (c0_bump c)
         | None \<Rightarrow> fail_s ''VM_REJ_UNBOUND_IDENT'' (c0_bump c))
      else fail_s ''VM_REJ_MEMBER_ACCESS'' c)"

definition compile_index :: "step \<Rightarrow> string \<Rightarrow> step" where
  "compile_index ex t c =
     (case c0_find_local c t of
        Some li \<Rightarrow> if c0_local_arr_n c li = 0 then fail_s ''VM_REJ_INDEX_NOT_ARRAY'' c
                   else c0_seq ex (expect_punct '']'' ''VM_REJ_PARSE'' (emit_s OP_LOAD_INDEX (of_nat li))) (c0_bump c)
      | None \<Rightarrow> fail_s ''VM_REJ_UNBOUND_IDENT'' c)"

definition compile_var :: "string \<Rightarrow> step" where
  "compile_var t c =
     (case c0_find_local c t of
        Some li \<Rightarrow> if c0_local_arr_n c li > 0 then fail_s ''VM_REJ_ARRAY_AS_SCALAR'' c
                   else emit_s OP_LOAD_LOCAL (of_nat li) c
      | None \<Rightarrow> fail_s ''VM_REJ_UNBOUND_IDENT'' c)"

definition c0_e_primary :: "nat \<Rightarrow> step \<Rightarrow> step" where
  "c0_e_primary m ex c =
     (let tk = c0_peek c; t = tk_text tk in
      if tk_kind tk = C0_TK_STR then fail_s ''VM_REJ_STRING_LITERAL'' (c0_bump c)
      else if tk_kind tk = C0_TK_NUMBER then
        (case c0_parse_i64 t of
           None \<Rightarrow> fail_s ''VM_REJ_LITERAL_RANGE'' (c0_bump c)
         | Some v \<Rightarrow> emit_s OP_PUSH_CONST v (c0_bump c))
      else if c0_at_punct c ''('' then
        c0_seq ex (expect_punct '')'' ''VM_REJ_PARSE'' Some) (c0_bump c)
      else if tk_kind tk = C0_TK_IDENT then
        (let c1 = c0_bump c in
         if c0_tok_eq tk ''true'' then emit_s OP_PUSH_CONST 1 c1
         else if c0_tok_eq tk ''false'' then emit_s OP_PUSH_CONST 0 c1
         else if c0_at_punct c1 ''('' then compile_call m ex t (c0_bump c1)
         else if c0_at_punct c1 ''.'' then compile_member t (c0_bump c1)
         else if c0_at_punct c1 ''['' then compile_index ex t c1
         else compile_var t c1)
      else bump_s (c0_fail (Rej ''VM_REJ_PARSE'') c))"

primrec c0_e_unary :: "nat \<Rightarrow> nat \<Rightarrow> step \<Rightarrow> step" where
  "c0_e_unary 0 m ex c = None"
| "c0_e_unary (Suc k) m ex c =
     (if c0_at_punct c ''~'' then c0_seq (c0_e_unary k m ex) (emit_s OP_BIT_NOT 0) (c0_bump c)
      else if c0_at_punct c ''-'' then c0_seq (c0_e_unary k m ex) (emit_s OP_NEG 0) (c0_bump c)
      else if c0_at_punct c ''!'' then c0_seq (c0_e_unary k m ex) (emit_s OP_LOG_NOT 0) (c0_bump c)
      else c0_e_primary m ex c)"

text \<open>The body of a level's loop at an operator of the level, if the current token is one.\<close>

definition mul_body :: "step \<Rightarrow> C0Comp \<Rightarrow> step option" where
  "mul_body sub c =
     (if c0_at_punct c ''*'' then Some (binop_body sub OP_MUL)
      else if c0_at_punct c ''%'' then Some (binop_body sub OP_MOD)
      else if c0_at_punct c ''/'' then
        Some (if \<not> allow_div c then fail_s ''VM_REJ_INT_DIVISION'' else binop_body sub OP_DIV)
      else None)"

definition add_body :: "step \<Rightarrow> C0Comp \<Rightarrow> step option" where
  "add_body sub c =
     (if c0_at_punct c ''+'' then Some (binop_body sub OP_ADD)
      else if c0_at_punct c ''-'' then Some (binop_body sub OP_SUB)
      else None)"

definition band_body :: "step \<Rightarrow> C0Comp \<Rightarrow> step option" where
  "band_body sub c = (if c0_at_punct c ''&'' then Some (binop_body sub OP_BIT_AND) else None)"

definition bxor_body :: "step \<Rightarrow> C0Comp \<Rightarrow> step option" where
  "bxor_body sub c = (if c0_at_punct c ''^'' then Some (binop_body sub OP_BIT_XOR) else None)"

definition bor_body :: "step \<Rightarrow> C0Comp \<Rightarrow> step option" where
  "bor_body sub c = (if c0_at_punct c ''|'' then Some (binop_body sub OP_BIT_OR) else None)"

definition shift_body :: "step \<Rightarrow> C0Comp \<Rightarrow> step option" where
  "shift_body sub c =
     (if c0_at_punct c ''<<'' then
        Some (if \<not> allow_shift c then fail_s ''VM_REJ_SHIFT'' else binop_body sub OP_SHL)
      else if c0_at_punct c ''>>'' then
        Some (if \<not> allow_shift c then fail_s ''VM_REJ_SHIFT'' else binop_body sub OP_SHR)
      else None)"

definition cmp_body :: "step \<Rightarrow> C0Comp \<Rightarrow> step option" where
  "cmp_body sub c =
     (if c0_at_punct c ''=='' then Some (binop_body sub OP_CMP_EQ)
      else if c0_at_punct c ''!='' then Some (binop_body sub OP_CMP_NE)
      else if c0_at_punct c ''<='' then Some (binop_body sub OP_CMP_LE)
      else if c0_at_punct c ''>='' then Some (binop_body sub OP_CMP_GE)
      else if c0_at_punct c ''<'' then Some (binop_body sub OP_CMP_LT)
      else if c0_at_punct c ''>'' then Some (binop_body sub OP_CMP_GT)
      else None)"

definition and_body :: "step \<Rightarrow> C0Comp \<Rightarrow> step option" where
  "and_body sub c = (if c0_at_punct c ''&&'' then Some (short_circuit_body sub OP_JUMP_IF_FALSE_KEEP) else None)"

definition or_body :: "step \<Rightarrow> C0Comp \<Rightarrow> step option" where
  "or_body sub c = (if c0_at_punct c ''||'' then Some (short_circuit_body sub OP_JUMP_IF_TRUE_KEEP) else None)"

text \<open>\<open>sub(c); while (c->reject == NULL && at an operator of the level) ..\<close>.\<close>

definition level :: "nat \<Rightarrow> step \<Rightarrow> (step \<Rightarrow> C0Comp \<Rightarrow> step option) \<Rightarrow> step" where
  "level m sub body c =
     Option.bind (sub c)
       (c0_while m (\<lambda>c. \<not> rejected c \<and> body sub c \<noteq> None)
          (\<lambda>c. case body sub c of Some f \<Rightarrow> f c | None \<Rightarrow> Some c))"

definition c0_e_mul :: "nat \<Rightarrow> step \<Rightarrow> step" where "c0_e_mul m ex = level m (c0_e_unary m m ex) mul_body"
definition c0_e_add :: "nat \<Rightarrow> step \<Rightarrow> step" where "c0_e_add m ex = level m (c0_e_mul m ex) add_body"
definition c0_e_band :: "nat \<Rightarrow> step \<Rightarrow> step" where "c0_e_band m ex = level m (c0_e_add m ex) band_body"
definition c0_e_bxor :: "nat \<Rightarrow> step \<Rightarrow> step" where "c0_e_bxor m ex = level m (c0_e_band m ex) bxor_body"
definition c0_e_bor :: "nat \<Rightarrow> step \<Rightarrow> step" where "c0_e_bor m ex = level m (c0_e_bxor m ex) bor_body"
definition c0_e_shift :: "nat \<Rightarrow> step \<Rightarrow> step" where "c0_e_shift m ex = level m (c0_e_bor m ex) shift_body"
definition c0_e_cmp :: "nat \<Rightarrow> step \<Rightarrow> step" where "c0_e_cmp m ex = level m (c0_e_shift m ex) cmp_body"
definition c0_e_and :: "nat \<Rightarrow> step \<Rightarrow> step" where "c0_e_and m ex = level m (c0_e_cmp m ex) and_body"
definition c0_e_or :: "nat \<Rightarrow> step \<Rightarrow> step" where "c0_e_or m ex = level m (c0_e_and m ex) or_body"

primrec c0_expr :: "nat \<Rightarrow> step" where
  "c0_expr 0 = (\<lambda>c. None)"
| "c0_expr (Suc n) = c0_e_or (Suc n) (c0_expr n)"

section \<open>Statements\<close>

fun arr_lit_loop :: "nat \<Rightarrow> step \<Rightarrow> nat \<Rightarrow> u16 \<Rightarrow> nat \<Rightarrow> step" where
  "arr_lit_loop 0 ex li cap ei c = None"
| "arr_lit_loop (Suc k) ex li cap ei c =
     (if rejected c then Some c
      else if ei \<ge> unat cap then fail_s ''VM_REJ_ARRAY_LIT_LEN'' c
      else c0_seq (emit_s OP_PUSH_CONST (of_nat ei)) (c0_seq ex (c0_seq (emit_s OP_STORE_INDEX (of_nat li))
             (\<lambda>c1. if c0_at_punct c1 '','' then arr_lit_loop k ex li cap (ei + 1) (c0_bump c1) else Some c1))) c)"

definition c0_emit_arr_lit :: "nat \<Rightarrow> step \<Rightarrow> nat \<Rightarrow> u16 \<Rightarrow> step" where
  "c0_emit_arr_lit m ex li cap =
     expect_punct ''['' ''VM_REJ_PARSE'' (\<lambda>c.
       if \<not> c0_at_punct c '']'' then
         c0_seq (arr_lit_loop m ex li cap 0) (expect_punct '']'' ''VM_REJ_PARSE'' Some) c
       else expect_punct '']'' ''VM_REJ_PARSE'' Some c)"

text \<open>\<open>x[e] = e'\<close>, at the bracket.\<close>

definition assign_index :: "step \<Rightarrow> string \<Rightarrow> step" where
  "assign_index ex t c =
     (case c0_find_local c t of
        Some li \<Rightarrow>
          if c0_local_arr_n c li = 0 then fail_s ''VM_REJ_INDEX_NOT_ARRAY'' c
          else c0_seq ex (expect_punct '']'' ''VM_REJ_PARSE'' (expect_punct ''='' ''VM_REJ_UNSUPPORTED_STMT''
                 (c0_seq ex (emit_s OP_STORE_INDEX (of_nat li))))) (c0_bump c)
      | None \<Rightarrow> fail_s ''VM_REJ_UNBOUND_IDENT'' c)"

text \<open>\<open>x : [n] int\<close>, with an optional literal: from the element type on, and after the colon.\<close>

definition declare_elem :: "nat \<Rightarrow> step \<Rightarrow> string \<Rightarrow> u16 \<Rightarrow> step" where
  "declare_elem m ex t nval c =
     (if \<not> (c0_at_ident c ''int'' \<or> c0_at_ident c ''i64'') then fail_s ''VM_REJ_ARRAY_ELEM_NOT_INT'' c
      else
        let (li, c1) = c0_local_idx t (c0_bump c) in
        if rejected c1 then Some c1
        else let c2 = c0_mark_arr li nval c1 in
          if c0_at_punct c2 ''='' then c0_emit_arr_lit m ex li nval (c0_bump c2) else Some c2)"

definition declare_array :: "nat \<Rightarrow> step \<Rightarrow> string \<Rightarrow> step" where
  "declare_array m ex t =
     expect_punct ''['' ''VM_REJ_PARSE'' (\<lambda>c.
       if tk_kind (c0_peek c) \<noteq> C0_TK_NUMBER then fail_s ''VM_REJ_PARSE'' c
       else case c0_parse_u16 (tk_text (c0_peek c)) of
         None \<Rightarrow> fail_s ''VM_REJ_ARRAY_TOO_LARGE'' (c0_bump c)
       | Some nval \<Rightarrow>
         if nval < 1 \<or> unat nval > LIN_VM_MAX_ARR_LEN then fail_s ''VM_REJ_ARRAY_TOO_LARGE'' (c0_bump c)
         else expect_punct '']'' ''VM_REJ_PARSE'' (declare_elem m ex t nval) (c0_bump c))"

text \<open>After the equals sign: an array literal, or a scalar to be stored.\<close>

definition store_scalar :: "string \<Rightarrow> step" where
  "store_scalar t c =
     (let (li, c1) = c0_local_idx t c in
      if rejected c1 then Some c1
      else if c0_local_arr_n c1 li > 0 then fail_s ''VM_REJ_ARRAY_AS_SCALAR'' c1
      else emit_s OP_STORE_LOCAL (of_nat li) c1)"

definition assign_value :: "nat \<Rightarrow> step \<Rightarrow> string \<Rightarrow> step" where
  "assign_value m ex t c =
     (if c0_at_punct c ''['' then
        let (li, c1) = c0_local_idx t c in
        if rejected c1 then Some c1
        else if c0_local_arr_n c1 li = 0 then fail_s ''VM_REJ_INDEX_NOT_ARRAY'' c1
        else c0_emit_arr_lit m ex li (c0_local_arr_n c1 li) c1
      else c0_seq ex (store_scalar t) c)"

definition c0_assign :: "nat \<Rightarrow> step \<Rightarrow> step" where
  "c0_assign m ex c0 =
     (let tk = c0_peek c0; t = tk_text tk in
      if tk_kind tk \<noteq> C0_TK_IDENT then fail_s ''VM_REJ_UNSUPPORTED_STMT'' c0
      else let c = c0_bump c0 in
        if c0_at_punct c ''['' then assign_index ex t c
        else if c0_at_punct c '':'' then declare_array m ex t (c0_bump c)
        else expect_punct ''='' ''VM_REJ_UNSUPPORTED_STMT'' (assign_value m ex t) c)"

primrec block_loop :: "nat \<Rightarrow> step \<Rightarrow> step" where
  "block_loop 0 st c =
     (if c0_at_punct c ''}'' then Some (c0_bump c)
      else if rejected c then Some c
      else if tk_kind (c0_peek c) = C0_TK_EOF then fail_s ''VM_REJ_PARSE'' c
      else None)"
| "block_loop (Suc k) st c =
     (if c0_at_punct c ''}'' then Some (c0_bump c)
      else if rejected c then Some c
      else if tk_kind (c0_peek c) = C0_TK_EOF then fail_s ''VM_REJ_PARSE'' c
      else Option.bind (st c) (block_loop k st))"

definition c0_block :: "nat \<Rightarrow> step \<Rightarrow> step" where
  "c0_block m st = expect_punct ''{'' ''VM_REJ_PARSE'' (block_loop m st)"

text \<open>The condition, the guarded block and its exit jump, whose index joins \<open>ends\<close>.\<close>

definition if_arm :: "nat \<Rightarrow> step \<Rightarrow> step \<Rightarrow> nat list \<Rightarrow> C0Comp \<Rightarrow> (nat list \<times> C0Comp) option" where
  "if_arm m ex st ends c =
     (if \<not> c0_at_punct c ''('' then Some (ends, c0_fail (Rej ''VM_REJ_PARSE'') c)
      else Option.bind (ex (c0_bump c)) (\<lambda>c1.
        if rejected c1 then Some (ends, c1)
        else if \<not> c0_at_punct c1 '')'' then Some (ends, c0_fail (Rej ''VM_REJ_PARSE'') c1)
        else let (jf, c2) = c0_emit OP_JUMP_IF_FALSE 0 (c0_bump c1) in
          if rejected c2 then Some (ends, c2)
          else Option.bind (c0_block m st c2) (\<lambda>c3.
            if rejected c3 then Some (ends, c3)
            else let (je, c4) = c0_emit OP_JUMP 0 c3 in
              if rejected c4 then Some (ends, c4)
              else if \<not> cmem c4 AtEnds (length ends) then Some (ends, c0_fail C0_OOM c4)
              else Some (ends @ [je], c0_patch jf c4))))"

primrec c0_if_chain :: "nat \<Rightarrow> nat \<Rightarrow> step \<Rightarrow> step \<Rightarrow> nat list \<Rightarrow> C0Comp \<Rightarrow> (nat list \<times> C0Comp) option" where
  "c0_if_chain 0 m ex st ends c = None"
| "c0_if_chain (Suc k) m ex st ends c =
     Option.bind (if_arm m ex st ends c) (\<lambda>(ends1, c1).
       if rejected c1 then Some (ends1, c1)
       else if c0_at_punct c1 '':'' then
         let c2 = c0_bump c1 in
         if c0_at_punct c2 ''('' then c0_if_chain k m ex st ends1 c2
         else map_option (Pair ends1) (c0_block m st c2)
       else if c0_at_ident c1 ''else'' then
         let c2 = c0_bump c1 in
         if c0_at_ident c2 ''if'' then c0_if_chain k m ex st ends1 (c0_bump c2)
         else map_option (Pair ends1) (c0_block m st c2)
       else Some (ends1, c1))"

fun for_close_from :: "C0Tok list \<Rightarrow> nat \<Rightarrow> nat \<Rightarrow> nat option" where
  "for_close_from [] i d = None"
| "for_close_from (t # ts) i d =
     (if tk_kind t \<noteq> C0_TK_PUNCT then for_close_from ts (Suc i) d
      else if c0_tok_eq t ''('' then for_close_from ts (Suc i) (d + 1)
      else if c0_tok_eq t '')'' then (if d = 0 then Some i else for_close_from ts (Suc i) (d - 1))
      else for_close_from ts (Suc i) d)"

definition c0_for_close :: "C0Comp \<Rightarrow> nat \<Rightarrow> nat option" where
  "c0_for_close c start = for_close_from (drop start (ctoks c)) start 0"

definition return_stmt :: "step \<Rightarrow> step" where
  "return_stmt ex c = c0_seq ex (\<lambda>c1. Option.bind (skip_punct '';'' c1) (emit_s OP_RET 0)) (c0_bump c)"

definition if_stmt :: "nat \<Rightarrow> step \<Rightarrow> step \<Rightarrow> step" where
  "if_stmt m ex st c =
     Option.bind (c0_if_chain m m ex st [] (c0_bump c)) (\<lambda>(ends, c1).
       if rejected c1 then Some c1 else skip_punct '';'' (foldl (\<lambda>c e. c0_patch e c) c1 ends))"

definition while_stmt :: "nat \<Rightarrow> step \<Rightarrow> step \<Rightarrow> step" where
  "while_stmt m ex st c0 =
     (let c = c0_bump c0; loop_top = c0_here c in
      expect_punct ''('' ''VM_REJ_PARSE'' (c0_seq ex (expect_punct '')'' ''VM_REJ_PARSE'' (\<lambda>c1.
        let (jf, c2) = c0_emit OP_JUMP_IF_FALSE 0 c1 in
        if rejected c2 then Some c2
        else c0_seq (c0_block m st) (c0_seq (emit_s OP_JUMP loop_top) (\<lambda>c3. skip_punct '';'' (c0_patch jf c3))) c2))) c)"

text \<open>
  The increment of a \<open>for\<close> stands before the body and runs after it: its position is saved,
  the body compiled from behind the closing parenthesis, and the increment from the saved
  position, which it has to consume exactly.
\<close>

definition for_step :: "nat \<Rightarrow> step \<Rightarrow> nat \<Rightarrow> nat \<Rightarrow> step" where
  "for_step m ex step_pos close_pos c =
     (if step_pos \<noteq> close_pos then
        c0_seq (c0_assign m ex) (\<lambda>c1. if cpos c1 \<noteq> close_pos then fail_s ''VM_REJ_PARSE'' c1 else Some c1)
          (c\<lparr>cpos := step_pos\<rparr>)
      else Some (c\<lparr>cpos := step_pos\<rparr>))"

definition for_body :: "nat \<Rightarrow> step \<Rightarrow> step \<Rightarrow> nat \<Rightarrow> step" where
  "for_body m ex st cond_pos c =
     (case c0_for_close c (cpos c) of
        None \<Rightarrow> fail_s ''VM_REJ_PARSE'' c
      | Some close_pos \<Rightarrow>
        let step_pos = cpos c; (jf, c1) = c0_emit OP_JUMP_IF_FALSE 0 (c\<lparr>cpos := close_pos + 1\<rparr>) in
        if rejected c1 then Some c1
        else c0_seq (c0_block m st) (\<lambda>c2.
          c0_seq (for_step m ex step_pos close_pos)
            (\<lambda>c3. c0_seq (emit_s OP_JUMP (of_nat cond_pos))
               (\<lambda>c4. skip_punct '';'' (c0_patch jf c4)) (c3\<lparr>cpos := cpos c2\<rparr>)) c2) c1)"

definition for_cond :: "nat \<Rightarrow> step \<Rightarrow> step \<Rightarrow> step" where
  "for_cond m ex st c =
     (let cond_pos = length (ccode c) in
      if c0_at_punct c '';'' then
        Option.bind (emit_s OP_PUSH_CONST 1 c) (expect_punct '';'' ''VM_REJ_PARSE'' (for_body m ex st cond_pos))
      else c0_seq ex (expect_punct '';'' ''VM_REJ_PARSE'' (for_body m ex st cond_pos)) c)"

definition for_stmt :: "nat \<Rightarrow> step \<Rightarrow> step \<Rightarrow> step" where
  "for_stmt m ex st c =
     expect_punct ''('' ''VM_REJ_PARSE''
       (c0_seq (\<lambda>c1. if \<not> c0_at_punct c1 '';'' then c0_assign m ex c1 else Some c1)
          (expect_punct '';'' ''VM_REJ_PARSE'' (for_cond m ex st))) (c0_bump c)"

definition stmt_with :: "nat \<Rightarrow> step \<Rightarrow> step \<Rightarrow> step" where
  "stmt_with m ex st c =
     (if c0_at_punct c '';'' then bump_s c
      else if c0_at_punct c ''^'' then return_stmt ex c
      else if c0_at_ident c ''return'' then return_stmt ex c
      else if c0_at_punct c ''?'' \<or> c0_at_ident c ''if'' then if_stmt m ex st c
      else if c0_at_ident c ''while'' then while_stmt m ex st c
      else if c0_at_ident c ''for'' then for_stmt m ex st c
      else if c0_at_punct c ''#'' then fail_s ''VM_REJ_FOR_LOOP'' c
      else c0_seq (c0_assign m ex) (expect_punct '';'' ''VM_REJ_PARSE'' Some) c)"

primrec c0_stmt :: "nat \<Rightarrow> step" where
  "c0_stmt 0 = (\<lambda>c. None)"
| "c0_stmt (Suc n) = stmt_with (Suc n) (c0_expr (Suc n)) (c0_stmt n)"

end
