(* ===== verification/C0_Comp_Safety.thy ===== *)
theory C0_Comp_Safety
  imports C0_Comp
begin

text \<open>
  The invariant of the compiler state and the termination of the recursive descent, proved
  together: on a well-formed state every function returns when its fuel is the number of
  tokens left, keeps the state well-formed, and either rejects or moves on.
\<close>

section \<open>The invariant\<close>

definition code_ok :: "nat \<Rightarrow> nat \<Rightarrow> nat \<Rightarrow> VmIns list \<Rightarrow> bool" where
  "code_ok nl n_fns clen is = list_all (\<lambda>i. op i \<noteq> OP_ABI_CALL \<and> (jump_op (op i) \<longrightarrow> unat (opa i) \<le> clen) \<and>
     (op i = OP_CALL \<longrightarrow> unat (opa i) < n_fns) \<and> (local_op (op i) \<longrightarrow> unat (opa i) < nl)) is"

definition toks_ok :: "C0Tok list \<Rightarrow> bool" where
  "toks_ok ts = (ts \<noteq> [] \<and> tk_kind (last ts) = C0_TK_EOF \<and> (\<forall>t \<in> set (butlast ts). tk_kind t \<noteq> C0_TK_EOF))"

definition comp_ok :: "C0Comp \<Rightarrow> bool" where
  "comp_ok c = (toks_ok (ctoks c) \<and> cpos c < length (ctoks c) \<and> length (clocals c) \<le> LIN_VM_MAX_LOCALS \<and>
     length (carrn c) = length (clocals c) \<and> list_all (\<lambda>n. unat n \<le> LIN_VM_MAX_ARR_LEN) (carrn c) \<and>
     code_ok (length (clocals c)) (length (cfns c)) (length (ccode c)) (ccode c))"

text \<open>What a step may change.\<close>

definition ext :: "C0Comp \<Rightarrow> C0Comp \<Rightarrow> bool" where
  "ext c c' = (comp_ok c' \<and> ctoks c' = ctoks c \<and> cfns c' = cfns c \<and> cpos c \<le> cpos c' \<and>
     length (ccode c) \<le> length (ccode c') \<and> (\<forall>j < length (ccode c). op (ccode c' ! j) = op (ccode c ! j)) \<and>
     take (length (clocals c)) (clocals c') = clocals c)"

text \<open>\<open>go k c r\<close>: a run from \<open>c\<close> returned, changed what it may, and rejected or reached \<open>k\<close>.\<close>

definition go :: "nat \<Rightarrow> C0Comp \<Rightarrow> C0Comp option \<Rightarrow> bool" where
  "go k c r = (\<exists>c'. r = Some c' \<and> ext c c' \<and> (rejected c' \<or> k \<le> cpos c'))"

definition todo :: "C0Comp \<Rightarrow> nat" where
  "todo c = length (ctoks c) - cpos c"

lemma ext_refl: "comp_ok c \<Longrightarrow> ext c c"
  by (simp add: ext_def)

lemma ext_locals: "ext c c' \<Longrightarrow> length (clocals c) \<le> length (clocals c')"
  by (metis ext_def length_take min.cobounded1 min.absorb_iff2 nle_le)

lemma ext_trans: "ext c c1 \<Longrightarrow> ext c1 c2 \<Longrightarrow> ext c c2"
proof -
  assume e: "ext c c1" "ext c1 c2"
  note l = ext_locals [OF e(1)]
  have "take (length (clocals c)) (clocals c2) = take (length (clocals c)) (take (length (clocals c1)) (clocals c2))"
    using l by (simp add: min_def)
  also have "\<dots> = clocals c" using e by (simp add: ext_def)
  finally show ?thesis using e unfolding ext_def by (auto dest: order_trans order.strict_trans1)
qed

lemma ext_ok: "ext c c' \<Longrightarrow> comp_ok c'"
  by (simp add: ext_def)

lemma ext_todo: "ext c c' \<Longrightarrow> todo c' \<le> todo c"
  by (auto simp: ext_def todo_def)

lemma todo_pos: "comp_ok c \<Longrightarrow> 0 < todo c"
  by (simp add: comp_ok_def todo_def)

lemma todo_progress: "ext c c' \<Longrightarrow> cpos c < cpos c' \<Longrightarrow> todo c' < todo c"
  by (auto simp: ext_def todo_def comp_ok_def)

lemma goI: "ext c c' \<Longrightarrow> rejected c' \<or> k \<le> cpos c' \<Longrightarrow> go k c (Some c')"
  by (auto simp: go_def)

lemma go_pre: "ext c c1 \<Longrightarrow> go k c1 r \<Longrightarrow> go k c r"
  by (auto simp: go_def intro: ext_trans)

lemma go_bind:
  assumes "go k1 c r" "\<And>c1. ext c c1 \<Longrightarrow> rejected c1 \<or> k1 \<le> cpos c1 \<Longrightarrow> go k c1 (g c1)"
  shows "go k c (Option.bind r g)"
proof -
  from assms(1) obtain c1 where c1: "r = Some c1" "ext c c1" "rejected c1 \<or> k1 \<le> cpos c1" by (auto simp: go_def)
  from go_pre [OF c1(2) assms(2) [OF c1(2,3)]] c1(1) show ?thesis by simp
qed

lemma go_seq:
  assumes "go k1 c (f c)" "\<And>c1. ext c c1 \<Longrightarrow> \<not> rejected c1 \<Longrightarrow> k1 \<le> cpos c1 \<Longrightarrow> go k c1 (g c1)"
  shows "go k c (c0_seq f g c)"
  unfolding c0_seq_def
proof (rule go_bind [OF assms(1)])
  fix c1 assume "ext c c1" "rejected c1 \<or> k1 \<le> cpos c1"
  then show "go k c1 (if rejected c1 then Some c1 else g c1)"
    using assms(2) ext_ok ext_refl by (auto intro: goI)
qed

lemma go_weaken: "go k c r \<Longrightarrow> k' \<le> k \<Longrightarrow> go k' c r"
  by (auto simp: go_def)

section \<open>Elementary steps\<close>

lemma not_eof_pos: "comp_ok c \<Longrightarrow> tk_kind (c0_peek c) \<noteq> C0_TK_EOF \<Longrightarrow> Suc (cpos c) < length (ctoks c)"
proof (rule ccontr)
  assume a: "comp_ok c" "tk_kind (c0_peek c) \<noteq> C0_TK_EOF" "\<not> Suc (cpos c) < length (ctoks c)"
  then have "cpos c = length (ctoks c) - 1" by (auto simp: comp_ok_def)
  with a show False by (auto simp: comp_ok_def toks_ok_def c0_peek_def last_conv_nth)
qed

lemma ext_move:
  assumes "comp_ok c" "cpos c \<le> p" "p < length (ctoks c)"
  shows "ext c (c\<lparr>cpos := p\<rparr>)"
  using assms by (auto simp: ext_def comp_ok_def)

lemma ext_bump: "comp_ok c \<Longrightarrow> ext c (c0_bump c)"
  using not_eof_pos [of c] by (auto simp: c0_bump_def intro!: ext_move ext_refl)

lemma bump_pos:
  "tk_kind (c0_peek c) \<noteq> C0_TK_EOF \<Longrightarrow> cpos (c0_bump c) = Suc (cpos c)"
  by (simp add: c0_bump_def)

lemma at_not_eof: "c0_at_punct c t \<Longrightarrow> tk_kind (c0_peek c) \<noteq> C0_TK_EOF" "c0_at_ident c t \<Longrightarrow> tk_kind (c0_peek c) \<noteq> C0_TK_EOF"
  by (simp_all add: c0_at_punct_def c0_at_ident_def)

lemmas at_bump = at_not_eof(1) [THEN bump_pos] at_not_eof(2) [THEN bump_pos]

lemma rejected_simps [simp]:
  "rejected (c0_bump c) = rejected c" "rejected (c0_fail r c)" "rejected (c\<lparr>cpos := p\<rparr>) = rejected c"
  "rejected (c0_patch j c) = rejected c" "rejected (c0_mark_arr li n c) = rejected c"
  by (auto simp: rejected_def c0_bump_def c0_fail_def c0_patch_def c0_mark_arr_def)

lemma bump_sel [simp]:
  "clocals (c0_bump c) = clocals c" "carrn (c0_bump c) = carrn c" "cfns (c0_bump c) = cfns c"
  "ccode (c0_bump c) = ccode c" "ctoks (c0_bump c) = ctoks c"
  by (simp_all add: c0_bump_def)

lemma ext_fail: "comp_ok c \<Longrightarrow> ext c (c0_fail r c)"
  by (auto simp: c0_fail_def ext_def comp_ok_def)

lemma go_fail: "comp_ok c \<Longrightarrow> go k c (fail_s r c)"
  by (auto simp: fail_s_def intro: goI ext_fail)

text \<open>An instruction that may be emitted in a state.\<close>

definition emittable :: "C0Comp \<Rightarrow> VmOp \<Rightarrow> i64 \<Rightarrow> bool" where
  "emittable c o1 a = (o1 \<noteq> OP_ABI_CALL \<and> (jump_op o1 \<longrightarrow> unat a \<le> length (ccode c)) \<and>
     (o1 = OP_CALL \<longrightarrow> unat a < length (cfns c)) \<and> (local_op o1 \<longrightarrow> unat a < length (clocals c)))"

lemma code_ok_mono: "code_ok nl n clen is \<Longrightarrow> nl \<le> nl' \<Longrightarrow> clen \<le> clen' \<Longrightarrow> code_ok nl' n clen' is"
  by (auto simp: code_ok_def list_all_iff)

lemma ext_emit:
  assumes "comp_ok c" "emittable c o1 a"
  shows "ext c (snd (c0_emit o1 a c))" "cpos (snd (c0_emit o1 a c)) = cpos c"
    "\<not> rejected (snd (c0_emit o1 a c)) \<Longrightarrow> fst (c0_emit o1 a c) = length (ccode c) \<and>
       length (ccode (snd (c0_emit o1 a c))) = Suc (length (ccode c)) \<and> op (ccode (snd (c0_emit o1 a c)) ! length (ccode c)) = o1"
proof -
  have "code_ok (length (clocals c)) (length (cfns c)) (Suc (length (ccode c))) (ccode c)"
    using assms(1) code_ok_mono by (auto simp: comp_ok_def)
  then have "comp_ok (c\<lparr>ccode := ccode c @ [\<lparr>op = o1, opa = a\<rparr>]\<rparr>)"
    using assms by (auto simp: comp_ok_def emittable_def code_ok_def)
  then show "ext c (snd (c0_emit o1 a c))"
    using ext_fail [OF assms(1)] by (auto simp: c0_emit_def ext_def nth_append)
  show "cpos (snd (c0_emit o1 a c)) = cpos c" by (simp add: c0_emit_def c0_fail_def)
  show "\<not> rejected (snd (c0_emit o1 a c)) \<Longrightarrow> fst (c0_emit o1 a c) = length (ccode c) \<and>
       length (ccode (snd (c0_emit o1 a c))) = Suc (length (ccode c)) \<and> op (ccode (snd (c0_emit o1 a c)) ! length (ccode c)) = o1"
    by (auto simp: c0_emit_def split: if_splits)
qed

lemma go_emit: "comp_ok c \<Longrightarrow> emittable c o1 a \<Longrightarrow> k \<le> cpos c \<Longrightarrow> go k c (emit_s o1 a c)"
  unfolding emit_s_def by (rule goI) (simp_all add: ext_emit)

definition plain_op :: "VmOp \<Rightarrow> bool" where
  "plain_op o1 = (o1 \<noteq> OP_ABI_CALL \<and> \<not> jump_op o1 \<and> o1 \<noteq> OP_CALL \<and> \<not> local_op o1)"

lemma emittable_plain: "plain_op o1 \<Longrightarrow> emittable c o1 a"
  by (simp add: plain_op_def emittable_def)

lemma emittable_jump: "jump_op o1 \<Longrightarrow> unat a \<le> length (ccode c) \<Longrightarrow> emittable c o1 a"
  by (auto simp: emittable_def jump_op_def local_op_def)

lemma unat_of_nat_le: "unat (of_nat k :: 'a::len word) \<le> k"
  by (simp add: unsigned_of_nat take_bit_nat_less_eq_self)

lemma emittable_local: "local_op o1 \<Longrightarrow> li < length (clocals c) \<Longrightarrow> emittable c o1 (of_nat li)"
  using unat_of_nat_le [of li, where 'a = 64] by (auto simp: emittable_def local_op_def jump_op_def)

lemma ext_patch:
  assumes "comp_ok c" "j < length (ccode c)" "jump_op (op (ccode c ! j))"
  shows "ext c (c0_patch j c)"
proof -
  have "unat (c0_here c) \<le> length (ccode c)" by (simp add: c0_here_def unat_of_nat_le)
  moreover have "code_ok (length (clocals c)) (length (cfns c)) (length (ccode c)) (ccode c)"
    using assms(1) by (simp add: comp_ok_def)
  then have "list_all (\<lambda>i. op i \<noteq> OP_ABI_CALL \<and> (jump_op (op i) \<longrightarrow> unat (opa i) \<le> length (ccode c)) \<and>
     (op i = OP_CALL \<longrightarrow> unat (opa i) < length (cfns c)) \<and> (local_op (op i) \<longrightarrow> unat (opa i) < length (clocals c))) (ccode c)"
    by (simp add: code_ok_def)
  ultimately have "code_ok (length (clocals c)) (length (cfns c)) (length (ccode c))
      ((ccode c)[j := (ccode c ! j)\<lparr>opa := c0_here c\<rparr>])"
    using assms(2,3) unfolding code_ok_def list_all_length
    by (auto simp: nth_list_update jump_op_def local_op_def)
  then show ?thesis using assms by (auto simp: ext_def comp_ok_def c0_patch_def nth_list_update)
qed

lemma find_local_bound: "c0_find_local c t = Some li \<Longrightarrow> li < length (clocals c)"
  by (auto simp: c0_find_local_def dest: index_from_Some)

lemma find_fn_bound: "c0_find_fn c t = Some fi \<Longrightarrow> fi < length (cfns c)"
  by (auto simp: c0_find_fn_def dest: index_from_Some)

lemma ext_local_idx:
  assumes "comp_ok c" "c0_local_idx t c = (li, c')"
  shows "ext c c'" "cpos c' = cpos c" "\<not> rejected c' \<Longrightarrow> li < length (clocals c')"
proof -
  have "code_ok (Suc (length (clocals c))) (length (cfns c)) (length (ccode c)) (ccode c)"
    using assms(1) code_ok_mono by (auto simp: comp_ok_def)
  then have "length (clocals c) < LIN_VM_MAX_LOCALS \<Longrightarrow> ext c (c\<lparr>clocals := clocals c @ [t], carrn := carrn c @ [0]\<rparr>)"
    using assms(1) by (auto simp: ext_def comp_ok_def)
  then show "ext c c'" using assms ext_fail [OF assms(1)] ext_refl [OF assms(1)]
    by (auto simp: c0_local_idx_def split: option.splits if_splits)
  show "cpos c' = cpos c" using assms(2)
    by (auto simp: c0_local_idx_def c0_fail_def split: option.splits if_splits)
  show "\<not> rejected c' \<Longrightarrow> li < length (clocals c')" using assms(2)
    by (auto simp: c0_local_idx_def split: option.splits if_splits dest: find_local_bound)
qed

lemma ext_mark_arr:
  assumes "comp_ok c" "unat n \<le> LIN_VM_MAX_ARR_LEN"
  shows "ext c (c0_mark_arr li n c)"
  using assms by (auto simp: c0_mark_arr_def ext_def comp_ok_def list_all_iff dest!: set_update_subset_insert [THEN subsetD])

lemma mark_arr_sel [simp]: "cpos (c0_mark_arr li n c) = cpos c" "clocals (c0_mark_arr li n c) = clocals c"
  by (simp_all add: c0_mark_arr_def)

lemma go_expect:
  assumes "comp_ok c" "\<And>c1. ext c c1 \<Longrightarrow> cpos c1 = Suc (cpos c) \<Longrightarrow> rejected c1 = rejected c \<Longrightarrow>
      clocals c1 = clocals c \<Longrightarrow> ccode c1 = ccode c \<Longrightarrow> go k c1 (f c1)"
  shows "go k c (expect_punct t r f c)"
proof (cases "c0_at_punct c t")
  case True
  note e = ext_bump [OF assms(1)]
  show ?thesis
    using go_pre [OF e assms(2) [OF e]] at_bump(1) [OF True] True by (simp add: expect_punct_def)
qed (simp add: expect_punct_def go_fail assms(1))

lemma go_Some: "comp_ok c \<Longrightarrow> k \<le> cpos c \<Longrightarrow> go k c (Some c)"
  by (auto intro: goI ext_refl)

lemma go_skip: "comp_ok c \<Longrightarrow> k \<le> cpos c \<Longrightarrow> go k c (skip_punct t c)"
  unfolding skip_punct_def c0_accept_punct_def
  using ext_bump [of c] ext_refl [of c] at_bump(1) [of c t] by (auto intro!: goI)

text \<open>\<open>parses m f\<close>: with at most \<open>m\<close> tokens left, \<open>f\<close> returns and rejects or moves on.\<close>

definition parses :: "nat \<Rightarrow> step \<Rightarrow> bool" where
  "parses m f = (\<forall>c. comp_ok c \<longrightarrow> \<not> rejected c \<longrightarrow> todo c \<le> m \<longrightarrow> go (Suc (cpos c)) c (f c))"

lemma parsesD: "parses m f \<Longrightarrow> comp_ok c \<Longrightarrow> \<not> rejected c \<Longrightarrow> todo c \<le> m \<Longrightarrow> go (Suc (cpos c)) c (f c)"
  by (simp add: parses_def)

lemma parses_after:
  assumes "parses m f" "ext c c1" "\<not> rejected c1" "todo c \<le> Suc m" "cpos c < cpos c1"
  shows "go (Suc (cpos c1)) c1 (f c1)"
proof (rule parsesD [OF assms(1) ext_ok [OF assms(2)] assms(3)])
  show "todo c1 \<le> m" using todo_progress [OF assms(2,5)] assms(4) by simp
qed

lemma go_while:
  assumes P: "\<And>c. P c \<Longrightarrow> \<not> rejected c"
    and f: "\<And>c. comp_ok c \<Longrightarrow> P c \<Longrightarrow> todo c \<le> m \<Longrightarrow> go (Suc (cpos c)) c (f c)"
  shows "comp_ok c \<Longrightarrow> todo c \<le> n \<Longrightarrow> n \<le> m \<Longrightarrow> go (cpos c) c (c0_while n P f c)"
proof (induction n arbitrary: c)
  case 0
  then show ?case using todo_pos by force
next
  case (Suc n)
  show ?case
  proof (cases "P c")
    case True
    have "go (cpos c) c (Option.bind (f c) (c0_while n P f))"
    proof (rule go_bind [OF f [OF Suc.prems(1) True]])
      show "todo c \<le> m" using Suc.prems by simp
      fix c1 assume c1: "ext c c1" "rejected c1 \<or> Suc (cpos c) \<le> cpos c1"
      show "go (cpos c) c1 (c0_while n P f c1)"
      proof (cases "rejected c1")
        case True
        then have "c0_while n P f c1 = Some c1" using P by (cases n) auto
        then show ?thesis using c1(1) True by (auto intro: goI ext_refl ext_ok)
      next
        case False
        then have "todo c1 \<le> n" using c1 todo_progress [OF c1(1)] Suc.prems(2) by auto
        from Suc.IH [OF ext_ok [OF c1(1)] this] Suc.prems(3) False c1(2) show ?thesis
          by (auto intro: go_weaken)
      qed
    qed
    then show ?thesis using True by simp
  qed (use Suc.prems in \<open>simp add: go_Some\<close>)
qed

section \<open>Expressions\<close>

lemma binop_parses:
  assumes "parses m sub" "comp_ok c" "\<not> rejected c" "todo c \<le> Suc m" "c0_at_punct c t" "plain_op o1"
  shows "go (Suc (cpos c)) c (binop_body sub o1 c)"
proof -
  note e = ext_bump [OF assms(2)] and p = at_bump(1) [OF assms(5)]
  have "go (Suc (cpos c)) (c0_bump c) (c0_seq sub (emit_s o1 0) (c0_bump c))"
  proof (rule go_seq)
    show "go (Suc (cpos (c0_bump c))) (c0_bump c) (sub (c0_bump c))"
      using assms(3,4) p by (intro parses_after [OF assms(1) e]) auto
    fix c1 assume "ext (c0_bump c) c1" "Suc (cpos (c0_bump c)) \<le> cpos c1"
    then show "go (Suc (cpos c)) c1 (emit_s o1 0 c1)"
      using p by (intro go_emit emittable_plain [OF assms(6)]) (auto intro: ext_ok)
  qed
  then show ?thesis unfolding binop_body_def by (rule go_pre [OF e])
qed

lemma short_circuit_parses:
  assumes "parses m sub" "comp_ok c" "\<not> rejected c" "todo c \<le> Suc m" "c0_at_punct c t" "jump_op jop"
  shows "go (Suc (cpos c)) c (short_circuit_body sub jop c)"
proof -
  note e = ext_bump [OF assms(2)] and p = at_bump(1) [OF assms(5)]
  obtain j c1 where j: "c0_emit jop 0 (c0_bump c) = (j, c1)" by fastforce
  have em: "emittable (c0_bump c) jop 0" using assms(6) by (simp add: emittable_jump)
  note x = ext_emit [OF ext_ok [OF e] em, unfolded j]
  have c1: "ext (c0_bump c) c1" "cpos c1 = Suc (cpos c)" using x p by simp_all
  have "go (Suc (cpos c)) c1 (if rejected c1 then Some c1
      else c0_seq (emit_s OP_POP 0) (c0_seq sub (\<lambda>c2. Some (c0_patch j c2))) c1)"
  proof (cases "rejected c1")
    case True
    then show ?thesis using c1 by (auto intro: goI ext_refl ext_ok)
  next
    case False
    note l = x(3) [simplified, OF False]
    have "go (Suc (cpos c)) c1 (c0_seq (emit_s OP_POP 0) (c0_seq sub (\<lambda>c2. Some (c0_patch j c2))) c1)"
    proof (rule go_seq)
      show "go (Suc (cpos c)) c1 (emit_s OP_POP 0 c1)"
        using c1 by (intro go_emit emittable_plain) (auto simp: plain_op_def jump_op_def local_op_def intro: ext_ok)
      fix c2 assume c2: "ext c1 c2" "\<not> rejected c2" "Suc (cpos c) \<le> cpos c2"
      have "go (Suc (cpos c2)) c2 (sub c2)"
        using c2 assms(4) ext_trans [OF ext_trans [OF e c1(1)] c2(1)] by (intro parses_after [OF assms(1)]) auto
      then show "go (Suc (cpos c)) c2 (c0_seq sub (\<lambda>c2. Some (c0_patch j c2)) c2)"
      proof (rule go_seq)
        fix c3 assume c3: "ext c2 c3" "Suc (cpos c2) \<le> cpos c3"
        have "ext c1 c3" using c2(1) c3(1) by (rule ext_trans)
        then have "j < length (ccode c3)" "jump_op (op (ccode c3 ! j))"
          using l assms(6) by (auto simp: ext_def)
        from ext_patch [OF ext_ok [OF c3(1)] this] show "go (Suc (cpos c)) c3 (Some (c0_patch j c3))"
          using c2(3) c3(2) by (intro goI) (auto simp: c0_patch_def)
      qed
    qed
    then show ?thesis using False by simp
  qed
  from go_pre [OF ext_trans [OF e c1(1)] this] show ?thesis
    unfolding short_circuit_body_def j Let_def prod.case .
qed

text \<open>A level is as good as what it is built on, if its operators are.\<close>

definition body_parses :: "(step \<Rightarrow> C0Comp \<Rightarrow> step option) \<Rightarrow> bool" where
  "body_parses body = (\<forall>m sub c f. parses m sub \<longrightarrow> comp_ok c \<longrightarrow> \<not> rejected c \<longrightarrow> todo c \<le> Suc m \<longrightarrow>
     body sub c = Some f \<longrightarrow> go (Suc (cpos c)) c (f c))"

lemma level_parses:
  assumes "parses m sub" "body_parses body"
  shows "parses m (level m sub body)"
  unfolding parses_def level_def
proof (intro allI impI)
  fix c assume c: "comp_ok c" "\<not> rejected c" "todo c \<le> m"
  let ?P = "\<lambda>c. \<not> rejected c \<and> body sub c \<noteq> None"
  let ?f = "\<lambda>c. case body sub c of Some f \<Rightarrow> f c | None \<Rightarrow> Some c"
  show "go (Suc (cpos c)) c (Option.bind (sub c) (c0_while m ?P ?f))"
  proof (rule go_bind [OF parsesD [OF assms(1) c]])
    fix c1 assume c1: "ext c c1" "rejected c1 \<or> Suc (cpos c) \<le> cpos c1"
    have "go (cpos c1) c1 (c0_while m ?P ?f c1)"
    proof (rule go_while)
      fix d assume d: "comp_ok d" "?P d" "todo d \<le> m"
      then obtain f where "body sub d = Some f" by auto
      with d assms show "go (Suc (cpos d)) d (?f d)" by (auto simp: body_parses_def)
    qed (use c1(1) ext_todo [OF c1(1)] c(3) in \<open>auto intro: ext_ok\<close>)
    then show "go (Suc (cpos c)) c1 (c0_while m ?P ?f c1)"
    proof (cases "rejected c1")
      case True
      then have "c0_while m ?P ?f c1 = Some c1" by (cases m) auto
      then show ?thesis using c1(1) True by (auto intro: goI ext_refl ext_ok)
    next
      case False
      then show ?thesis using c1(2) \<open>go (cpos c1) c1 _\<close> by (auto intro: go_weaken)
    qed
  qed
qed

lemmas op_class_defs = plain_op_def jump_op_def local_op_def

lemma bodies_parse:
  "body_parses mul_body" "body_parses add_body" "body_parses band_body" "body_parses bxor_body" "body_parses bor_body"
  "body_parses shift_body" "body_parses cmp_body" "body_parses and_body" "body_parses or_body"
  unfolding body_parses_def mul_body_def add_body_def band_body_def bxor_body_def bor_body_def
    shift_body_def cmp_body_def and_body_def or_body_def
  by (auto intro: binop_parses short_circuit_parses go_fail simp: op_class_defs split: if_splits)

text \<open>The same for a loop that also counts.\<close>

definition go2 :: "nat \<Rightarrow> C0Comp \<Rightarrow> ('a \<times> C0Comp) option \<Rightarrow> bool" where
  "go2 k c r = (\<exists>x c'. r = Some (x, c') \<and> ext c c' \<and> (rejected c' \<or> k \<le> cpos c'))"

lemma go_bind2:
  assumes "go2 k1 c r" "\<And>x c1. ext c c1 \<Longrightarrow> rejected c1 \<or> k1 \<le> cpos c1 \<Longrightarrow> go k c1 (g (x, c1))"
  shows "go k c (Option.bind r g)"
  using assms unfolding go2_def by (auto intro: go_pre)

lemma go2_pre: "ext c c1 \<Longrightarrow> go2 k c1 r \<Longrightarrow> go2 k c r"
  by (auto simp: go2_def intro: ext_trans)

lemma go2I: "ext c c' \<Longrightarrow> rejected c' \<or> k \<le> cpos c' \<Longrightarrow> go2 k c (Some (x, c'))"
  by (auto simp: go2_def)

lemma args_loop_go:
  assumes "parses n ex"
  shows "comp_ok c \<Longrightarrow> \<not> rejected c \<Longrightarrow> todo c \<le> k \<Longrightarrow> todo c \<le> n \<Longrightarrow> go2 (Suc (cpos c)) c (args_loop k ex argc c)"
proof (induction k arbitrary: c argc)
  case 0
  then show ?case using todo_pos by force
next
  case (Suc k)
  from parsesD [OF assms Suc.prems(1,2,4)] obtain c1 where c1: "ex c = Some c1" "ext c c1"
    "rejected c1 \<or> Suc (cpos c) \<le> cpos c1" by (auto simp: go_def)
  show ?case
  proof (cases "\<not> rejected c1 \<and> c0_at_punct c1 '',''")
    case True
    note e = ext_bump [OF ext_ok [OF c1(2)]]
    have t: "todo (c0_bump c1) < todo c"
      using True c1(3) todo_progress [OF ext_trans [OF c1(2) e]] at_bump(1) [of c1] by auto
    have "go2 (Suc (cpos (c0_bump c1))) (c0_bump c1) (args_loop k ex (argc + 1) (c0_bump c1))"
      using t True Suc.prems(3,4) by (intro Suc.IH) (auto intro: ext_ok [OF e])
    then have "go2 (Suc (cpos c)) (c0_bump c1) (args_loop k ex (argc + 1) (c0_bump c1))"
      using True c1(3) at_bump(1) [of c1] by (auto simp: go2_def)
    from go2_pre [OF ext_trans [OF c1(2) e] this] show ?thesis using True c1(1) Suc.prems(2) by simp
  next
    case False
    then show ?thesis using c1 Suc.prems(2) by (auto intro: go2I)
  qed
qed

lemma intrinsic_plain: "intrinsic_op t = Some o1 \<Longrightarrow> plain_op o1"
  by (auto simp: intrinsic_op_def op_class_defs split: if_splits)

lemma emittable_call: "c0_find_fn c t = Some fi \<Longrightarrow> emittable c OP_CALL (of_nat fi)"
  using find_fn_bound [of c t fi] unat_of_nat_le [of fi, where 'a = 64] by (auto simp: emittable_def op_class_defs)

lemma finish_call_go:
  assumes "comp_ok c" "k \<le> cpos c"
  shows "go k c (finish_call t argc c)"
proof (cases "intrinsic_op t")
  case None
  with assms show ?thesis unfolding finish_call_def
    by (cases "c0_find_fn c t") (simp_all add: go_fail go_emit emittable_call)
next
  case (Some o1)
  with assms show ?thesis unfolding finish_call_def
    by (simp add: go_fail go_emit emittable_plain intrinsic_plain)
qed

lemma compile_call_go:
  assumes "parses n ex" "comp_ok c" "\<not> rejected c" "todo c \<le> m" "todo c \<le> n" "k \<le> cpos c"
  shows "go k c (compile_call m ex t c)"
proof (cases "c0_at_punct c '')''")
  case True
  then show ?thesis
    using assms unfolding compile_call_def by (auto intro!: go_expect finish_call_go intro: ext_ok)
next
  case False
  have "go k c (Option.bind (args_loop m ex 0 c) (\<lambda>(argc, c1). if rejected c1 then Some c1
          else expect_punct '')'' ''VM_REJ_PARSE'' (finish_call t argc) c1))"
  proof (rule go_bind2 [OF args_loop_go [OF assms(1-5)]])
    fix x c1 assume c1: "ext c c1" "rejected c1 \<or> Suc (cpos c) \<le> cpos c1"
    then show "go k c1 (case (x, c1) of (argc, c1) \<Rightarrow> if rejected c1 then Some c1
          else expect_punct '')'' ''VM_REJ_PARSE'' (finish_call t argc) c1)"
      using assms(6) by (auto intro!: goI ext_refl go_expect finish_call_go intro: ext_ok)
  qed
  then show ?thesis using False by (simp add: compile_call_def)
qed

lemma compile_member_go: "comp_ok c \<Longrightarrow> k \<le> cpos c \<Longrightarrow> go k c (compile_member t c)"
proof -
  assume c: "comp_ok c" "k \<le> cpos c"
  have "go k (c0_bump c) (case c0_find_local (c0_bump c) t of
           Some li \<Rightarrow> if c0_local_arr_n (c0_bump c) li = 0 then fail_s ''VM_REJ_LENGTH_NOT_ARRAY'' (c0_bump c)
                      else emit_s OP_ARR_LEN (of_nat li) (c0_bump c)
         | None \<Rightarrow> fail_s ''VM_REJ_UNBOUND_IDENT'' (c0_bump c))"
    using c ext_bump [OF c(1)]
    by (auto intro!: go_emit go_fail emittable_local simp: local_op_def ext_def split: option.splits dest: find_local_bound)
  from go_pre [OF ext_bump [OF c(1)] this] c show ?thesis
    unfolding compile_member_def by (auto intro: go_fail)
qed

lemma compile_index_go:
  assumes "parses n ex" "comp_ok c" "\<not> rejected c" "todo c \<le> Suc n" "c0_at_punct c ''[''" "k \<le> cpos c"
  shows "go k c (compile_index ex t c)"
proof -
  note e = ext_bump [OF assms(2)] and p = at_bump(1) [OF assms(5)]
  have "go k (c0_bump c) (c0_seq ex (expect_punct '']'' ''VM_REJ_PARSE'' (emit_s OP_LOAD_INDEX (of_nat li))) (c0_bump c))"
    if li: "c0_find_local c t = Some li" for li
  proof (rule go_seq)
    show "go (Suc (cpos (c0_bump c))) (c0_bump c) (ex (c0_bump c))"
      using assms(3,4) p by (intro parses_after [OF assms(1) e]) auto
    fix c1 assume c1: "ext (c0_bump c) c1" "Suc (cpos (c0_bump c)) \<le> cpos c1"
    have "li < length (clocals c1)" using find_local_bound [OF li] ext_locals [OF c1(1)] by simp
    then show "go k c1 (expect_punct '']'' ''VM_REJ_PARSE'' (emit_s OP_LOAD_INDEX (of_nat li)) c1)"
      using c1 assms(6) p by (intro go_expect go_emit emittable_local) (auto simp: local_op_def intro: ext_ok)
  qed
  then show ?thesis unfolding compile_index_def using assms(2) go_pre [OF e]
    by (auto intro: go_fail split: option.splits)
qed

lemma compile_var_go: "comp_ok c \<Longrightarrow> k \<le> cpos c \<Longrightarrow> go k c (compile_var t c)"
  unfolding compile_var_def
  by (auto intro!: go_emit go_fail emittable_local simp: local_op_def split: option.splits dest: find_local_bound)

lemma primary_parses:
  assumes "parses n ex"
  shows "parses (Suc n) (c0_e_primary (Suc n) ex)"
  unfolding parses_def
proof (intro allI impI)
  fix c assume c: "comp_ok c" "\<not> rejected c" "todo c \<le> Suc n"
  let ?c1 = "c0_bump c" and ?k = "Suc (cpos c)" and ?t = "tk_text (c0_peek c)"
  note e = ext_bump [OF c(1)]
  have ok: "comp_ok ?c1" using e by (rule ext_ok)
  have num: "go ?k c (case c0_parse_i64 ?t of None \<Rightarrow> fail_s ''VM_REJ_LITERAL_RANGE'' ?c1 | Some v \<Rightarrow> emit_s OP_PUSH_CONST v ?c1)"
    if "tk_kind (c0_peek c) = C0_TK_NUMBER"
    by (rule go_pre [OF e]) (use that ok bump_pos [of c] in
      \<open>auto intro!: go_fail go_emit emittable_plain simp: op_class_defs split: option.splits\<close>)
  have par: "go ?k c (c0_seq ex (expect_punct '')'' ''VM_REJ_PARSE'' Some) ?c1)" if "c0_at_punct c ''(''"
  proof (rule go_pre [OF e go_seq])
    show "go (Suc (cpos ?c1)) ?c1 (ex ?c1)"
      using c at_bump(1) [OF that] by (intro parses_after [OF assms e]) auto
  qed (use at_bump(1) [OF that] in \<open>auto intro!: go_expect go_Some intro: ext_ok\<close>)
  have idt: "go ?k c (if c0_tok_eq (c0_peek c) ''true'' then emit_s OP_PUSH_CONST 1 ?c1
         else if c0_tok_eq (c0_peek c) ''false'' then emit_s OP_PUSH_CONST 0 ?c1
         else if c0_at_punct ?c1 ''('' then compile_call (Suc n) ex ?t (c0_bump ?c1)
         else if c0_at_punct ?c1 ''.'' then compile_member ?t (c0_bump ?c1)
         else if c0_at_punct ?c1 ''['' then compile_index ex ?t ?c1
         else compile_var ?t ?c1)" if "tk_kind (c0_peek c) = C0_TK_IDENT"
  proof (rule go_pre [OF e])
    have p: "cpos ?c1 = ?k" using that bump_pos [of c] by simp
    then have t: "todo ?c1 \<le> n" using todo_progress [OF e] c(3) by simp
    note e2 = ext_bump [OF ok]
    have t2: "todo (c0_bump ?c1) \<le> n" using ext_todo [OF e2] t by simp
    have call: "go ?k ?c1 (compile_call (Suc n) ex ?t (c0_bump ?c1))" "go ?k ?c1 (compile_member ?t (c0_bump ?c1))"
      if "c0_at_punct ?c1 u" for u
      using at_bump(1) [OF that] p t2 c(2) ext_ok [OF e2]
      by (intro go_pre [OF e2] compile_call_go [OF assms] compile_member_go; simp)+
    show "go ?k ?c1 (if c0_tok_eq (c0_peek c) ''true'' then emit_s OP_PUSH_CONST 1 ?c1
         else if c0_tok_eq (c0_peek c) ''false'' then emit_s OP_PUSH_CONST 0 ?c1
         else if c0_at_punct ?c1 ''('' then compile_call (Suc n) ex ?t (c0_bump ?c1)
         else if c0_at_punct ?c1 ''.'' then compile_member ?t (c0_bump ?c1)
         else if c0_at_punct ?c1 ''['' then compile_index ex ?t ?c1
         else compile_var ?t ?c1)"
      using ok p t c(2) call
      by (auto intro!: go_emit emittable_plain compile_var_go compile_index_go [OF assms] simp: op_class_defs)
  qed
  have err: "go ?k c (bump_s (c0_fail (Rej ''VM_REJ_PARSE'') c))"
    unfolding bump_s_def using ext_bump [OF ext_ok [OF ext_fail [OF c(1)]]] ext_fail [OF c(1)]
    by (intro goI) (auto intro: ext_trans)
  show "go ?k c (c0_e_primary (Suc n) ex c)"
    unfolding c0_e_primary_def Let_def using num par idt err go_pre [OF e go_fail [OF ok]] by auto
qed

lemma unary_parses:
  assumes "parses n ex"
  shows "comp_ok c \<Longrightarrow> \<not> rejected c \<Longrightarrow> todo c \<le> k \<Longrightarrow> todo c \<le> Suc n \<Longrightarrow> go (Suc (cpos c)) c (c0_e_unary k (Suc n) ex c)"
proof (induction k arbitrary: c)
  case 0
  then show ?case using todo_pos by force
next
  case (Suc k)
  have r: "go (Suc (cpos c)) c (c0_seq (c0_e_unary k (Suc n) ex) (emit_s o1 0) (c0_bump c))"
    if "c0_at_punct c t" "plain_op o1" for t o1
  proof (rule go_pre [OF ext_bump [OF Suc.prems(1)] go_seq])
    note e = ext_bump [OF Suc.prems(1)] and p = at_bump(1) [OF that(1)]
    show "go (Suc (cpos (c0_bump c))) (c0_bump c) (c0_e_unary k (Suc n) ex (c0_bump c))"
      using Suc.prems todo_progress [OF e] p by (intro Suc.IH) (auto intro: ext_ok [OF e])
    fix c1 assume "ext (c0_bump c) c1" "Suc (cpos (c0_bump c)) \<le> cpos c1"
    then show "go (Suc (cpos c)) c1 (emit_s o1 0 c1)"
      using p by (intro go_emit emittable_plain [OF that(2)]) (auto intro: ext_ok)
  qed
  then show ?case
    using parsesD [OF primary_parses [OF assms] Suc.prems(1,2,4)] by (auto simp: op_class_defs)
qed

lemma expr_parses: "parses n (c0_expr n)"
proof (induction n)
  case 0
  then show ?case using todo_pos by (force simp: parses_def)
next
  case (Suc n)
  have "parses (Suc n) (c0_e_unary (Suc n) (Suc n) (c0_expr n))"
    using unary_parses [OF Suc] by (simp add: parses_def del: c0_e_unary.simps)
  then show ?case
    unfolding c0_expr.simps c0_e_or_def c0_e_and_def c0_e_cmp_def c0_e_shift_def c0_e_bor_def c0_e_bxor_def
      c0_e_band_def c0_e_add_def c0_e_mul_def
    by (intro level_parses bodies_parse)
qed

section \<open>Statements\<close>

lemma arr_lit_loop_go:
  assumes "parses m ex"
  shows "comp_ok c \<Longrightarrow> todo c \<le> k \<Longrightarrow> todo c \<le> m \<Longrightarrow> li < length (clocals c) \<Longrightarrow> go (cpos c) c (arr_lit_loop k ex li cap ei c)"
proof (induction k arbitrary: c ei)
  case 0
  then show ?case using todo_pos by force
next
  case (Suc k)
  let ?next = "\<lambda>c1. if c0_at_punct c1 '','' then arr_lit_loop k ex li cap (ei + 1) (c0_bump c1) else Some c1"
  have "go (cpos c) c (c0_seq (emit_s OP_PUSH_CONST (of_nat ei)) (c0_seq ex (c0_seq (emit_s OP_STORE_INDEX (of_nat li)) ?next)) c)"
  proof (rule go_seq)
    show "go (cpos c) c (emit_s OP_PUSH_CONST (of_nat ei) c)"
      using Suc.prems(1) by (intro go_emit emittable_plain) (auto simp: op_class_defs)
    fix c1 assume c1: "ext c c1" "\<not> rejected c1" "cpos c \<le> cpos c1"
    have "go (Suc (cpos c1)) c1 (ex c1)"
      using c1 ext_todo [OF c1(1)] Suc.prems(3) by (intro parsesD [OF assms]) (auto intro: ext_ok)
    then show "go (cpos c) c1 (c0_seq ex (c0_seq (emit_s OP_STORE_INDEX (of_nat li)) ?next) c1)"
    proof (rule go_seq)
      fix c2 assume c2: "ext c1 c2" "Suc (cpos c1) \<le> cpos c2"
      have "li < length (clocals c2)" using Suc.prems(4) ext_locals [OF c1(1)] ext_locals [OF c2(1)] by simp
      then have "go (cpos c2) c2 (emit_s OP_STORE_INDEX (of_nat li) c2)"
        using c2 by (intro go_emit emittable_local) (auto simp: local_op_def intro: ext_ok)
      then show "go (cpos c) c2 (c0_seq (emit_s OP_STORE_INDEX (of_nat li)) ?next c2)"
      proof (rule go_seq)
        fix c3 assume c3: "ext c2 c3" "cpos c2 \<le> cpos c3"
        have x: "ext c c3" using c1(1) c2(1) c3(1) by (blast intro: ext_trans)
        note e = ext_bump [OF ext_ok [OF c3(1)]]
        have "todo (c0_bump c3) < todo c"
          using todo_progress [OF ext_trans [OF x e]] c1(3) c2(2) c3(2) e by (auto simp: ext_def)
        then have "go (cpos (c0_bump c3)) (c0_bump c3) (arr_lit_loop k ex li cap (ei + 1) (c0_bump c3))"
          using Suc.prems ext_locals [OF x] by (intro Suc.IH) (auto intro: ext_ok [OF e])
        then have "go (cpos c) c3 (arr_lit_loop k ex li cap (ei + 1) (c0_bump c3))"
          by (rule go_weaken [OF go_pre [OF e]]) (use x e in \<open>auto simp: ext_def\<close>)
        then show "go (cpos c) c3 (?next c3)" using x by (auto intro: go_Some simp: ext_def)
      qed
    qed
  qed
  then show ?case using Suc.prems(1) by (auto intro: go_fail go_Some)
qed

lemma emit_arr_lit_go:
  assumes "parses m ex" "comp_ok c" "todo c \<le> m" "li < length (clocals c)" "k \<le> cpos c"
  shows "go k c (c0_emit_arr_lit m ex li cap c)"
  unfolding c0_emit_arr_lit_def
proof (rule go_expect [OF assms(2)])
  fix c1 assume c1: "ext c c1" "cpos c1 = Suc (cpos c)" "clocals c1 = clocals c"
  have "go k c1 (c0_seq (arr_lit_loop m ex li cap 0) (expect_punct '']'' ''VM_REJ_PARSE'' Some) c1)"
  proof (rule go_seq)
    show "go (cpos c1) c1 (arr_lit_loop m ex li cap 0 c1)"
      using c1 ext_todo [OF c1(1)] assms(3,4) by (intro arr_lit_loop_go [OF assms(1)]) (auto intro: ext_ok)
  qed (use c1(2) assms(5) in \<open>auto intro!: go_expect go_Some intro: ext_ok\<close>)
  then show "go k c1 (if \<not> c0_at_punct c1 '']'' then c0_seq (arr_lit_loop m ex li cap 0) (expect_punct '']'' ''VM_REJ_PARSE'' Some) c1
       else expect_punct '']'' ''VM_REJ_PARSE'' Some c1)"
    using c1(1,2) assms(5) by (auto intro!: go_expect go_Some intro: ext_ok)
qed

lemma assign_index_go:
  assumes "parses m ex" "comp_ok c" "\<not> rejected c" "todo c \<le> m" "c0_at_punct c ''[''" "k \<le> cpos c"
  shows "go k c (assign_index ex t c)"
proof -
  note e = ext_bump [OF assms(2)] and p = at_bump(1) [OF assms(5)]
  have "go k (c0_bump c) (c0_seq ex (expect_punct '']'' ''VM_REJ_PARSE'' (expect_punct ''='' ''VM_REJ_UNSUPPORTED_STMT''
                 (c0_seq ex (emit_s OP_STORE_INDEX (of_nat li))))) (c0_bump c))"
    if li: "c0_find_local c t = Some li" for li
  proof (rule go_seq)
    show "go (Suc (cpos (c0_bump c))) (c0_bump c) (ex (c0_bump c))"
      using assms(3,4) p by (intro parses_after [OF assms(1) e]) auto
    fix c1 assume c1: "ext (c0_bump c) c1" "\<not> rejected c1" "Suc (cpos (c0_bump c)) \<le> cpos c1"
    show "go k c1 (expect_punct '']'' ''VM_REJ_PARSE'' (expect_punct ''='' ''VM_REJ_UNSUPPORTED_STMT''
                 (c0_seq ex (emit_s OP_STORE_INDEX (of_nat li)))) c1)"
    proof (rule go_expect [OF ext_ok [OF c1(1)] go_expect])
      fix c2 c3 assume c3: "ext c1 c2" "ext c2 c3" "cpos c2 = Suc (cpos c1)" "cpos c3 = Suc (cpos c2)"
        "rejected c2 = rejected c1" "rejected c3 = rejected c2"
      have x: "ext (c0_bump c) c3" using c1(1) c3(1,2) by (blast intro: ext_trans)
      have "go (Suc (cpos c3)) c3 (ex c3)"
        using c1 c3 assms(4) p x by (intro parses_after [OF assms(1) ext_trans [OF e x]]) auto
      then show "go k c3 (c0_seq ex (emit_s OP_STORE_INDEX (of_nat li)) c3)"
      proof (rule go_seq)
        fix c4 assume c4: "ext c3 c4" "Suc (cpos c3) \<le> cpos c4"
        have "li < length (clocals c4)"
          using find_local_bound [OF li] ext_locals [OF ext_trans [OF x c4(1)]] by simp
        then show "go k c4 (emit_s OP_STORE_INDEX (of_nat li) c4)"
          using c4 c3 c1(3) assms(6) p by (intro go_emit emittable_local) (auto simp: local_op_def intro: ext_ok)
      qed
    qed (auto intro: ext_ok)
  qed
  then show ?thesis unfolding assign_index_def using assms(2) go_pre [OF e]
    by (auto intro: go_fail split: option.splits)
qed

lemma declare_elem_go:
  assumes "parses m ex" "comp_ok c" "todo c \<le> m" "k \<le> cpos c" "unat nval \<le> LIN_VM_MAX_ARR_LEN"
  shows "go k c (declare_elem m ex t nval c)"
proof -
  note e = ext_bump [OF assms(2)]
  obtain li c1 where l: "c0_local_idx t (c0_bump c) = (li, c1)" by fastforce
  note i = ext_local_idx [OF ext_ok [OF e] l]
  let ?c2 = "c0_mark_arr li nval c1"
  have m2: "ext c1 ?c2" using ext_ok [OF i(1)] assms(5) by (rule ext_mark_arr)
  note e2 = ext_bump [OF ext_ok [OF m2]]
  have y: "ext c ?c2" using e i(1) m2 by (blast intro: ext_trans)
  have k: "k \<le> cpos ?c2" using assms(4) y by (auto simp: ext_def)
  have "go k (c0_bump ?c2) (c0_emit_arr_lit m ex li nval (c0_bump ?c2))" if "\<not> rejected c1"
  proof (rule emit_arr_lit_go [OF assms(1) ext_ok [OF e2]])
    show "todo (c0_bump ?c2) \<le> m" using ext_todo [OF ext_trans [OF y e2]] assms(3) by simp
    show "li < length (clocals (c0_bump ?c2))" using i(3) that by simp
    show "k \<le> cpos (c0_bump ?c2)" using k e2 by (auto simp: ext_def)
  qed
  then have "go k c (if rejected c1 then Some c1
      else if c0_at_punct ?c2 ''='' then c0_emit_arr_lit m ex li nval (c0_bump ?c2) else Some ?c2)"
    using go_pre [OF ext_trans [OF y e2]] ext_trans [OF e i(1)] y k by (auto intro: goI)
  then show ?thesis unfolding declare_elem_def l Let_def prod.case using go_fail [OF assms(2)] by simp
qed

lemma declare_array_go:
  assumes "parses m ex" "comp_ok c" "todo c \<le> m" "k \<le> cpos c"
  shows "go k c (declare_array m ex t c)"
  unfolding declare_array_def
proof (rule go_expect [OF assms(2)])
  fix c1 assume c1: "ext c c1" "cpos c1 = Suc (cpos c)"
  note e = ext_bump [OF ext_ok [OF c1(1)]]
  have x: "ext c (c0_bump c1)" using c1(1) e by (rule ext_trans)
  have fl: "go k c1 (fail_s r (c0_bump c1))" for r by (rule go_pre [OF e go_fail [OF ext_ok [OF e]]])
  have rest: "go k c1 (expect_punct '']'' ''VM_REJ_PARSE'' (declare_elem m ex t nval) (c0_bump c1))"
    if nval: "unat nval \<le> LIN_VM_MAX_ARR_LEN" for nval
  proof (rule go_pre [OF e go_expect [OF ext_ok [OF e]]])
    fix d assume d: "ext (c0_bump c1) d"
    have y: "ext c d" using x d by (rule ext_trans)
    show "go k d (declare_elem m ex t nval d)"
      using ext_todo [OF y] y assms(3,4) by (intro declare_elem_go [OF assms(1) _ _ _ nval]) (auto simp: ext_def)
  qed
  show "go k c1 (if tk_kind (c0_peek c1) \<noteq> C0_TK_NUMBER then fail_s ''VM_REJ_PARSE'' c1
       else case c0_parse_u16 (tk_text (c0_peek c1)) of
         None \<Rightarrow> fail_s ''VM_REJ_ARRAY_TOO_LARGE'' (c0_bump c1)
       | Some nval \<Rightarrow>
         if nval < 1 \<or> unat nval > LIN_VM_MAX_ARR_LEN then fail_s ''VM_REJ_ARRAY_TOO_LARGE'' (c0_bump c1)
         else expect_punct '']'' ''VM_REJ_PARSE'' (declare_elem m ex t nval) (c0_bump c1))"
    using rest fl go_fail [OF ext_ok [OF c1(1)]] by (simp add: not_less split: option.split)
qed

lemma local_idx_then:
  assumes "comp_ok c" "c0_local_idx t c = (li, c1)"
    and "ext c c1 \<Longrightarrow> \<not> rejected c1 \<Longrightarrow> li < length (clocals c1) \<Longrightarrow> cpos c1 = cpos c \<Longrightarrow> go k c1 r"
  shows "go k c (if rejected c1 then Some c1 else r)"
  using ext_local_idx [OF assms(1,2)] assms(3) by (auto intro: goI go_pre)

lemma assign_value_go:
  assumes "parses m ex" "comp_ok c" "\<not> rejected c" "todo c \<le> m" "k \<le> cpos c"
  shows "go k c (assign_value m ex t c)"
proof -
  obtain li c1 where l: "c0_local_idx t c = (li, c1)" by fastforce
  have lit: "go k c (if rejected c1 then Some c1 else if c0_local_arr_n c1 li = 0 then fail_s ''VM_REJ_INDEX_NOT_ARRAY'' c1
        else c0_emit_arr_lit m ex li (c0_local_arr_n c1 li) c1)"
  proof (rule local_idx_then [OF assms(2) l])
    assume c1: "ext c c1" "li < length (clocals c1)" "cpos c1 = cpos c"
    then show "go k c1 (if c0_local_arr_n c1 li = 0 then fail_s ''VM_REJ_INDEX_NOT_ARRAY'' c1
        else c0_emit_arr_lit m ex li (c0_local_arr_n c1 li) c1)"
      using ext_todo [OF c1(1)] ext_ok [OF c1(1)] assms(4,5) by (simp add: go_fail emit_arr_lit_go [OF assms(1)])
  qed
  have "go k c (c0_seq ex (store_scalar t) c)"
  proof (rule go_seq)
    show "go (Suc (cpos c)) c (ex c)" by (rule parsesD [OF assms(1-4)])
    fix c2 assume c2: "ext c c2" "Suc (cpos c) \<le> cpos c2"
    obtain lj c3 where l3: "c0_local_idx t c2 = (lj, c3)" by fastforce
    have "go k c2 (if rejected c3 then Some c3 else if c0_local_arr_n c3 lj > 0 then fail_s ''VM_REJ_ARRAY_AS_SCALAR'' c3
        else emit_s OP_STORE_LOCAL (of_nat lj) c3)"
    proof (rule local_idx_then [OF ext_ok [OF c2(1)] l3])
      assume c3: "ext c2 c3" "lj < length (clocals c3)" "cpos c3 = cpos c2"
      then show "go k c3 (if c0_local_arr_n c3 lj > 0 then fail_s ''VM_REJ_ARRAY_AS_SCALAR'' c3
          else emit_s OP_STORE_LOCAL (of_nat lj) c3)"
        using ext_ok [OF c3(1)] c2(2) assms(5) by (auto intro!: go_fail go_emit emittable_local simp: local_op_def)
    qed
    then show "go k c2 (store_scalar t c2)" unfolding store_scalar_def l3 Let_def prod.case .
  qed
  with lit show ?thesis unfolding assign_value_def l Let_def prod.case by simp
qed

lemma assign_parses:
  assumes "parses m ex"
  shows "parses m (c0_assign m ex)"
  unfolding parses_def
proof (intro allI impI)
  fix c0 assume c: "comp_ok c0" "\<not> rejected c0" "todo c0 \<le> m"
  let ?c = "c0_bump c0" and ?k = "Suc (cpos c0)" and ?t = "tk_text (c0_peek c0)"
  note e = ext_bump [OF c(1)]
  have ok: "comp_ok ?c" "todo ?c \<le> m" using e ext_todo [OF e] c(3) by (auto intro: ext_ok)
  have "go ?k ?c (if c0_at_punct ?c ''['' then assign_index ex ?t ?c
        else if c0_at_punct ?c '':'' then declare_array m ex ?t (c0_bump ?c)
        else expect_punct ''='' ''VM_REJ_UNSUPPORTED_STMT'' (assign_value m ex ?t) ?c)"
    if id: "tk_kind (c0_peek c0) = C0_TK_IDENT"
  proof -
    have p: "cpos ?c = ?k" using id bump_pos [of c0] by simp
    note e2 = ext_bump [OF ok(1)]
    have "go ?k ?c (declare_array m ex ?t (c0_bump ?c))"
      using ext_todo [OF e2] e2 ok(2) p
      by (intro go_pre [OF e2] declare_array_go [OF assms]) (auto simp: ext_def)
    moreover have "go ?k ?c (expect_punct ''='' ''VM_REJ_UNSUPPORTED_STMT'' (assign_value m ex ?t) ?c)"
    proof (rule go_expect [OF ok(1)])
      fix c1 assume c1: "ext ?c c1" "cpos c1 = Suc (cpos ?c)" "rejected c1 = rejected ?c"
      then show "go ?k c1 (assign_value m ex ?t c1)"
        using ext_todo [OF c1(1)] ok(2) c(2) p by (intro assign_value_go [OF assms]) (auto intro: ext_ok)
    qed
    ultimately show ?thesis
      using assign_index_go [OF assms ok(1) _ ok(2), of ?k ?t] c(2) p by auto
  qed
  then show "go ?k c0 (c0_assign m ex c0)"
    unfolding c0_assign_def Let_def using go_fail [OF c(1)] go_pre [OF e] by auto
qed

lemma block_loop_go:
  assumes "parses n st"
  shows "comp_ok c \<Longrightarrow> todo c \<le> k \<Longrightarrow> todo c \<le> n \<Longrightarrow> go (cpos c) c (block_loop k st c)"
proof (induction k arbitrary: c)
  case 0
  then show ?case using todo_pos by force
next
  case (Suc k)
  have b: "go (cpos c) c (Some (c0_bump c))"
    using ext_bump [OF Suc.prems(1)] by (intro goI) (auto simp: ext_def)
  have "go (cpos c) c (Option.bind (st c) (block_loop k st))" if "\<not> rejected c"
  proof (rule go_bind [OF parsesD [OF assms Suc.prems(1) that Suc.prems(3)]])
    fix c1 assume c1: "ext c c1" "rejected c1 \<or> Suc (cpos c) \<le> cpos c1"
    show "go (cpos c) c1 (block_loop k st c1)"
    proof (cases "rejected c1")
      case True
      note e = ext_bump [OF ext_ok [OF c1(1)]]
      show ?thesis using todo_pos [OF ext_ok [OF c1(1)]] True e c1(1) Suc.prems
        by (cases k) (auto intro!: goI go_Some simp: ext_def todo_def)
    next
      case False
      then have "todo c1 < todo c" using c1 todo_progress [OF c1(1)] by auto
      then have "go (cpos c1) c1 (block_loop k st c1)"
        using Suc.prems by (intro Suc.IH) (auto intro: ext_ok [OF c1(1)])
      then show ?thesis using c1(1) by (auto intro: go_weaken simp: ext_def)
    qed
  qed
  with b Suc.prems(1) show ?case by (auto intro: go_fail go_Some)
qed

lemma block_go:
  assumes "parses n st" "comp_ok c" "todo c \<le> Suc n"
  shows "go (Suc (cpos c)) c (c0_block (Suc n) st c)"
  unfolding c0_block_def
proof (rule go_expect [OF assms(2)])
  fix c1 assume c1: "ext c c1" "cpos c1 = Suc (cpos c)"
  then have "todo c1 \<le> n" using todo_progress [OF c1(1)] assms(3) by simp
  then show "go (Suc (cpos c)) c1 (block_loop (Suc n) st c1)"
    using block_loop_go [OF assms(1) ext_ok [OF c1(1)], of "Suc n"] c1(2) by simp
qed

text \<open>The exit jumps of an \<open>if\<close> chain: indices of jumps, to be patched at its end.\<close>

definition ends_ok :: "C0Comp \<Rightarrow> nat list \<Rightarrow> bool" where
  "ends_ok c ends = list_all (\<lambda>e. e < length (ccode c) \<and> jump_op (op (ccode c ! e))) ends"

definition go_ends :: "nat \<Rightarrow> C0Comp \<Rightarrow> (nat list \<times> C0Comp) option \<Rightarrow> bool" where
  "go_ends k c r = (\<exists>ends c'. r = Some (ends, c') \<and> ext c c' \<and> ends_ok c' ends \<and> (rejected c' \<or> k \<le> cpos c'))"

lemma ends_ok_ext: "ends_ok c ends \<Longrightarrow> ext c c' \<Longrightarrow> ends_ok c' ends"
  by (auto simp: ends_ok_def list_all_iff ext_def)

lemma go_endsI: "ext c c' \<Longrightarrow> ends_ok c' ends \<Longrightarrow> rejected c' \<or> k \<le> cpos c' \<Longrightarrow> go_ends k c (Some (ends, c'))"
  by (auto simp: go_ends_def)

lemma go_ends_pre: "ext c c1 \<Longrightarrow> go_ends k c1 r \<Longrightarrow> go_ends k c r"
  by (auto simp: go_ends_def intro: ext_trans)

lemma go_ends_bind:
  assumes "go k1 c r" "\<And>c1. ext c c1 \<Longrightarrow> rejected c1 \<or> k1 \<le> cpos c1 \<Longrightarrow> go_ends k c1 (g c1)"
  shows "go_ends k c (Option.bind r g)"
  using assms unfolding go_def by (auto intro: go_ends_pre)

lemma go_ends_map:
  "go k c r \<Longrightarrow> ends_ok c ends \<Longrightarrow> go_ends k c (map_option (Pair ends) r)"
  by (auto simp: go_def go_ends_def intro: ends_ok_ext)

lemma go_ends_emit:
  assumes "comp_ok c" "emittable c o1 a" "c0_emit o1 a c = (j, c1)" "ends_ok c ends"
    and "ext c c1 \<Longrightarrow> \<not> rejected c1 \<Longrightarrow> cpos c1 = cpos c \<Longrightarrow> ends_ok c1 ends \<Longrightarrow> j < length (ccode c1) \<Longrightarrow>
      op (ccode c1 ! j) = o1 \<Longrightarrow> go_ends k c1 r"
  shows "go_ends k c (if rejected c1 then Some (ends, c1) else r)"
proof -
  note x = ext_emit [OF assms(1,2), unfolded assms(3)]
  show ?thesis using x assms(5) ends_ok_ext [OF assms(4), of c1]
    by (auto intro: go_endsI go_ends_pre)
qed

lemma patch_go_ends:
  assumes "comp_ok c" "j < length (ccode c)" "jump_op (op (ccode c ! j))" "ends_ok c ends" "k \<le> cpos c"
  shows "go_ends k c (Some (ends, c0_patch j c))"
  using ext_patch [OF assms(1-3)] ends_ok_ext [OF assms(4)] assms(5) by (intro go_endsI) (auto simp: c0_patch_def)

lemma if_arm_go:
  assumes "parses (Suc n) ex" "parses n st" "comp_ok c" "\<not> rejected c" "todo c \<le> Suc n" "ends_ok c ends"
  shows "go_ends (Suc (cpos c)) c (if_arm (Suc n) ex st ends c)"
proof (cases "c0_at_punct c ''(''")
  case False
  then show ?thesis unfolding if_arm_def
    using ext_fail [OF assms(3)] ends_ok_ext [OF assms(6)] by (auto intro: go_endsI)
next
  case True
  let ?k = "Suc (cpos c)"
  let ?close = "\<lambda>c4 je jf. if \<not> cmem c4 AtEnds (length ends) then Some (ends, c0_fail C0_OOM c4) else Some (ends @ [je], c0_patch jf c4)"
  let ?after = "\<lambda>jf c3. if rejected c3 then Some (ends, c3) else let (je, c4) = c0_emit OP_JUMP 0 c3 in
              if rejected c4 then Some (ends, c4) else ?close c4 je jf"
  note e = ext_bump [OF assms(3)] and p = at_bump(1) [OF True]
  have close: "go_ends ?k c3 (?after jf c3)"
    if c3: "comp_ok c3" "ends_ok c3 ends" "rejected c3 \<or> ?k \<le> cpos c3" "jf < length (ccode c3)" "jump_op (op (ccode c3 ! jf))" for c3 jf
  proof (cases "rejected c3")
    case True
    with c3 show ?thesis by (auto intro: go_endsI ext_refl)
  next
    case False
    obtain je c4 where je: "c0_emit OP_JUMP 0 c3 = (je, c4)" by fastforce
    have "go_ends ?k c3 (if rejected c4 then Some (ends, c4) else ?close c4 je jf)"
    proof (rule go_ends_emit [OF c3(1) _ je c3(2)])
      show "emittable c3 OP_JUMP 0" by (rule emittable_jump) (simp_all add: jump_op_def)
      assume c4: "ext c3 c4" "cpos c4 = cpos c3" "ends_ok c4 ends" "je < length (ccode c4)" "op (ccode c4 ! je) = OP_JUMP"
      have "jf < length (ccode c4)" "jump_op (op (ccode c4 ! jf))" using c3(4,5) c4(1) by (auto simp: ext_def)
      moreover have "ends_ok c4 (ends @ [je])" using c4(3-5) by (simp add: ends_ok_def jump_op_def)
      moreover have "go_ends ?k c4 (Some (ends, c0_fail C0_OOM c4))"
        using ext_fail [OF ext_ok [OF c4(1)]] ends_ok_ext [OF c4(3)] by (intro go_endsI) auto
      ultimately show "go_ends ?k c4 (?close c4 je jf)"
        using patch_go_ends [OF ext_ok [OF c4(1)], of jf "ends @ [je]" ?k] c3(3) False c4(2) by auto
    qed
    then show ?thesis using False by (simp add: je)
  qed
  have "go_ends ?k (c0_bump c) (Option.bind (ex (c0_bump c)) (\<lambda>c1.
        if rejected c1 then Some (ends, c1)
        else if \<not> c0_at_punct c1 '')'' then Some (ends, c0_fail (Rej ''VM_REJ_PARSE'') c1)
        else let (jf, c2) = c0_emit OP_JUMP_IF_FALSE 0 (c0_bump c1) in
          if rejected c2 then Some (ends, c2) else Option.bind (c0_block (Suc n) st c2) (?after jf)))"
  proof (rule go_ends_bind [OF parses_after [OF assms(1) e]])
    fix c1 assume c1: "ext (c0_bump c) c1" "rejected c1 \<or> Suc (cpos (c0_bump c)) \<le> cpos c1"
    note e1 = ext_bump [OF ext_ok [OF c1(1)]]
    have x1: "ext c c1" using e c1(1) by (rule ext_trans)
    obtain jf c2 where jf: "c0_emit OP_JUMP_IF_FALSE 0 (c0_bump c1) = (jf, c2)" by fastforce
    have "go_ends ?k (c0_bump c1) (if rejected c2 then Some (ends, c2) else Option.bind (c0_block (Suc n) st c2) (?after jf))"
    proof (rule go_ends_emit [OF ext_ok [OF e1] _ jf])
      show "emittable (c0_bump c1) OP_JUMP_IF_FALSE 0" by (rule emittable_jump) (simp_all add: jump_op_def)
      show "ends_ok (c0_bump c1) ends" using assms(6) ext_trans [OF x1 e1] by (rule ends_ok_ext)
      assume c2: "ext (c0_bump c1) c2" "cpos c2 = cpos (c0_bump c1)" "ends_ok c2 ends" "jf < length (ccode c2)"
        "op (ccode c2 ! jf) = OP_JUMP_IF_FALSE"
      have x2: "ext c c2" using x1 e1 c2(1) by (blast intro: ext_trans)
      have "go (Suc (cpos c2)) c2 (c0_block (Suc n) st c2)"
        using ext_todo [OF x2] assms(5) by (intro block_go [OF assms(2) ext_ok [OF c2(1)]]) simp
      then show "go_ends ?k c2 (Option.bind (c0_block (Suc n) st c2) (?after jf))"
      proof (rule go_ends_bind)
        fix c3 assume c3: "ext c2 c3" "rejected c3 \<or> Suc (cpos c2) \<le> cpos c3"
        show "go_ends ?k c3 (?after jf c3)"
          using c3 c2(4,5) x2 by (intro close ends_ok_ext [OF c2(3) c3(1)]) (auto simp: ext_def jump_op_def)
      qed
    qed
    then show "go_ends ?k c1 (if rejected c1 then Some (ends, c1)
        else if \<not> c0_at_punct c1 '')'' then Some (ends, c0_fail (Rej ''VM_REJ_PARSE'') c1)
        else let (jf, c2) = c0_emit OP_JUMP_IF_FALSE 0 (c0_bump c1) in
          if rejected c2 then Some (ends, c2) else Option.bind (c0_block (Suc n) st c2) (?after jf))"
      unfolding jf Let_def prod.case
      using go_ends_pre [OF e1] ext_fail [OF ext_ok [OF c1(1)]] ext_refl [OF ext_ok [OF c1(1)]] ends_ok_ext [OF assms(6) x1]
        ends_ok_ext [OF assms(6) ext_trans [OF x1 ext_fail [OF ext_ok [OF c1(1)]]]]
      by (auto intro: go_endsI)
  qed (use assms(4,5) p in auto)
  from go_ends_pre [OF e this] show ?thesis using True by (simp add: if_arm_def)
qed

end
