(* ===== verification/C0_Stmt_Safety.thy ===== *)
theory C0_Stmt_Safety
  imports C0_Comp_Safety
begin

text \<open>
  The control statements of the compiler: an \<open>if\<close> chain, a \<open>while\<close> and a \<open>for\<close> loop and
  the statement dispatch return within the fuel of the tokens left, keep the state
  well-formed and make progress, which makes \<open>c0_stmt\<close> total.
\<close>

section \<open>Conditionals\<close>

lemma go_ends_bind_ends:
  assumes "go_ends k1 c r"
    and "\<And>ends c1. ext c c1 \<Longrightarrow> ends_ok c1 ends \<Longrightarrow> rejected c1 \<or> k1 \<le> cpos c1 \<Longrightarrow> go_ends k c1 (g (ends, c1))"
  shows "go_ends k c (Option.bind r g)"
proof -
  from assms(1) obtain ends c1 where r: "r = Some (ends, c1)" "ext c c1" "ends_ok c1 ends" "rejected c1 \<or> k1 \<le> cpos c1"
    by (auto simp: go_ends_def)
  from go_ends_pre [OF r(2) assms(2) [OF r(2-4)]] r(1) show ?thesis by simp
qed

lemma go_ends_weaken: "go_ends k c r \<Longrightarrow> k' \<le> k \<Longrightarrow> go_ends k' c r"
  by (auto simp: go_ends_def)

lemma go_ends_block:
  assumes "parses n st" "comp_ok c" "todo c \<le> Suc n" "ends_ok c ends" "k \<le> cpos c"
  shows "go_ends k c (map_option (Pair ends) (c0_block (Suc n) st c))"
  using go_weaken [OF block_go [OF assms(1-3)]] assms(4,5) by (intro go_ends_map) auto

lemma if_chain_go:
  assumes "parses (Suc n) ex" "parses n st"
  shows "comp_ok c \<Longrightarrow> \<not> rejected c \<Longrightarrow> todo c \<le> k \<Longrightarrow> todo c \<le> Suc n \<Longrightarrow> ends_ok c ends \<Longrightarrow>
    go_ends (Suc (cpos c)) c (c0_if_chain k (Suc n) ex st ends c)"
proof (induction k arbitrary: c ends)
  case 0
  then show ?case using todo_pos by force
next
  case (Suc k)
  have "go_ends (Suc (cpos c)) c (if_arm (Suc n) ex st ends c)"
    using Suc.prems by (intro if_arm_go [OF assms]) auto
  then show ?case unfolding c0_if_chain.simps
  proof (rule go_ends_bind_ends, unfold prod.case)
    fix ends1 c1 assume c1: "ext c c1" "ends_ok c1 ends1" "rejected c1 \<or> Suc (cpos c) \<le> cpos c1"
    let ?k = "Suc (cpos c)" and ?c2 = "c0_bump c1" and ?c3 = "c0_bump (c0_bump c1)"
    note ok1 = ext_ok [OF c1(1)]
    note e2 = ext_bump [OF ok1]
    note e3 = ext_trans [OF e2 ext_bump [OF ext_ok [OF e2]]]
    have td: "todo c1 \<le> Suc n" using ext_todo [OF c1(1)] Suc.prems(4) by simp
    have chain: "go_ends ?k c1 (c0_if_chain k (Suc n) ex st ends1 c2)"
      if "\<not> rejected c1" "ext c1 c2" "cpos c1 < cpos c2" "rejected c2 = rejected c1" for c2
    proof (rule go_ends_pre [OF that(2)], rule go_ends_weaken, rule Suc.IH)
      have x: "ext c c2" using c1(1) that(2) by (rule ext_trans)
      have "todo c2 < todo c" using todo_progress [OF x] c1(3) that(1,3) by simp
      then show "todo c2 \<le> k" "todo c2 \<le> Suc n" using Suc.prems(3,4) by simp_all
    qed (use that ends_ok_ext [OF c1(2)] c1(3) ext_ok in auto)
    have block: "go_ends ?k c1 (map_option (Pair ends1) (c0_block (Suc n) st ?c2))" if "\<not> rejected c1"
      using that c1(3) ext_todo [OF e2] td e2 ends_ok_ext [OF c1(2) e2]
      by (intro go_ends_pre [OF e2] go_ends_block [OF assms(2)]) (auto simp: ext_def)
    have stop: "go_ends ?k c1 (Some (ends1, c1))" using c1(2,3) ext_refl [OF ok1] by (intro go_endsI)
    have p3: "cpos c1 < cpos ?c3" if "c0_at_ident c1 ''else''"
      using at_bump(2) [OF that] ext_bump [OF ext_ok [OF e2]] by (simp add: ext_def)
    show "go_ends ?k c1 (if rejected c1 then Some (ends1, c1)
       else if c0_at_punct c1 '':'' then
         let c2 = c0_bump c1 in
         if c0_at_punct c2 ''('' then c0_if_chain k (Suc n) ex st ends1 c2
         else map_option (Pair ends1) (c0_block (Suc n) st c2)
       else if c0_at_ident c1 ''else'' then
         let c2 = c0_bump c1 in
         if c0_at_ident c2 ''if'' then c0_if_chain k (Suc n) ex st ends1 (c0_bump c2)
         else map_option (Pair ends1) (c0_block (Suc n) st c2)
       else Some (ends1, c1))"
      using stop block chain [OF _ e2] chain [OF _ e3] at_bump(1) [of c1 "'':''"] p3 by (simp add: Let_def)
  qed
qed

lemma patch_all:
  "comp_ok c \<Longrightarrow> ends_ok c ends \<Longrightarrow>
     ext c (foldl (\<lambda>c e. c0_patch e c) c ends) \<and> cpos (foldl (\<lambda>c e. c0_patch e c) c ends) = cpos c"
proof (induction ends arbitrary: c)
  case (Cons e ends)
  then have e: "ext c (c0_patch e c)" by (intro ext_patch) (auto simp: ends_ok_def)
  have "ends_ok (c0_patch e c) ends" using Cons.prems ends_ok_ext [OF _ e, of ends] by (simp add: ends_ok_def)
  from Cons.IH [OF ext_ok [OF e] this] show ?case using ext_trans [OF e] by (simp add: c0_patch_def)
qed (simp add: ext_refl)

lemma if_stmt_go:
  assumes "parses (Suc n) ex" "parses n st" "comp_ok c" "\<not> rejected c" "todo c \<le> Suc n"
    "tk_kind (c0_peek c) \<noteq> C0_TK_EOF"
  shows "go (Suc (cpos c)) c (if_stmt (Suc n) ex st c)"
proof -
  note e = ext_bump [OF assms(3)]
  have p: "cpos (c0_bump c) = Suc (cpos c)" by (rule bump_pos [OF assms(6)])
  have "go_ends (Suc (cpos (c0_bump c))) (c0_bump c) (c0_if_chain (Suc n) (Suc n) ex st [] (c0_bump c))"
    using assms(4,5) ext_todo [OF e] ext_ok [OF e] by (intro if_chain_go [OF assms(1,2)]) (auto simp: ends_ok_def)
  then obtain ends c1 where c1: "c0_if_chain (Suc n) (Suc n) ex st [] (c0_bump c) = Some (ends, c1)" "ext (c0_bump c) c1"
    "ends_ok c1 ends" "rejected c1 \<or> Suc (Suc (cpos c)) \<le> cpos c1" by (auto simp: go_ends_def p)
  note f = patch_all [OF ext_ok [OF c1(2)] c1(3)]
  have "go (Suc (cpos c)) c1 (skip_punct '';'' (foldl (\<lambda>c e. c0_patch e c) c1 ends))" if "\<not> rejected c1"
    using f c1(4) that by (intro go_pre [OF conjunct1 [OF f]] go_skip) (auto intro: ext_ok)
  then have "go (Suc (cpos c)) c1 (if rejected c1 then Some c1 else skip_punct '';'' (foldl (\<lambda>c e. c0_patch e c) c1 ends))"
    using ext_refl [OF ext_ok [OF c1(2)]] by (auto intro: goI)
  from go_pre [OF ext_trans [OF e c1(2)] this] c1(1) show ?thesis by (simp add: if_stmt_def)
qed

section \<open>Loops\<close>

text \<open>
  Both loops end alike: a jump back to \<open>back\<close>, the exit jump \<open>jf\<close> patched behind it, an
  optional semicolon.
\<close>

lemma close_loop_go:
  assumes "comp_ok c" "\<not> rejected c" "jf < length (ccode c)" "jump_op (op (ccode c ! jf))"
    "unat (back :: i64) \<le> length (ccode c)" "k \<le> cpos c"
  shows "go k c (c0_seq (emit_s OP_JUMP back) (\<lambda>c1. skip_punct '';'' (c0_patch jf c1)) c)"
proof (rule go_seq)
  show "go (cpos c) c (emit_s OP_JUMP back c)"
    using assms(1,5) by (intro go_emit emittable_jump) (auto simp: jump_op_def)
  fix c1 assume c1: "ext c c1" "cpos c \<le> cpos c1"
  have e: "ext c1 (c0_patch jf c1)" using assms(3,4) c1(1) by (intro ext_patch) (auto simp: ext_def)
  show "go k c1 (skip_punct '';'' (c0_patch jf c1))"
    using c1(2) assms(6) by (intro go_pre [OF e go_skip [OF ext_ok [OF e]]]) (simp add: c0_patch_def)
qed

lemma emit_jump:
  assumes "comp_ok c" "c0_emit OP_JUMP_IF_FALSE 0 c = (jf, c1)"
  shows "ext c c1" "cpos c1 = cpos c" "\<not> rejected c1 \<Longrightarrow> jf < length (ccode c1) \<and> jump_op (op (ccode c1 ! jf))"
  using ext_emit [OF assms(1), of OP_JUMP_IF_FALSE 0] emittable_jump [of OP_JUMP_IF_FALSE 0 c] assms(2)
  by (auto simp: jump_op_def)

lemma while_stmt_go:
  assumes "parses (Suc n) ex" "parses n st" "comp_ok c0" "\<not> rejected c0" "todo c0 \<le> Suc n"
    "tk_kind (c0_peek c0) \<noteq> C0_TK_EOF"
  shows "go (Suc (cpos c0)) c0 (while_stmt (Suc n) ex st c0)"
proof -
  let ?c = "c0_bump c0" and ?k = "Suc (cpos c0)"
  note e = ext_bump [OF assms(3)]
  have p: "cpos ?c = ?k" by (rule bump_pos [OF assms(6)])
  have "go ?k ?c (expect_punct ''('' ''VM_REJ_PARSE'' (c0_seq ex (expect_punct '')'' ''VM_REJ_PARSE'' (\<lambda>c1.
        let (jf, c2) = c0_emit OP_JUMP_IF_FALSE 0 c1 in
        if rejected c2 then Some c2
        else c0_seq (c0_block (Suc n) st) (c0_seq (emit_s OP_JUMP (c0_here ?c)) (\<lambda>c3. skip_punct '';'' (c0_patch jf c3))) c2))) ?c)"
  proof (rule go_expect [OF ext_ok [OF e]], rule go_seq)
    fix a assume a: "ext ?c a" "cpos a = Suc (cpos ?c)" "rejected a = rejected ?c"
    then show "go (Suc (cpos a)) a (ex a)"
      using assms(4,5) p by (intro parses_after [OF assms(1) ext_trans [OF e a(1)]]) auto
    fix b assume b: "ext a b" "Suc (cpos a) \<le> cpos b"
    show "go ?k b (expect_punct '')'' ''VM_REJ_PARSE'' (\<lambda>c1.
        let (jf, c2) = c0_emit OP_JUMP_IF_FALSE 0 c1 in
        if rejected c2 then Some c2
        else c0_seq (c0_block (Suc n) st) (c0_seq (emit_s OP_JUMP (c0_here ?c)) (\<lambda>c3. skip_punct '';'' (c0_patch jf c3))) c2) b)"
    proof (rule go_expect [OF ext_ok [OF b(1)]])
      fix d assume d: "ext b d"
      obtain jf c2 where jf: "c0_emit OP_JUMP_IF_FALSE 0 d = (jf, c2)" by fastforce
      note j = emit_jump [OF ext_ok [OF d] jf]
      have x: "ext ?c c2" using a(1) b(1) d j(1) by (blast intro: ext_trans)
      have "go ?k c2 (c0_seq (c0_block (Suc n) st) (c0_seq (emit_s OP_JUMP (c0_here ?c)) (\<lambda>c3. skip_punct '';'' (c0_patch jf c3))) c2)"
        if r: "\<not> rejected c2"
      proof (rule go_seq)
        show "go (Suc (cpos c2)) c2 (c0_block (Suc n) st c2)"
          using ext_todo [OF ext_trans [OF e x]] assms(5) by (intro block_go [OF assms(2) ext_ok [OF x]]) simp
        fix c3 assume c3: "ext c2 c3" "\<not> rejected c3" "Suc (cpos c2) \<le> cpos c3"
        have "length (ccode ?c) \<le> length (ccode c3)" using ext_trans [OF x c3(1)] by (simp add: ext_def)
        then have "unat (c0_here ?c) \<le> length (ccode c3)"
          unfolding c0_here_def using unat_of_nat_le order_trans by blast
        then show "go ?k c3 (c0_seq (emit_s OP_JUMP (c0_here ?c)) (\<lambda>c3. skip_punct '';'' (c0_patch jf c3)) c3)"
          using j(3) [OF r] c3 x p by (intro close_loop_go [OF ext_ok [OF c3(1)] c3(2)]) (auto simp: ext_def)
      qed
      then show "go ?k d (let (jf, c2) = c0_emit OP_JUMP_IF_FALSE 0 d in
        if rejected c2 then Some c2
        else c0_seq (c0_block (Suc n) st) (c0_seq (emit_s OP_JUMP (c0_here ?c)) (\<lambda>c3. skip_punct '';'' (c0_patch jf c3))) c2)"
        unfolding jf Let_def prod.case using j(1) by (auto intro: goI go_pre)
    qed
  qed
  from go_pre [OF e this] show ?thesis by (simp add: while_stmt_def Let_def)
qed

lemma for_close_from_Some:
  "for_close_from ts i d = Some j \<Longrightarrow> i \<le> j \<and> j - i < length ts \<and> tk_kind (ts ! (j - i)) = C0_TK_PUNCT"
proof (induction ts i d rule: for_close_from.induct)
  case (2 t ts i d)
  have "Suc i \<le> j \<and> j - Suc i < length ts \<and> tk_kind (ts ! (j - Suc i)) = C0_TK_PUNCT \<or> j = i \<and> tk_kind t = C0_TK_PUNCT"
    using 2 by (auto split: if_splits)
  then show ?case by (auto simp: nth_Cons' Suc_diff_le)
qed simp

lemma for_close_bounds:
  assumes "comp_ok c" "c0_for_close c (cpos c) = Some j"
  shows "cpos c \<le> j" "Suc j < length (ctoks c)"
proof -
  note f = for_close_from_Some [OF assms(2) [unfolded c0_for_close_def]]
  then show "cpos c \<le> j" by simp
  have "comp_ok (c\<lparr>cpos := j\<rparr>)" using assms(1) f by (auto simp: comp_ok_def)
  from not_eof_pos [OF this] f assms(1) show "Suc j < length (ctoks c)"
    by (auto simp: c0_peek_def comp_ok_def)
qed

text \<open>The increment: from the body's end back to its own tokens, up to the parenthesis.\<close>

lemma for_step_returns:
  assumes "parses m ex" "comp_ok (c\<lparr>cpos := p\<rparr>)" "\<not> rejected c" "todo (c\<lparr>cpos := p\<rparr>) \<le> m"
  shows "\<exists>c'. for_step m ex p q c = Some c' \<and> ext (c\<lparr>cpos := p\<rparr>) c' \<and> (rejected c' \<or> cpos c' = q)"
proof (cases "p = q")
  case True
  then show ?thesis using assms(2) by (simp add: for_step_def ext_refl)
next
  case False
  have "go (Suc p) (c\<lparr>cpos := p\<rparr>) (c0_assign m ex (c\<lparr>cpos := p\<rparr>))"
    using parsesD [OF assign_parses [OF assms(1)] assms(2)] assms(3,4) by simp
  then obtain c1 where c1: "c0_assign m ex (c\<lparr>cpos := p\<rparr>) = Some c1" "ext (c\<lparr>cpos := p\<rparr>) c1" by (auto simp: go_def)
  then show ?thesis using False ext_trans [OF c1(2) ext_fail [OF ext_ok [OF c1(2)]]]
    by (auto simp: for_step_def c0_seq_def fail_s_def)
qed

lemma for_body_go:
  assumes "parses (Suc n) ex" "parses n st" "comp_ok c" "todo c \<le> Suc n" "cond_pos \<le> length (ccode c)" "k \<le> cpos c"
  shows "go k c (for_body (Suc n) ex st cond_pos c)"
proof (cases "c0_for_close c (cpos c)")
  case None
  then show ?thesis by (simp add: for_body_def go_fail assms(3))
next
  case (Some j)
  let ?p = "cpos c" and ?c0 = "c\<lparr>cpos := j + 1\<rparr>"
  let ?rest = "\<lambda>jf c2. c0_seq (for_step (Suc n) ex ?p j)
            (\<lambda>c3. c0_seq (emit_s OP_JUMP (of_nat cond_pos))
               (\<lambda>c4. skip_punct '';'' (c0_patch jf c4)) (c3\<lparr>cpos := cpos c2\<rparr>)) c2"
  note b = for_close_bounds [OF assms(3) Some]
  have e0: "ext c ?c0" using assms(3) b by (intro ext_move) auto
  obtain jf c1 where jf: "c0_emit OP_JUMP_IF_FALSE 0 ?c0 = (jf, c1)" by fastforce
  note i = emit_jump [OF ext_ok [OF e0] jf]
  have x1: "ext c c1" using e0 i(1) by (rule ext_trans)
  have rest: "go k c (?rest jf c2)" if c2: "ext c1 c2" "\<not> rejected c2" "\<not> rejected c1" "Suc (cpos c1) \<le> cpos c2" for c2
  proof -
    let ?d = "c2\<lparr>cpos := ?p\<rparr>"
    have x2: "ext c c2" using x1 c2(1) by (rule ext_trans)
    have xd: "ext c ?d" using x2 assms(3) by (auto simp: ext_def comp_ok_def)
    have "todo ?d \<le> Suc n" using ext_todo [OF xd] assms(4) by simp
    from for_step_returns [OF assms(1) ext_ok [OF xd] c2(2) this, of j] obtain c3
      where c3: "for_step (Suc n) ex ?p j c2 = Some c3" "ext ?d c3" "rejected c3 \<or> cpos c3 = j" by auto
    have x3: "ext c c3" using xd c3(2) by (rule ext_trans)
    have "go k c (c0_seq (emit_s OP_JUMP (of_nat cond_pos)) (\<lambda>c4. skip_punct '';'' (c0_patch jf c4)) (c3\<lparr>cpos := cpos c2\<rparr>))"
      if r: "\<not> rejected c3"
    proof -
      have m: "ext c3 (c3\<lparr>cpos := cpos c2\<rparr>)"
        using c3(2,3) r c2(4) i(2) x2 by (intro ext_move [OF ext_ok [OF c3(2)]]) (auto simp: ext_def comp_ok_def)
      have "unat (of_nat cond_pos :: i64) \<le> length (ccode c3)"
        using unat_of_nat_le [of cond_pos, where 'a = 64] assms(5) x3 by (auto simp: ext_def)
      moreover have "jf < length (ccode c3)" "jump_op (op (ccode c3 ! jf))"
        using i(3) [OF c2(3)] c2(1) c3(2) by (auto simp: ext_def)
      ultimately show ?thesis using r c2(4) i(2) b(1) assms(6)
        by (intro go_pre [OF ext_trans [OF x3 m]] close_loop_go [OF ext_ok [OF m]]) auto
    qed
    then show ?thesis using c3(1) x3 by (auto simp: c0_seq_def intro: goI)
  qed
  have "go k c (c0_seq (c0_block (Suc n) st) (?rest jf) c1)" if r: "\<not> rejected c1"
  proof -
    have "go (Suc (cpos c1)) c1 (c0_block (Suc n) st c1)"
      using ext_todo [OF x1] assms(4) by (intro block_go [OF assms(2) ext_ok [OF x1]]) simp
    then obtain c2 where c2: "c0_block (Suc n) st c1 = Some c2" "ext c1 c2" "rejected c2 \<or> Suc (cpos c1) \<le> cpos c2"
      by (auto simp: go_def)
    show ?thesis using c2 rest [OF c2(2) _ r] ext_trans [OF x1 c2(2)]
      by (cases "rejected c2") (auto simp: c0_seq_def [of "c0_block (Suc n) st"] intro: goI)
  qed
  then have "go k c (if rejected c1 then Some c1 else c0_seq (c0_block (Suc n) st) (?rest jf) c1)"
    using x1 by (auto intro: goI)
  then show ?thesis unfolding for_body_def Some Let_def option.case jf prod.case .
qed

lemma for_cond_go:
  assumes "parses (Suc n) ex" "parses n st" "comp_ok c" "\<not> rejected c" "todo c \<le> Suc n" "k \<le> cpos c"
  shows "go k c (for_cond (Suc n) ex st c)"
proof -
  let ?rest = "expect_punct '';'' ''VM_REJ_PARSE'' (for_body (Suc n) ex st (length (ccode c)))"
  have rest: "go k c1 (?rest c1)" if c1: "ext c c1" "cpos c \<le> cpos c1" for c1
  proof (rule go_expect [OF ext_ok [OF c1(1)]])
    fix d assume d: "ext c1 d"
    have x: "ext c d" using c1(1) d by (rule ext_trans)
    show "go k d (for_body (Suc n) ex st (length (ccode c)) d)"
      using ext_todo [OF x] assms(5,6) x by (intro for_body_go [OF assms(1,2) ext_ok [OF x]]) (auto simp: ext_def)
  qed
  have "go k c (Option.bind (emit_s OP_PUSH_CONST 1 c) ?rest)"
  proof (rule go_bind)
    show "go (cpos c) c (emit_s OP_PUSH_CONST 1 c)"
      using assms(3) by (intro go_emit emittable_plain) (auto simp: plain_op_def jump_op_def local_op_def)
  qed (use rest in \<open>auto simp: ext_def\<close>)
  moreover have "go k c (c0_seq ex ?rest c)"
  proof (rule go_seq)
    show "go (Suc (cpos c)) c (ex c)" by (rule parsesD [OF assms(1,3,4,5)])
  qed (use rest in auto)
  ultimately show ?thesis by (simp add: for_cond_def Let_def)
qed

lemma for_stmt_go:
  assumes "parses (Suc n) ex" "parses n st" "comp_ok c" "\<not> rejected c" "todo c \<le> Suc n" "tk_kind (c0_peek c) \<noteq> C0_TK_EOF"
  shows "go (Suc (cpos c)) c (for_stmt (Suc n) ex st c)"
proof -
  let ?k = "Suc (cpos c)"
  let ?init = "\<lambda>c1. if \<not> c0_at_punct c1 '';'' then c0_assign (Suc n) ex c1 else Some c1"
  note e = ext_bump [OF assms(3)]
  have "go ?k (c0_bump c) (expect_punct ''('' ''VM_REJ_PARSE''
       (c0_seq ?init (expect_punct '';'' ''VM_REJ_PARSE'' (for_cond (Suc n) ex st))) (c0_bump c))"
  proof (rule go_expect [OF ext_ok [OF e]], rule go_seq)
    fix a assume a: "ext (c0_bump c) a" "cpos a = Suc (cpos (c0_bump c))" "rejected a = rejected (c0_bump c)"
    have x: "ext c a" using e a(1) by (rule ext_trans)
    have "go (Suc (cpos a)) a (c0_assign (Suc n) ex a)"
      using ext_todo [OF x] a(3) assms(4,5) by (intro parsesD [OF assign_parses [OF assms(1)] ext_ok [OF x]]) auto
    then show "go (cpos a) a (?init a)" using go_Some [OF ext_ok [OF x]] by (auto intro: go_weaken)
    fix b assume b: "ext a b" "\<not> rejected b" "cpos a \<le> cpos b"
    show "go ?k b (expect_punct '';'' ''VM_REJ_PARSE'' (for_cond (Suc n) ex st) b)"
    proof (rule go_expect [OF ext_ok [OF b(1)]])
      fix d assume d: "ext b d" "cpos d = Suc (cpos b)" "rejected d = rejected b"
      have y: "ext c d" using x b(1) d(1) by (blast intro: ext_trans)
      show "go ?k d (for_cond (Suc n) ex st d)"
        using ext_todo [OF y] assms(5) a(2) b(2,3) d(2,3) e
        by (intro for_cond_go [OF assms(1,2) ext_ok [OF y]]) (auto simp: ext_def)
    qed
  qed
  from go_pre [OF e this] show ?thesis by (simp add: for_stmt_def)
qed

section \<open>Statements\<close>

lemma return_stmt_go:
  assumes "parses m ex" "comp_ok c" "\<not> rejected c" "todo c \<le> Suc m" "tk_kind (c0_peek c) \<noteq> C0_TK_EOF"
  shows "go (Suc (cpos c)) c (return_stmt ex c)"
  unfolding return_stmt_def
proof (rule go_pre [OF ext_bump [OF assms(2)]], rule go_seq)
  note p = bump_pos [OF assms(5)]
  show "go (Suc (cpos (c0_bump c))) (c0_bump c) (ex (c0_bump c))"
    using assms(3,4) p by (intro parses_after [OF assms(1) ext_bump [OF assms(2)]]) auto
  fix c1 assume c1: "ext (c0_bump c) c1" "Suc (cpos (c0_bump c)) \<le> cpos c1"
  show "go (Suc (cpos c)) c1 (Option.bind (skip_punct '';'' c1) (emit_s OP_RET 0))"
  proof (rule go_bind [OF go_skip [OF ext_ok [OF c1(1)] order_refl]])
    fix d assume d: "ext c1 d"
    then show "go (Suc (cpos c)) d (emit_s OP_RET 0 d)"
      using c1(2) p by (intro go_emit emittable_plain ext_ok [OF d]) (auto simp: plain_op_def jump_op_def local_op_def ext_def)
  qed
qed

lemma stmt_with_parses:
  assumes "parses (Suc n) ex" "parses n st"
  shows "parses (Suc n) (stmt_with (Suc n) ex st)"
  unfolding parses_def
proof (intro allI impI)
  fix c assume c: "comp_ok c" "\<not> rejected c" "todo c \<le> Suc n"
  let ?k = "Suc (cpos c)"
  note nf = at_not_eof
  have "go ?k c (c0_seq (c0_assign (Suc n) ex) (expect_punct '';'' ''VM_REJ_PARSE'' Some) c)"
  proof (rule go_seq)
    show "go ?k c (c0_assign (Suc n) ex c)" by (rule parsesD [OF assign_parses [OF assms(1)] c])
    fix c1 assume c1: "ext c c1" "?k \<le> cpos c1"
    show "go ?k c1 (expect_punct '';'' ''VM_REJ_PARSE'' Some c1)"
      using c1 by (intro go_expect go_Some) (auto intro: ext_ok)
  qed
  moreover have "c0_at_punct c '';'' \<Longrightarrow> go ?k c (bump_s c)"
    unfolding bump_s_def using at_bump(1) [of c "'';''"] by (intro goI ext_bump [OF c(1)]) auto
  moreover have "tk_kind (c0_peek c) \<noteq> C0_TK_EOF \<Longrightarrow> go ?k c (return_stmt ex c)"
    using return_stmt_go [OF assms(1) c(1,2)] c(3) by simp
  ultimately show "go ?k c (stmt_with (Suc n) ex st c)"
    using if_stmt_go [OF assms c] while_stmt_go [OF assms c] for_stmt_go [OF assms c] go_fail [OF c(1)]
      nf [of c] by (simp add: stmt_with_def)
qed

lemma stmt_parses: "parses n (c0_stmt n)"
proof (induction n)
  case 0
  show ?case using todo_pos by (force simp: parses_def)
next
  case (Suc n)
  show ?case unfolding c0_stmt.simps by (rule stmt_with_parses [OF expr_parses Suc.IH])
qed

end
