(* ===== verification/C0_Build.thy ===== *)
theory C0_Build
  imports C0_Stmt_Safety
begin

text \<open>
  The module builder of \<open>transpile/c/tool/lin_c0_front.c\<close>: \<open>c0_arr_len_of\<close>,
  \<open>c0_sig_eligible\<close>, \<open>c0_resolve_deps\<close> and \<open>c0_build_impl\<close> with its two public entry
  points, and what holds of every module they return.

  \<^item> A result is \<open>None\<close> when the fuel of the compiler ran out (\<open>c0_build_total\<close>: never),
    \<open>Some (Inl ())\<close> for a \<open>NULL\<close> return and \<open>Some (Inr md)\<close> for a module.
  \<^item> \<open>C0Mem\<close> says which of the allocations of a build succeed.
  \<^item> Names and types are C strings: what is read of them ends at the first NUL.
\<close>

section \<open>Signatures\<close>

definition int_type :: "string \<Rightarrow> bool" where
  "int_type s = (s = ''int'' \<or> s = ''i64'')"

definition c0_arr_len_of :: "string \<Rightarrow> u16 option" where
  "c0_arr_len_of ty =
     (let t = c0_trim (cstr ty) in
      if length t < 6 \<or> hd t \<noteq> CHR ''['' then None
      else case c0_index_char t (CHR '']'') of
        None \<Rightarrow> None
      | Some close \<Rightarrow>
        (case c0_parse_u16 (trim_by is_blank (take (close - 1) (drop 1 t))) of
           None \<Rightarrow> None
         | Some v \<Rightarrow> if int_type (trim_by is_blank (drop (close + 1) t)) then Some v else None))"

text \<open>The parameters of a signature in order; the first that is not eligible rejects it.\<close>

fun params_eligible :: "C0Param list \<Rightarrow> string option" where
  "params_eligible [] = None"
| "params_eligible (p # ps) =
     (if int_type (cstr (type_name p)) then params_eligible ps
      else case c0_arr_len_of (type_name p) of
        Some n \<Rightarrow> if n < 1 \<or> unat n > LIN_VM_MAX_ARR_LEN then Some ''VM_REJ_ARRAY_TOO_LARGE'' else params_eligible ps
      | None \<Rightarrow> Some ''VM_REJ_PARAM_NOT_INT'')"

definition c0_sig_eligible :: "C0FnInfo \<Rightarrow> string option" where
  "c0_sig_eligible info =
     (if \<not> int_type (cstr (return_type info)) then Some ''VM_REJ_RETURN_NOT_INT''
      else params_eligible (info_params info))"

section \<open>Dependencies\<close>

definition dep_rejected :: "VmFn list \<Rightarrow> VmFn \<Rightarrow> bool" where
  "dep_rejected fns f =
     list_ex (\<lambda>i. op i = OP_CALL \<and> (unat (opa i) \<ge> length fns \<or> \<not> fn_ok (fns ! unat (opa i)))) (code f)"

definition resolve_at :: "nat \<Rightarrow> VmFn list \<times> bool \<Rightarrow> VmFn list \<times> bool" where
  "resolve_at i s =
     (let f = fst s ! i in
      if \<not> fn_ok f then s
      else if dep_rejected (fst s) f
        then ((fst s)[i := f\<lparr>fn_ok := False, reject := ''VM_REJ_DEP_REJECTED''\<rparr>], True)
      else s)"

definition resolve_pass :: "VmFn list \<Rightarrow> VmFn list \<times> bool" where
  "resolve_pass fns = fold resolve_at [0..<length fns] (fns, False)"

definition count_ok :: "VmFn list \<Rightarrow> nat" where
  "count_ok fns = length (filter fn_ok fns)"

lemma count_ok_unmark:
  "i < length fns \<Longrightarrow> fn_ok (fns ! i) \<Longrightarrow> \<not> fn_ok g \<Longrightarrow> count_ok (fns[i := g]) < count_ok fns"
proof (induction fns arbitrary: i)
  case (Cons f fns)
  then show ?case by (cases i) (auto simp: count_ok_def)
qed simp

lemma resolve_at_progress:
  "i < length (fst s) \<Longrightarrow> resolve_at i s = s \<or>
     snd (resolve_at i s) \<and> count_ok (fst (resolve_at i s)) < count_ok (fst s) \<and> length (fst (resolve_at i s)) = length (fst s)"
  by (auto simp: resolve_at_def Let_def intro!: count_ok_unmark)

lemma resolve_fold_progress:
  "list_all (\<lambda>i. i < length (fst s)) is \<Longrightarrow> fold resolve_at is s = s \<or>
     snd (fold resolve_at is s) \<and> count_ok (fst (fold resolve_at is s)) < count_ok (fst s) \<and>
     length (fst (fold resolve_at is s)) = length (fst s)"
proof (induction "is" arbitrary: s)
  case (Cons i "is")
  then have i: "i < length (fst s)" by simp
  from resolve_at_progress [OF i] show ?case
  proof
    assume "resolve_at i s = s"
    with Cons.IH [of s] Cons.prems show ?thesis by simp
  next
    let ?s = "resolve_at i s"
    assume s: "snd ?s \<and> count_ok (fst ?s) < count_ok (fst s) \<and> length (fst ?s) = length (fst s)"
    then have "list_all (\<lambda>i. i < length (fst ?s)) is" using Cons.prems by simp
    from Cons.IH [OF this] s show ?thesis by auto
  qed
qed simp

lemma resolve_pass_progress:
  "resolve_pass fns = (fns, False) \<or>
     snd (resolve_pass fns) \<and> count_ok (fst (resolve_pass fns)) < count_ok fns \<and> length (fst (resolve_pass fns)) = length fns"
  unfolding resolve_pass_def using resolve_fold_progress [of "(fns, False)" "[0..<length fns]"] by (simp add: list_all_iff)

function c0_resolve_deps :: "VmFn list \<Rightarrow> VmFn list" where
  "c0_resolve_deps fns = (if snd (resolve_pass fns) then c0_resolve_deps (fst (resolve_pass fns)) else fst (resolve_pass fns))"
  by pat_completeness auto
termination
proof (relation "measure count_ok")
  fix fns assume "snd (resolve_pass fns)"
  then show "(fst (resolve_pass fns), fns) \<in> measure count_ok" using resolve_pass_progress [of fns] by auto
qed simp

declare c0_resolve_deps.simps [simp del]

text \<open>The functions a run may enter, and the sets of them closed under calls.\<close>

definition ok_set :: "VmFn list \<Rightarrow> nat set" where
  "ok_set fns = {i. i < length fns \<and> fn_ok (fns ! i)}"

definition callees :: "VmFn \<Rightarrow> nat set" where
  "callees f = {unat (opa i) | i. i \<in> set (code f) \<and> op i = OP_CALL}"

definition closed_calls :: "VmFn list \<Rightarrow> nat set \<Rightarrow> bool" where
  "closed_calls fns S = (S \<subseteq> ok_set fns \<and> (\<forall>i \<in> S. callees (fns ! i) \<subseteq> S))"

text \<open>What resolving may not change: everything but \<open>ok\<close> and \<open>reject\<close>.\<close>

definition unmark :: "VmFn \<Rightarrow> VmFn" where
  "unmark f = f\<lparr>fn_ok := False, reject := ''''\<rparr>"

lemma dep_rejected_callees: "dep_rejected fns f = (\<not> callees f \<subseteq> ok_set fns)"
  by (auto simp: dep_rejected_def list_ex_iff callees_def ok_set_def not_le)

lemma resolve_at_keeps:
  assumes "i < length (fst s)"
  shows "map unmark (fst (resolve_at i s)) = map unmark (fst s)"
    "closed_calls (fst s) S \<Longrightarrow> closed_calls (fst (resolve_at i s)) S"
proof -
  let ?f = "fst s ! i"
  show "map unmark (fst (resolve_at i s)) = map unmark (fst s)"
    using assms by (auto simp: resolve_at_def Let_def unmark_def map_update list_update_same_conv)
  assume S: "closed_calls (fst s) S"
  show "closed_calls (fst (resolve_at i s)) S"
  proof (cases "fn_ok ?f \<and> dep_rejected (fst s) ?f")
    case True
    then have "i \<notin> S" using S by (auto simp: dep_rejected_callees closed_calls_def)
    then show ?thesis using True S assms
      by (auto simp: resolve_at_def Let_def closed_calls_def ok_set_def nth_list_update subset_iff)
  qed (use S in \<open>auto simp: resolve_at_def Let_def\<close>)
qed

lemma unmark_length: "map unmark xs = map unmark ys \<Longrightarrow> length xs = length ys"
  by (metis length_map)

lemma resolve_fold_keeps:
  "list_all (\<lambda>i. i < length (fst s)) is \<Longrightarrow> map unmark (fst (fold resolve_at is s)) = map unmark (fst s) \<and>
     (closed_calls (fst s) S \<longrightarrow> closed_calls (fst (fold resolve_at is s)) S)"
proof (induction "is" arbitrary: s)
  case (Cons i "is")
  then have i: "i < length (fst s)" by simp
  note k = resolve_at_keeps [OF i]
  have "list_all (\<lambda>k. k < length (fst (resolve_at i s))) is" using Cons.prems unmark_length [OF k(1)] by simp
  from Cons.IH [OF this] k show ?case by simp
qed simp

lemma resolve_pass_keeps:
  "map unmark (fst (resolve_pass fns)) = map unmark fns"
  "closed_calls fns S \<Longrightarrow> closed_calls (fst (resolve_pass fns)) S"
  using resolve_fold_keeps [of "(fns, False)" "[0..<length fns]"] by (simp_all add: resolve_pass_def list_all_iff)

lemma resolve_fold_stable:
  "list_all (\<lambda>i. i < length (fst s)) is \<Longrightarrow> \<not> snd (fold resolve_at is s) \<Longrightarrow> i \<in> set is \<Longrightarrow> fn_ok (fst s ! i) \<Longrightarrow>
     \<not> dep_rejected (fst s) (fst s ! i)"
proof (induction "is" arbitrary: s)
  case (Cons j "is")
  from resolve_fold_progress [of s "j # is"] Cons.prems(1,2) have a: "fold resolve_at (j # is) s = s" by auto
  have s: "resolve_at j s = s"
  proof (rule ccontr)
    assume "resolve_at j s \<noteq> s"
    then have "count_ok (fst (resolve_at j s)) < count_ok (fst s)" "length (fst (resolve_at j s)) = length (fst s)"
      using resolve_at_progress [of j s] Cons.prems(1) by auto
    moreover from this have "count_ok (fst (fold resolve_at is (resolve_at j s))) \<le> count_ok (fst (resolve_at j s))"
      using resolve_fold_progress [of "resolve_at j s" "is"] Cons.prems(1) by auto
    ultimately show False using a by simp
  qed
  show ?case
  proof (cases "i = j")
    case True
    have "fst s ! j \<noteq> (fst s ! j)\<lparr>fn_ok := False, reject := ''VM_REJ_DEP_REJECTED''\<rparr>" if "fn_ok (fst s ! j)"
      using that by (auto dest: arg_cong [where f = fn_ok])
    then have "(fst s)[j := (fst s ! j)\<lparr>fn_ok := False, reject := ''VM_REJ_DEP_REJECTED''\<rparr>] \<noteq> fst s" if "fn_ok (fst s ! j)"
      using that Cons.prems(1) list_update_same_conv [of j "fst s"] by auto
    then show ?thesis using s True Cons.prems(4) by (auto simp: resolve_at_def Let_def prod_eq_iff split: if_splits)
  qed (use Cons s in auto)
qed simp

lemma resolve_deps_keeps:
  "map unmark (c0_resolve_deps fns) = map unmark fns \<and> (closed_calls fns S \<longrightarrow> closed_calls (c0_resolve_deps fns) S) \<and>
     closed_calls (c0_resolve_deps fns) (ok_set (c0_resolve_deps fns))"
proof (induction fns rule: c0_resolve_deps.induct)
  case (1 fns)
  show ?case
  proof (cases "snd (resolve_pass fns)")
    case True
    with 1 resolve_pass_keeps [of fns] show ?thesis by (simp add: c0_resolve_deps.simps [of fns])
  next
    case False
    then have f: "c0_resolve_deps fns = fns"
      using resolve_pass_progress [of fns] by (auto simp: c0_resolve_deps.simps [of fns])
    have "callees (fns ! i) \<subseteq> ok_set fns" if "i \<in> ok_set fns" for i
      using resolve_fold_stable [of "(fns, False)" "[0..<length fns]" i] False that
      by (auto simp: resolve_pass_def list_all_iff ok_set_def dep_rejected_callees)
    then show ?thesis by (simp add: f closed_calls_def)
  qed
qed

lemma resolve_deps_length: "length (c0_resolve_deps fns) = length fns"
  using resolve_deps_keeps [of fns] unmark_length by blast

lemma resolve_deps_nth:
  assumes "i < length fns"
  shows "unmark (c0_resolve_deps fns ! i) = unmark (fns ! i)"
  using resolve_deps_keeps [of fns] assms by (metis length_map nth_map unmark_length)

lemma unmark_sel:
  assumes "unmark f = unmark g"
  shows "fn_name f = fn_name g" "nparams f = nparams g" "nlocals f = nlocals g" "code f = code g" "sig_ok f = sig_ok g" "arr_n f = arr_n g"
  using arg_cong [OF assms, of fn_name] arg_cong [OF assms, of nparams] arg_cong [OF assms, of nlocals]
    arg_cong [OF assms, of code] arg_cong [OF assms, of sig_ok] arg_cong [OF assms, of arr_n]
  by (simp_all add: unmark_def)

lemma closed_calls_cong:
  assumes "map unmark fns = map unmark fns'" "closed_calls fns' S" "S \<subseteq> ok_set fns"
  shows "closed_calls fns S"
proof -
  have "callees (fns ! i) = callees (fns' ! i)" if "i < length fns" for i
    using unmark_sel(4) [of "fns ! i" "fns' ! i"] assms(1) that unmark_length [OF assms(1)]
    by (auto simp: callees_def dest!: arg_cong [where f = "\<lambda>xs. xs ! i"])
  then have "callees (fns ! i) = callees (fns' ! i)" if "i \<in> S" for i using assms(3) that by (auto simp: ok_set_def)
  then have "callees (fns ! i) \<subseteq> S" if "i \<in> S" for i using assms(2) that by (simp add: closed_calls_def)
  then show ?thesis using assms(3) by (simp add: closed_calls_def)
qed

text \<open>A function that is executable after resolving was executable before.\<close>

lemma resolve_at_shrinks: "ok_set (fst (resolve_at i s)) \<subseteq> ok_set (fst s)"
  by (cases "i < length (fst s)") (auto simp: resolve_at_def Let_def ok_set_def nth_list_update split: if_splits)

lemma resolve_fold_shrinks: "ok_set (fst (fold resolve_at is s)) \<subseteq> ok_set (fst s)"
proof (induction "is" arbitrary: s)
  case (Cons i "is")
  from Cons.IH [of "resolve_at i s"] resolve_at_shrinks [of i s] show ?case by auto
qed simp

lemma resolve_deps_shrinks: "ok_set (c0_resolve_deps fns) \<subseteq> ok_set fns"
proof (induction fns rule: c0_resolve_deps.induct)
  case (1 fns)
  have "ok_set (fst (resolve_pass fns)) \<subseteq> ok_set fns"
    unfolding resolve_pass_def using resolve_fold_shrinks [of "[0..<length fns]" "(fns, False)"] by simp
  with 1 show ?case by (auto simp: c0_resolve_deps.simps [of fns])
qed

section \<open>Building a module\<close>

text \<open>
  The allocations of a build: the list of declarations, the module, and for the function
  with index \<open>i\<close> its tokens, the growth of its buffers and the final copies.
\<close>

record C0Mem =
  mem_infos :: bool
  mem_module :: bool
  mem_toks :: "nat \<Rightarrow> bool"
  mem_comp :: "nat \<Rightarrow> c0_site \<Rightarrow> nat \<Rightarrow> bool"
  mem_copy :: "nat \<Rightarrow> bool"

definition fn_init :: "C0FnInfo \<Rightarrow> VmFn" where
  "fn_init info =
     (let f = \<lparr>fn_name = info_name info, nparams = length (info_params info), nlocals = 0, code = [],
               sig_ok = False, fn_ok = False, reject = '''', arr_n = []\<rparr> in
      case c0_sig_eligible info of
        Some rej \<Rightarrow> f\<lparr>reject := rej\<rparr>
      | None \<Rightarrow> f\<lparr>sig_ok := True\<rparr>)"

text \<open>The parameters become the first locals; the flag is set when an array type is out of range.\<close>

fun bind_params :: "C0Param list \<Rightarrow> C0Comp \<Rightarrow> bool \<times> C0Comp" where
  "bind_params [] c = (False, c)"
| "bind_params (p # ps) c =
     (let (li, c1) = c0_local_idx (cstr (param_name p)) c in
      if rejected c1 then (False, c1)
      else case c0_arr_len_of (type_name p) of
        Some n \<Rightarrow> if n < 1 \<or> unat n > LIN_VM_MAX_ARR_LEN then (True, c1) else bind_params ps (c0_mark_arr li n c1)
      | None \<Rightarrow> bind_params ps c1)"

definition comp_init :: "C0Mem \<Rightarrow> bool \<Rightarrow> bool \<Rightarrow> nat \<Rightarrow> VmFn list \<Rightarrow> C0Tok list \<Rightarrow> C0Comp" where
  "comp_init mem dv sh i fns toks =
     \<lparr>ctoks = toks, cpos = 0, ccode = [], clocals = [], carrn = [], cfns = fns, creject = None,
      allow_div = dv, allow_shift = sh, cmem = mem_comp mem i\<rparr>"

text \<open>\<open>while (c0_peek(&comp).kind != C0_TK_EOF && comp.reject == NULL) c0_stmt(&comp)\<close>.\<close>

definition compile_body :: "C0Comp \<Rightarrow> C0Comp option" where
  "compile_body c =
     c0_while (length (ctoks c)) (\<lambda>c. tk_kind (c0_peek c) \<noteq> C0_TK_EOF \<and> \<not> rejected c) (c0_stmt (length (ctoks c))) c"

definition reject_name :: "c0_reject \<Rightarrow> string" where
  "reject_name r = (case r of C0_OOM \<Rightarrow> ''C0_REJ_OUT_OF_MEMORY'' | Rej s \<Rightarrow> s)"

text \<open>What is stored for a function after its body, \<open>NULL\<close> when the copies do not fit.\<close>

definition finish_fn :: "bool \<Rightarrow> VmFn \<Rightarrow> C0Comp \<Rightarrow> unit + VmFn" where
  "finish_fn copies f c =
     (case creject c of
        Some r \<Rightarrow> Inr (f\<lparr>reject := reject_name r\<rparr>)
      | None \<Rightarrow>
        let c1 = snd (c0_emit OP_RET 0 (snd (c0_emit OP_PUSH_CONST 0 c))) in
        if rejected c1 then Inr (f\<lparr>reject := ''C0_REJ_OUT_OF_MEMORY''\<rparr>)
        else if \<not> copies then Inl ()
        else Inr (f\<lparr>code := ccode c1, nlocals := length (clocals c1), arr_n := carrn c1, fn_ok := True\<rparr>))"

definition compile_fn :: "C0Mem \<Rightarrow> bool \<Rightarrow> bool \<Rightarrow> nat \<Rightarrow> C0FnInfo \<Rightarrow> VmFn list \<Rightarrow> (unit + VmFn) option" where
  "compile_fn mem dv sh i info fns =
     (case c0_tokenize (mem_toks mem i) (info_body info) of
        None \<Rightarrow> Some (Inl ())
      | Some toks \<Rightarrow>
        let (broke, c) = bind_params (info_params info) (comp_init mem dv sh i fns toks) in
        if broke then Some (Inr ((fns ! i)\<lparr>reject := ''VM_REJ_ARRAY_TOO_LARGE'', sig_ok := False\<rparr>))
        else map_option (finish_fn (mem_copy mem i) (fns ! i)) (compile_body c))"

fun compile_fns :: "C0Mem \<Rightarrow> bool \<Rightarrow> bool \<Rightarrow> nat \<Rightarrow> C0FnInfo list \<Rightarrow> VmFn list \<Rightarrow> (unit + VmFn list) option" where
  "compile_fns mem dv sh i [] fns = Some (Inr fns)"
| "compile_fns mem dv sh i (info # infos) fns =
     (if \<not> sig_ok (fns ! i) then compile_fns mem dv sh (Suc i) infos fns
      else case compile_fn mem dv sh i info fns of
        None \<Rightarrow> None
      | Some (Inl _) \<Rightarrow> Some (Inl ())
      | Some (Inr f) \<Rightarrow> compile_fns mem dv sh (Suc i) infos (fns[i := f]))"

definition c0_build_impl :: "C0Mem \<Rightarrow> string \<Rightarrow> bool \<Rightarrow> bool \<Rightarrow> (unit + VmModule) option" where
  "c0_build_impl mem src dv sh =
     (case c0_parse_fn_infos (mem_infos mem) src of
        None \<Rightarrow> Some (Inl ())
      | Some infos \<Rightarrow>
        if \<not> mem_module mem then Some (Inl ())
        else map_option (map_sum id c0_resolve_deps) (compile_fns mem dv sh 0 infos (map fn_init infos)))"

definition c0_build :: "C0Mem \<Rightarrow> string \<Rightarrow> (unit + VmModule) option" where
  "c0_build mem src = c0_build_impl mem src True False"

definition c0_build_full :: "C0Mem \<Rightarrow> string \<Rightarrow> (unit + VmModule) option" where
  "c0_build_full mem src = c0_build_impl mem src True True"

section \<open>Every build returns\<close>

lemma toks_ok_tokens_of: "toks_ok (tokens_of s)"
proof (induction s rule: tokens_of.induct)
  case (2 c s)
  then show ?case using next_tok_kind [of c s] unfolding tokens_of.simps(2)
    by (auto simp: toks_ok_def simp del: tokens_of.simps)
qed (simp add: toks_ok_def)

lemma comp_init_ok: "comp_ok (comp_init mem dv sh i fns (tokens_of s))"
  using toks_ok_tokens_of [of s] by (auto simp: comp_ok_def comp_init_def code_ok_def toks_ok_def)

lemma bind_params_ext: "comp_ok c \<Longrightarrow> ext c (snd (bind_params ps c))"
proof (induction ps arbitrary: c)
  case (Cons p ps)
  obtain li c1 where l: "c0_local_idx (cstr (param_name p)) c = (li, c1)" by fastforce
  note e = ext_local_idx(1) [OF Cons.prems l]
  have "ext c (snd (bind_params ps (c0_mark_arr li n c1)))" if "unat n \<le> LIN_VM_MAX_ARR_LEN" for n
    using ext_mark_arr [OF ext_ok [OF e] that, of li] by (blast intro: ext_trans e Cons.IH ext_ok)
  moreover have "ext c (snd (bind_params ps c1))" by (blast intro: ext_trans e Cons.IH ext_ok)
  ultimately show ?case using e by (auto simp: l not_less split: option.split)
qed (simp add: ext_refl)

lemma compile_body_returns:
  assumes "comp_ok c"
  shows "\<exists>c'. compile_body c = Some c' \<and> ext c c'"
proof -
  let ?n = "length (ctoks c)"
  have "go (cpos c) c (compile_body c)"
    unfolding compile_body_def
  proof (rule go_while)
    fix d assume "comp_ok d" "tk_kind (c0_peek d) \<noteq> C0_TK_EOF \<and> \<not> rejected d" "todo d \<le> ?n"
    then show "go (Suc (cpos d)) d (c0_stmt ?n d)" by (intro parsesD [OF stmt_parses]) auto
  qed (use assms in \<open>auto simp: todo_def\<close>)
  then show ?thesis by (auto simp: go_def)
qed

text \<open>The rules a compiled function meets, in a module of \<open>n\<close> functions.\<close>

definition fn_built :: "nat \<Rightarrow> VmFn \<Rightarrow> bool" where
  "fn_built n f = (code f \<noteq> [] \<and> op (last (code f)) = OP_RET \<and> nlocals f \<le> LIN_VM_MAX_LOCALS \<and>
     length (arr_n f) = nlocals f \<and> list_all (\<lambda>k. unat k \<le> LIN_VM_MAX_ARR_LEN) (arr_n f) \<and>
     list_all (ins_valid (length (code f)) n (nlocals f)) (code f))"

definition fn_state :: "nat \<Rightarrow> VmFn \<Rightarrow> bool" where
  "fn_state n f = (if fn_ok f then fn_built n f else code f = [] \<and> arr_n f = [])"

lemma emit_tail:
  assumes "comp_ok c" "c1 = snd (c0_emit OP_RET 0 (snd (c0_emit OP_PUSH_CONST 0 c)))" "\<not> rejected c1"
  shows "ccode c1 = ccode c @ [\<lparr>op = OP_PUSH_CONST, opa = 0\<rparr>, \<lparr>op = OP_RET, opa = 0\<rparr>]" "clocals c1 = clocals c" "carrn c1 = carrn c"
  using assms by (auto simp: c0_emit_def c0_fail_def rejected_def split: if_splits)

lemma code_ok_valid: "code_ok nl n k is \<Longrightarrow> k < k' \<Longrightarrow> list_all (ins_valid k' n nl) is"
  unfolding code_ok_def by (erule list.pred_mono_strong) (auto simp: ins_valid_def)

lemma finish_fn_state:
  assumes "comp_ok c" "finish_fn copies f c = Inr g" "\<not> fn_ok f" "code f = []" "arr_n f = []" "n = length (cfns c)"
  shows "fn_state n g \<and> fn_name g = fn_name f \<and> nparams g = nparams f \<and> (fn_ok g \<longrightarrow> nlocals g = length (clocals c))"
proof (cases "creject c")
  case (Some r)
  then show ?thesis using assms by (auto simp: finish_fn_def fn_state_def)
next
  case None
  let ?c1 = "snd (c0_emit OP_RET 0 (snd (c0_emit OP_PUSH_CONST 0 c)))"
  note t = emit_tail [OF assms(1) refl]
  have "list_all (ins_valid (length (ccode c) + 2) n (length (clocals c))) (ccode c @ [\<lparr>op = OP_PUSH_CONST, opa = 0\<rparr>, \<lparr>op = OP_RET, opa = 0\<rparr>])"
    using code_ok_valid [of "length (clocals c)" n "length (ccode c)" "ccode c"] assms(1,6)
    by (simp add: comp_ok_def) (simp add: ins_valid_def jump_op_def local_op_def)
  then have v: "\<not> rejected ?c1 \<Longrightarrow> list_all (ins_valid (length (ccode ?c1)) n (length (clocals ?c1))) (ccode ?c1)"
    using t by simp
  show ?thesis
  proof (cases "rejected ?c1")
    case True
    then show ?thesis using assms(2-5) None by (auto simp: finish_fn_def fn_state_def Let_def)
  next
    case False
    with None assms(2) have g: "g = f\<lparr>code := ccode ?c1, nlocals := length (clocals ?c1), arr_n := carrn ?c1, fn_ok := True\<rparr>"
      by (simp add: finish_fn_def Let_def split: if_splits)
    show ?thesis unfolding g fn_state_def fn_built_def using v [OF False] assms(1)
      by (simp add: t [OF False] comp_ok_def)
  qed
qed

lemma compile_fn_returns: "\<exists>r. compile_fn mem dv sh i info fns = Some r"
proof -
  let ?c = "snd (bind_params (info_params info) (comp_init mem dv sh i fns (tokens_of (info_body info))))"
  have "comp_ok ?c" using bind_params_ext [OF comp_init_ok] by (rule ext_ok)
  from compile_body_returns [OF this] show ?thesis
    by (auto simp: compile_fn_def c0_tokenize_def split: prod.split)
qed

lemma compile_fn_state:
  assumes "compile_fn mem dv sh i info fns = Some (Inr g)" "\<not> fn_ok (fns ! i)" "code (fns ! i) = []" "arr_n (fns ! i) = []"
  shows "fn_state (length fns) g \<and> fn_name g = fn_name (fns ! i) \<and> nparams g = nparams (fns ! i) \<and>
    (fn_ok g \<longrightarrow> length (clocals (snd (bind_params (info_params info) (comp_init mem dv sh i fns (tokens_of (info_body info)))))) \<le> nlocals g \<and>
       fst (bind_params (info_params info) (comp_init mem dv sh i fns (tokens_of (info_body info)))) = False)"
proof -
  obtain b c where p: "bind_params (info_params info) (comp_init mem dv sh i fns (tokens_of (info_body info))) = (b, c)" by fastforce
  have x: "ext (comp_init mem dv sh i fns (tokens_of (info_body info))) c"
    using bind_params_ext [OF comp_init_ok, where ps = "info_params info"] p by (metis snd_conv)
  show ?thesis
  proof (cases b)
    case True
    then show ?thesis using assms by (auto simp: compile_fn_def c0_tokenize_def p fn_state_def split: if_splits)
  next
    case False
    from compile_body_returns [OF ext_ok [OF x]] obtain c' where c': "compile_body c = Some c'" "ext c c'" by auto
    with assms(1) False have f: "finish_fn (mem_copy mem i) (fns ! i) c' = Inr g"
      by (auto simp: compile_fn_def c0_tokenize_def p split: if_splits)
    have "cfns c' = fns" using x c'(2) by (simp add: ext_def comp_init_def)
    from finish_fn_state [OF ext_ok [OF c'(2)] f assms(2-4) refl, unfolded this] ext_locals [OF c'(2)] p False
    show ?thesis by simp
  qed
qed

text \<open>Parameters with different names get a local each.\<close>

definition param_names :: "C0FnInfo \<Rightarrow> string list" where
  "param_names info = map (\<lambda>p. cstr (param_name p)) (info_params info)"

lemma bind_params_locals:
  "distinct (clocals c @ map (\<lambda>p. cstr (param_name p)) ps) \<Longrightarrow> bind_params ps c = (False, c') \<Longrightarrow> \<not> rejected c' \<Longrightarrow>
     length (clocals c') = length (clocals c) + length ps"
proof (induction ps arbitrary: c)
  case (Cons p ps)
  obtain li c1 where l: "c0_local_idx (cstr (param_name p)) c = (li, c1)" by fastforce
  have "c0_find_local c (cstr (param_name p)) = None"
    using Cons.prems(1) by (auto simp: c0_find_local_def index_from_None list_ex_iff)
  moreover have r: "\<not> rejected c1" using Cons.prems(2,3) by (auto simp: l)
  ultimately have c1: "clocals c1 = clocals c @ [cstr (param_name p)]"
    using l by (auto simp: c0_local_idx_def split: if_splits)
  have "length (clocals c') = length (clocals d) + length ps"
    if "clocals d = clocals c1" "bind_params ps d = (False, c')" for d
    using Cons.prems(1,3) that by (intro Cons.IH) (auto simp: c1)
  from this [of c1] this [of "c0_mark_arr li n c1" for n] Cons.prems(2) r c1 show ?case
    by (auto simp: l split: option.splits if_splits)
qed simp

text \<open>What a function of the module is, with respect to its declaration.\<close>

definition fn_of :: "nat \<Rightarrow> C0FnInfo \<Rightarrow> VmFn \<Rightarrow> bool" where
  "fn_of n info f = (fn_name f = info_name info \<and> nparams f = length (info_params info) \<and> fn_state n f \<and>
     (fn_ok f \<longrightarrow> distinct (param_names info) \<longrightarrow> nparams f \<le> nlocals f))"

lemma fn_init_of: "fn_of n info (fn_init info) \<and> \<not> fn_ok (fn_init info)"
  by (auto simp: fn_of_def fn_init_def fn_state_def Let_def split: option.split)

lemma compile_body_rejected: "rejected c \<Longrightarrow> compile_body c = Some c"
  unfolding compile_body_def by (cases "length (ctoks c)") simp_all

lemma compile_fn_of:
  assumes "compile_fn mem dv sh i info fns = Some (Inr g)" "fn_of (length fns) info (fns ! i)" "\<not> fn_ok (fns ! i)"
  shows "fn_of (length fns) info g"
proof -
  let ?c0 = "comp_init mem dv sh i fns (tokens_of (info_body info))"
  obtain b c where p: "bind_params (info_params info) ?c0 = (b, c)" by fastforce
  have st: "code (fns ! i) = []" "arr_n (fns ! i) = []" using assms(2,3) by (simp_all add: fn_of_def fn_state_def)
  note s = compile_fn_state [OF assms(1,3) st]
  have "nparams g \<le> nlocals g" if "fn_ok g" "distinct (param_names info)"
  proof -
    have b: "b = False" "length (clocals c) \<le> nlocals g" using s that(1) p by auto
    have "\<not> rejected c"
    proof
      assume "rejected c"
      then have "Inr g = finish_fn (mem_copy mem i) (fns ! i) c"
        using assms(1) p b(1) compile_body_rejected [of c] by (auto simp: compile_fn_def c0_tokenize_def split: if_splits)
      then show False using \<open>rejected c\<close> that(1) assms(3) by (auto simp: finish_fn_def rejected_def)
    qed
    then have "length (clocals c) = length (info_params info)"
      using bind_params_locals [of ?c0 "info_params info" c] p b(1) that(2) by (simp add: comp_init_def param_names_def)
    then show ?thesis using b(2) s assms(2) by (simp add: fn_of_def)
  qed
  with s assms(2) show ?thesis by (auto simp: fn_of_def)
qed

lemma compile_fn_mem:
  "mem_toks mem i \<Longrightarrow> mem_copy mem i \<Longrightarrow> compile_fn mem dv sh i info fns \<noteq> Some (Inl ())"
  by (auto simp: compile_fn_def c0_tokenize_def finish_fn_def Let_def split: prod.splits option.splits if_splits)

lemma compile_fns_of:
  assumes "length all = n"
  shows "list_all2 (fn_of n) all fns \<Longrightarrow> drop i all = infos \<Longrightarrow> (\<And>j. i \<le> j \<Longrightarrow> j < n \<Longrightarrow> \<not> fn_ok (fns ! j)) \<Longrightarrow>
    \<exists>r. compile_fns mem dv sh i infos fns = Some r \<and> (\<forall>fns'. r = Inr fns' \<longrightarrow> list_all2 (fn_of n) all fns') \<and>
      ((\<forall>j. mem_toks mem j \<and> mem_copy mem j) \<longrightarrow> r \<noteq> Inl ())"
proof (induction infos arbitrary: i fns)
  case (Cons info infos)
  have "i < length all" using Cons.prems(2) by (rule contrapos_pp) simp
  with Cons.prems(2) have "info # infos = all ! i # drop (Suc i) all" using Cons_nth_drop_Suc by metis
  then have i: "i < n" "all ! i = info" "drop (Suc i) all = infos" "length fns = n"
    using \<open>i < length all\<close> assms list_all2_lengthD [OF Cons.prems(1)] by simp_all
  show ?case
  proof (cases "sig_ok (fns ! i)")
    case False
    with Cons.IH [of fns "Suc i"] Cons.prems(1,3) i(3) show ?thesis by simp
  next
    case True
    have f: "fn_of (length fns) info (fns ! i)" using Cons.prems(1) i assms by (auto simp: list_all2_conv_all_nth)
    from compile_fn_returns [of mem dv sh i info fns] obtain r where r: "compile_fn mem dv sh i info fns = Some r" by auto
    show ?thesis
    proof (cases r)
      case (Inl u)
      then show ?thesis using True r compile_fn_mem [of mem i dv sh info fns] by auto
    next
      case (Inr g)
      have "fn_of n info g" using compile_fn_of [of mem dv sh i info fns g] r Inr f Cons.prems(3) [of i] i by simp
      then have "list_all2 (fn_of n) all (fns[i := g])"
        using Cons.prems(1) i by (auto simp: list_all2_conv_all_nth nth_list_update)
      with Cons.IH [of "fns[i := g]" "Suc i"] Cons.prems(3) i(3) True r Inr show ?thesis by simp
    qed
  qed
qed simp

text \<open>The declarations of a text in source order, and the modules built from them.\<close>

definition declarations :: "string \<Rightarrow> C0FnInfo list" where
  "declarations src = parse_infos_from src 1"

lemma parse_fn_infos_eq:
  "c0_parse_fn_infos m src = (if m \<and> declarations src \<noteq> [] then Some (declarations src) else None)"
  by (simp add: c0_parse_fn_infos_def declarations_def Let_def)

lemma init_of: "list_all2 (fn_of (length infos)) infos (map fn_init infos)"
  using fn_init_of by (simp add: list_all2_conv_all_nth)

lemma compile_all:
  obtains r where "compile_fns mem dv sh 0 infos (map fn_init infos) = Some r"
    "\<And>fns. r = Inr fns \<Longrightarrow> list_all2 (fn_of (length infos)) infos fns"
    "(\<forall>j. mem_toks mem j \<and> mem_copy mem j) \<Longrightarrow> r \<noteq> Inl ()"
  using compile_fns_of [OF refl init_of, of 0 infos infos mem dv sh] fn_init_of by auto

definition fn_result :: "nat \<Rightarrow> C0FnInfo \<Rightarrow> VmFn \<Rightarrow> bool" where
  "fn_result n info f = (fn_name f = info_name info \<and> nparams f = length (info_params info) \<and>
     (fn_ok f \<longrightarrow> fn_built n f \<and> (distinct (param_names info) \<longrightarrow> nparams f \<le> nlocals f)))"

lemma fn_built_cong: "unmark f = unmark g \<Longrightarrow> fn_built n f = fn_built n g"
  using unmark_sel [of f g] by (simp add: fn_built_def)

lemma build_result:
  assumes "c0_build_impl mem src dv sh = Some (Inr md)"
  obtains fns where "md = c0_resolve_deps fns" "list_all2 (fn_of (length (declarations src))) (declarations src) fns"
proof -
  from assms have "mem_infos mem" "declarations src \<noteq> []" "mem_module mem"
    by (auto simp: c0_build_impl_def parse_fn_infos_eq split: if_splits)
  obtain r where r: "compile_fns mem dv sh 0 (declarations src) (map fn_init (declarations src)) = Some r"
    "\<And>fns. r = Inr fns \<Longrightarrow> list_all2 (fn_of (length (declarations src))) (declarations src) fns"
    using compile_all by metis
  with assms \<open>mem_infos mem\<close> \<open>declarations src \<noteq> []\<close> \<open>mem_module mem\<close> have "map_sum id c0_resolve_deps r = Inr md"
    by (simp add: c0_build_impl_def parse_fn_infos_eq)
  then obtain fns where "r = Inr fns" "md = c0_resolve_deps fns" by (cases r) auto
  with r(2) that show ?thesis by blast
qed

lemma resolve_deps_of:
  assumes "list_all2 (fn_of n) infos fns"
  shows "list_all2 (fn_result n) infos (c0_resolve_deps fns)"
proof (rule list_all2_all_nthI)
  show l: "length infos = length (c0_resolve_deps fns)" using list_all2_lengthD [OF assms] by (simp add: resolve_deps_length)
  fix i assume "i < length infos"
  with l have i: "i < length fns" by (simp add: resolve_deps_length)
  note u = resolve_deps_nth [OF i]
  have "fn_ok (c0_resolve_deps fns ! i) \<Longrightarrow> fn_ok (fns ! i)"
    using resolve_deps_shrinks [of fns] i by (auto simp: ok_set_def resolve_deps_length)
  moreover have "fn_of n (infos ! i) (fns ! i)" using assms i by (simp add: list_all2_conv_all_nth)
  ultimately show "fn_result n (infos ! i) (c0_resolve_deps fns ! i)"
    using unmark_sel [OF u] fn_built_cong [OF u] by (auto simp: fn_result_def fn_of_def fn_state_def)
qed

lemma build_results:
  assumes "c0_build_impl mem src dv sh = Some (Inr md)"
  shows "list_all2 (fn_result (length md)) (declarations src) md" "closed_calls md (ok_set md)"
proof -
  from build_result [OF assms] obtain fns where f: "md = c0_resolve_deps fns"
    "list_all2 (fn_of (length (declarations src))) (declarations src) fns" by blast
  then have "length md = length (declarations src)" by (simp add: resolve_deps_length list_all2_lengthD)
  then show "list_all2 (fn_result (length md)) (declarations src) md" using resolve_deps_of [OF f(2)] f(1) by simp
  show "closed_calls md (ok_set md)" unfolding f(1) using resolve_deps_keeps [of fns] by blast
qed

text \<open>The frames of a run hold the parameters of every function that has at most 64 of them.\<close>

lemma fn_of_safe:
  assumes "fn_of n info f" "length (info_params info) \<le> LIN_VM_MAX_LOCALS" "unmark g = unmark f"
  shows "fn_safe g"
proof -
  have "code g = code f" "arr_n g = arr_n f" "nparams g = nparams f" using unmark_sel [OF assms(3)] by simp_all
  moreover have "fn_safe f"
    using assms(1,2) by (force simp: fn_of_def fn_state_def fn_built_def fn_safe_def list_all_iff ins_valid_def split: if_splits)
  ultimately show ?thesis by (simp add: fn_safe_def)
qed

lemma build_safe:
  assumes "c0_build_impl mem src dv sh = Some (Inr md)"
    "list_all (\<lambda>info. length (info_params info) \<le> LIN_VM_MAX_LOCALS) (declarations src)"
  shows "\<forall>f \<in> set md. fn_safe f"
proof
  from build_result [OF assms(1)] obtain fns where f: "md = c0_resolve_deps fns"
    "list_all2 (fn_of (length (declarations src))) (declarations src) fns" by blast
  fix g assume "g \<in> set md"
  then obtain i where i: "i < length fns" "g = c0_resolve_deps fns ! i" by (auto simp: f(1) in_set_conv_nth resolve_deps_length)
  with f(2) have "fn_of (length (declarations src)) (declarations src ! i) (fns ! i)" "i < length (declarations src)"
    by (auto simp: list_all2_conv_all_nth)
  with assms(2) i resolve_deps_nth [OF i(1)] show "fn_safe g"
    by (auto intro: fn_of_safe simp: list_all_length)
qed

section \<open>Concrete sources\<close>

definition all_mem :: C0Mem where
  "all_mem = \<lparr>mem_infos = True, mem_module = True, mem_toks = \<lambda>_. True, mem_comp = \<lambda>_ _ _. True, mem_copy = \<lambda>_. True\<rparr>"

definition ident_src :: string where
  "ident_src = ''!f(a:int)->int{^a}''"

definition ident_fn :: VmFn where
  "ident_fn = \<lparr>fn_name = ''f'', nparams = 1, nlocals = 1,
     code = [\<lparr>op = OP_LOAD_LOCAL, opa = 0\<rparr>, \<lparr>op = OP_RET, opa = 0\<rparr>, \<lparr>op = OP_PUSH_CONST, opa = 0\<rparr>, \<lparr>op = OP_RET, opa = 0\<rparr>],
     sig_ok = True, fn_ok = True, reject = '''', arr_n = [0]\<rparr>"

lemma ident_build: "c0_build_impl all_mem ident_src True False = Some (Inr [ident_fn])"
  by code_simp

lemma ident_params: "list_all (\<lambda>info. length (info_params info) \<le> LIN_VM_MAX_LOCALS) (declarations ident_src)"
  by code_simp

text \<open>One function with 65 parameters of the same name.\<close>

definition same_params_src :: string where
  "same_params_src = ''!f('' @ concat (replicate 64 ''a:int,'') @ ''a:int)->int{^a}''"

lemma same_params_build: "c0_build all_mem same_params_src = Some (Inr [ident_fn\<lparr>nparams := 65\<rparr>])"
  by code_simp

lemma too_many_args:
  "idx \<le> LIN_VM_MAX_LOCALS \<Longrightarrow> LIN_VM_MAX_LOCALS < idx + length vs \<Longrightarrow> length ans \<le> LIN_VM_MAX_LOCALS \<Longrightarrow>
     vm_init_args vs idx ans fr = Inl (VmFault Locals)"
proof (induction vs arbitrary: idx fr)
  case (Cons v vs)
  show ?case
  proof (cases "idx < LIN_VM_MAX_LOCALS")
    case True
    with Cons show ?thesis by simp
  qed (use Cons in simp)
qed simp

section \<open>Properties\<close>

lemma build_returns: "\<exists>r. c0_build_impl mem src dv sh = Some r"
proof -
  obtain r where "compile_fns mem dv sh 0 (declarations src) (map fn_init (declarations src)) = Some r"
    using compile_all by metis
  then show ?thesis by (simp add: c0_build_impl_def parse_fn_infos_eq)
qed

text \<open>
  C19: the front-end always returns. On every text, in both profiles and whatever allocations
  fail, the recursive descent ends within the fuel of the tokens of the body; and when no
  allocation fails the result is \<open>NULL\<close> exactly for a text without a declaration.
\<close>
theorem c0_build_total:
  "(\<exists>r. c0_build_impl mem src dv sh = Some r) \<and>
   (c0_build_impl all_mem src dv sh = Some (Inl ()) \<longleftrightarrow> parse_infos_from src 1 = [])"
proof
  show "\<exists>r. c0_build_impl mem src dv sh = Some r" by (rule build_returns)
  obtain r' where r': "compile_fns all_mem dv sh 0 (declarations src) (map fn_init (declarations src)) = Some r'" "r' \<noteq> Inl ()"
    using compile_all [of all_mem dv sh "declarations src"] by (auto simp: all_mem_def)
  then obtain fns where "r' = Inr fns" by (cases r') auto
  with r'(1) show "c0_build_impl all_mem src dv sh = Some (Inl ()) \<longleftrightarrow> parse_infos_from src 1 = []"
    by (auto simp: c0_build_impl_def parse_fn_infos_eq declarations_def all_mem_def)
qed

text \<open>
  C20: what the front-end marks executable is well-formed. The module has one function per
  declaration, in order, with its name and number of parameters; an executable one ends in
  \<open>RET\<close>, has at most 64 locals with an array length of at most 256 each, every jump lands in
  its code, every call names a function of the module and every local operand a local,
  and each parameter has a local of its own if their names differ; and an executable
  function calls executable functions only.
\<close>
theorem c0_build_valid:
  assumes "c0_build_impl mem src dv sh = Some (Inr md)"
  shows "list_all2 (fn_result (length md)) (parse_infos_from src 1) md \<and> closed_calls md (ok_set md)"
  using build_results [OF assms] by (simp add: declarations_def)

theorem c0_build_valid_witness:
  "list_all2 (fn_result 1) (parse_infos_from ident_src 1) [ident_fn] \<and> closed_calls [ident_fn] (ok_set [ident_fn])"
  using c0_build_valid [OF ident_build] by simp

text \<open>
  C21: dependency resolution is exact. The functions left executable are the largest set of
  executable functions that is closed under calls: nothing that can reach a rejected or
  missing function stays, nothing else is dropped, and no other field changes.
\<close>
theorem resolve_deps_greatest:
  "ok_set (c0_resolve_deps fns) = \<Union> {S. closed_calls fns S} \<and> map unmark (c0_resolve_deps fns) = map unmark fns"
proof
  have k: "map unmark (c0_resolve_deps fns) = map unmark fns" "closed_calls (c0_resolve_deps fns) (ok_set (c0_resolve_deps fns))"
    using resolve_deps_keeps by blast+
  then show "map unmark (c0_resolve_deps fns) = map unmark fns" by simp
  have "closed_calls fns (ok_set (c0_resolve_deps fns))"
    by (rule closed_calls_cong [OF k(1) [symmetric] k(2) resolve_deps_shrinks])
  moreover have "S \<subseteq> ok_set (c0_resolve_deps fns)" if "closed_calls fns S" for S
    using resolve_deps_keeps [of fns S] that by (simp add: closed_calls_def)
  ultimately show "ok_set (c0_resolve_deps fns) = \<Union> {S. closed_calls fns S}" by blast
qed

text \<open>
  C31: compiled code is memory safe. No execution of a module built from a text whose functions
  have at most 64 parameters leaves the arrays of its frame, the push of a call result on
  a full stack excepted, and that one needs a function without parameters.
\<close>
theorem built_module_memory_safe:
  assumes "c0_build_impl mem src dv sh = Some (Inr md)"
    "list_all (\<lambda>info. length (info_params info) \<le> LIN_VM_MAX_LOCALS) (declarations src)"
  shows "vm_exec mem' (Some md) fi args dep (Some steps) = Some (Inl (VmFault x, s)) \<longrightarrow>
    x = CallResult \<and> list_ex (\<lambda>f. nparams f = 0) md"
  using vm_exec_faults [OF _ build_safe [OF assms]] by (auto simp: list_ex_iff)

theorem built_module_memory_safe_witness:
  "\<not> (\<exists>x s. vm_exec True (Some [ident_fn]) 0 [5] 0 (Some 0) = Some (Inl (VmFault x, s)))"
  using built_module_memory_safe [OF ident_build ident_params, of True 0 "[5]" 0 0] by (auto simp: ident_fn_def)

text \<open>
  The bound on the parameters is needed. Parameters with one name share a local, so the
  limit of 64 locals does not bound their number: a function with 65 of them is built and
  marked executable, and executing it stores its last argument behind the 64 locals of the frame.
\<close>
theorem same_params_overflow_locals:
  "\<exists>md. c0_build all_mem same_params_src = Some (Inr md) \<and>
     vm_exec True (Some md) 0 (replicate 65 0) 0 (Some 0) = Some (Inl (VmFault Locals, Some 0))"
proof -
  let ?f = "ident_fn\<lparr>nparams := 65\<rparr>"
  have a: "vm_init_args (replicate 65 0) 0 (arr_n ?f) fr = Inl (VmFault Locals)" for fr
    by (rule too_many_args) (simp_all add: lin_limits ident_fn_def)
  have "vm_init_frame ?f (replicate 65 0) fr = Inl (VmFault Locals)" for fr
    using a by (simp add: vm_init_frame_def ident_fn_def)
  then have "vm_exec True (Some [?f]) 0 (replicate 65 0) 0 (Some 0) = Some (Inl (VmFault Locals, Some 0))"
    by (simp add: vm_exec_def vm_exec_ctx_def vm_enter_def vm_call_def vm_call_with_def lin_vm_frames_alloc_def ident_fn_def)
  with same_params_build show ?thesis by blast
qed

end
