(* ===== verification/C0_Pipeline.thy ===== *)
theory C0_Pipeline
  imports C0_Build C0_Image
begin

text \<open>
  How the front-end, the image format and the machine fit together: what the encoder accepts
  of a built module meets every rule of the loader, and the machine runs a loaded image
  exactly as it runs the module the image was made from.
\<close>

section \<open>Built modules that the encoder accepts are valid\<close>

lemma image_guard_ok:
  "image_guard md = Inr () \<Longrightarrow> list_all (\<lambda>f. fn_ok f \<and> nparams f \<le> nlocals f \<and> nlocals f \<le> LIN_VM_MAX_LOCALS) md"
  by (induction md) (auto split: if_splits)

lemma put_fns_arrs: "put_fns mem i md o1 = Inr o2 \<Longrightarrow> list_all (\<lambda>f. \<not> count_arrs (arr_n f) > 8) md"
proof (induction md arbitrary: i o1)
  case (Cons f md)
  from Cons.prems obtain o3 where o3: "put_fn mem i f o1 = Inr o3" "put_fns mem (Suc i) md o3 = Inr o2"
    unfolding put_fns.simps and_then_eq_Inr by metis
  from o3(1) have "\<not> count_arrs (arr_n f) > 8" by (auto simp: put_fn_def split: if_splits)
  with Cons.IH [OF o3(2)] show ?case by simp
qed simp

lemma encode_accepts:
  assumes "c0_image_encode mem md = Inr img"
  shows "image_guard md = Inr ()" "list_all (\<lambda>f. \<not> count_arrs (arr_n f) > 8) md" "length md \<le> LIN_BC1_MAX_FNS"
proof -
  from assms obtain o2 o3 where e: "image_guard md = Inr ()" "\<not> length md > LIN_BC1_MAX_FNS" "put_fns mem 0 md o2 = Inr o3"
    unfolding c0_image_encode_def and_then_eq_Inr require_eq_Inr by (metis (full_types) old.unit.exhaust)
  from e(1,2) show "image_guard md = Inr ()" "length md \<le> LIN_BC1_MAX_FNS" by simp_all
  from e(3) show "list_all (\<lambda>f. \<not> count_arrs (arr_n f) > 8) md" by (rule put_fns_arrs)
qed

lemma count_arrs_limit:
  assumes "\<not> count_arrs ns > 8" "length ns \<le> LIN_VM_MAX_LOCALS"
  shows "length (filter (\<lambda>n. n \<noteq> 0) ns) \<le> LIN_VM_MAX_ARRS"
proof -
  have "length (filter (\<lambda>n. n \<noteq> 0) ns) \<le> 64" using le_trans [OF length_filter_le assms(2)] by (simp add: lin_limits)
  then have "unat (count_arrs ns) = length (filter (\<lambda>n. n \<noteq> 0) ns)" unfolding count_arrs_filter by (intro small_u8) simp
  with assms(1) show ?thesis by (simp add: word_less_nat_alt lin_limits)
qed

lemma built_encoded_valid:
  assumes "c0_build_impl mem src dv sh = Some (Inr md)" "c0_image_encode mem' md = Inr img"
    "sum_list (map (\<lambda>f. length (code f)) md) \<le> LIN_BC1_MAX_INS_TOTAL"
  shows "module_valid md"
proof -
  note e = encode_accepts [OF assms(2)]
  have "fn_valid (length md) f" if f: "f \<in> set md" for f
  proof -
    have ok: "fn_ok f" "nparams f \<le> nlocals f" "nlocals f \<le> LIN_VM_MAX_LOCALS" "\<not> count_arrs (arr_n f) > 8"
      using image_guard_ok [OF e(1)] e(2) f by (auto simp: list_all_iff)
    have "\<exists>info. fn_result (length md) info f"
      using build_results(1) [OF assms(1)] f by (auto simp: list_all2_conv_all_nth in_set_conv_nth)
    then have b: "fn_built (length md) f" using ok(1) by (auto simp: fn_result_def)
    have "length (filter (\<lambda>n. n \<noteq> 0) (arr_n f)) \<le> LIN_VM_MAX_ARRS"
      using b ok(3) by (intro count_arrs_limit [OF ok(4)]) (simp add: fn_built_def)
    with b ok show ?thesis by (simp add: fn_valid_def fn_built_def bc1_limits lin_limits)
  qed
  then show ?thesis using e(3) assms(3) by (simp add: module_valid_def list_all_iff)
qed

section \<open>A loaded module runs like the original\<close>

text \<open>
  What the machine uses of a function: a change of its other fields does not change any run.
\<close>

locale module_view =
  fixes view :: "VmFn \<Rightarrow> VmFn"
  assumes view_sel: "nparams (view f) = nparams f" "nlocals (view f) = nlocals f" "code (view f) = code f"
    "fn_ok (view f) = fn_ok f" "arr_n (view f) = arr_n f"
begin

lemma enter_view: "vm_enter (map view md) fi k dep = map_sum id view (vm_enter md fi k dep)"
  by (simp add: vm_enter_def view_sel)

lemma init_frame_view: "vm_init_frame (view f) = vm_init_frame f"
  by (intro ext) (simp add: vm_init_frame_def view_sel)

lemma call_with_view:
  "(\<And>f. lp' (view f) = lp f) \<Longrightarrow> vm_call_with lp' (map view md) fi args dep st = vm_call_with lp md fi args dep st"
  by (simp add: vm_call_with_def enter_view init_frame_view view_sel split: sum.split)

end

lemma abi_call_module: "vm_abi_call (ctx\<lparr>vm_module := x\<rparr>) = vm_abi_call ctx"
proof -
  have f: "vm_abi (ctx\<lparr>vm_module := x\<rparr>) = vm_abi ctx" "vm_regions (ctx\<lparr>vm_module := x\<rparr>) = vm_regions ctx"
    "vm_profile (ctx\<lparr>vm_module := x\<rparr>) = vm_profile ctx" "vm_abi_version (ctx\<lparr>vm_module := x\<rparr>) = vm_abi_version ctx"
    by simp_all
  show ?thesis unfolding vm_abi_call_def [abs_def] vm_validate_abi_call_context_def f ..
qed

lemma ins_module [simp]: "vm_ins (ctx\<lparr>vm_module := x\<rparr>) = vm_ins ctx"
  unfolding vm_ins_def [abs_def] abi_call_module ..

context module_view
begin

lemma loop_view:
  "vm_loop n (ctx\<lparr>vm_module := x\<rparr>) (map view md) (view f) dep pc sp st = vm_loop n ctx md f dep pc sp st"
proof (induction n arbitrary: f dep pc sp st)
  case (Suc n)
  have c: "vm_call_with (\<lambda>g d. vm_loop n (ctx\<lparr>vm_module := x\<rparr>) (map view md) g d 0 0) (map view md) fi args dep st
      = vm_call_with (\<lambda>g d. vm_loop n ctx md g d 0 0) md fi args dep st" for fi args dep st
    by (rule call_with_view) (intro ext, simp add: Suc.IH)
  have k: "nparams (map view md ! i) = nparams (md ! i)" if "i < length md" for i using that by (simp add: view_sel)
  show ?case unfolding vm_loop.simps Let_def
    by (simp add: Suc.IH c k not_le view_sel cong: if_cong sum.case_cong split: sum.split vm_next.split)
qed simp

lemma exec_view: "vm_exec mem (Some (map view md)) fi args dep osteps = vm_exec mem (Some md) fi args dep osteps"
proof -
  let ?ctx = "\<lambda>md. \<lparr>vm_module = md, vm_regions = None, vm_abi = None, step_limit = LIN_VM_STEP_LIMIT,
              vm_profile = LIN_VM_PROFILE_LINVM1, vm_abi_version = LIN_HOST_ABI_1, frames = None\<rparr> :: LinVmContext"
  have "vm_call n (?ctx (Some (map view md))) (map view md) fi args dep st = vm_call n (?ctx (Some md)) md fi args dep st" for n st
  proof -
    have "vm_loop n (?ctx (Some (map view md))) (map view md) (view f) = vm_loop n (?ctx (Some md)) md f" for f
      using loop_view [where n = n and ctx = "?ctx (Some md)" and x = "Some (map view md)" and md = md and f = f]
      by (intro ext) simp
    then show ?thesis unfolding vm_call_def by (intro call_with_view) simp
  qed
  then show ?thesis
    by (simp add: vm_exec_def vm_exec_ctx_def enter_view split: option.split sum.split)
qed

end

lemma loaded_sel [simp]:
  "fn_name (loaded f) = fn_name f" "nparams (loaded f) = nparams f" "nlocals (loaded f) = nlocals f"
  "code (loaded f) = code f" "fn_ok (loaded f) = fn_ok f" "arr_n (loaded f) = arr_n f"
  by (simp_all add: loaded_def)

interpretation ldr: module_view loaded
  by unfold_locales simp_all

lemmas exec_loaded = ldr.exec_view

text \<open>What the loader makes of an encoded module.\<close>

lemma encoded_loads:
  assumes "c0_build_impl mem src dv sh = Some (Inr md)" "c0_image_encode mem' md = Inr img"
    "sum_list (map (\<lambda>f. length (code f)) md) \<le> LIN_BC1_MAX_INS_TOTAL"
    "sum_list (map (\<lambda>f. length (fn_name f)) md) \<le> LIN_BC1_MAX_STR_BYTES"
  shows "\<exists>vm. lin_bc1_load (Some img) True = Inr vm \<and> bc1_mod vm = map loaded md"
proof -
  have "img = image_bytes md" unfolding image_bytes_def using assms(2) by (rule encode_bytes)
  then show ?thesis using load_image [OF built_encoded_valid [OF assms(1-3)] assms(4)] by blast
qed

end
