(* ===== verification/Lin_Bc1_Run.thy ===== *)
theory Lin_Bc1_Run
  imports C0_Pipeline Lin_Stdlib
begin

text \<open>
  \<open>transpile/c/tool/lin_bc1_run.c\<close>, the driver that loads an image from a file or from hex text
  and runs one function of it by name. The file system is a parameter: the contents of a file
  that can be opened. \<open>bc1_run\<close> is \<open>main\<close> on the arguments behind the program name; each way
  it ends is a value of \<open>BcOut\<close> with its exit code and its line.
\<close>

section \<open>Reading the image\<close>

definition MAX_IMG_BYTES :: nat where "MAX_IMG_BYTES = 256 * 1024"

definition hexval :: "char \<Rightarrow> int" where
  "hexval c =
     (let n = int (of_char c :: nat) in
      if 48 \<le> n \<and> n \<le> 57 then n - 48
      else if 97 \<le> n \<and> n \<le> 102 then n - 97 + 10
      else if 65 \<le> n \<and> n \<le> 70 then n - 65 + 10
      else - 1)"

text \<open>The decoding loop over the pairs of an even number of characters.\<close>

fun hex_bytes :: "string \<Rightarrow> bytes option" where
  "hex_bytes (x # y # h) =
     (let a = hexval x; b = hexval y in
      if a < 0 \<or> b < 0 then None else map_option ((#) (word_of_int (push_bit 4 a OR b))) (hex_bytes h))"
| "hex_bytes _ = Some []"

datatype BcOut =
    BcUsage
  | BcRejected string string
  | BcLoadRejected LinBc1Err
  | BcVerified LinBc1Vm
  | BcExecRejected LinErr "u64 option"
  | BcFault vm_array
  | BcEvaluated string VmExecResult u64 LinBc1Vm

text \<open>The image and the arguments from \<open>arg0\<close> on, or how the driver ends before the load.\<close>

definition bc1_image :: "(string \<Rightarrow> bytes option) \<Rightarrow> string list \<Rightarrow> BcOut + (bytes \<times> string list)" where
  "bc1_image files args =
     (if length args < 2 then Inl BcUsage
      else if args ! 0 = ''--hex'' then
        (let h = args ! 1 in
         if length h mod 2 \<noteq> 0 \<or> length h div 2 > MAX_IMG_BYTES then Inl (BcRejected ''hex'' ''bad_hex'')
         else case hex_bytes h of
             None \<Rightarrow> Inl (BcRejected ''hex'' ''bad_hex'')
           | Some img \<Rightarrow> Inr (img, drop 2 args))
      else case files (args ! 0) of
          None \<Rightarrow> Inl (BcRejected ''read'' ''open_failed'')
        | Some content \<Rightarrow>
            (let img = take MAX_IMG_BYTES content in
             if length img = 0 \<or> length img = MAX_IMG_BYTES then Inl (BcRejected ''read'' ''bad_size'')
             else Inr (img, drop 1 args)))"

section \<open>Running a function\<close>

text \<open>\<open>strtoll(argv[i], NULL, 10)\<close>: 0 for a text without digits.\<close>

definition arg_value :: "string \<Rightarrow> i64" where
  "arg_value a = (case strtoll a of None \<Rightarrow> 0 | Some (v, _) \<Rightarrow> v)"

fun exec_out ::
  "string \<Rightarrow> LinBc1Vm \<Rightarrow> (vm_stop \<times> u64 option) + (VmExecResult \<times> VmFrameStore option \<times> u64) \<Rightarrow> BcOut" where
  "exec_out nm vm (Inl (VmErr ve, steps)) = BcExecRejected ve steps"
| "exec_out nm vm (Inl (VmFault x, steps)) = BcFault x"
| "exec_out nm vm (Inr (r, _, steps)) = BcEvaluated nm r steps vm"

definition bc1_exec :: "bool \<Rightarrow> LinBc1Vm \<Rightarrow> string \<Rightarrow> string list \<Rightarrow> BcOut option" where
  "bc1_exec mem vm nm rest =
     (let fi = lin_bc1_find_fn vm nm in
      if fi < 0 then Some (BcRejected ''exec'' ''unknown_fn'')
      else map_option (exec_out nm vm)
        (vm_exec mem (Some (bc1_mod vm)) (nat fi) (map arg_value (take 64 rest)) 0 (Some 0)))"

definition bc1_run :: "bool \<Rightarrow> (string \<Rightarrow> bytes option) \<Rightarrow> string list \<Rightarrow> BcOut option" where
  "bc1_run mem files args =
     (case bc1_image files args of
        Inl out \<Rightarrow> Some out
      | Inr (img, rest) \<Rightarrow>
          (case lin_bc1_load (Some img) True of
             Inl e \<Rightarrow> Some (BcLoadRejected e)
           | Inr vm \<Rightarrow>
               (case rest of
                  [] \<Rightarrow> Some BcUsage
                | a # as \<Rightarrow> if a = ''--verify'' then Some (BcVerified vm) else bc1_exec mem vm a as)))"

fun bc1_exit :: "BcOut \<Rightarrow> nat option" where
  "bc1_exit BcUsage = Some 2"
| "bc1_exit (BcRejected stage err) = Some 3"
| "bc1_exit (BcLoadRejected e) = Some 3"
| "bc1_exit (BcVerified vm) = Some 0"
| "bc1_exit (BcExecRejected ve steps) = Some 3"
| "bc1_exit (BcFault x) = None"
| "bc1_exit (BcEvaluated nm r steps vm) = Some 0"

definition bc1_head :: "string \<Rightarrow> string" where
  "bc1_head status = ''@LIN:XVER:1.0 engine='' @ quoted ''C11-LINBC1'' @ '' status='' @ quoted status"

definition img_fields :: "LinBc1Vm \<Rightarrow> string" where
  "img_fields vm = '' img_sha256='' @ quoted (lin_sha256_hex (img_sha256 vm)) @
     '' img_fold='' @ fmt_i64 (lin_bc1_fold_digest (img_sha256 vm)) @ '' profile='' @ dec_digits (unat (bc1_profile vm))"

fun bc1_line :: "BcOut \<Rightarrow> string" where
  "bc1_line BcUsage = []"
| "bc1_line (BcRejected stage err) =
     bc1_head ''REJECTED'' @ '' stage='' @ quoted stage @ '' error='' @ quoted err @ [CHR 0x0A]"
| "bc1_line (BcLoadRejected e) =
     bc1_head ''REJECTED'' @ '' stage='' @ quoted ''load'' @ '' error='' @ quoted (''linbc1.'' @ lin_bc1_err_name e) @ [CHR 0x0A]"
| "bc1_line (BcVerified vm) =
     bc1_head ''VERIFIED'' @ img_fields vm @ '' fns='' @ dec_digits (length (bc1_mod vm)) @
     '' bytes='' @ dec_digits (img_len vm) @ [CHR 0x0A]"
| "bc1_line (BcExecRejected ve steps) =
     bc1_head ''REJECTED'' @ '' stage='' @ quoted ''exec'' @ '' error='' @ quoted (lin_err_name ve) @
     '' steps='' @ (case steps of None \<Rightarrow> ''0'' | Some n \<Rightarrow> fmt_u64 n) @ [CHR 0x0A]"
| "bc1_line (BcFault x) = []"
| "bc1_line (BcEvaluated nm r steps vm) =
     bc1_head ''EVALUATED'' @ '' fn='' @ quoted nm @ '' result='' @ fmt_i64 (res_val r) @ '' steps='' @ fmt_u64 steps @
     '' sp_at_ret='' @ dec_digits (sp_at_ret r) @ img_fields vm @ [CHR 0x0A]"

section \<open>Hex text\<close>

lemma hexval_hexd: "n < 16 \<Longrightarrow> hexval (hexd ! n) = int n"
proof -
  assume "n < 16"
  then have "n \<in> set [0..<16]" by simp
  then show ?thesis by (simp add: upt_rec hexd_def) (elim disjE; simp add: hexval_def)
qed

lemma hex_pair: "word_of_int (push_bit 4 (uint (drop_bit 4 b)) OR uint (take_bit 4 b)) = (b :: u8)"
proof (rule bit_word_eqI)
  fix i assume "i < LENGTH(8)"
  then show "bit (word_of_int (push_bit 4 (uint (drop_bit 4 b)) OR uint (take_bit 4 b)) :: u8) i \<longleftrightarrow> bit b i"
    by (cases "i < 4") (simp_all add: bit_word_of_int_iff bit_or_iff bit_push_bit_iff bit_uint_iff bit_drop_bit_eq bit_take_bit_iff
      less_imp_diff_less)
qed

lemma hex_bytes_hex: "hex_bytes (lin_sha256_hex img) = Some img"
proof (induction img)
  case (Cons b img)
  then show ?case using hex_pair [of b] nibbles [of b] by (simp add: lin_sha256_hex_def low_nibble hexval_hexd Let_def)
qed (simp add: lin_sha256_hex_def)

lemma hex_length: "length (lin_sha256_hex img) = 2 * length img"
  by (induction img) (simp_all add: lin_sha256_hex_def)

lemma image_of_hex:
  "length img \<le> MAX_IMG_BYTES \<Longrightarrow> bc1_image files (''--hex'' # lin_sha256_hex img # rest) = Inr (img, rest)"
  by (simp add: bc1_image_def hex_bytes_hex hex_length)

lemma arg_value_fmt: "arg_value (fmt_i64 v) = v"
  using strtoll_fmt [of "[]" v] by (simp add: arg_value_def)

lemma ident_encodes: "\<exists>img. c0_image_encode (\<lambda>_. True) [ident_fn] = Inr img"
  by (rule encode_mem) (simp_all add: ident_fn_def arrs_writable_def count_arrs_def bc1_limits lin_limits)

section \<open>Properties\<close>

text \<open>
  C6: from a source text to the printed result. Let the front-end build a module from a text and
  the encoder write its image, within the sizes the loader and the driver accept. The driver,
  given the image in hex, a function name other than the flag and up to 64 decimal arguments,
  ends exactly as the machine does on the built module for the first function of that name.
\<close>
theorem driver_runs_compiled_source:
  assumes "c0_build_impl mem source dv sh = Some (Inr md)" "c0_image_encode mem' md = Inr img"
    "sum_list (map (\<lambda>f. length (code f)) md) \<le> LIN_BC1_MAX_INS_TOTAL"
    "sum_list (map (\<lambda>f. length (fn_name f)) md) \<le> LIN_BC1_MAX_STR_BYTES"
    "length img \<le> MAX_IMG_BYTES" "k < length md" "\<forall>i < k. fn_name (md ! i) \<noteq> fn_name (md ! k)"
    "fn_name (md ! k) \<noteq> ''--verify''" "length args \<le> 64"
  shows "\<exists>vm. lin_bc1_load (Some img) True = Inr vm \<and>
    bc1_run m files (''--hex'' # lin_sha256_hex img # fn_name (md ! k) # map fmt_i64 args)
      = map_option (exec_out (fn_name (md ! k)) vm) (vm_exec m (Some md) k args 0 (Some 0))"
proof -
  let ?nm = "fn_name (md ! k)"
  obtain vm where vm: "lin_bc1_load (Some img) True = Inr vm" "bc1_mod vm = map loaded md"
    using encoded_loads [OF assms(1-4)] by blast
  have "(LEAST i. i < length md \<and> fn_name (md ! i) = ?nm) = k"
    using assms(6,7) by (intro Least_equality) (auto simp: not_less [symmetric])
  moreover have "?nm \<in> fn_name ` set (bc1_mod vm)"
    using nth_mem [OF assms(6)] by (auto simp: vm(2) image_image)
  ultimately have "lin_bc1_find_fn vm ?nm = int k"
    using bc1_find_fn_exact [OF vm(1), of ?nm] by (simp add: vm(2) cong: conj_cong)
  then have "bc1_exec m vm ?nm (map fmt_i64 args) = map_option (exec_out ?nm vm) (vm_exec m (Some md) k args 0 (Some 0))"
    using assms(9) by (simp add: bc1_exec_def vm(2) exec_loaded arg_value_fmt comp_def)
  with vm(1) assms(8) show ?thesis by (simp add: bc1_run_def image_of_hex [OF assms(5)])
qed

theorem driver_runs_compiled_source_witness:
  "\<exists>img vm. c0_image_encode (\<lambda>_. True) [ident_fn] = Inr img \<and> lin_bc1_load (Some img) True = Inr vm \<and>
     bc1_run True (\<lambda>_. None) [''--hex'', lin_sha256_hex img, ''f'', fmt_i64 7]
       = map_option (exec_out ''f'' vm) (vm_exec True (Some [ident_fn]) 0 [7] 0 (Some 0))"
proof -
  obtain img where i: "c0_image_encode (\<lambda>_. True) [ident_fn] = Inr img" using ident_encodes by blast
  then have "img = image_bytes [ident_fn]" unfolding image_bytes_def by (rule encode_bytes)
  then have "length img \<le> MAX_IMG_BYTES"
    by (simp add: MAX_IMG_BYTES_def image_bytes_def body_bytes_def header_bytes_def names_bytes_def fn_bytes_def code_bytes_def ident_fn_def)
  from driver_runs_compiled_source [OF ident_build i _ _ this, of 0 "[7]" True "\<lambda>_. None"] i show ?thesis
    by (auto simp: ident_fn_def bc1_limits)
qed

text \<open>
  An image in hex text and the same image in a file are the same to the driver, for every
  image of 1 to 262143 bytes and at least one more argument.
\<close>
theorem driver_hex_is_file:
  assumes "0 < length img" "length img < MAX_IMG_BYTES" "rest \<noteq> []" "nm \<noteq> ''--hex''" "files nm = Some img"
  shows "bc1_run m files (''--hex'' # lin_sha256_hex img # rest) = bc1_run m files (nm # rest)"
proof -
  have "bc1_image files (nm # rest) = Inr (img, rest)"
    using assms by (cases rest) (auto simp: bc1_image_def)
  with assms(2) show ?thesis by (simp add: bc1_run_def image_of_hex)
qed

theorem driver_hex_is_file_witness:
  "bc1_run True (\<lambda>_. Some [1, 2]) [''--hex'', lin_sha256_hex [1, 2], ''f''] = bc1_run True (\<lambda>_. Some [1, 2]) [''x'', ''f'']"
  by (rule driver_hex_is_file) (simp_all add: MAX_IMG_BYTES_def)

end
