(* ===== verification/C0_Cli.thy ===== *)
theory C0_Cli
  imports C0_Lint Lin_Bc1_Run
begin

text \<open>
  The commands of \<open>transpile/c/tool/lin_c0.c\<close> on source texts and images: \<open>check\<close>, \<open>lint\<close>,
  \<open>info\<close>, \<open>vm\<close>, \<open>vmfull\<close>, \<open>image\<close>, \<open>run\<close> and \<open>roundtrip\<close>; \<open>receipt\<close> is in the theory
  \<open>C0_Receipt\<close>. A command takes the arguments behind its own name and gives what it prints on
  both streams, its exit code and the file it wrote. The texts and images are C strings and byte
  lists; names of functions are identifiers, so that comparing them is comparing lists.
\<close>

section \<open>Environment of a command\<close>

text \<open>
  The files that can be read, those that can be opened for writing, how much of a text a write
  accepts, and where memory is available: for the front-end, the encoder and the frames of the
  machine.
\<close>

record CliEnv =
  env_read :: "string \<Rightarrow> string option"
  env_open :: "string \<Rightarrow> bool"
  env_fwrite :: "string \<Rightarrow> bytes \<Rightarrow> nat"
  env_build :: C0Mem
  env_encode :: "nat \<Rightarrow> bool"
  env_frames :: bool

datatype CliOut =
    CliDone string string nat "(string \<times> bytes) option"
  | CliFault vm_array

abbreviation prints :: "string \<Rightarrow> nat \<Rightarrow> CliOut" where "prints s rc \<equiv> CliDone s [] rc None"
abbreviation complains :: "string \<Rightarrow> CliOut" where "complains s \<equiv> CliDone [] (s @ [NEWLINE]) 1 None"

definition C0_VERSION :: string where "C0_VERSION = ''lin_c0 1.0.0 (LINVM-1 host, C11, no Zig)''"

definition C0_HOST_LINE :: string where
  "C0_HOST_LINE = ''.host{ engine='' @ quoted ''C11-lin_c0'' @
     '' zig=false profile=LINVM-1 opcodes=33 step_limit=200000000 overflow=wrapping }''"

definition C0_OPCODE_COUNT :: nat where "C0_OPCODE_COUNT = 33"

definition vm_err_code :: "LinErr \<Rightarrow> string" where
  "vm_err_code e = (let n = lin_err_name e in if take 6 n = ''error.'' then drop 6 n else n)"

definition find_fn :: "VmModule \<Rightarrow> string \<Rightarrow> nat option" where
  "find_fn md nm = index_from 0 (\<lambda>f. fn_name f = nm) md"

text \<open>The arguments of a call, at most \<open>cap\<close> of them: each is a decimal number to its end.\<close>

fun cli_parse_args :: "nat \<Rightarrow> string list \<Rightarrow> i64 list option" where
  "cli_parse_args cap [] = Some []"
| "cli_parse_args cap (a # as) =
     (if cap = 0 then None
      else if a = [] then None
      else case strtoll a of
          None \<Rightarrow> None
        | Some (v, e) \<Rightarrow> if e \<noteq> [] then None else map_option ((#) v) (cli_parse_args (cap - 1) as))"

section \<open>check and lint\<close>

definition infos_of :: "CliEnv \<Rightarrow> string \<Rightarrow> C0FnInfo list" where
  "infos_of E src = (case c0_parse_fn_infos (mem_infos (env_build E)) src of None \<Rightarrow> [] | Some fns \<Rightarrow> fns)"

definition cmd_check :: "CliEnv \<Rightarrow> string list \<Rightarrow> CliOut" where
  "cmd_check E args =
     (case args of
        [] \<Rightarrow> complains ''usage: lin_c0 check <file.lin>''
      | path # _ \<Rightarrow>
          (case env_read E path of
             None \<Rightarrow> complains (''check: cannot open '' @ path)
           | Some src \<Rightarrow>
               (let fns = infos_of E src in
                if \<not> c0_syntax_valid src then complains ''LIN_PARSE''
                else case c0_type_check fns of
                    Some err \<Rightarrow> complains err
                  | None \<Rightarrow> prints (cstr (c0_check_rulel src fns)) 0)))"

definition cmd_lint :: "CliEnv \<Rightarrow> string list \<Rightarrow> CliOut" where
  "cmd_lint E args =
     (case args of
        [] \<Rightarrow> complains ''usage: lin_c0 lint <file.lin>''
      | path # _ \<Rightarrow>
          (case env_read E path of
             None \<Rightarrow> complains (''lint: cannot open '' @ path)
           | Some src \<Rightarrow> prints (cstr (c0_lint src) @ [NEWLINE]) 0))"

section \<open>info, vm and vmfull\<close>

definition coverage_line :: "VmFn \<Rightarrow> string" where
  "coverage_line f =
     ''  .fn{ name='' @ quoted (fn_name f) @ '' params='' @ dec_digits (nparams f) @
     (if fn_ok f
      then '' status=OK locals='' @ dec_digits (nlocals f) @ '' code='' @ dec_digits (length (code f))
      else '' status=REJECTED reason='' @ quoted (reject f)) @ '' }'' @ [NEWLINE]"

definition print_coverage :: "VmModule \<Rightarrow> string" where
  "print_coverage md =
     (let eligible = length (filter fn_ok md) in
      ''@RULEL:LIN_VM:1.0.0'' @ [NEWLINE] @ C0_HOST_LINE @ [NEWLINE] @
      ''.engine{ opcodes='' @ dec_digits C0_OPCODE_COUNT @ '' overflow=wrapping shifts=lia_compatible step_limit='' @
      fmt_u64 LIN_VM_STEP_LIMIT @ '' }'' @ [NEWLINE] @
      ''.coverage{ total='' @ dec_digits (length md) @ '' eligible='' @ dec_digits eligible @
      '' rejected='' @ dec_digits (length md - eligible) @ '' }'' @ [NEWLINE] @
      ''.fns{'' @ [NEWLINE] @ concat (map coverage_line md) @ ''}'' @ [NEWLINE])"

definition rulel :: "string \<Rightarrow> string" where
  "rulel tag = ''@RULEL:'' @ tag @ '':1.0.0'' @ [NEWLINE]"

definition file_error :: "string \<Rightarrow> string \<Rightarrow> string" where
  "file_error path c = ''.error{ file='' @ quoted path @ '' code='' @ quoted c @ '' }'' @ [NEWLINE]"

text \<open>\<open>steps\<close> is the counter the machine was given, 0 where it returns before counting.\<close>

definition run_error :: "string \<Rightarrow> LinErr \<Rightarrow> u64 option \<Rightarrow> string" where
  "run_error nm e steps = ''.error{ fn='' @ quoted nm @ '' code='' @ quoted (vm_err_code e) @
     '' steps='' @ (case steps of None \<Rightarrow> ''0'' | Some n \<Rightarrow> fmt_u64 n) @ '' }'' @ [NEWLINE]"

definition run_result :: "string \<Rightarrow> VmExecResult \<Rightarrow> u64 \<Rightarrow> string" where
  "run_result nm r steps =
     ''.result{ fn='' @ quoted nm @ '' value='' @ fmt_i64 (res_val r) @ '' steps='' @ fmt_u64 steps @ '' }'' @ [NEWLINE]"

definition fn_refused :: "VmFn \<Rightarrow> string" where
  "fn_refused f = ''.refused{ fn='' @ quoted (fn_name f) @ '' reason='' @ quoted (reject f) @ '' }'' @ [NEWLINE]"

fun vm_run_out :: "string \<Rightarrow> (vm_stop \<times> u64 option) + (VmExecResult \<times> VmFrameStore option \<times> u64) \<Rightarrow> CliOut" where
  "vm_run_out nm (Inl (VmErr e, steps)) = prints (rulel ''LIN_VM_RUN'' @ run_error nm e steps) 1"
| "vm_run_out nm (Inl (VmFault x, _)) = CliFault x"
| "vm_run_out nm (Inr (r, _, steps)) = prints (rulel ''LIN_VM_RUN'' @ run_result nm r steps) 0"

definition vm_source :: "CliEnv \<Rightarrow> VmModule \<Rightarrow> string \<Rightarrow> string list \<Rightarrow> CliOut option" where
  "vm_source E md nm rest =
     (case find_fn md nm of
        None \<Rightarrow> Some (complains (''vm: unknown function: '' @ nm))
      | Some fi \<Rightarrow>
          if \<not> fn_ok (md ! fi) then Some (prints (rulel ''LIN_VM_RUN'' @ fn_refused (md ! fi)) 1)
          else case cli_parse_args 64 rest of
              None \<Rightarrow> Some (complains ''vm: bad integer argument'')
            | Some as \<Rightarrow>
                map_option (vm_run_out (fn_name (md ! fi))) (vm_exec (env_frames E) (Some md) fi as 0 (Some 0)))"

definition cmd_vm :: "CliEnv \<Rightarrow> bool \<Rightarrow> string list \<Rightarrow> CliOut option" where
  "cmd_vm E full args =
     (case args of
        [] \<Rightarrow> Some (complains ''usage: lin_c0 vm|vmfull <file.lin> [fn] [int args...]'')
      | path # rest \<Rightarrow>
          (case env_read E path of
             None \<Rightarrow> Some (prints (rulel ''LIN_VM'' @ C0_HOST_LINE @ [NEWLINE] @ file_error path ''C0_READ_FAILED'') 1)
           | Some src \<Rightarrow>
               (case (if full then c0_build_full (env_build E) src else c0_build (env_build E) src) of
                  None \<Rightarrow> None
                | Some (Inl _) \<Rightarrow> Some (prints (rulel ''LIN_VM'' @ C0_HOST_LINE @ [NEWLINE] @ file_error path ''C0_BUILD_FAILED'') 1)
                | Some (Inr md) \<Rightarrow>
                    (case rest of
                       [] \<Rightarrow> Some (prints (print_coverage md) 0)
                     | nm # as \<Rightarrow> vm_source E md nm as))))"

section \<open>image\<close>

fun out_path :: "string list \<Rightarrow> string option \<Rightarrow> string option" where
  "out_path (a # b # rest) acc = (if a = ''-o'' then out_path rest (Some b) else out_path (b # rest) acc)"
| "out_path _ acc = acc"

definition image_refused :: "string \<Rightarrow> VmModule \<Rightarrow> string" where
  "image_refused err md =
     (let (fn, why) = (case find (\<lambda>f. \<not> fn_ok f) md of None \<Rightarrow> ([], []) | Some f \<Rightarrow> (fn_name f, reject f)) in
      ''.refused{ reason='' @ quoted err @ '' fn='' @ quoted fn @ '' detail='' @ quoted why @ '' }'' @ [NEWLINE])"

definition image_record :: "bytes \<Rightarrow> VmModule \<Rightarrow> string" where
  "image_record img md =
     (let digest = lin_sha256_final (lin_sha256_update (lin_sha256_init raw_ctx) img); hex = lin_sha256_hex digest in
      ''.image{ bytes='' @ dec_digits (length img) @ '' fns='' @ dec_digits (length md) @
      '' ins='' @ dec_digits (sum_list (map (\<lambda>f. length (code f)) md)) @ '' profile=1 fold='' @
      fmt_i64 (lin_bc1_fold_digest digest) @ '' sha256='' @ hex @ '' img='' @ quoted hex @ '' }'' @ [NEWLINE])"

definition write_image :: "CliEnv \<Rightarrow> string \<Rightarrow> string option \<Rightarrow> bytes \<Rightarrow> CliOut" where
  "write_image E out opath img =
     (case opath of
        None \<Rightarrow> CliDone out [] 0 None
      | Some path \<Rightarrow>
          if \<not> env_open E path then CliDone out (''image: cannot write '' @ path @ [NEWLINE]) 1 None
          else
            (let n = env_fwrite E path img in
             if img \<noteq> [] \<and> n \<noteq> length img
             then CliDone out (''image: short write '' @ path @ [NEWLINE]) 1 (Some (path, take n img))
             else CliDone out [] 0 (Some (path, img))))"

definition cmd_image :: "CliEnv \<Rightarrow> string list \<Rightarrow> CliOut option" where
  "cmd_image E args =
     (case args of
        [] \<Rightarrow> Some (complains ''usage: lin_c0 image <file.lin> [-o out.linbc]'')
      | path # rest \<Rightarrow>
          (case env_read E path of
             None \<Rightarrow> Some (prints (rulel ''LIN_BC1_IMAGE'' @ file_error path ''C0_READ_FAILED'') 1)
           | Some src \<Rightarrow>
               (case c0_build (env_build E) src of
                  None \<Rightarrow> None
                | Some (Inl _) \<Rightarrow> Some (prints (rulel ''LIN_BC1_IMAGE'' @ file_error path ''C0_BUILD_FAILED'') 1)
                | Some (Inr md) \<Rightarrow>
                    (case c0_image_encode (env_encode E) md of
                       Inl err \<Rightarrow> Some (prints (rulel ''LIN_BC1_IMAGE'' @ image_refused err md) 1)
                     | Inr img \<Rightarrow>
                         Some (write_image E (rulel ''LIN_BC1_IMAGE'' @ image_record img md) (out_path rest None) img)))))"

section \<open>run\<close>

definition run_image :: "CliEnv \<Rightarrow> string \<Rightarrow> bytes \<Rightarrow> string \<Rightarrow> string list \<Rightarrow> CliOut option" where
  "run_image E path img nm rest =
     (case lin_bc1_load (Some img) True of
        Inl le \<Rightarrow>
          Some (prints (rulel ''LIN_VM_RUN'' @ ''.refused{ image='' @ quoted path @
            '' reason='' @ quoted (''LINBC1_'' @ lin_bc1_err_name le) @ '' }'' @ [NEWLINE]) 1)
      | Inr vm \<Rightarrow>
          (let fi = lin_bc1_find_fn vm nm in
           if fi < 0 then Some (complains (''run: unknown function: '' @ nm))
           else case cli_parse_args 64 rest of
               None \<Rightarrow> Some (complains ''run: bad integer argument'')
             | Some as \<Rightarrow> map_option (vm_run_out nm) (vm_exec (env_frames E) (Some (bc1_mod vm)) (nat fi) as 0 (Some 0))))"

definition cmd_run :: "CliEnv \<Rightarrow> string list \<Rightarrow> CliOut option" where
  "cmd_run E args =
     (case args of
        path # nm # rest \<Rightarrow>
          (case env_read E path of
             None \<Rightarrow> Some (prints (rulel ''LIN_VM_RUN'' @ file_error path ''C0_READ_FAILED'') 1)
           | Some content \<Rightarrow> run_image E path (bytes_of_string content) nm rest)
      | _ \<Rightarrow> Some (complains ''usage: lin_c0 run <img.linbc> <fn> [int args...]''))"

section \<open>roundtrip\<close>

text \<open>How the command can end; \<open>rt_out\<close> is what it prints for each.\<close>

datatype RtOut =
    RtUsage
  | RtReadFailed string
  | RtBuildFailed string
  | RtUnknown string
  | RtRefused VmFn
  | RtBadArg
  | RtRunError string LinErr "u64 option"
  | RtFault vm_array
  | RtNotEncoded string
  | RtLoader LinBc1Err
  | RtMissing
  | RtImageError LinErr
  | RtConsensus string VmExecResult u64 bytes
  | RtDiverge string VmExecResult u64 VmExecResult u64

definition rt_image :: "CliEnv \<Rightarrow> string \<Rightarrow> i64 list \<Rightarrow> VmExecResult \<Rightarrow> u64 \<Rightarrow> bytes \<Rightarrow> RtOut option" where
  "rt_image E nm as s_res s_steps img =
     (case lin_bc1_load (Some img) True of
        Inl le \<Rightarrow> Some (RtLoader le)
      | Inr vm \<Rightarrow>
          (let fi_img = lin_bc1_find_fn vm nm in
           if fi_img < 0 then Some RtMissing
           else case vm_exec (env_frames E) (Some (bc1_mod vm)) (nat fi_img) as 0 (Some 0) of
               None \<Rightarrow> None
             | Some (Inl (VmErr e, _)) \<Rightarrow> Some (RtImageError e)
             | Some (Inl (VmFault x, _)) \<Rightarrow> Some (RtFault x)
             | Some (Inr (i_res, _, i_steps)) \<Rightarrow>
                 Some (if res_val s_res = res_val i_res \<and> s_steps = i_steps \<and> sp_at_ret s_res = sp_at_ret i_res
                       then RtConsensus nm s_res s_steps img
                       else RtDiverge nm s_res s_steps i_res i_steps)))"

definition rt_source :: "CliEnv \<Rightarrow> VmModule \<Rightarrow> string \<Rightarrow> string list \<Rightarrow> RtOut option" where
  "rt_source E md nm rest =
     (case find_fn md nm of
        None \<Rightarrow> Some (RtUnknown nm)
      | Some fi \<Rightarrow>
          if \<not> fn_ok (md ! fi) then Some (RtRefused (md ! fi))
          else case cli_parse_args 64 rest of
              None \<Rightarrow> Some RtBadArg
            | Some as \<Rightarrow>
                (case vm_exec (env_frames E) (Some md) fi as 0 (Some 0) of
                   None \<Rightarrow> None
                 | Some (Inl (VmErr e, steps)) \<Rightarrow> Some (RtRunError nm e steps)
                 | Some (Inl (VmFault x, _)) \<Rightarrow> Some (RtFault x)
                 | Some (Inr (s_res, _, s_steps)) \<Rightarrow>
                     (case c0_image_encode (env_encode E) md of
                        Inl err \<Rightarrow> Some (RtNotEncoded err)
                      | Inr img \<Rightarrow> rt_image E nm as s_res s_steps img)))"

definition cmd_roundtrip :: "CliEnv \<Rightarrow> string list \<Rightarrow> RtOut option" where
  "cmd_roundtrip E args =
     (case args of
        path # nm # rest \<Rightarrow>
          (case env_read E path of
             None \<Rightarrow> Some (RtReadFailed path)
           | Some src \<Rightarrow>
               (case c0_build (env_build E) src of
                  None \<Rightarrow> None
                | Some (Inl _) \<Rightarrow> Some (RtBuildFailed path)
                | Some (Inr md) \<Rightarrow> rt_source E md nm rest))
      | _ \<Rightarrow> Some RtUsage)"

definition rt_verdict :: "string \<Rightarrow> string \<Rightarrow> string" where
  "rt_verdict status rest = rulel ''LIN_ROUNDTRIP'' @ ''.verdict{ status='' @ quoted status @ rest @ '' }'' @ [NEWLINE]"

fun rt_out :: "RtOut \<Rightarrow> CliOut" where
  "rt_out RtUsage = complains ''usage: lin_c0 roundtrip <file.lin> <fn> [int args...]''"
| "rt_out (RtReadFailed path) = prints (rulel ''LIN_ROUNDTRIP'' @ file_error path ''C0_READ_FAILED'') 1"
| "rt_out (RtBuildFailed path) = prints (rulel ''LIN_ROUNDTRIP'' @ file_error path ''C0_BUILD_FAILED'') 1"
| "rt_out (RtUnknown nm) = complains (''roundtrip: unknown function: '' @ nm)"
| "rt_out (RtRefused f) = prints (rulel ''LIN_ROUNDTRIP'' @ fn_refused f) 1"
| "rt_out RtBadArg = complains ''roundtrip: bad integer argument''"
| "rt_out (RtRunError nm e steps) = prints (rulel ''LIN_ROUNDTRIP'' @ run_error nm e steps) 1"
| "rt_out (RtFault x) = CliFault x"
| "rt_out (RtNotEncoded err) = prints (rulel ''LIN_ROUNDTRIP'' @ ''.refused{ reason='' @ quoted err @ '' }'' @ [NEWLINE]) 1"
| "rt_out (RtLoader le) =
     prints (rt_verdict ''DIVERGENCE'' ('' why='' @ quoted ''loader_rejected'' @ '' reason='' @ quoted (''LINBC1_'' @ lin_bc1_err_name le))) 1"
| "rt_out RtMissing = prints (rt_verdict ''DIVERGENCE'' ('' why='' @ quoted ''fn_missing'')) 1"
| "rt_out (RtImageError e) =
     prints (rt_verdict ''DIVERGENCE'' ('' why='' @ quoted ''image_error'' @ '' code='' @ quoted (vm_err_code e))) 1"
| "rt_out (RtConsensus nm r steps img) =
     prints (rt_verdict ''CONSENSUS'' ('' fn='' @ quoted nm @ '' value='' @ fmt_i64 (res_val r) @ '' steps='' @ fmt_u64 steps @
       '' sp='' @ dec_digits (sp_at_ret r) @ '' image_bytes='' @ dec_digits (length img) @ '' img='' @
       quoted (lin_sha256_hex (lin_sha256_final (lin_sha256_update (lin_sha256_init raw_ctx) img))))) 0"
| "rt_out (RtDiverge nm s ss i is) =
     prints (rt_verdict ''DIVERGENCE'' ('' fn='' @ quoted nm @ '' source_value='' @ fmt_i64 (res_val s) @
       '' source_steps='' @ fmt_u64 ss @ '' image_value='' @ fmt_i64 (res_val i) @ '' image_steps='' @ fmt_u64 is @
       '' source_sp='' @ dec_digits (sp_at_ret s) @ '' image_sp='' @ dec_digits (sp_at_ret i))) 1"

section \<open>Lookup\<close>

lemma find_fn_Some:
  assumes "find_fn md nm = Some k"
  shows "k < length md" "fn_name (md ! k) = nm" "i < k \<Longrightarrow> fn_name (md ! i) \<noteq> nm"
  using index_from_Some [OF assms [unfolded find_fn_def]] index_from_first [OF assms [unfolded find_fn_def]] by simp_all

lemma find_fn_None: "find_fn md nm = None \<longleftrightarrow> nm \<notin> fn_name ` set md"
  unfolding find_fn_def index_from_None by (auto simp: list_ex_iff)

lemma loaded_find_fn:
  assumes "lin_bc1_load (Some img) True = Inr vm" "bc1_mod vm = map loaded md"
  shows "lin_bc1_find_fn vm nm = (case find_fn md nm of None \<Rightarrow> - 1 | Some k \<Rightarrow> int k)"
proof (cases "find_fn md nm")
  case None
  then have "nm \<notin> fn_name ` set (bc1_mod vm)" using find_fn_None [of md nm] by (simp add: assms(2) image_image)
  with None bc1_find_fn_exact [OF assms(1), of nm] show ?thesis by simp
next
  case (Some k)
  note k = find_fn_Some [OF Some]
  have "(LEAST i. i < length md \<and> fn_name (md ! i) = nm) = k"
    using k by (intro Least_equality) (auto simp: not_less [symmetric])
  moreover have "nm \<in> fn_name ` set (bc1_mod vm)" using k by (auto simp: assms(2) image_image)
  ultimately show ?thesis using bc1_find_fn_exact [OF assms(1), of nm] Some by (simp add: assms(2) cong: conj_cong)
qed

lemma exec_returns: "\<exists>r. vm_exec m (Some md) fi args 0 (Some 0) = Some r"
  by (rule vm_exec_returns) (simp add: LIN_VM_STEP_LIMIT_def)

section \<open>Properties\<close>

definition fits_image :: "VmModule \<Rightarrow> bool" where
  "fits_image md =
     (sum_list (map (\<lambda>f. length (code f)) md) \<le> LIN_BC1_MAX_INS_TOTAL \<and>
      sum_list (map (\<lambda>f. length (fn_name f)) md) \<le> LIN_BC1_MAX_STR_BYTES)"

fun rt_diverges :: "RtOut \<Rightarrow> bool" where
  "rt_diverges (RtLoader _) = True"
| "rt_diverges RtMissing = True"
| "rt_diverges (RtImageError _) = True"
| "rt_diverges (RtDiverge _ _ _ _ _) = True"
| "rt_diverges _ = False"

lemma rt_image_consensus:
  assumes "c0_build mem src = Some (Inr md)" "fits_image md" "c0_image_encode mem' md = Inr img" "find_fn md nm = Some fi"
    "vm_exec (env_frames E) (Some md) fi as 0 (Some 0) = Some (Inr (r, frs, steps))"
  shows "rt_image E nm as r steps img = Some (RtConsensus nm r steps img)"
proof -
  obtain vm where vm: "lin_bc1_load (Some img) True = Inr vm" "bc1_mod vm = map loaded md"
    using encoded_loads [OF assms(1) [unfolded c0_build_def] assms(3)] assms(2) unfolding fits_image_def by blast
  with loaded_find_fn [OF vm, of nm] assms(4,5) show ?thesis by (simp add: rt_image_def exec_loaded)
qed

text \<open>
  C2: the round trip never diverges. Let the front-end build a module that fits the two size
  limits of the loader. For every function name and all arguments the command returns, and not
  with one of the divergence verdicts; and it ends with the consensus verdict on the value, the
  steps and the image whenever the source route gives a value and the module can be encoded.
\<close>
theorem roundtrip_never_diverges:
  assumes "env_read E path = Some src" "c0_build (env_build E) src = Some (Inr md)" "fits_image md"
  shows "\<exists>out. cmd_roundtrip E (path # nm # rest) = Some out \<and> \<not> rt_diverges out \<and>
    (\<forall>fi as r frs steps img. find_fn md nm = Some fi \<and> fn_ok (md ! fi) \<and> cli_parse_args 64 rest = Some as \<and>
       vm_exec (env_frames E) (Some md) fi as 0 (Some 0) = Some (Inr (r, frs, steps)) \<and>
       c0_image_encode (env_encode E) md = Inr img \<longrightarrow> out = RtConsensus nm r steps img)"
proof -
  note c = rt_image_consensus [OF assms(2,3)]
  have r: "cmd_roundtrip E (path # nm # rest) = rt_source E md nm rest" using assms by (simp add: cmd_roundtrip_def)
  show ?thesis
  proof (cases "\<exists>fi as. find_fn md nm = Some fi \<and> fn_ok (md ! fi) \<and> cli_parse_args 64 rest = Some as")
    case True
    then obtain fi as where f: "find_fn md nm = Some fi" "fn_ok (md ! fi)" "cli_parse_args 64 rest = Some as" by blast
    obtain x where x: "vm_exec (env_frames E) (Some md) fi as 0 (Some 0) = Some x" using exec_returns by blast
    show ?thesis
    proof (cases x)
      case (Inr y)
      then show ?thesis using f x c [OF _ f(1)] unfolding r
        by (cases y; cases "c0_image_encode (env_encode E) md") (auto simp: rt_source_def)
    next
      case (Inl y)
      then show ?thesis using f x unfolding r by (cases y; cases "fst y") (auto simp: rt_source_def)
    qed
  next
    case False
    then show ?thesis unfolding r by (auto simp: rt_source_def split: option.splits)
  qed
qed

definition ident_env :: CliEnv where
  "ident_env = \<lparr>env_read = (\<lambda>_. Some ident_src), env_open = (\<lambda>_. True), env_fwrite = (\<lambda>_ img. length img),
     env_build = all_mem, env_encode = (\<lambda>_. True), env_frames = True\<rparr>"

lemma ident_fits: "fits_image [ident_fn]"
  by (simp add: fits_image_def ident_fn_def bc1_limits)

theorem roundtrip_never_diverges_witness:
  "\<exists>out. cmd_roundtrip ident_env [''f.lin'', ''f'', ''7''] = Some out \<and> \<not> rt_diverges out"
proof -
  have b: "c0_build (env_build ident_env) ident_src = Some (Inr [ident_fn])" using ident_build by (simp add: ident_env_def c0_build_def)
  have r: "env_read ident_env ''f.lin'' = Some ident_src" by (simp add: ident_env_def)
  from roundtrip_never_diverges [OF r b ident_fits, of "''f''" "[''7'']"] show ?thesis by blast
qed

text \<open>
  C3: running the image is running the source. Let the front-end build a module that fits the
  loader from a source file, let the encoder write its image and let a file hold that image.
  Then \<open>run\<close> on that file prints the same record with the same exit code as \<open>vm\<close> on the source,
  for every function of the module and all arguments that parse.
\<close>
theorem run_image_prints_vm_record:
  assumes "env_read E src_path = Some src" "c0_build (env_build E) src = Some (Inr md)" "fits_image md"
    "c0_image_encode (env_encode E) md = Inr img" "env_read E img_path = Some (string_of_bytes img)"
    "nm \<in> fn_name ` set md" "cli_parse_args 64 args \<noteq> None"
  shows "cmd_run E (img_path # nm # args) = cmd_vm E False (src_path # nm # args)"
proof -
  obtain vm where vm: "lin_bc1_load (Some img) True = Inr vm" "bc1_mod vm = map loaded md"
    using encoded_loads [OF assms(2) [unfolded c0_build_def] assms(4)] assms(3) unfolding fits_image_def by blast
  obtain k where k: "find_fn md nm = Some k" using find_fn_None assms(6) by (cases "find_fn md nm") auto
  note f = find_fn_Some [OF k]
  have "list_all fn_ok md" using image_guard_ok [OF encode_accepts(1) [OF assms(4)]] by (simp add: list_all_iff)
  then have "fn_ok (md ! k)" using f by (simp add: list_all_length)
  with assms vm k f loaded_find_fn [OF vm, of nm] show ?thesis
    by (auto simp: cmd_run_def run_image_def cmd_vm_def vm_source_def exec_loaded bytes_of_string_of_bytes)
qed

theorem run_image_prints_vm_record_witness:
  "\<exists>img. c0_image_encode (\<lambda>_. True) [ident_fn] = Inr img \<and>
     (let E = ident_env\<lparr>env_read := (\<lambda>p. if p = ''f.lin'' then Some ident_src else Some (string_of_bytes img))\<rparr> in
      cmd_run E [''f.linbc'', ''f'', ''7''] = cmd_vm E False [''f.lin'', ''f'', ''7''])"
proof -
  obtain img where i: "c0_image_encode (\<lambda>_. True) [ident_fn] = Inr img" using ident_encodes by blast
  let ?E = "ident_env\<lparr>env_read := (\<lambda>p. if p = ''f.lin'' then Some ident_src else Some (string_of_bytes img))\<rparr>"
  have "cli_parse_args 64 [''7''] = Some [7]" by code_simp
  then have "cmd_run ?E [''f.linbc'', ''f'', ''7''] = cmd_vm ?E False [''f.lin'', ''f'', ''7'']"
    using ident_build i by (intro run_image_prints_vm_record [OF _ _ ident_fits, where src = ident_src and img = img])
      (simp_all add: ident_env_def c0_build_def ident_fn_def)
  with i show ?thesis by (auto simp: Let_def)
qed

end
