(* ===== verification/C0_Jit.thy ===== *)
theory C0_Jit
  imports C0_Cli
begin

text \<open>
  The translation of \<open>transpile/c/tool/lin_c0_jit.c\<close>: the growing text buffer, the names of the
  C functions, and the C program that \<open>c0_jit_emit_c11\<close> prints for a module.

  \<^item> Every opcode has one template of C text. A template is a constructor of \<open>CStmt\<close>, the
    program is a list of \<open>CFun\<close>, and the text is printed from it, so that the text depends on
    the module through the program only.
  \<^item> The meaning of the program is that of C: \<open>None\<close> is undefined behaviour, such as an access
    outside an array of the function or a read of a cell of \<open>stack\<close> that was never written. A
    right shift of a negative number, implementation-defined, is the arithmetic one.
  \<^item> \<open>malloc\<close> and \<open>realloc\<close> of the buffer are taken to succeed; the code does not look at their
    results.
\<close>

section \<open>The text buffer\<close>

text \<open>
  \<open>sb_over\<close> records that \<open>sb_printf\<close> copied more than the 1024 bytes it had formatted into.
\<close>

record StrBuf =
  sb_data :: string
  sb_len :: nat
  sb_cap :: nat
  sb_over :: bool

definition sb_init :: StrBuf where
  "sb_init = \<lparr>sb_data = [], sb_len = 0, sb_cap = 4096, sb_over = False\<rparr>"

function sb_grow :: "nat \<Rightarrow> nat \<Rightarrow> nat" where
  "sb_grow need cap = (if 0 < cap \<and> cap \<le> need then sb_grow need (cap * 2) else cap)"
  by pat_completeness auto
termination by (relation "measure (\<lambda>(need, cap). Suc need - cap)") auto

declare sb_grow.simps [simp del]

definition sb_ensure :: "StrBuf \<Rightarrow> nat \<Rightarrow> StrBuf" where
  "sb_ensure sb extra = sb\<lparr>sb_cap := sb_grow (sb_len sb + extra + 1) (sb_cap sb)\<rparr>"

definition sb_puts :: "string \<Rightarrow> StrBuf \<Rightarrow> StrBuf" where
  "sb_puts s sb =
     (let sb1 = sb_ensure sb (length s) in
      sb1\<lparr>sb_data := take (sb_len sb1) (sb_data sb1) @ s, sb_len := sb_len sb1 + length s\<rparr>)"

definition sb_printf :: "string \<Rightarrow> StrBuf \<Rightarrow> StrBuf" where
  "sb_printf s sb =
     (if s = [] then sb
      else let sb1 = sb_puts s sb in sb1\<lparr>sb_over := sb_over sb1 \<or> 1024 \<le> length s\<rparr>)"

definition sanitize_fn_name :: "string \<Rightarrow> nat \<Rightarrow> string" where
  "sanitize_fn_name nm cap =
     map (\<lambda>c. if (CHR ''a'' \<le> c \<and> c \<le> CHR ''z'') \<or> (CHR ''A'' \<le> c \<and> c \<le> CHR ''Z'') \<or>
                 (CHR ''0'' \<le> c \<and> c \<le> CHR ''9'') \<or> c = CHR ''_'' then c else CHR ''_'')
       (take (cap - 1) (cstr nm))"

section \<open>The C program of a module\<close>

datatype CBin = CAdd | CSub | CMul | CDiv | CRem | CAnd | COr | CXor | CShl | CShr | CUshr
  | CEq | CNe | CLt | CGt | CLe | CGe

datatype CUn = CNot | CNeg | CLogNot

datatype CStmt =
    SPush i64
  | SLoad nat
  | SStore nat
  | SPop
  | SBin CBin
  | SUn CUn
  | SGoto i64
  | SIfZero i64
  | SIfZeroKeep i64
  | SIfNonzeroKeep i64
  | SReturn
  | SLoadIndex nat
  | SStoreIndex nat
  | SArrLen nat
  | SCall nat string

record CFun =
  cf_name :: string
  cf_nparams :: nat
  cf_arrs :: "u16 list"
  cf_body :: "CStmt option list"

text \<open>The switch on the opcode; an opcode without a template prints its label only.\<close>

definition jit_ins :: "VmModule \<Rightarrow> VmIns \<Rightarrow> CStmt option" where
  "jit_ins md i =
     (let a = opa i in
      case op i of
        OP_PUSH_CONST \<Rightarrow> Some (SPush a)
      | OP_LOAD_LOCAL \<Rightarrow> Some (SLoad (unat a))
      | OP_STORE_LOCAL \<Rightarrow> Some (SStore (unat a))
      | OP_POP \<Rightarrow> Some SPop
      | OP_ADD \<Rightarrow> Some (SBin CAdd)
      | OP_SUB \<Rightarrow> Some (SBin CSub)
      | OP_MUL \<Rightarrow> Some (SBin CMul)
      | OP_DIV \<Rightarrow> Some (SBin CDiv)
      | OP_MOD \<Rightarrow> Some (SBin CRem)
      | OP_BIT_AND \<Rightarrow> Some (SBin CAnd)
      | OP_BIT_OR \<Rightarrow> Some (SBin COr)
      | OP_BIT_XOR \<Rightarrow> Some (SBin CXor)
      | OP_BIT_NOT \<Rightarrow> Some (SUn CNot)
      | OP_NEG \<Rightarrow> Some (SUn CNeg)
      | OP_LOG_NOT \<Rightarrow> Some (SUn CLogNot)
      | OP_SHL \<Rightarrow> Some (SBin CShl)
      | OP_SHR \<Rightarrow> Some (SBin CShr)
      | OP_USHR \<Rightarrow> Some (SBin CUshr)
      | OP_CMP_EQ \<Rightarrow> Some (SBin CEq)
      | OP_CMP_NE \<Rightarrow> Some (SBin CNe)
      | OP_CMP_LT \<Rightarrow> Some (SBin CLt)
      | OP_CMP_GT \<Rightarrow> Some (SBin CGt)
      | OP_CMP_LE \<Rightarrow> Some (SBin CLe)
      | OP_CMP_GE \<Rightarrow> Some (SBin CGe)
      | OP_JUMP \<Rightarrow> Some (SGoto a)
      | OP_JUMP_IF_FALSE \<Rightarrow> Some (SIfZero a)
      | OP_JUMP_IF_FALSE_KEEP \<Rightarrow> Some (SIfZeroKeep a)
      | OP_JUMP_IF_TRUE_KEEP \<Rightarrow> Some (SIfNonzeroKeep a)
      | OP_RET \<Rightarrow> Some SReturn
      | OP_LOAD_INDEX \<Rightarrow> Some (SLoadIndex (unat a))
      | OP_STORE_INDEX \<Rightarrow> Some (SStoreIndex (unat a))
      | OP_ARR_LEN \<Rightarrow> Some (SArrLen (unat a))
      | OP_CALL \<Rightarrow>
          if unat a < length md
          then Some (SCall (nparams (md ! unat a)) (sanitize_fn_name (fn_name (md ! unat a)) 128))
          else None
      | OP_ABI_CALL \<Rightarrow> None)"

definition jit_fn :: "VmModule \<Rightarrow> VmFn \<Rightarrow> CFun" where
  "jit_fn md f = \<lparr>cf_name = sanitize_fn_name (fn_name f) 128, cf_nparams = nparams f, cf_arrs = arr_n f,
     cf_body = map (jit_ins md) (code f)\<rparr>"

definition jit_prog :: "VmModule \<Rightarrow> CFun list" where
  "jit_prog md = map (jit_fn md) (filter fn_ok md)"

section \<open>The text of the program\<close>

text \<open>What is appended by \<open>sb_puts\<close> and what by \<open>sb_printf\<close>.\<close>

datatype Chunk = Puts string | Printf string

fun chunk_text :: "Chunk \<Rightarrow> string" where
  "chunk_text (Puts s) = s"
| "chunk_text (Printf s) = s"

fun sb_add :: "Chunk \<Rightarrow> StrBuf \<Rightarrow> StrBuf" where
  "sb_add (Puts s) = sb_puts s"
| "sb_add (Printf s) = sb_printf s"

definition out_lines :: "string list \<Rightarrow> string" where
  "out_lines ls = concat (map (\<lambda>l. l @ [NEWLINE]) ls)"

definition c_prelude :: string where
  "c_prelude = out_lines
    [''typedef unsigned long long uint64_t;'',
     ''typedef long long int64_t;'',
     ''typedef unsigned int uint32_t;'',
     ''typedef int int32_t;'',
     ''typedef unsigned short uint16_t;'',
     ''typedef short int16_t;'',
     ''typedef unsigned char uint8_t;'',
     ''typedef unsigned long size_t;'',
     ''#define INT64_MIN (-9223372036854775807LL - 1)'',
     '''',
     ''static inline int64_t lin_wadd(int64_t a, int64_t b) { return (int64_t)((uint64_t)a + (uint64_t)b); }'',
     ''static inline int64_t lin_wsub(int64_t a, int64_t b) { return (int64_t)((uint64_t)a - (uint64_t)b); }'',
     ''static inline int64_t lin_wmul(int64_t a, int64_t b) { return (int64_t)((uint64_t)a * (uint64_t)b); }'',
     ''static inline int64_t lin_wdiv(int64_t x, int64_t y) {'',
     ''    if (y == 0) return 0;'',
     ''    if (x == INT64_MIN && y == -1) return INT64_MIN;'',
     ''    return x / y;'',
     ''}'',
     ''static inline int64_t lin_wrem(int64_t x, int64_t y) {'',
     ''    if (y == 0) return 0;'',
     ''    if (x == INT64_MIN && y == -1) return 0;'',
     ''    return x % y;'',
     ''}'',
     '''']"

fun bin_expr :: "CBin \<Rightarrow> string" where
  "bin_expr CAdd = ''lin_wadd(a, b)''"
| "bin_expr CSub = ''lin_wsub(a, b)''"
| "bin_expr CMul = ''lin_wmul(a, b)''"
| "bin_expr CDiv = ''lin_wdiv(a, b)''"
| "bin_expr CRem = ''lin_wrem(a, b)''"
| "bin_expr CAnd = ''(a & b)''"
| "bin_expr COr = ''(a | b)''"
| "bin_expr CXor = ''(a ^ b)''"
| "bin_expr CShl = ''(int64_t)((uint64_t)a << (s & 63))''"
| "bin_expr CShr = ''(a >> (s & 63))''"
| "bin_expr CUshr = ''(int64_t)((uint64_t)a >> (s & 63))''"
| "bin_expr CEq = ''(a == b) ? 1 : 0''"
| "bin_expr CNe = ''(a != b) ? 1 : 0''"
| "bin_expr CLt = ''(a < b) ? 1 : 0''"
| "bin_expr CGt = ''(a > b) ? 1 : 0''"
| "bin_expr CLe = ''(a <= b) ? 1 : 0''"
| "bin_expr CGe = ''(a >= b) ? 1 : 0''"

definition bin_var :: "CBin \<Rightarrow> string" where
  "bin_var b = (if b \<in> {CShl, CShr, CUshr} then ''s'' else ''b'')"

fun un_expr :: "CUn \<Rightarrow> string" where
  "un_expr CNot = ''~stack[sp - 1]''"
| "un_expr CNeg = ''lin_wsub(0, stack[sp - 1])''"
| "un_expr CLogNot = ''(stack[sp - 1] == 0) ? 1 : 0''"

definition return_text :: string where
  "return_text = ''    return (sp > 0) ? stack[sp - 1] : 0;'' @ [NEWLINE]"

fun stmt_chunk :: "CStmt \<Rightarrow> Chunk" where
  "stmt_chunk (SPush a) = Printf (out_lines [''    stack[sp++] = '' @ fmt_i64 a @ ''LL;''])"
| "stmt_chunk (SLoad a) = Printf (out_lines [''    stack[sp++] = locals['' @ dec_digits a @ ''];''])"
| "stmt_chunk (SStore a) = Printf (out_lines [''    locals['' @ dec_digits a @ ''] = stack[--sp];''])"
| "stmt_chunk SPop = Puts (out_lines [''    if (sp > 0) sp--;''])"
| "stmt_chunk (SBin b) = Puts (out_lines [''    { int64_t '' @ bin_var b @
     '' = stack[--sp]; int64_t a = stack[--sp]; stack[sp++] = '' @ bin_expr b @ ''; }''])"
| "stmt_chunk (SUn u) = Puts (out_lines [''    stack[sp - 1] = '' @ un_expr u @ '';''])"
| "stmt_chunk (SGoto t) = Printf (out_lines [''    goto pc_'' @ fmt_i64 t @ '';''])"
| "stmt_chunk (SIfZero t) = Printf (out_lines [''    if (stack[--sp] == 0) goto pc_'' @ fmt_i64 t @ '';''])"
| "stmt_chunk (SIfZeroKeep t) = Printf (out_lines [''    if (stack[sp - 1] == 0) goto pc_'' @ fmt_i64 t @ '';''])"
| "stmt_chunk (SIfNonzeroKeep t) = Printf (out_lines [''    if (stack[sp - 1] != 0) goto pc_'' @ fmt_i64 t @ '';''])"
| "stmt_chunk SReturn = Puts return_text"
| "stmt_chunk (SLoadIndex a) = Printf (out_lines
    [''    {'',
     ''        int64_t ix = stack[--sp];'',
     ''        size_t slot = (size_t)locals['' @ dec_digits a @ ''];'',
     ''        int64_t v = 0;'',
     ''        if (slot < 8 && ix >= 0 && ix < (int64_t)pool_len[slot]) {'',
     ''            v = pool[slot][(size_t)ix];'',
     ''        }'',
     ''        stack[sp++] = v;'',
     ''    }''])"
| "stmt_chunk (SStoreIndex a) = Printf (out_lines
    [''    {'',
     ''        int64_t ix = stack[sp - 2];'',
     ''        int64_t val = stack[sp - 1];'',
     ''        sp -= 2;'',
     ''        size_t slot = (size_t)locals['' @ dec_digits a @ ''];'',
     ''        if (slot < 8 && ix >= 0 && ix < (int64_t)pool_len[slot]) {'',
     ''            pool[slot][(size_t)ix] = val;'',
     ''        }'',
     ''    }''])"
| "stmt_chunk (SArrLen a) = Printf (out_lines
    [''    {'',
     ''        size_t slot = (size_t)locals['' @ dec_digits a @ ''];'',
     ''        stack[sp++] = (slot < 8) ? (int64_t)pool_len[slot] : 0;'',
     ''    }''])"
| "stmt_chunk (SCall np g) = Printf (out_lines
    [''    {'',
     ''        size_t np = '' @ dec_digits np @ '';'',
     ''        int64_t cargs[64] = {0};'',
     ''        for (size_t j = 0; j < np && j < 64; j++) cargs[j] = stack[sp - np + j];'',
     ''        sp -= np;'',
     ''        int64_t ret = lin_fn_'' @ g @ ''(cargs);'',
     ''        stack[sp++] = ret;'',
     ''    }''])"

definition decl_chunk :: "CFun \<Rightarrow> Chunk" where
  "decl_chunk f = Printf (out_lines [''int64_t lin_fn_'' @ cf_name f @ ''(const int64_t *args);''])"

definition args_chunks :: "CFun \<Rightarrow> Chunk list" where
  "args_chunks f =
     (if 0 < cf_nparams f
      then [Printf (out_lines [''    if (args) {''])] @
        map (\<lambda>p. Printf (out_lines [''        locals['' @ dec_digits p @ ''] = args['' @ dec_digits p @ ''];'']))
          [0..<min (cf_nparams f) 64] @
        [Printf (out_lines [''    }''])]
      else [])"

definition array_chunk :: "u16 \<Rightarrow> nat \<Rightarrow> Chunk" where
  "array_chunk an li = Printf (out_lines
    [''    if (pool_used < 8) {'',
     ''        size_t slot = pool_used++;'',
     ''        pool_len[slot] = '' @ dec_digits (unat an) @ '';'',
     ''        locals['' @ dec_digits li @ ''] = (int64_t)slot;'',
     ''    }''])"

definition array_chunks :: "CFun \<Rightarrow> Chunk list" where
  "array_chunks f =
     (if cf_arrs f = [] then []
      else [Puts (out_lines [''    int64_t pool[8][256] = {{0}};'']),
            Puts (out_lines [''    uint16_t pool_len[8] = {0};'']),
            Puts (out_lines [''    size_t pool_used = 0;''])] @
        map (\<lambda>(an, li). array_chunk an li)
          (filter (\<lambda>(an, li). an > 0) (zip (cf_arrs f) [0..<length (cf_arrs f)])))"

definition body_chunks :: "CFun \<Rightarrow> Chunk list" where
  "body_chunks f =
     concat (map (\<lambda>(st, pc). Printf (out_lines [''pc_'' @ dec_digits pc @ '':;'']) #
         (case st of None \<Rightarrow> [] | Some s \<Rightarrow> [stmt_chunk s]))
       (zip (cf_body f) [0..<length (cf_body f)]))"

definition fn_chunks :: "CFun \<Rightarrow> Chunk list" where
  "fn_chunks f =
     [Printf (out_lines [''int64_t lin_fn_'' @ cf_name f @ ''(const int64_t *args) {'']),
      Puts (out_lines [''    int64_t locals[64] = {0};'']),
      Puts (out_lines [''    int64_t stack[256];'']),
      Puts (out_lines [''    size_t sp = 0;''])] @
     args_chunks f @ array_chunks f @ body_chunks f @
     [Puts return_text, Puts (out_lines [''}'', ''''])]"

definition c_chunks :: "CFun list \<Rightarrow> Chunk list" where
  "c_chunks P = [Puts c_prelude] @ map decl_chunk P @ [Puts [NEWLINE]] @ concat (map fn_chunks P)"

definition c0_jit_buffer :: "VmModule \<Rightarrow> StrBuf" where
  "c0_jit_buffer md = fold sb_add (c_chunks (jit_prog md)) sb_init"

definition c0_jit_emit_c11 :: "VmModule \<Rightarrow> string option" where
  "c0_jit_emit_c11 md = (if md = [] then None else Some (sb_data (c0_jit_buffer md)))"

section \<open>The buffer holds the text\<close>

text \<open>The buffer always has room for the text and its terminator, and the text is never cut.\<close>

definition sb_ok :: "StrBuf \<Rightarrow> bool" where
  "sb_ok sb = (sb_len sb = length (sb_data sb) \<and> sb_len sb < sb_cap sb)"

lemma sb_grow_room: "0 < cap \<Longrightarrow> need < sb_grow need cap"
proof (induction need cap rule: sb_grow.induct)
  case (1 need cap)
  then show ?case by (cases "cap \<le> need") (simp_all add: sb_grow.simps [of need cap])
qed

lemma sb_puts_ok:
  assumes "sb_ok sb"
  shows "sb_ok (sb_puts s sb)" "sb_data (sb_puts s sb) = sb_data sb @ s" "sb_over (sb_puts s sb) = sb_over sb"
  using assms sb_grow_room [of "sb_cap sb" "sb_len sb + length s + 1"]
  by (auto simp: sb_ok_def sb_puts_def sb_ensure_def Let_def)

definition chunk_fits :: "Chunk \<Rightarrow> bool" where
  "chunk_fits c = (case c of Puts s \<Rightarrow> True | Printf s \<Rightarrow> length s < 1024)"

lemma sb_add_ok:
  assumes "sb_ok sb"
  shows "sb_ok (sb_add c sb)" "sb_data (sb_add c sb) = sb_data sb @ chunk_text c"
    "sb_over (sb_add c sb) = (sb_over sb \<or> \<not> chunk_fits c)"
  using sb_puts_ok [OF assms, of "chunk_text c"] assms
  by (cases c; auto simp: sb_printf_def Let_def sb_ok_def chunk_fits_def)+

lemma sb_fold_ok:
  "sb_ok sb \<Longrightarrow> sb_ok (fold sb_add cs sb) \<and> sb_data (fold sb_add cs sb) = sb_data sb @ concat (map chunk_text cs) \<and>
     sb_over (fold sb_add cs sb) = (sb_over sb \<or> \<not> list_all chunk_fits cs)"
  by (induction cs arbitrary: sb) (auto simp: sb_add_ok)

definition c_text :: "CFun list \<Rightarrow> string" where
  "c_text P = concat (map chunk_text (c_chunks P))"

lemma jit_buffer:
  "sb_ok (c0_jit_buffer md)" "sb_data (c0_jit_buffer md) = c_text (jit_prog md)"
  "sb_over (c0_jit_buffer md) = (\<not> list_all chunk_fits (c_chunks (jit_prog md)))"
proof -
  have "sb_ok sb_init" "sb_data sb_init = []" "\<not> sb_over sb_init" by (simp_all add: sb_init_def sb_ok_def)
  with sb_fold_ok [of sb_init "c_chunks (jit_prog md)"] show
    "sb_ok (c0_jit_buffer md)" "sb_data (c0_jit_buffer md) = c_text (jit_prog md)"
    "sb_over (c0_jit_buffer md) = (\<not> list_all chunk_fits (c_chunks (jit_prog md)))"
    by (simp_all add: c0_jit_buffer_def c_text_def)
qed

lemma length_dec_digits: "n < 10 ^ k \<Longrightarrow> 0 < k \<Longrightarrow> length (dec_digits n) \<le> k"
proof (induction k arbitrary: n)
  case (Suc k)
  show ?case
  proof (cases "n < 10")
    case False
    then have "0 < k" using Suc.prems by (cases k) auto
    moreover have "n div 10 < 10 ^ k" using Suc.prems by (simp add: less_mult_imp_div_less mult.commute)
    ultimately show ?thesis using False Suc.IH [of "n div 10"] by (subst dec_digits.simps) simp
  qed (simp add: dec_digits.simps [of n])
qed simp

lemma length_dec_64: "n < 2 ^ 64 \<Longrightarrow> length (dec_digits n) \<le> 20"
  by (rule length_dec_digits) simp_all

lemma length_fmt_i64: "length (fmt_i64 a) \<le> 21"
proof -
  have "nat \<bar>sint a\<bar> < 2 ^ 64" using i64_range [of a] by (simp add: nat_less_iff)
  from length_dec_64 [OF this] show ?thesis by (cases "sint a < 0") (simp_all add: fmt_i64_def)
qed

lemma length_sanitize: "length (sanitize_fn_name nm cap) \<le> cap - 1"
  by (simp add: sanitize_fn_name_def)

lemma length_out_lines: "length (out_lines ls) = sum_list (map (\<lambda>l. Suc (length l)) ls)"
  by (simp add: out_lines_def length_concat comp_def)

text \<open>The operands that are printed as \<open>size_t\<close> fit one.\<close>

definition cstmt_small :: "CStmt \<Rightarrow> bool" where
  "cstmt_small st =
     (case st of SLoad a \<Rightarrow> a < 2 ^ 64 | SStore a \<Rightarrow> a < 2 ^ 64 | SLoadIndex a \<Rightarrow> a < 2 ^ 64 | SStoreIndex a \<Rightarrow> a < 2 ^ 64
      | SArrLen a \<Rightarrow> a < 2 ^ 64 | SCall np g \<Rightarrow> np < 2 ^ 64 \<and> length g < 128 | _ \<Rightarrow> True)"

lemma dec_short: "n < 18446744073709551616 \<Longrightarrow> 20 < m \<Longrightarrow> length (dec_digits n) < m"
  using length_dec_64 [of n] by simp

lemma fmt_short: "21 < m \<Longrightarrow> length (fmt_i64 a) < m"
  using length_fmt_i64 [of a] by simp

lemmas chunk_sizes = chunk_fits_def length_out_lines return_text_def bin_var_def dec_short fmt_short

lemma stmt_chunk_fits:
  assumes "cstmt_small st"
  shows "chunk_fits (stmt_chunk st)"
proof (cases st)
  case (SCall np g)
  with assms length_dec_64 [of np] show ?thesis by (simp add: cstmt_small_def chunk_sizes)
qed (use assms in \<open>simp_all add: cstmt_small_def chunk_sizes\<close>)

definition fn_sizes :: "VmFn \<Rightarrow> bool" where
  "fn_sizes f = (nparams f < 2 ^ 64 \<and> length (arr_n f) < 2 ^ 64 \<and> length (code f) < 2 ^ 64)"

lemma unat_small [simp]: "unat (a :: i64) < 18446744073709551616"
  using unsigned_less [of a, where 'a = nat] by simp

lemma jit_ins_small:
  assumes "list_all fn_sizes md" "jit_ins md i = Some st"
  shows "cstmt_small st"
proof (cases "op i = OP_CALL")
  case True
  then have "md ! unat (opa i) \<in> set md" "st = SCall (nparams (md ! unat (opa i))) (sanitize_fn_name (fn_name (md ! unat (opa i))) 128)"
    using assms(2) by (auto simp: jit_ins_def Let_def split: if_splits)
  then show ?thesis using assms(1) length_sanitize [of "fn_name (md ! unat (opa i))" 128]
    by (auto simp: cstmt_small_def fn_sizes_def list_all_iff)
next
  case False
  then show ?thesis using assms(2) by (auto simp: jit_ins_def Let_def cstmt_small_def split: VmOp.splits)
qed

lemma args_chunks_fit: "list_all chunk_fits (args_chunks f)"
proof -
  have "length (dec_digits p) + length (dec_digits p) < m" if "p < 64" "40 < m" for p m :: nat
    using dec_short [of p 21] that by simp
  then show ?thesis by (auto simp: args_chunks_def chunk_sizes list_all_iff)
qed

lemma array_chunks_fit:
  assumes "length (cf_arrs f) < 2 ^ 64"
  shows "list_all chunk_fits (array_chunks f)"
proof -
  have "chunk_fits (array_chunk an li)" if "li < length (cf_arrs f)" for an li
  proof -
    have "unat an < 2 ^ 64" using unsigned_less [of an, where 'a = nat] by simp
    then show ?thesis using that assms length_dec_64 [of "unat an"] length_dec_64 [of li]
      by (simp add: array_chunk_def chunk_fits_def length_out_lines)
  qed
  then show ?thesis by (auto simp: array_chunks_def list_all_iff chunk_sizes dest!: set_zip_rightD)
qed

lemma body_chunks_fit:
  assumes "length (cf_body f) < 2 ^ 64" "\<And>st. Some st \<in> set (cf_body f) \<Longrightarrow> cstmt_small st"
  shows "list_all chunk_fits (body_chunks f)"
proof -
  have "list_all chunk_fits (Printf (out_lines [''pc_'' @ dec_digits pc @ '':;'']) # (case st of None \<Rightarrow> [] | Some s \<Rightarrow> [stmt_chunk s]))"
    if "(st, pc) \<in> set (zip (cf_body f) [0..<length (cf_body f)])" for st pc
    using assms that set_zip_leftD [OF that] set_zip_rightD [OF that]
    by (auto simp: stmt_chunk_fits chunk_sizes(2-) chunk_fits_def [of "Printf _"] split: option.split)
  then show ?thesis by (fastforce simp: body_chunks_def list_all_iff)
qed

lemma fn_chunks_fit:
  assumes "list_all fn_sizes md" "f \<in> set md"
  shows "chunk_fits (decl_chunk (jit_fn md f))" "list_all chunk_fits (fn_chunks (jit_fn md f))"
proof -
  have sz: "fn_sizes f" using assms by (simp add: list_all_iff)
  have nm: "length (cf_name (jit_fn md f)) \<le> 127" using length_sanitize [of "fn_name f" 128] by (simp add: jit_fn_def)
  then show "chunk_fits (decl_chunk (jit_fn md f))" by (simp add: decl_chunk_def chunk_fits_def length_out_lines)
  have "list_all chunk_fits (array_chunks (jit_fn md f))" "list_all chunk_fits (body_chunks (jit_fn md f))"
    using sz by (auto simp: jit_fn_def fn_sizes_def intro!: array_chunks_fit body_chunks_fit dest!: sym [of "Some _"] jit_ins_small [OF assms(1)])
  with nm show "list_all chunk_fits (fn_chunks (jit_fn md f))"
    by (simp add: fn_chunks_def args_chunks_fit) (simp add: chunk_sizes)
qed

lemma jit_chunks_fit: "list_all fn_sizes md \<Longrightarrow> list_all chunk_fits (c_chunks (jit_prog md))"
  by (fastforce simp: c_chunks_def jit_prog_def list_all_iff chunk_fits_def [of "Puts _"] dest: fn_chunks_fit [unfolded list_all_iff])

section \<open>Properties\<close>

text \<open>
  C24: the emitted text is complete. For every module whose sizes fit \<open>size_t\<close>, the buffer has
  room for the text and its terminator after the last append, no piece that is formatted first
  is longer than the 1024 bytes of its buffer, and the text is the concatenation of the pieces
  of the program, in order and uncut; only a module without functions gives no text.
\<close>
theorem jit_text_complete:
  assumes "list_all fn_sizes md"
  shows "sb_ok (c0_jit_buffer md) \<and> \<not> sb_over (c0_jit_buffer md) \<and>
    c0_jit_emit_c11 md = (if md = [] then None else Some (concat (map chunk_text (c_chunks (jit_prog md)))))"
  using jit_buffer [of md] jit_chunks_fit [OF assms] by (simp add: c0_jit_emit_c11_def c_text_def)

theorem jit_text_complete_witness:
  "\<not> sb_over (c0_jit_buffer [ident_fn]) \<and>
   c0_jit_emit_c11 [ident_fn] = Some (concat (map chunk_text (c_chunks (jit_prog [ident_fn]))))"
proof -
  have "list_all fn_sizes [ident_fn]" by (simp add: fn_sizes_def ident_fn_def)
  from jit_text_complete [OF this] show ?thesis by simp
qed

end
