(* ===== verification/C0_Jit_Run.thy ===== *)
theory C0_Jit_Run
  imports C0_Jit
begin

text \<open>
  The meaning of the C programs of the theory \<open>C0_Jit\<close>, and the proof that they compute what
  the interpreter computes: a frame of the C function and a frame of the machine agree on
  everything the code can read, every template keeps that, and a call of a C function is a call
  of the machine.
\<close>

section \<open>Meaning of the templates\<close>

text \<open>The local variables of a C function; a cell of \<open>stack\<close> is \<open>None\<close> until it is written.\<close>

record JFrame =
  jf_locals :: "i64 list"
  jf_stack :: "i64 option list"
  jf_sp :: nat
  jf_pool :: "i64 list list"
  jf_plen :: "u16 list"
  jf_pused :: nat

fun c_bin :: "CBin \<Rightarrow> i64 \<Rightarrow> i64 \<Rightarrow> i64" where
  "c_bin CAdd a b = a + b"
| "c_bin CSub a b = a - b"
| "c_bin CMul a b = a * b"
| "c_bin CDiv x y = (if y = 0 then 0 else if x = INT64_MIN \<and> y = -1 then INT64_MIN else word_of_int (sint x sdiv sint y))"
| "c_bin CRem x y = (if y = 0 then 0 else if x = INT64_MIN \<and> y = -1 then 0 else word_of_int (sint x smod sint y))"
| "c_bin CAnd a b = a AND b"
| "c_bin COr a b = a OR b"
| "c_bin CXor a b = a XOR b"
| "c_bin CShl a s = push_bit (unat (s AND 63)) a"
| "c_bin CShr a s = signed_drop_bit (unat (s AND 63)) a"
| "c_bin CUshr a s = drop_bit (unat (s AND 63)) a"
| "c_bin CEq a b = (if a = b then 1 else 0)"
| "c_bin CNe a b = (if a \<noteq> b then 1 else 0)"
| "c_bin CLt a b = (if a <s b then 1 else 0)"
| "c_bin CGt a b = (if b <s a then 1 else 0)"
| "c_bin CLe a b = (if a \<le>s b then 1 else 0)"
| "c_bin CGe a b = (if b \<le>s a then 1 else 0)"

fun c_un :: "CUn \<Rightarrow> i64 \<Rightarrow> i64" where
  "c_un CNot a = NOT a"
| "c_un CNeg a = 0 - a"
| "c_un CLogNot a = (if a = 0 then 1 else 0)"

text \<open>
  \<open>CGo\<close> continues at a label, \<open>CReturn\<close> leaves the function. \<open>sp\<close> has type \<open>size_t\<close>: at 0,
  \<open>--sp\<close> and \<open>sp - 1\<close> index far outside \<open>stack\<close>.
\<close>

datatype CStep = CGo nat JFrame | CReturn i64

definition c_read :: "JFrame \<Rightarrow> nat \<Rightarrow> (i64 \<Rightarrow> 'a option) \<Rightarrow> 'a option" where
  "c_read s k f = (if jf_sp s < k \<or> 256 \<le> jf_sp s - k then None
     else case jf_stack s ! (jf_sp s - k) of None \<Rightarrow> None | Some v \<Rightarrow> f v)"

definition c_drop :: "nat \<Rightarrow> JFrame \<Rightarrow> JFrame" where
  "c_drop k s = s\<lparr>jf_sp := jf_sp s - k\<rparr>"

definition c_push :: "i64 \<Rightarrow> JFrame \<Rightarrow> JFrame option" where
  "c_push v s = (if jf_sp s < 256 then Some (s\<lparr>jf_stack := (jf_stack s)[jf_sp s := Some v], jf_sp := jf_sp s + 1\<rparr>) else None)"

definition c_local :: "JFrame \<Rightarrow> nat \<Rightarrow> (i64 \<Rightarrow> 'a option) \<Rightarrow> 'a option" where
  "c_local s a f = (if a < 64 then f (jf_locals s ! a) else None)"

definition c_hit :: "JFrame \<Rightarrow> nat \<Rightarrow> i64 \<Rightarrow> bool" where
  "c_hit s slot ix = (slot < 8 \<and> 0 \<le>s ix \<and> ix <s ucast (jf_plen s ! slot))"

fun c_stmt :: "CStmt \<Rightarrow> nat \<Rightarrow> JFrame \<Rightarrow> CStep option" where
  "c_stmt (SPush a) pc s = map_option (CGo pc) (c_push a s)"
| "c_stmt (SLoad a) pc s = c_local s a (\<lambda>v. map_option (CGo pc) (c_push v s))"
| "c_stmt (SStore a) pc s =
     c_read s 1 (\<lambda>v. c_local s a (\<lambda>_. Some (CGo pc ((c_drop 1 s)\<lparr>jf_locals := (jf_locals s)[a := v]\<rparr>))))"
| "c_stmt SPop pc s = Some (CGo pc (if 0 < jf_sp s then c_drop 1 s else s))"
| "c_stmt (SBin b) pc s =
     c_read s 1 (\<lambda>y. c_read s 2 (\<lambda>x. map_option (CGo pc) (c_push (c_bin b x y) (c_drop 2 s))))"
| "c_stmt (SUn u) pc s = c_read s 1 (\<lambda>v. map_option (CGo pc) (c_push (c_un u v) (c_drop 1 s)))"
| "c_stmt (SGoto t) pc s = Some (CGo (unat t) s)"
| "c_stmt (SIfZero t) pc s = c_read s 1 (\<lambda>v. Some (CGo (if v = 0 then unat t else pc) (c_drop 1 s)))"
| "c_stmt (SIfZeroKeep t) pc s = c_read s 1 (\<lambda>v. Some (CGo (if v = 0 then unat t else pc) s))"
| "c_stmt (SIfNonzeroKeep t) pc s = c_read s 1 (\<lambda>v. Some (CGo (if v \<noteq> 0 then unat t else pc) s))"
| "c_stmt SReturn pc s = (if 0 < jf_sp s then c_read s 1 (\<lambda>v. Some (CReturn v)) else Some (CReturn 0))"
| "c_stmt (SLoadIndex a) pc s =
     c_read s 1 (\<lambda>ix. c_local s a (\<lambda>l.
       if c_hit s (unat l) ix \<and> 256 \<le> unat ix then None
       else map_option (CGo pc) (c_push (if c_hit s (unat l) ix then jf_pool s ! unat l ! unat ix else 0) (c_drop 1 s))))"
| "c_stmt (SStoreIndex a) pc s =
     c_read s 2 (\<lambda>ix. c_read s 1 (\<lambda>v. c_local s a (\<lambda>l.
       if c_hit s (unat l) ix \<and> 256 \<le> unat ix then None
       else Some (CGo pc (if c_hit s (unat l) ix
         then (c_drop 2 s)\<lparr>jf_pool := (jf_pool s)[unat l := (jf_pool s ! unat l)[unat ix := v]]\<rparr> else c_drop 2 s)))))"
| "c_stmt (SArrLen a) pc s =
     c_local s a (\<lambda>l. map_option (CGo pc) (c_push (if unat l < 8 then ucast (jf_plen s ! unat l) else 0) s))"
| "c_stmt (SCall np g) pc s = None"

section \<open>Functions and calls\<close>

text \<open>The declarations at the head of a function: arguments first, then the arrays.\<close>

fun c_arrays :: "u16 list \<Rightarrow> nat \<Rightarrow> JFrame \<Rightarrow> JFrame option" where
  "c_arrays [] li s = Some s"
| "c_arrays (an # ans) li s =
     (if an = 0 then c_arrays ans (Suc li) s
      else if jf_pused s < 8
      then if li < 64
        then c_arrays ans (Suc li) (s\<lparr>jf_pused := jf_pused s + 1, jf_plen := (jf_plen s)[jf_pused s := an],
               jf_locals := (jf_locals s)[li := of_nat (jf_pused s)]\<rparr>)
        else None
      else c_arrays ans (Suc li) s)"

definition c_enter :: "CFun \<Rightarrow> i64 list \<Rightarrow> JFrame option" where
  "c_enter f args =
     (let k = min (cf_nparams f) 64 in
      if length args < k then None
      else c_arrays (cf_arrs f) 0
        \<lparr>jf_locals = take k args @ replicate (64 - k) 0, jf_stack = replicate 256 None, jf_sp = 0,
         jf_pool = replicate 8 (replicate 256 0), jf_plen = replicate 8 0, jf_pused = 0\<rparr>)"

text \<open>The 64 cells of \<open>cargs\<close>, the last \<open>np\<close> values of the stack or the first 64 of them.\<close>

definition c_cargs :: "nat \<Rightarrow> JFrame \<Rightarrow> i64 list option" where
  "c_cargs np s =
     (let cells = take (min np 64) (drop (jf_sp s - np) (jf_stack s)) in
      if jf_sp s < np \<or> length cells < min np 64 \<or> None \<in> set cells then None
      else Some (map the cells @ replicate (64 - min np 64) 0))"

datatype CRun = Undefined | Value i64

definition c_call_with :: "(CFun \<Rightarrow> JFrame \<Rightarrow> CRun option) \<Rightarrow> CFun list \<Rightarrow> string \<Rightarrow> i64 list \<Rightarrow> CRun option" where
  "c_call_with loop P g args =
     (case find (\<lambda>f. cf_name f = g) P of
        None \<Rightarrow> Some Undefined
      | Some f \<Rightarrow> (case c_enter f args of None \<Rightarrow> Some Undefined | Some s \<Rightarrow> loop f s))"

primrec c_loop :: "nat \<Rightarrow> CFun list \<Rightarrow> CFun \<Rightarrow> nat \<Rightarrow> JFrame \<Rightarrow> CRun option" where
  "c_loop 0 P f pc s = None"
| "c_loop (Suc n) P f pc s =
     (case (if pc < length (cf_body f) then cf_body f ! pc else Some SReturn) of
        None \<Rightarrow> c_loop n P f (pc + 1) s
      | Some (SCall np g) \<Rightarrow>
          (case c_cargs np s of
             None \<Rightarrow> Some Undefined
           | Some cargs \<Rightarrow>
               (case c_call_with (\<lambda>h. c_loop n P h 0) P g cargs of
                  None \<Rightarrow> None
                | Some Undefined \<Rightarrow> Some Undefined
                | Some (Value v) \<Rightarrow>
                    (case c_push v (c_drop np s) of
                       None \<Rightarrow> Some Undefined
                     | Some s' \<Rightarrow> c_loop n P f (pc + 1) s')))
      | Some st \<Rightarrow>
          (case c_stmt st (pc + 1) s of
             None \<Rightarrow> Some Undefined
           | Some (CReturn v) \<Rightarrow> Some (Value v)
           | Some (CGo pc' s') \<Rightarrow> c_loop n P f pc' s'))"

definition c_call :: "nat \<Rightarrow> CFun list \<Rightarrow> string \<Rightarrow> i64 list \<Rightarrow> CRun option" where
  "c_call n P = c_call_with (\<lambda>f. c_loop n P f 0) P"

text \<open>
  The compiler accepts a program when no two functions have the same name and every label,
  function and variable that is used is declared. The text \<open>-9223372036854775808LL\<close> of the least
  number is not an integer constant of C: its digits do not fit \<open>long long\<close>.
\<close>

definition c_stmt_valid :: "CFun list \<Rightarrow> CFun \<Rightarrow> CStmt \<Rightarrow> bool" where
  "c_stmt_valid P f st =
     (let label = (\<lambda>t. 0 \<le>s t \<and> unat t < length (cf_body f)) in
      case st of
        SPush a \<Rightarrow> a \<noteq> INT64_MIN
      | SGoto t \<Rightarrow> label t
      | SIfZero t \<Rightarrow> label t
      | SIfZeroKeep t \<Rightarrow> label t
      | SIfNonzeroKeep t \<Rightarrow> label t
      | SLoadIndex a \<Rightarrow> cf_arrs f \<noteq> []
      | SStoreIndex a \<Rightarrow> cf_arrs f \<noteq> []
      | SArrLen a \<Rightarrow> cf_arrs f \<noteq> []
      | SCall np g \<Rightarrow> g \<in> cf_name ` set P
      | _ \<Rightarrow> True)"

definition c_valid :: "CFun list \<Rightarrow> bool" where
  "c_valid P = (distinct (map cf_name P) \<and>
     list_all (\<lambda>f. list_all (pred_option (c_stmt_valid P f)) (cf_body f)) P)"

declare c_loop.simps(2) [simp del]

section \<open>Fuel\<close>

lemma opt_le_option [fuel_mono]:
  "opt_le f f' \<Longrightarrow> (\<And>x. opt_le (g x) (g' x)) \<Longrightarrow> opt_le (case_option f g z) (case_option f' g' z)"
  by (cases z) simp_all

lemma opt_le_run [fuel_mono]:
  "opt_le m m' \<Longrightarrow> (\<And>x. opt_le (f x) (f' x)) \<Longrightarrow>
   opt_le (case m of None \<Rightarrow> None | Some Undefined \<Rightarrow> Some Undefined | Some (Value v) \<Rightarrow> f v)
     (case m' of None \<Rightarrow> None | Some Undefined \<Rightarrow> Some Undefined | Some (Value v) \<Rightarrow> f' v)"
  by (auto simp: opt_le_def split: option.splits CRun.splits)

lemma opt_le_step [fuel_mono]:
  "(\<And>pc s. opt_le (f pc s) (f' pc s)) \<Longrightarrow> (\<And>v. opt_le (g v) (g' v)) \<Longrightarrow> opt_le (case_CStep f g z) (case_CStep f' g' z)"
  by (cases z) simp_all

lemma opt_le_c_call_with [fuel_mono]:
  "(\<And>f s. opt_le (loop f s) (loop' f s)) \<Longrightarrow> opt_le (c_call_with loop P g args) (c_call_with loop' P g args)"
  by (auto simp: c_call_with_def split: option.split)

lemma c_loop_fuel_step: "opt_le (c_loop n P f pc s) (c_loop (Suc n) P f pc s)"
proof (induction n arbitrary: f pc s)
  case (Suc n)
  show ?case
    unfolding c_loop.simps(2) [of "Suc n" P f pc s] c_loop.simps(2) [of n P f pc s]
    by (cases "if pc < length (cf_body f) then cf_body f ! pc else Some SReturn")
      (auto intro!: fuel_mono Suc.IH split: CStmt.split simp del: opt_le_None opt_le_refl)
qed simp

interpretation cprog: fuelled "\<lambda>n (g, args). c_call n P g args" for P
  by unfold_locales (auto simp: c_call_def intro!: fuel_mono c_loop_fuel_step simp del: c_loop.simps)

section \<open>One round of a C function\<close>

lemma c_loop_stmt:
  assumes "pc < length (cf_body f)" "cf_body f ! pc = Some st" "\<And>np g. st \<noteq> SCall np g"
  shows "c_loop (Suc n) P f pc s =
    (case c_stmt st (pc + 1) s of
       None \<Rightarrow> Some Undefined
     | Some (CReturn v) \<Rightarrow> Some (Value v)
     | Some (CGo pc' s') \<Rightarrow> c_loop n P f pc' s')"
  using assms by (auto simp: c_loop.simps(2) split: CStmt.split)

lemma c_loop_call:
  assumes "pc < length (cf_body f)" "cf_body f ! pc = Some (SCall np g)" "c_cargs np s = Some cargs"
    "c_call n P g cargs = Some (Value v)" "c_push v (c_drop np s) = Some s'"
  shows "c_loop (Suc n) P f pc s = c_loop n P f (pc + 1) s'"
  using assms by (simp add: c_loop.simps(2) c_call_def)

section \<open>Simulation of the machine\<close>

text \<open>A frame of the machine at stack height \<open>sp\<close> and the variables of the C function.\<close>

definition jrel :: "VmFrame \<Rightarrow> nat \<Rightarrow> JFrame \<Rightarrow> bool" where
  "jrel fr sp s = (frame_ok fr \<and> sp \<le> LIN_VM_MAX_STACK \<and> jf_sp s = sp \<and> jf_locals s = locals fr \<and>
     length (jf_stack s) = LIN_VM_MAX_STACK \<and> (\<forall>i < sp. jf_stack s ! i = Some (stack fr ! i)) \<and>
     jf_plen s = pool_len fr \<and> length (jf_pool s) = LIN_VM_MAX_ARRS \<and>
     (\<forall>slot < LIN_VM_MAX_ARRS. length (jf_pool s ! slot) = LIN_VM_MAX_ARR_LEN \<and>
        (\<forall>ix < unat (pool_len fr ! slot). jf_pool s ! slot ! ix = pool fr ! slot ! ix)))"

lemma jrel_read:
  "jrel fr sp s \<Longrightarrow> 0 < k \<Longrightarrow> k \<le> sp \<Longrightarrow> c_read s k f = f (stack fr ! (sp - k))"
  by (auto simp: jrel_def c_read_def lin_limits)

lemma jrel_local: "jrel fr sp s \<Longrightarrow> a < LIN_VM_MAX_LOCALS \<Longrightarrow> c_local s a f = f (locals fr ! a)"
  by (simp add: jrel_def c_local_def lin_limits)

lemma jrel_drop: "jrel fr sp s \<Longrightarrow> k \<le> sp \<Longrightarrow> jrel fr (sp - k) (c_drop k s)"
  by (auto simp: jrel_def c_drop_def)

lemma jrel_set_local: "jrel fr sp s \<Longrightarrow> jrel (fr\<lparr>locals := (locals fr)[a := v]\<rparr>) sp (s\<lparr>jf_locals := (jf_locals s)[a := v]\<rparr>)"
  by (simp add: jrel_def)

lemma jrel_push:
  assumes "jrel fr sp s" "sp < LIN_VM_MAX_STACK"
  obtains s' where "c_push v s = Some s'" "jrel (fr\<lparr>stack := (stack fr)[sp := v]\<rparr>) (sp + 1) s'"
  using assms by (auto simp: jrel_def c_push_def lin_limits frame_ok_def nth_list_update less_Suc_eq)

lemma jrel_hit: "jrel fr sp s \<Longrightarrow> c_hit s slot ix = pool_hit fr slot ix"
  by (simp add: jrel_def c_hit_def pool_hit_def lin_limits)

lemma jrel_cell:
  "jrel fr sp s \<Longrightarrow> pool_hit fr slot ix \<Longrightarrow> jf_pool s ! slot ! unat ix = pool fr ! slot ! unat ix"
  using pool_hit_bound [of fr slot ix] by (simp add: jrel_def)

lemma jrel_set_cell:
  assumes "jrel fr sp s" "pool_hit fr slot ix"
  shows "jrel (fr\<lparr>pool := (pool fr)[slot := (pool fr ! slot)[unat ix := v]]\<rparr>) sp
    (s\<lparr>jf_pool := (jf_pool s)[slot := (jf_pool s ! slot)[unat ix := v]]\<rparr>)"
proof -
  have ok: "frame_ok fr" using assms(1) by (simp add: jrel_def)
  note h = pool_hit_bound [OF ok assms(2)]
  have "length (pool fr ! slot) = LIN_VM_MAX_ARR_LEN" "length (pool fr) = LIN_VM_MAX_ARRS"
    using ok frame_okD(2) [OF ok h(2)] by (simp_all add: frame_ok_def)
  with assms(1) h frame_ok_pool [OF ok h(2)] show ?thesis by (auto simp: jrel_def nth_list_update)
qed

definition shift_op :: "VmOp \<Rightarrow> bool" where
  "shift_op o1 = (o1 \<in> {OP_SHL, OP_SHR, OP_USHR})"

text \<open>The template of a binary operator computes what the machine computes.\<close>

lemma jit_binary:
  assumes "vm_binary (op i) x y = Inr r" "\<not> shift_op (op i)"
  obtains b where "jit_ins md i = Some (SBin b)" "c_bin b x y = r"
  using assms by (cases "op i") (auto simp: jit_ins_def Let_def shift_op_def lin_wadd_def lin_wsub_def lin_wmul_def
      lin_wdiv_def lin_wrem_def split: if_splits)

lemma jit_push:
  assumes "jrel fr sp s" "vm_push v pc sp fr = Inr (Next pc' sp' fr')"
  shows "\<exists>s'. map_option (CGo pc) (c_push v s) = Some (CGo pc' s') \<and> jrel fr' sp' s'"
  using assms jrel_push [OF assms(1)] by (auto simp: vm_push_cases)

lemma jit_top:
  assumes "jrel fr sp s" "vm_top f pc sp fr = Inr (Next pc' sp' fr')" "\<And>v. c_un u v = f v"
  shows "\<exists>s'. c_stmt (SUn u) pc s = Some (CGo pc' s') \<and> jrel fr' sp' s'"
proof -
  from assms(2) have sp: "1 \<le> sp" "pc' = pc" "sp' = sp" "fr' = fr\<lparr>stack := (stack fr)[sp - 1 := f (stack fr ! (sp - 1))]\<rparr>"
    by (auto simp: vm_top_def vm_need_cases)
  have "sp - 1 < LIN_VM_MAX_STACK" using sp(1) assms(1) by (auto simp: jrel_def lin_limits)
  then obtain s' where "c_push (f (stack fr ! (sp - 1))) (c_drop 1 s) = Some s'" "jrel fr' (sp - 1 + 1) s'"
    using jrel_push [OF jrel_drop [OF assms(1) sp(1)]] sp(4) by blast
  with sp show ?thesis by (simp add: jrel_read [OF assms(1)] assms(3))
qed

lemma jit_binary_ins:
  assumes rel: "jrel fr sp s" and run: "vm_binary_ins (op i) pc sp fr = Inr (Next pc' sp' fr')"
    and shift: "\<not> shift_op (op i)"
  shows "\<exists>st s'. jit_ins md i = Some st \<and> (\<forall>np g. st \<noteq> SCall np g) \<and> c_stmt st pc s = Some (CGo pc' s') \<and> jrel fr' sp' s'"
proof -
  from run obtain r where r: "2 \<le> sp" "vm_binary (op i) (stack fr ! (sp - 2)) (stack fr ! (sp - 1)) = Inr r"
    "pc' = pc" "sp' = sp - 2 + 1" "fr' = fr\<lparr>stack := (stack fr)[sp - 2 := r]\<rparr>"
    by (auto simp: vm_binary_ins_def vm_need_cases split: sum.splits)
  obtain b where b: "jit_ins md i = Some (SBin b)" "c_bin b (stack fr ! (sp - 2)) (stack fr ! (sp - 1)) = r"
    using jit_binary [OF r(2) shift] by metis
  have "sp - 2 < LIN_VM_MAX_STACK" using r(1) rel by (auto simp: jrel_def lin_limits)
  then obtain s' where "c_push r (c_drop 2 s) = Some s'" "jrel fr' (sp - 2 + 1) s'"
    using jrel_push [OF jrel_drop [OF rel r(1)]] r(5) by blast
  with r b show ?thesis by (simp add: jrel_read [OF rel])
qed

lemma jit_load_index:
  assumes rel: "jrel fr sp s" and run: "vm_load_index a pc sp fr = Inr (Next pc' sp' fr')"
  shows "\<exists>s'. c_stmt (SLoadIndex (unat a)) pc s = Some (CGo pc' s') \<and> jrel fr' sp' s'"
proof -
  let ?ix = "stack fr ! (sp - 1)" and ?l = "unat (locals fr ! unat a)"
  let ?v = "if pool_hit fr ?l ?ix then pool fr ! ?l ! unat ?ix else 0"
  from run have r: "1 \<le> sp" "unat a < LIN_VM_MAX_LOCALS" "\<not> (pool_hit fr ?l ?ix \<and> LIN_VM_MAX_ARR_LEN \<le> unat ?ix)"
    "vm_push ?v pc (sp - 1) fr = Inr (Next pc' sp' fr')"
    by (auto simp: vm_load_index_def vm_need_cases vm_local_cases Let_def split: if_splits)
  have "(if c_hit s ?l ?ix then jf_pool s ! ?l ! unat ?ix else 0) = ?v"
    using jrel_hit [OF rel] jrel_cell [OF rel] by simp
  with r jit_push [OF jrel_drop [OF rel r(1)] r(4)] jrel_hit [OF rel, of ?l ?ix] show ?thesis
    by (auto simp: jrel_read [OF rel] jrel_local [OF rel] lin_limits)
qed

lemma jit_store_index:
  assumes rel: "jrel fr sp s" and run: "vm_store_index a pc sp fr = Inr (Next pc' sp' fr')"
  shows "\<exists>s'. c_stmt (SStoreIndex (unat a)) pc s = Some (CGo pc' s') \<and> jrel fr' sp' s'"
proof -
  let ?ix = "stack fr ! (sp - 2)" and ?l = "unat (locals fr ! unat a)"
  from run have r: "2 \<le> sp" "unat a < LIN_VM_MAX_LOCALS" "\<not> (pool_hit fr ?l ?ix \<and> LIN_VM_MAX_ARR_LEN \<le> unat ?ix)"
    "pc' = pc" "sp' = sp - 2"
    "fr' = (if pool_hit fr ?l ?ix then fr\<lparr>pool := (pool fr)[?l := (pool fr ! ?l)[unat ?ix := stack fr ! (sp - 1)]]\<rparr> else fr)"
    by (auto simp: vm_store_index_def vm_need_cases vm_local_cases Let_def split: if_splits)
  note d = jrel_drop [OF rel r(1)]
  have "jf_pool (c_drop 2 s) = jf_pool s" by (simp add: c_drop_def)
  with r d jrel_set_cell [OF d, of ?l ?ix] jrel_hit [OF rel, of ?l ?ix] show ?thesis
    by (auto simp: jrel_read [OF rel] jrel_local [OF rel] lin_limits)
qed

lemma jit_ins_next:
  assumes rel: "jrel fr sp s" and run: "vm_ins ctx i pc sp fr = Inr (Next pc' sp' fr')"
    and i: "op i \<noteq> OP_CALL" "\<not> shift_op (op i)" and abi: "vm_abi ctx = None"
  shows "\<exists>st s'. jit_ins md i = Some st \<and> (\<forall>np g. st \<noteq> SCall np g) \<and> c_stmt st pc s = Some (CGo pc' s') \<and> jrel fr' sp' s'"
proof -
  have bin: ?thesis if "vm_ins ctx i pc sp fr = vm_binary_ins (op i) pc sp fr"
    using jit_binary_ins [OF rel _ i(2)] run that by simp
  have st: ?thesis if "jit_ins md i = Some st" "\<And>np g. st \<noteq> SCall np g"
      "\<exists>s'. c_stmt st pc s = Some (CGo pc' s') \<and> jrel fr' sp' s'" for st
    using that by blast
  have un: ?thesis if "vm_ins ctx i pc sp fr = vm_top f pc sp fr" "jit_ins md i = Some (SUn u)" "\<And>v. c_un u v = f v" for f u
    using that run jit_top [OF rel, of f pc pc' sp' fr' u] by (intro st) auto
  note parts = vm_ins_def jit_ins_def Let_def vm_need_cases vm_local_cases jrel_read [OF rel] jrel_local [OF rel]
  note step = jit_push [OF rel] jit_load_index [OF rel] jit_store_index [OF rel]
  show ?thesis
  proof (cases "op i")
    case OP_BIT_NOT
    then show ?thesis by (intro un [where u = CNot]) (simp_all add: parts)
  next
    case OP_NEG
    then show ?thesis by (intro un [where u = CNeg and f = "lin_wsub 0"]) (simp_all add: parts lin_wsub_def)
  next
    case OP_LOG_NOT
    then show ?thesis by (intro un [where u = CLogNot]) (simp_all add: parts)
  next
    case OP_PUSH_CONST
    with run step(1) show ?thesis by (intro st [of "SPush (opa i)"]) (simp_all add: parts)
  next
    case OP_LOAD_LOCAL
    with run step(1) show ?thesis by (intro st [of "SLoad (unat (opa i))"]) (auto simp: parts split: if_splits)
  next
    case OP_STORE_LOCAL
    with run have sp: "1 \<le> sp" by (simp add: parts)
    with run OP_STORE_LOCAL jrel_set_local [OF jrel_drop [OF rel sp], of "unat (opa i)"] show ?thesis
      by (intro st [of "SStore (unat (opa i))"]) (auto simp: parts c_drop_def)
  next
    case OP_POP
    with run rel jrel_drop [OF rel, of 1] show ?thesis by (intro st [of SPop]) (auto simp: parts jrel_def)
  next
    case OP_JUMP
    with run rel show ?thesis by (intro st [of "SGoto (opa i)"]) (auto simp: parts)
  next
    case OP_JUMP_IF_FALSE
    with run jrel_drop [OF rel, of 1] show ?thesis by (intro st [of "SIfZero (opa i)"]) (auto simp: parts)
  next
    case OP_JUMP_IF_FALSE_KEEP
    with run rel show ?thesis by (intro st [of "SIfZeroKeep (opa i)"]) (auto simp: parts)
  next
    case OP_JUMP_IF_TRUE_KEEP
    with run rel show ?thesis by (intro st [of "SIfNonzeroKeep (opa i)"]) (auto simp: parts)
  next
    case OP_LOAD_INDEX
    with run step(2) show ?thesis by (intro st [of "SLoadIndex (unat (opa i))"]) (simp_all add: vm_ins_def jit_ins_def)
  next
    case OP_STORE_INDEX
    with run step(3) show ?thesis by (intro st [of "SStoreIndex (unat (opa i))"]) (simp_all add: vm_ins_def jit_ins_def)
  next
    case OP_ARR_LEN
    have "jf_plen s = pool_len fr" using rel by (simp add: jrel_def)
    with run OP_ARR_LEN step(1) show ?thesis
      by (intro st [of "SArrLen (unat (opa i))"]) (auto simp: parts vm_arr_len_def lin_limits split: if_splits)
  next
    case OP_ABI_CALL
    with run abi show ?thesis by (auto simp: vm_ins_def vm_abi_call_def vm_validate_abi_call_context_def Let_def split: if_splits)
  next
    case OP_RET
    with run show ?thesis by (simp add: parts)
  next
    case OP_CALL
    with i show ?thesis by simp
  qed (rule bin, simp add: vm_ins_def)+
qed

lemma jit_ins_return:
  assumes rel: "jrel fr sp s" and run: "vm_ins ctx i pc sp fr = Inr (Return r)"
  shows "jit_ins md i = Some SReturn \<and> c_stmt SReturn pc s = Some (CReturn (res_val r))"
proof -
  have "op i = OP_RET"
    using run by (cases "op i") (auto simp: vm_ins_def Let_def vm_ins_parts vm_ins_defs vm_abi_call_def split: if_splits sum.splits prod.splits)
  with run rel jrel_read [OF rel, of 1] show ?thesis by (auto simp: vm_ins_def vm_need_cases jit_ins_def jrel_def)
qed

section \<open>Entering a function\<close>

text \<open>The machine sets up the arrays first and skips array parameters; C copies the arguments first.\<close>

definition array_at :: "u16 list \<Rightarrow> nat \<Rightarrow> nat \<Rightarrow> bool" where
  "array_at ans li j = (li \<le> j \<and> j - li < length ans \<and> ans ! (j - li) \<noteq> 0)"

lemma array_at_Cons: "array_at (an # ans) li j = (j = li \<and> an \<noteq> 0 \<or> array_at ans (Suc li) j)"
  by (cases "j = li") (auto simp: array_at_def nth_Cons' Suc_le_eq)

definition arrays_sim :: "u16 list \<Rightarrow> nat \<Rightarrow> VmFrame \<Rightarrow> VmFrame \<Rightarrow> JFrame \<Rightarrow> JFrame \<Rightarrow> bool" where
  "arrays_sim ans li fr fr' s s' =
     (jf_plen s' = pool_len fr' \<and> jf_pool s' = jf_pool s \<and> jf_sp s' = jf_sp s \<and> jf_stack s' = jf_stack s \<and>
      length (jf_locals s') = length (jf_locals s) \<and>
      (\<forall>j < LIN_VM_MAX_LOCALS. if array_at ans li j then jf_locals s' ! j = locals fr' ! j
         else jf_locals s' ! j = jf_locals s ! j \<and> locals fr' ! j = locals fr ! j))"

lemma init_arrays_sim:
  assumes "vm_init_arrays ans li fr = Inr fr'" "frame_ok fr" "jf_plen s = pool_len fr" "jf_pused s = pool_used fr"
    "length (jf_locals s) = LIN_VM_MAX_LOCALS"
  shows "\<exists>s'. c_arrays ans li s = Some s' \<and> arrays_sim ans li fr fr' s s'"
  using assms
proof (induction ans li fr arbitrary: s rule: vm_init_arrays.induct)
  case (1 li fr)
  then show ?case by (auto simp: arrays_sim_def array_at_def)
next
  case (2 an ans li fr)
  show ?case
  proof (cases "an = 0")
    case True
    with "2.IH"(1) [OF True _ "2.prems"(2-5)] "2.prems"(1) show ?thesis by (auto simp: arrays_sim_def array_at_Cons)
  next
    case False
    let ?k = "pool_used fr"
    let ?fr = "fr\<lparr>pool_used := ?k + 1, pool_len := (pool_len fr)[?k := an],
       pool := (pool fr)[?k := replicate (unat an) 0 @ drop (unat an) (pool fr ! ?k)], locals := (locals fr)[li := of_nat ?k]\<rparr>"
    let ?s = "s\<lparr>jf_pused := ?k + 1, jf_plen := (jf_plen s)[?k := an], jf_locals := (jf_locals s)[li := of_nat ?k]\<rparr>"
    from "2.prems"(1) False have g: "?k < LIN_VM_MAX_ARRS" "unat an \<le> LIN_VM_MAX_ARR_LEN" "li < LIN_VM_MAX_LOCALS"
      "vm_init_arrays ans (Suc li) ?fr = Inr fr'" by (auto simp: Let_def split: if_splits)
    have ok: "frame_ok ?fr" using g "2.prems"(2) by (intro frame_ok_array) simp_all
    have "\<exists>s'. c_arrays ans (Suc li) ?s = Some s' \<and> arrays_sim ans (Suc li) ?fr fr' ?s s'"
      using False g "2.prems"(3-5) ok by (intro "2.IH"(2) [OF _ _ _ _ refl]) simp_all
    then obtain s' where s': "c_arrays ans (Suc li) ?s = Some s'" "arrays_sim ans (Suc li) ?fr fr' ?s s'" by blast
    have "length (locals fr) = LIN_VM_MAX_LOCALS" using "2.prems"(2) by (simp add: frame_ok_def)
    moreover have "\<not> array_at ans (Suc li) li" by (simp add: array_at_def)
    ultimately have "arrays_sim (an # ans) li fr fr' s s'"
      using s'(2) False "2.prems"(5) by (auto simp: arrays_sim_def array_at_Cons nth_list_update)
    with s'(1) False g(1,3) "2.prems"(4) show ?thesis by (auto simp: lin_limits)
  qed
qed

lemma init_arrays_zero:
  assumes "vm_init_arrays ans li fr = Inr fr'" "frame_ok fr"
    "\<forall>slot < LIN_VM_MAX_ARRS. \<forall>ix < unat (pool_len fr ! slot). pool fr ! slot ! ix = 0"
  shows "\<forall>slot < LIN_VM_MAX_ARRS. \<forall>ix < unat (pool_len fr' ! slot). pool fr' ! slot ! ix = 0"
  using assms
proof (induction ans li fr rule: vm_init_arrays.induct)
  case (2 an ans li fr)
  show ?case
  proof (cases "an = 0")
    case False
    let ?k = "pool_used fr"
    let ?fr = "fr\<lparr>pool_used := ?k + 1, pool_len := (pool_len fr)[?k := an],
       pool := (pool fr)[?k := replicate (unat an) 0 @ drop (unat an) (pool fr ! ?k)], locals := (locals fr)[li := of_nat ?k]\<rparr>"
    from "2.prems"(1) False have g: "?k < LIN_VM_MAX_ARRS" "unat an \<le> LIN_VM_MAX_ARR_LEN" "li < LIN_VM_MAX_LOCALS"
      "vm_init_arrays ans (Suc li) ?fr = Inr fr'" by (auto simp: Let_def split: if_splits)
    have ok: "frame_ok ?fr" using g "2.prems"(2) by (intro frame_ok_array) simp_all
    have z: "\<forall>slot < LIN_VM_MAX_ARRS. \<forall>ix < unat (pool_len ?fr ! slot). pool ?fr ! slot ! ix = 0"
      using "2.prems"(2,3) g by (auto simp: frame_ok_def nth_list_update nth_append)
    show ?thesis by (rule "2.IH"(2) [OF False _ _ _ refl g(4) ok z]) (use g in auto)
  qed (use 2 in simp)
qed simp

lemma init_args_copied:
  assumes "vm_init_args vs idx ans fr = Inr fr'" "length (locals fr) = LIN_VM_MAX_LOCALS"
  shows "\<exists>ls. fr' = fr\<lparr>locals := ls\<rparr> \<and> length ls = LIN_VM_MAX_LOCALS \<and>
    (\<forall>j < LIN_VM_MAX_LOCALS. ls ! j = (if idx \<le> j \<and> j < idx + length vs \<and> \<not> array_at ans 0 j then vs ! (j - idx) else locals fr ! j))"
  using assms
proof (induction vs idx ans fr rule: vm_init_args.induct)
  case (1 idx ans fr)
  then show ?case by (intro exI [of _ "locals fr"]) auto
next
  case (2 v vs idx ans fr)
  show ?case
  proof (cases "array_at ans 0 idx")
    case True
    then have a: "idx < length ans \<and> 0 < ans ! idx" by (simp add: array_at_def word_neq_0_conv)
    with "2.prems"(1) have "vm_init_args vs (Suc idx) ans fr = Inr fr'" by simp
    from "2.IH"(1) [OF a this "2.prems"(2)] True show ?thesis
      by (elim ex_forward) (auto simp: nth_Cons' Suc_le_eq le_less)
  next
    case False
    then have a: "\<not> (idx < length ans \<and> 0 < ans ! idx)" by (simp add: array_at_def word_neq_0_conv)
    with "2.prems"(1) have "idx < LIN_VM_MAX_LOCALS" "vm_init_args vs (Suc idx) ans (fr\<lparr>locals := (locals fr)[idx := v]\<rparr>) = Inr fr'"
      by (auto split: if_splits)
    from "2.IH"(2) [OF a _ this(2)] this(1) "2.prems"(2) False show ?thesis
      by (simp, elim ex_forward) (auto simp: nth_Cons' Suc_le_eq le_less nth_list_update)
  qed
qed

text \<open>The arguments as the 64 cells a C function is called with.\<close>

definition arg_cells :: "i64 list \<Rightarrow> i64 list" where
  "arg_cells args = take 64 args @ replicate (64 - length args) 0"

lemma jit_enter:
  assumes run: "vm_init_frame f args fr = Inr fr'" and ok: "frame_ok fr" and f: "length args = nparams f" "length args \<le> 64"
  shows "\<exists>s. c_enter (jit_fn md f) (arg_cells args) = Some s \<and> jrel fr' 0 s"
proof -
  let ?fr = "fr\<lparr>locals := replicate LIN_VM_MAX_LOCALS 0, pool_used := 0, pool_len := replicate LIN_VM_MAX_ARRS 0\<rparr>"
  let ?s = "\<lparr>jf_locals = arg_cells args, jf_stack = replicate 256 None, jf_sp = 0,
         jf_pool = replicate 8 (replicate 256 0), jf_plen = replicate 8 0, jf_pused = 0\<rparr>"
  from run obtain fr1 where r: "vm_init_arrays (arr_n f) 0 ?fr = Inr fr1" "vm_init_args args 0 (arr_n f) fr1 = Inr fr'"
    by (auto simp: vm_init_frame_def)
  have ok0: "frame_ok ?fr" using ok by (auto simp: frame_ok_def)
  have ok1: "frame_ok fr1" "frame_ok fr'" using init_arrays_ok [OF r(1) ok0] init_args_ok [OF r(2)] by blast+
  obtain s where s: "c_arrays (arr_n f) 0 ?s = Some s" "arrays_sim (arr_n f) 0 ?fr fr1 ?s s"
    using init_arrays_sim [OF r(1) ok0, of ?s] f by (auto simp: lin_limits arg_cells_def)
  obtain ls where ls: "fr' = fr1\<lparr>locals := ls\<rparr>" "length ls = 64"
    "\<forall>j < 64. ls ! j = (if j < length args \<and> \<not> array_at (arr_n f) 0 j then args ! j else locals fr1 ! j)"
    using init_args_copied [OF r(2)] ok1(1) by (auto simp: frame_ok_def lin_limits)
  have "jf_locals s = ls"
  proof (rule nth_equalityI)
    show "length (jf_locals s) = length ls" using s(2) ls(2) f by (simp add: arrays_sim_def arg_cells_def)
    fix j assume "j < length (jf_locals s)"
    then have "j < 64" using s(2) f by (simp add: arrays_sim_def arg_cells_def)
    then show "jf_locals s ! j = ls ! j" using s(2) ls(3) f
      by (auto simp: arrays_sim_def arg_cells_def nth_append lin_limits split: if_splits)
  qed
  moreover have "\<forall>slot < LIN_VM_MAX_ARRS. \<forall>ix < unat (pool_len fr1 ! slot). pool fr1 ! slot ! ix = 0"
    by (rule init_arrays_zero [OF r(1) ok0]) simp
  moreover have "ix < LIN_VM_MAX_ARR_LEN" if "slot < LIN_VM_MAX_ARRS" "ix < unat (pool_len fr1 ! slot)" for slot ix
    using frame_okD(1) [OF ok1(1) that(1)] that(2) by simp
  ultimately have "jrel fr' 0 s" using s(2) ok1(2) ls by (auto simp: jrel_def arrays_sim_def lin_limits)
  moreover have "take (min (nparams f) 64) (arg_cells args) @ replicate (64 - min (nparams f) 64) 0 = arg_cells args"
    using f by (simp add: arg_cells_def)
  then have "c_enter (jit_fn md f) (arg_cells args) = Some s"
    using s(1) f by (simp add: c_enter_def jit_fn_def) (simp add: arg_cells_def)
  ultimately show ?thesis by blast
qed

section \<open>A run of the machine is a run of the C program\<close>

text \<open>
  What a function needs so that its C code cannot run over its end: it ends in \<open>RET\<close> and jumps
  land in its code. The machine would answer 0 there, the C function with the top of its stack.
\<close>

definition jit_closed :: "VmFn \<Rightarrow> bool" where
  "jit_closed f = (code f \<noteq> [] \<and> op (last (code f)) = OP_RET \<and> length (arr_n f) \<le> LIN_VM_MAX_LOCALS \<and>
     list_all (\<lambda>i. jump_op (op i) \<longrightarrow> unat (opa i) < length (code f)) (code f))"

definition shift_free :: "VmModule \<Rightarrow> bool" where
  "shift_free md = list_all (\<lambda>f. fn_ok f \<longrightarrow> list_all (\<lambda>i. \<not> shift_op (op i)) (code f)) md"

definition jit_names_distinct :: "VmModule \<Rightarrow> bool" where
  "jit_names_distinct md = distinct (map (\<lambda>f. sanitize_fn_name (fn_name f) 128) (filter fn_ok md))"

lemma find_key: "distinct (map k xs) \<Longrightarrow> x \<in> set xs \<Longrightarrow> find (\<lambda>y. k y = k x) xs = Some x"
  by (induction xs) auto

lemma jit_find:
  assumes "jit_names_distinct md" "f \<in> set md" "fn_ok f"
  shows "find (\<lambda>g. cf_name g = sanitize_fn_name (fn_name f) 128) (jit_prog md) = Some (jit_fn md f)"
proof -
  have "distinct (map cf_name (jit_prog md))" "jit_fn md f \<in> set (jit_prog md)"
    using assms by (auto simp: jit_names_distinct_def jit_prog_def comp_def jit_fn_def)
  from find_key [OF this] show ?thesis by (simp add: jit_fn_def)
qed

lemma next_pc:
  assumes "vm_ins ctx i (pc + 1) sp fr = Inr (Next pc' sp' fr')" "jit_closed f" "pc < length (code f)" "i = code f ! pc"
    "vm_abi ctx = None"
  shows "pc' < length (code f)"
proof -
  have "op i \<noteq> OP_RET" using assms(1) by (auto simp: vm_ins_def vm_need_cases)
  moreover have "op (code f ! (length (code f) - 1)) = OP_RET" using assms(2) by (auto simp: jit_closed_def last_conv_nth)
  ultimately have "length (code f) - 1 \<noteq> pc" using assms(4) by auto
  then have "pc + 1 < length (code f)" using assms(3) by linarith
  moreover have "jump_op (op i) \<Longrightarrow> unat (opa i) < length (code f)"
    using assms(2-4) by (simp add: jit_closed_def list_all_length)
  moreover have "pc' = pc + 1 \<or> jump_op (op i) \<and> pc' = unat (opa i)"
    using assms(1,5) by (cases "op i") (auto simp: vm_ins_def Let_def vm_ins_parts vm_ins_defs vm_abi_call_def
        vm_validate_abi_call_context_def jump_op_def split: if_splits sum.splits)
  ultimately show ?thesis by auto
qed

definition jit_ready :: "VmModule \<Rightarrow> bool" where
  "jit_ready md = (jit_names_distinct md \<and> shift_free md \<and> list_all (\<lambda>f. fn_ok f \<longrightarrow> jit_closed f) md)"

lemma jit_call_from:
  assumes md: "jit_ready md"
    and loop: "\<And>f frs r frs' t s. vm_loop n ctx md f dep 0 0 (frs, steps) = Some (Inr (r, frs', t)) \<Longrightarrow> f \<in> set md \<Longrightarrow> fn_ok f \<Longrightarrow>
      store_ok frs \<Longrightarrow> dep \<le> LIN_VM_MAX_DEPTH \<Longrightarrow> jrel (frs ! dep) 0 s \<Longrightarrow> 0 < length (code f) \<Longrightarrow>
      c_loop n (jit_prog md) (jit_fn md f) 0 s = Some (Value (res_val r)) \<and> store_ok frs'"
    and run: "vm_call n ctx md fi args dep (frs, steps) = Some (Inr (r, frs', t))" and frs: "store_ok frs"
  shows "length args = nparams (md ! fi) \<and> length args \<le> 64 \<and> fi < length md \<and> store_ok frs' \<and>
    c_call n (jit_prog md) (sanitize_fn_name (fn_name (md ! fi)) 128) (arg_cells args) = Some (Value (res_val r))"
  using run
proof (cases rule: vm_call_cases)
  case (run f fr)
  then have f: "f \<in> set md" "fn_ok f" "length args = nparams f" "dep \<le> LIN_VM_MAX_DEPTH" "f = md ! fi" "fi < length md"
    by (auto simp: vm_enter_def split: if_splits)
  have cl: "jit_closed f" using md f by (auto simp: jit_ready_def list_all_iff)
  have args: "length args \<le> 64"
  proof (rule ccontr)
    assume "\<not> length args \<le> 64"
    then have "vm_init_args args 0 (arr_n f) x = Inl (VmFault Locals)" for x
      using cl by (intro too_many_args) (auto simp: jit_closed_def lin_limits)
    with run(2) show False by (auto simp: vm_init_frame_def)
  qed
  note ok = store_ok_nth [OF frs f(4)]
  obtain s where s: "c_enter (jit_fn md f) (arg_cells args) = Some s" "jrel fr 0 s"
    using jit_enter [OF run(2) ok f(3) args] by blast
  have "store_ok (frs[dep := fr])" "(frs[dep := fr]) ! dep = fr"
    using store_ok_update [OF frs] s(2) f(4) frs by (auto simp: jrel_def store_ok_def)
  then have "c_loop n (jit_prog md) (jit_fn md f) 0 s = Some (Value (res_val r)) \<and> store_ok frs'"
    using loop [OF run(3) f(1,2) _ f(4)] s(2) cl by (simp add: jit_closed_def)
  with f args s(1) jit_find [of md f] md show ?thesis
    by (simp add: c_call_def c_call_with_def jit_ready_def)
qed auto

lemma jrel_cargs:
  assumes "jrel fr sp s" "k \<le> sp" "k \<le> 64"
  shows "c_cargs k s = Some (arg_cells (take k (drop (sp - k) (stack fr))))"
proof -
  let ?c = "take k (drop (sp - k) (jf_stack s))"
  have len: "length (jf_stack s) = 256" "length (stack fr) = 256" "sp \<le> 256" "jf_sp s = sp"
    using assms(1) by (simp_all add: jrel_def frame_ok_def lin_limits)
  have "?c = map Some (take k (drop (sp - k) (stack fr)))"
    using assms len by (intro nth_equalityI) (auto simp: jrel_def)
  moreover have "length ?c = k" using len assms(2) by simp
  ultimately show ?thesis using len assms(2,3) by (simp add: c_cargs_def arg_cells_def min_def comp_def)
qed

lemma jit_loop:
  assumes md: "jit_ready md" and abi: "vm_abi ctx = None"
  shows "vm_loop n ctx md f dep pc sp (frs, steps) = Some (Inr (r, frs', t)) \<Longrightarrow> f \<in> set md \<Longrightarrow> fn_ok f \<Longrightarrow>
    store_ok frs \<Longrightarrow> dep \<le> LIN_VM_MAX_DEPTH \<Longrightarrow> jrel (frs ! dep) sp s \<Longrightarrow> pc < length (code f) \<Longrightarrow>
    c_loop n (jit_prog md) (jit_fn md f) pc s = Some (Value (res_val r)) \<and> store_ok frs'"
proof (induction n arbitrary: f dep pc sp frs steps r frs' t s)
  case (Suc n)
  have cl: "jit_closed f" and sh: "\<not> shift_op (op (code f ! pc))"
    using md Suc.prems(2,3,7) by (auto simp: jit_ready_def shift_free_def list_all_iff)
  have body: "pc < length (cf_body (jit_fn md f))" "cf_body (jit_fn md f) ! pc = jit_ins md (code f ! pc)"
    using Suc.prems(7) by (simp_all add: jit_fn_def)
  have dep: "dep < length frs" using Suc.prems(4,5) by (simp add: store_ok_def)
  from Suc.prems(1) show ?case
  proof (cases rule: vm_loop_cases)
    case (call_returns ti k r1 frs1 s1)
    have c: "length (take k (drop (sp - k) (stack (frs ! dep)))) = nparams (md ! ti) \<and>
      length (take k (drop (sp - k) (stack (frs ! dep)))) \<le> 64 \<and> ti < length md \<and> store_ok frs1 \<and>
      c_call n (jit_prog md) (sanitize_fn_name (fn_name (md ! ti)) 128)
         (arg_cells (take k (drop (sp - k) (stack (frs ! dep))))) = Some (Value (res_val r1))"
      by (rule jit_call_from [OF md _ call_returns(8) Suc.prems(4)], rule Suc.IH, assumption+)
    have "length (stack (frs ! dep)) = 256" "sp \<le> 256" using Suc.prems(6) by (simp_all add: jrel_def frame_ok_def lin_limits)
    then have k: "k \<le> 64" "store_ok frs1"
      "c_call n (jit_prog md) (sanitize_fn_name (fn_name (md ! ti)) 128)
         (arg_cells (take k (drop (sp - k) (stack (frs ! dep))))) = Some (Value (res_val r1))"
      using c call_returns(7) by auto
    have fr: "frs1 ! dep = frs ! dep" using vm_call_frames [OF call_returns(8)] by simp
    obtain s' where s': "c_push (res_val r1) (c_drop k s) = Some s'"
      "jrel ((frs ! dep)\<lparr>stack := (stack (frs ! dep))[sp - k := res_val r1]\<rparr>) (sp - k + 1) s'"
      using jrel_push [OF jrel_drop [OF Suc.prems(6) call_returns(7)] call_returns(9)] by blast
    have "op (code f ! pc) \<noteq> OP_RET" using call_returns(3) by simp
    moreover have "op (code f ! (length (code f) - 1)) = OP_RET" using cl by (auto simp: jit_closed_def last_conv_nth)
    ultimately have pc: "pc + 1 < length (code f)" using Suc.prems(7) by (cases "pc = length (code f) - 1") auto
    have "jit_ins md (code f ! pc) = Some (SCall k (sanitize_fn_name (fn_name (md ! ti)) 128))"
      using call_returns(3-6) by (simp add: jit_ins_def Let_def)
    from c_loop_call [OF body(1) _ jrel_cargs [OF Suc.prems(6) call_returns(7) k(1)] k(3) s'(1)] this body(2)
    have "c_loop (Suc n) (jit_prog md) (jit_fn md f) pc s = c_loop n (jit_prog md) (jit_fn md f) (pc + 1) s'" by simp
    moreover let ?frs = "frs1[dep := (frs1 ! dep)\<lparr>stack := (stack (frs1 ! dep))[sp - k := res_val r1]\<rparr>]"
    have "store_ok ?frs" using k(2) s'(2) fr by (intro store_ok_update) (simp_all add: jrel_def)
    moreover have "jrel (?frs ! dep) (sp - k + 1) s'" using s'(2) fr dep vm_call_frames [OF call_returns(8)] by simp
    ultimately show ?thesis using Suc.IH [OF call_returns(10) Suc.prems(2,3) _ Suc.prems(5) _ pc, of s'] by simp
  next
    case (returns r1)
    with jit_ins_return [OF Suc.prems(6) returns(4), of md] body Suc.prems(4) show ?thesis
      by (simp add: c_loop_stmt [OF body(1)])
  next
    case (continues pc' sp' fr')
    obtain st s' where st: "jit_ins md (code f ! pc) = Some st" "\<forall>np g. st \<noteq> SCall np g"
      "c_stmt st (pc + 1) s = Some (CGo pc' s')" "jrel fr' sp' s'"
      using jit_ins_next [OF Suc.prems(6) continues(4,3) sh abi] by blast
    have pc: "pc' < length (code f)" by (rule next_pc [OF continues(4) cl continues(1) refl abi])
    have "store_ok (frs[dep := fr'])" using Suc.prems(4) st(4) by (intro store_ok_update) (simp_all add: jrel_def)
    with Suc.IH [OF continues(5) Suc.prems(2,3) _ Suc.prems(5) _ pc, of s'] st dep body show ?thesis
      by (simp add: c_loop_stmt [OF body(1)])
  qed (use Suc.prems in auto)
qed simp

lemma jit_call:
  assumes "jit_ready md" "vm_abi ctx = None" "store_ok frs"
    "vm_call n ctx md fi args dep (frs, steps) = Some (Inr (r, frs', t))"
  shows "length args = nparams (md ! fi) \<and> length args \<le> 64 \<and> fi < length md \<and> store_ok frs' \<and>
    c_call n (jit_prog md) (sanitize_fn_name (fn_name (md ! fi)) 128) (arg_cells args) = Some (Value (res_val r))"
  by (rule jit_call_from [OF assms(1) _ assms(4,3)], rule jit_loop [OF assms(1,2)], assumption+)

lemma vm_exec_call:
  assumes "vm_exec mem (Some md) fi args dep (Some steps) = Some (Inr (r, x, t))"
  obtains n ctx frs frs' where "vm_abi ctx = None" "store_ok frs"
    "vm_call n ctx md fi args dep (frs, steps) = Some (Inr (r, frs', t))"
proof -
  let ?ctx = "\<lparr>vm_module = Some md, vm_regions = None, vm_abi = None, step_limit = LIN_VM_STEP_LIMIT,
     vm_profile = LIN_VM_PROFILE_LINVM1, vm_abi_version = LIN_HOST_ABI_1, frames = None\<rparr>"
  from assms have "vm_exec_ctx mem (Some ?ctx) fi args dep (Some steps) = Some (Inr (r, x, t))" "vm_module ?ctx = Some md"
    "pred_option store_ok (frames ?ctx)" by (simp_all add: vm_exec_def)
  then show ?thesis
  proof (cases rule: vm_exec_ctx_result)
    case (ran frs res')
    then obtain frs' where "res' = Inr (r, frs', t)" by (cases res') auto
    with ran(1,2) show ?thesis by (intro that [of ?ctx]) simp_all
  qed simp
qed

lemma built_closed:
  assumes "c0_build_impl mem src dv sh = Some (Inr md)"
  shows "list_all (\<lambda>f. fn_ok f \<longrightarrow> jit_closed f) md"
proof -
  have "fn_ok f \<longrightarrow> fn_built (length md) f" if "f \<in> set md" for f
    using build_results(1) [OF assms] that by (fastforce simp: list_all2_conv_all_nth in_set_conv_nth fn_result_def)
  then show ?thesis by (auto simp: list_all_iff fn_built_def jit_closed_def ins_valid_def)
qed

lemma jit_returns:
  assumes "c0_build mem src = Some (Inr md)" "jit_names_distinct md" "shift_free md"
    "vm_exec fm (Some md) fi args 0 (Some 0) = Some (Inr (r, x, steps))"
  shows "\<exists>n. \<forall>m \<ge> n. c_call m (jit_prog md) (sanitize_fn_name (fn_name (md ! fi)) 128) (arg_cells args) = Some (Value (res_val r))"
proof -
  have ready: "jit_ready md" using assms(2,3) built_closed [OF assms(1) [unfolded c0_build_def]] by (simp add: jit_ready_def)
  from assms(4) obtain n ctx frs frs' where "vm_abi ctx = None" "store_ok frs"
    "vm_call n ctx md fi args 0 (frs, 0) = Some (Inr (r, frs', steps))" by (rule vm_exec_call)
  with jit_call [OF ready] have "c_call n (jit_prog md) (sanitize_fn_name (fn_name (md ! fi)) 128) (arg_cells args) = Some (Value (res_val r))"
    by blast
  with cprog.stable [of n "jit_prog md" "(sanitize_fn_name (fn_name (md ! fi)) 128, arg_cells args)"] show ?thesis by auto
qed

section \<open>Programs of built modules\<close>

definition no_least_literal :: "VmModule \<Rightarrow> bool" where
  "no_least_literal md = list_all (\<lambda>f. list_all (\<lambda>i. op i = OP_PUSH_CONST \<longrightarrow> opa i \<noteq> INT64_MIN) (code f)) md"

lemma unat_sle: "unat (a :: i64) < 2 ^ 63 \<Longrightarrow> 0 \<le>s a"
  using sint_small [of a] by (simp add: word_sle_eq)

lemma built_c_valid:
  assumes "c0_build mem src = Some (Inr md)" "jit_names_distinct md" "no_least_literal md"
    "list_all (\<lambda>f. length (code f) < 2 ^ 63) md"
  shows "c_valid (jit_prog md)"
proof -
  note b = build_results [OF assms(1) [unfolded c0_build_def]]
  have "c_stmt_valid (jit_prog md) (jit_fn md f) st"
    if f: "f \<in> set md" "fn_ok f" and i: "i \<in> set (code f)" "jit_ins md i = Some st" for f i st
  proof -
    from f(1) obtain j where j: "j < length md" "f = md ! j" by (auto simp: in_set_conv_nth)
    have "fn_built (length md) f"
      using b(1) j f(2) by (auto simp: list_all2_conv_all_nth fn_result_def)
    then have v: "ins_valid (length (code f)) (length md) (nlocals f) i" "length (arr_n f) = nlocals f"
      using i(1) by (simp_all add: fn_built_def list_all_iff)
    have len: "length (code f) < 2 ^ 63" "op i = OP_PUSH_CONST \<Longrightarrow> opa i \<noteq> INT64_MIN"
      using assms(3,4) f(1) i(1) by (simp_all add: no_least_literal_def list_all_iff)
    have label: "0 \<le>s opa i \<and> unat (opa i) < length (code f)" if "jump_op (op i)"
      using v(1) len(1) that unat_sle [of "opa i"] by (auto simp: ins_valid_def)
    have arrs: "arr_n f \<noteq> []" if "local_op (op i)" using v that by (auto simp: ins_valid_def)
    have callee: "unat (opa i) < length md \<and> fn_ok (md ! unat (opa i))" if "op i = OP_CALL"
    proof -
      have "j \<in> ok_set md" "unat (opa i) \<in> callees (md ! j)" using j f(2) i(1) that by (auto simp: ok_set_def callees_def)
      with b(2) show ?thesis by (auto simp: closed_calls_def ok_set_def)
    qed
    have "sanitize_fn_name (fn_name (md ! unat (opa i))) 128 \<in> cf_name ` set (jit_prog md)" if "op i = OP_CALL"
      using callee [OF that] by (force simp: jit_prog_def jit_fn_def)
    with label arrs callee len(2) i(2) show ?thesis
      by (cases "op i") (auto simp: jit_ins_def Let_def c_stmt_valid_def jit_fn_def jump_op_def local_op_def)
  qed
  moreover have "distinct (map cf_name (jit_prog md))"
    using assms(2) by (simp add: jit_names_distinct_def jit_prog_def comp_def jit_fn_def)
  ultimately show ?thesis
    by (auto simp: c_valid_def list_all_iff jit_prog_def jit_fn_def pred_option_def dest!: sym [of _ "jit_ins _ _"])
qed

section \<open>Concrete runs\<close>

definition shift_src :: string where
  "shift_src = ''!f(a:int)->int{^_lia_shl(a,64)}''"

definition shift_fn :: VmFn where
  "shift_fn = ident_fn\<lparr>code := [\<lparr>op = OP_LOAD_LOCAL, opa = 0\<rparr>, \<lparr>op = OP_PUSH_CONST, opa = 64\<rparr>, \<lparr>op = OP_SHL, opa = 0\<rparr>,
     \<lparr>op = OP_RET, opa = 0\<rparr>, \<lparr>op = OP_PUSH_CONST, opa = 0\<rparr>, \<lparr>op = OP_RET, opa = 0\<rparr>]\<rparr>"

lemma shift_build: "c0_build all_mem shift_src = Some (Inr [shift_fn])"
  by code_simp

lemma vm_exec_small:
  assumes "\<And>ctx x. step_limit ctx = LIN_VM_STEP_LIMIT \<Longrightarrow> store_ok x \<Longrightarrow> \<exists>y. vm_call n ctx md fi args 0 (x, 0) = Some (Inr (r, y, t))"
    "n \<le> 300"
  shows "vm_exec True (Some md) fi args 0 (Some 0) = Some (Inr (r, None, t))"
proof -
  let ?x = "replicate (LIN_VM_MAX_DEPTH + 1) zero_frame"
  let ?ctx = "\<lparr>vm_module = Some md, vm_regions = None, vm_abi = None, step_limit = LIN_VM_STEP_LIMIT,
     vm_profile = LIN_VM_PROFILE_LINVM1, vm_abi_version = LIN_HOST_ABI_1, frames = None\<rparr>"
  have "store_ok ?x" using store_ok_alloc [of True] by (simp add: lin_vm_frames_alloc_def)
  with assms(1) [of ?ctx ?x] obtain y where y: "vm_call n ?ctx md fi args 0 (?x, 0) = Some (Inr (r, y, t))" by auto
  have "n \<le> unat (step_limit ?ctx) + 2" using assms(2) by (simp add: LIN_VM_STEP_LIMIT_def)
  note run = vm.stable [where x = "(fi, args, 0, ?x, 0)", unfolded prod.case, OF y this]
  show ?thesis unfolding vm_exec_def vm_exec_ctx_alloc [of ?ctx md, simplified] using run by simp
qed

lemma limit_steps:
  assumes "step_limit ctx = LIN_VM_STEP_LIMIT"
  shows "(1 :: u64) \<le> step_limit ctx" "(2 :: u64) \<le> step_limit ctx" "(3 :: u64) \<le> step_limit ctx" "(4 :: u64) \<le> step_limit ctx"
  using small_steps [of 1] small_steps [of 2] small_steps [of 3] small_steps [of 4] assms by simp_all

lemma shift_exec: "vm_exec True (Some [shift_fn]) 0 [v] 0 (Some 0) = Some (Inr (\<lparr>res_val = 0, sp_at_ret = 1\<rparr>, None, 4))"
proof (rule vm_exec_small [where n = "Suc (Suc (Suc (Suc 0)))"])
  fix ctx :: LinVmContext and x assume a: "step_limit ctx = LIN_VM_STEP_LIMIT" "store_ok x"
  have l: "length x = 193" "length (stack (x ! 0)) = 256"
    using a(2) store_ok_nth [OF a(2), of 0] by (simp_all add: store_ok_def frame_ok_def lin_limits)
  show "\<exists>y. vm_call (Suc (Suc (Suc (Suc 0)))) ctx [shift_fn] 0 [v] 0 (x, 0) = Some (Inr (\<lparr>res_val = 0, sp_at_ret = 1\<rparr>, y, 4))"
    using limit_steps [OF a(1)] l
    by (simp add: vm_call_def vm_call_with_def vm_enter_def vm_init_frame_def shift_fn_def ident_fn_def
        vm_loop_ins vm_ins_def vm_push_def vm_need_def vm_local_def vm_binary_ins_def vm_shift_def lin_limits)
qed simp

lemma ident_exec: "vm_exec True (Some [ident_fn]) 0 [v] 0 (Some 0) = Some (Inr (\<lparr>res_val = v, sp_at_ret = 1\<rparr>, None, 2))"
proof (rule vm_exec_small [where n = "Suc (Suc 0)"])
  fix ctx :: LinVmContext and x assume a: "step_limit ctx = LIN_VM_STEP_LIMIT" "store_ok x"
  have l: "length x = 193" "length (stack (x ! 0)) = 256"
    using a(2) store_ok_nth [OF a(2), of 0] by (simp_all add: store_ok_def frame_ok_def lin_limits)
  show "\<exists>y. vm_call (Suc (Suc 0)) ctx [ident_fn] 0 [v] 0 (x, 0) = Some (Inr (\<lparr>res_val = v, sp_at_ret = 1\<rparr>, y, 2))"
    using limit_steps [OF a(1)] l
    by (simp add: vm_call_def vm_call_with_def vm_enter_def vm_init_frame_def ident_fn_def
        vm_loop_ins vm_ins_def vm_push_def vm_need_def vm_local_def lin_limits)
qed simp

lemmas c_run_simps = c_call_def c_call_with_def c_enter_def c_loop.simps(2) c_push_def c_read_def c_local_def c_drop_def
  jit_prog_def jit_fn_def jit_ins_def sanitize_fn_name_def cstr_def arg_cells_def

lemma shift_native: "c_call (Suc (Suc (Suc (Suc 0)))) (jit_prog [shift_fn]) ''f'' (arg_cells [v]) = Some (Value v)"
  by (simp add: shift_fn_def ident_fn_def c_run_simps)

lemma ident_native:
  "c_call (Suc (Suc 0)) (jit_prog [ident_fn]) ''f'' args = Some (case args of [] \<Rightarrow> Undefined | v # _ \<Rightarrow> Value v)"
  by (cases args) (simp_all add: ident_fn_def c_run_simps)

section \<open>Properties\<close>

text \<open>
  C4: native code computes what the machine computes. Let the front-end build a module in
  which no executable function shifts and the C names of the executable functions differ.
  Whenever the machine returns a value from a function, the emitted C function, called with
  the same arguments, runs without undefined behaviour and returns the same value: every
  template, the calls between the functions, their arrays and the order of setting up
  parameters and arrays included.
\<close>
theorem jit_agrees_with_vm:
  assumes "c0_build mem src = Some (Inr md)" "jit_names_distinct md" "shift_free md"
    "vm_exec fm (Some md) fi args 0 (Some 0) = Some (Inr (r, x, steps))"
  shows "\<exists>n. \<forall>m \<ge> n. c_call m (jit_prog md) (sanitize_fn_name (fn_name (md ! fi)) 128) (arg_cells args) = Some (Value (res_val r))"
  using assms by (rule jit_returns)

theorem jit_agrees_with_vm_witness:
  "\<exists>n. \<forall>m \<ge> n. c_call m (jit_prog [ident_fn]) ''f'' (arg_cells [7]) = Some (Value 7)"
proof -
  have b: "c0_build all_mem ident_src = Some (Inr [ident_fn])" using ident_build by (simp add: c0_build_def)
  have "jit_names_distinct [ident_fn]" "shift_free [ident_fn]"
    by (simp_all add: jit_names_distinct_def shift_free_def shift_op_def ident_fn_def)
  from jit_agrees_with_vm [OF b this ident_exec [of 7]] show ?thesis
    by (simp add: ident_fn_def sanitize_fn_name_def cstr_def)
qed

text \<open>
  C35: shifts are where the two differ. The front-end accepts a function that shifts its argument
  left by 64 through \<open>_lia_shl\<close>. On every argument the machine answers 0, while the native code
  masks the distance to 0 and answers the argument itself.
\<close>
theorem jit_shift_diverges:
  "c0_build all_mem shift_src = Some (Inr [shift_fn]) \<and>
   vm_exec True (Some [shift_fn]) 0 [v] 0 (Some 0) = Some (Inr (\<lparr>res_val = 0, sp_at_ret = 1\<rparr>, None, 4)) \<and>
   c_call 4 (jit_prog [shift_fn]) ''f'' (arg_cells [v]) = Some (Value v)"
  using shift_build shift_exec shift_native by (simp add: numeral_eq_Suc)

end
