(* ===== verification/C0_Receipt.thy ===== *)
theory C0_Receipt
  imports C0_Cli Lin_Lower
begin

text \<open>
  The command \<open>receipt\<close> of \<open>transpile/c/tool/lin_c0.c\<close>, which prints a receipt of one
  evaluation and verifies receipts, and \<open>main\<close> of that tool. The functions \<open>strstr\<close>, \<open>sscanf\<close>
  and \<open>strtoull\<close> of the C library are modelled as far as the command uses them; \<open>%02x\<close> follows
  the standard, which takes a lone \<open>0x\<close> for a failure.
\<close>

section \<open>Library functions on text\<close>

fun strstr :: "string \<Rightarrow> string \<Rightarrow> string option" where
  "strstr needle [] = (if needle = [] then Some [] else None)"
| "strstr needle (c # s) = (if take (length needle) (c # s) = needle then Some (c # s) else strstr needle s)"

definition strtoull :: "string \<Rightarrow> (u64 \<times> string) option" where
  "strtoull s =
     (let (neg, t) = strto_sign (dropWhile is_space s); ds = takeWhile is_digit t; v = foldl dec_step 0 ds :: int in
      if ds = [] then None
      else Some (if v > 2 ^ 64 - 1 then - 1 else word_of_int (if neg then - v else v), dropWhile is_digit t))"

text \<open>The literal part of a \<open>sscanf\<close> format, a conversion \<open>%n[^"]\<close>, and \<open>%02x\<close> stored in a byte.\<close>

fun scan_lit :: "string \<Rightarrow> string \<Rightarrow> string option" where
  "scan_lit [] s = Some s"
| "scan_lit (f # fs) s =
     (if is_space f then scan_lit fs (dropWhile is_space s)
      else case s of [] \<Rightarrow> None | c # r \<Rightarrow> if c = f then scan_lit fs r else None)"

definition scan_set :: "nat \<Rightarrow> string \<Rightarrow> string option" where
  "scan_set n s = (let t = takeWhile (\<lambda>c. c \<noteq> QUOT) (take n s) in if t = [] then None else Some t)"

definition scan_x2 :: "string \<Rightarrow> u8 option" where
  "scan_x2 s =
     (let (neg, t) = strto_sign (take 2 (dropWhile is_space s)); ds = takeWhile (\<lambda>c. hexval c \<ge> 0) t;
          v = foldl (\<lambda>a c. 16 * a + hexval c) 0 ds in
      if ds = [] \<or> t = ''0x'' \<or> t = ''0X'' then None else Some (word_of_int (if neg then - v else v)))"

section \<open>Creating a receipt\<close>

record RcOpts =
  opt_source :: string
  opt_input :: i64
  opt_device :: string
  opt_json :: bool

definition rc_defaults :: RcOpts where
  "rc_defaults = \<lparr>opt_source = ''return x * x;'', opt_input = 9, opt_device = ''linvm_cpu'', opt_json = False\<rparr>"

fun rc_args :: "string list \<Rightarrow> RcOpts \<Rightarrow> RcOpts" where
  "rc_args (a # b # rest) o1 =
     (if a = ''--source'' then rc_args rest (o1\<lparr>opt_source := b\<rparr>)
      else if a = ''--input'' then rc_args rest (o1\<lparr>opt_input := arg_value b\<rparr>)
      else if a = ''--device'' then rc_args rest (o1\<lparr>opt_device := b\<rparr>)
      else if a = ''--format'' \<or> a = ''--export'' then rc_args rest (if b = ''json'' then o1\<lparr>opt_json := True\<rparr> else o1)
      else rc_args (b # rest) o1)"
| "rc_args _ o1 = o1"

text \<open>The expression in the buffer of 512 characters.\<close>

definition clean_expr :: "string \<Rightarrow> string" where
  "clean_expr source =
     (let e = dropWhile c0_is_space source;
          e1 = (if take 7 e = ''return '' then drop 7 e else e) in
      rev (dropWhile (\<lambda>c. c = CHR '';'' \<or> c0_is_space c) (rev (take 511 e1))))"

definition x_env :: "i64 \<Rightarrow> VarBinding list" where
  "x_env v = [\<lparr>bind_name = ''x'', bind_val = v\<rparr>]"

definition entry_fn :: "VmIns list \<Rightarrow> VmFn" where
  "entry_fn lc = \<lparr>fn_name = ''entry'', nparams = 1, nlocals = 1, code = lc, sig_ok = True, fn_ok = True, reject = [], arr_n = []\<rparr>"

text \<open>What the root of a receipt covers: the leaf of 64 bytes.\<close>

record RcFields =
  rf_digest :: bytes
  rf_input :: i64
  rf_output :: i64
  rf_steps :: u64
  rf_sp :: u64

definition rc_leaf :: "RcFields \<Rightarrow> bytes" where
  "rc_leaf r = rf_digest r @ le_bytes 8 (rf_output r) @ le_bytes 8 (rf_steps r) @ le_bytes 8 (rf_sp r) @ le_bytes 8 (rf_input r)"

definition rc_root :: "RcFields \<Rightarrow> string" where
  "rc_root r = lin_sha256_hex (lin_sha256 (rc_leaf r))"

definition rc_compute :: "CliEnv \<Rightarrow> string \<Rightarrow> i64 \<Rightarrow> (CliOut + RcFields) option" where
  "rc_compute E source input =
     (let e = clean_expr source in
      case parse_expression (parse_fuel e) (parser_init e) 0 of
        None \<Rightarrow> None
      | Some (Inl _) \<Rightarrow> Some (Inl (complains (''receipt error: failed to parse --source '' @ quoted source)))
      | Some (Inr (root, p)) \<Rightarrow>
          (case lower_arena (arena p) root (x_env 0) of
             None \<Rightarrow> None
           | Some (Inl _) \<Rightarrow> Some (Inl (complains (''receipt error: failed to lower --source '' @ quoted source)))
           | Some (Inr lc) \<Rightarrow>
               (case vm_exec (env_frames E) (Some [entry_fn lc]) 0 [input] 0 (Some 0) of
                  None \<Rightarrow> None
                | Some (Inl (VmErr err, _)) \<Rightarrow>
                    Some (Inl (complains (''receipt error: failed to execute on LinVM: '' @ vm_err_code err)))
                | Some (Inl (VmFault x, _)) \<Rightarrow> Some (Inl (CliFault x))
                | Some (Inr (res, _, steps)) \<Rightarrow>
                    Some (Inr \<lparr>rf_digest = lin_sha256 (bytes_of_string source), rf_input = input, rf_output = res_val res,
                      rf_steps = steps, rf_sp = of_nat (sp_at_ret res)\<rparr>))))"

definition host_arch :: "CliEnv \<Rightarrow> string" where
  "host_arch E =
     (case env_read E ''/proc/cpuinfo'' of
        None \<Rightarrow> ''Intel_Xeon_Haswell_v3''
      | Some content \<Rightarrow>
          (let cbuf = cstr (take 1023 content) in
           if strstr ''Xeon'' cbuf \<noteq> None then ''Intel_Xeon_Haswell_v3''
           else if strstr ''AMD'' cbuf \<noteq> None then ''AMD_x86_64''
           else if strstr ''Intel'' cbuf \<noteq> None then ''Intel_x86_64''
           else ''Intel_Xeon_Haswell_v3''))"

definition rc_key :: "string \<Rightarrow> string" where
  "rc_key k = quoted k @ '':''"

definition rc_json :: "CliEnv \<Rightarrow> string \<Rightarrow> RcFields \<Rightarrow> string" where
  "rc_json E device r =
     ''{'' @ [NEWLINE] @
     ''  '' @ rc_key ''schema'' @ '' '' @ quoted ''LIN_COMPUTE_RECEIPT_1.0'' @ '','' @ [NEWLINE] @
     ''  '' @ rc_key ''status'' @ '' '' @ quoted ''INTEGRITY_RECEIPT_LOCAL'' @ '','' @ [NEWLINE] @
     ''  '' @ rc_key ''verification_level'' @ '' 0,'' @ [NEWLINE] @
     ''  '' @ rc_key ''artifact'' @ '' '' @ quoted (''sha256:'' @ lin_sha256_hex (rf_digest r)) @ '','' @ [NEWLINE] @
     ''  '' @ rc_key ''input'' @ '' '' @ quoted (fmt_i64 (rf_input r)) @ '','' @ [NEWLINE] @
     ''  '' @ rc_key ''output'' @ '' '' @ quoted (fmt_i64 (rf_output r)) @ '','' @ [NEWLINE] @
     ''  '' @ rc_key ''steps'' @ '' '' @ fmt_u64 (rf_steps r) @ '','' @ [NEWLINE] @
     ''  '' @ rc_key ''sp_at_ret'' @ '' '' @ fmt_u64 (rf_sp r) @ '','' @ [NEWLINE] @
     ''  '' @ rc_key ''target_device'' @ '' '' @ quoted device @ '','' @ [NEWLINE] @
     ''  '' @ rc_key ''host_arch'' @ '' '' @ quoted (host_arch E) @ '','' @ [NEWLINE] @
     ''  '' @ rc_key ''merkle_root'' @ '' '' @ quoted (''sha256:'' @ rc_root r) @ [NEWLINE] @
     ''}'' @ [NEWLINE]"

definition rc_rulel :: "CliEnv \<Rightarrow> string \<Rightarrow> RcFields \<Rightarrow> string" where
  "rc_rulel E device r =
     ''@LIN:RECEIPT:1.0.0'' @ [NEWLINE] @
     ''~R{.a=artifact .i=input .o=output .s=steps .p=sp .d=device .h=host .m=merkle .v=level}'' @ [NEWLINE] @
     ''.status='' @ quoted ''INTEGRITY_RECEIPT_LOCAL'' @ [NEWLINE] @
     ''.level=0'' @ [NEWLINE] @
     ''.a='' @ quoted (''sha256:'' @ lin_sha256_hex (rf_digest r)) @ [NEWLINE] @
     ''.i='' @ fmt_i64 (rf_input r) @ [NEWLINE] @
     ''.o='' @ fmt_i64 (rf_output r) @ [NEWLINE] @
     ''.s='' @ fmt_u64 (rf_steps r) @ [NEWLINE] @
     ''.p='' @ fmt_u64 (rf_sp r) @ [NEWLINE] @
     ''.d='' @ quoted device @ [NEWLINE] @
     ''.h='' @ quoted (host_arch E) @ [NEWLINE] @
     ''.m='' @ quoted (''sha256:'' @ rc_root r) @ [NEWLINE]"

definition rc_text :: "CliEnv \<Rightarrow> bool \<Rightarrow> string \<Rightarrow> RcFields \<Rightarrow> string" where
  "rc_text E json device r = (if json then rc_json E device r else rc_rulel E device r)"

definition receipt_create :: "CliEnv \<Rightarrow> string list \<Rightarrow> CliOut option" where
  "receipt_create E args =
     (let o1 = rc_args args rc_defaults in
      map_option (\<lambda>x. case x of Inl out \<Rightarrow> out | Inr r \<Rightarrow> prints (rc_text E (opt_json o1) (opt_device o1) r) 0)
        (rc_compute E (opt_source o1) (opt_input o1)))"

section \<open>Verifying a receipt\<close>

record RcRead =
  rd_art :: string
  rd_root :: string
  rd_input :: i64
  rd_output :: i64
  rd_steps :: u64
  rd_sp :: u64

definition rd_empty :: RcRead where
  "rd_empty = \<lparr>rd_art = [], rd_root = [], rd_input = 0, rd_output = 0, rd_steps = 0, rd_sp = 0\<rparr>"

definition or_else :: "'a option \<Rightarrow> 'a option \<Rightarrow> 'a option" where
  "or_else x y = (case x of None \<Rightarrow> y | Some _ \<Rightarrow> x)"

definition opt_default :: "'a \<Rightarrow> 'a option \<Rightarrow> 'a" where
  "opt_default d x = (case x of None \<Rightarrow> d | Some v \<Rightarrow> v)"

definition scan_text :: "nat \<Rightarrow> string \<Rightarrow> string \<Rightarrow> string option" where
  "scan_text n fmt p = Option.bind (scan_lit fmt p) (scan_set n)"

definition scan_lld :: "string \<Rightarrow> string \<Rightarrow> i64 option" where
  "scan_lld fmt p = map_option fst (Option.bind (scan_lit fmt p) strtoll)"

definition scan_llu :: "string \<Rightarrow> string \<Rightarrow> u64 option" where
  "scan_llu fmt p = map_option fst (Option.bind (scan_lit fmt p) strtoull)"

text \<open>A field of the JSON form: the first occurrence of its key, then one of the formats.\<close>

definition json_field :: "string \<Rightarrow> 'a \<Rightarrow> (string \<Rightarrow> 'a option) \<Rightarrow> string \<Rightarrow> 'a" where
  "json_field k d scan content = opt_default d (Option.bind (strstr (rc_key k) content) scan)"

definition json_number :: "string \<Rightarrow> string \<Rightarrow> i64" where
  "json_number k = json_field k 0
     (\<lambda>p. or_else (scan_lld (rc_key k @ '' '' @ [QUOT]) p) (scan_lld (rc_key k @ '' '') p))"

definition read_json :: "string \<Rightarrow> RcRead" where
  "read_json content =
     \<lparr>rd_art = json_field ''artifact'' []
        (\<lambda>p. or_else (scan_text 64 (rc_key ''artifact'' @ '' '' @ [QUOT] @ ''sha256:'') p)
                     (scan_text 64 (rc_key ''artifact'' @ '' '' @ [QUOT]) p)) content,
      rd_root = json_field ''merkle_root'' [] (scan_text 127 (rc_key ''merkle_root'' @ '' '' @ [QUOT])) content,
      rd_input = json_number ''input'' content,
      rd_output = json_number ''output'' content,
      rd_steps = json_field ''steps'' 0 (scan_llu (rc_key ''steps'' @ '' '')) content,
      rd_sp = json_field ''sp_at_ret'' 0 (scan_llu (rc_key ''sp_at_ret'' @ '' '')) content\<rparr>"

definition strip_sha :: "string \<Rightarrow> string" where
  "strip_sha s = (if take 7 s = ''sha256:'' then drop 7 s else s)"

definition read_line :: "RcRead \<Rightarrow> string \<Rightarrow> RcRead" where
  "read_line v line =
     (let t = dropWhile is_blank line in
      if take 4 t = ''.a='' @ [QUOT] then v\<lparr>rd_art := take 64 (strip_sha (opt_default [] (scan_set 127 (drop 4 t))))\<rparr>
      else if take 3 t = ''.i='' then v\<lparr>rd_input := opt_default 0 (scan_lld [] (drop 3 t))\<rparr>
      else if take 3 t = ''.o='' then v\<lparr>rd_output := opt_default 0 (scan_lld [] (drop 3 t))\<rparr>
      else if take 3 t = ''.s='' then v\<lparr>rd_steps := opt_default 0 (scan_llu [] (drop 3 t))\<rparr>
      else if take 3 t = ''.p='' then v\<lparr>rd_sp := opt_default 0 (scan_llu [] (drop 3 t))\<rparr>
      else if take 4 t = ''.m='' @ [QUOT] then v\<lparr>rd_root := opt_default (rd_root v) (scan_set 127 (drop 4 t))\<rparr>
      else v)"

fun read_lines :: "RcRead \<Rightarrow> string \<Rightarrow> string \<Rightarrow> RcRead" where
  "read_lines v line [] = read_line v line"
| "read_lines v line (c # s) = (if c = NEWLINE then read_lines (read_line v line) [] s else read_lines v (line @ [c]) s)"

definition read_receipt :: "string \<Rightarrow> RcRead" where
  "read_receipt content =
     (let c = cstr content in
      if (c \<noteq> [] \<and> hd c = CHR ''{'') \<or> strstr (quoted ''schema'') c \<noteq> None then read_json c
      else read_lines rd_empty [] c)"

fun digest_of :: "nat \<Rightarrow> string \<Rightarrow> bytes option" where
  "digest_of 0 s = Some []"
| "digest_of (Suc n) s = (case scan_x2 s of None \<Rightarrow> None | Some b \<Rightarrow> map_option ((#) b) (digest_of n (drop 2 s)))"

text \<open>The fields whose root is compared, if the artifact is 32 bytes in hex.\<close>

definition rc_fields :: "RcRead \<Rightarrow> RcFields option" where
  "rc_fields v = map_option (\<lambda>d. \<lparr>rf_digest = d, rf_input = rd_input v, rf_output = rd_output v,
     rf_steps = rd_steps v, rf_sp = rd_sp v\<rparr>) (digest_of 32 (rd_art v))"

definition verify_text :: "string \<Rightarrow> string \<Rightarrow> CliOut" where
  "verify_text file content =
     (let v = read_receipt content in
      case rc_fields v of
        None \<Rightarrow> complains ''FAIL: Invalid artifact hex in receipt''
      | Some r \<Rightarrow>
          if rc_root r = strip_sha (rd_root v)
          then prints (''PASS: Compute Receipt '' @ quoted file @
            '' cryptographically verified! Merkle root valid: sha256:'' @ rc_root r @ [NEWLINE]) 0
          else complains (''FAIL: Compute Receipt '' @ quoted file @ '' TAMPERED! Calculated: sha256:'' @ rc_root r @
            '', Stored: '' @ rd_root v))"

fun rc_file :: "string list \<Rightarrow> string option \<Rightarrow> string option" where
  "rc_file (a # b # rest) acc = (if a = ''--receipt'' then rc_file rest (Some b) else rc_file (b # rest) acc)"
| "rc_file _ acc = acc"

definition receipt_verify :: "CliEnv \<Rightarrow> string list \<Rightarrow> CliOut" where
  "receipt_verify E args =
     (case rc_file args None of
        None \<Rightarrow> complains ''receipt verify error: no receipt file given (use --receipt <file>)''
      | Some file \<Rightarrow>
          (case env_read E file of
             None \<Rightarrow> complains (''receipt verify error: cannot open '' @ file)
           | Some content \<Rightarrow> verify_text file content))"

definition cmd_receipt :: "CliEnv \<Rightarrow> string list \<Rightarrow> CliOut option" where
  "cmd_receipt E args =
     (case args of
        [] \<Rightarrow> Some (complains ''usage: lin_c0 receipt create [--source <src>] [--input <n>] | verify --receipt <file>'')
      | subcmd # rest \<Rightarrow>
          if subcmd = ''create'' then receipt_create E rest
          else if subcmd = ''verify'' then Some (receipt_verify E rest)
          else Some (complains (''receipt: unknown subcommand '' @ subcmd)))"

section \<open>main\<close>

definition usage_text :: string where
  "usage_text =
     ''usage: lin_c0 --version | info <f.lin> | check <f.lin> | lint <f.lin> |'' @ [NEWLINE] @
     ''            vm <f.lin> [fn] [args] | receipt create|verify [args] |'' @ [NEWLINE] @
     ''            jit <f.lin> [fn] [args] | roundtrip-jit <f.lin> <fn> [args] |'' @ [NEWLINE] @
     ''            jit-verify <f.lin> | vmfull <f.lin> [fn] [args] | image <f.lin> [-o out] |'' @ [NEWLINE] @
     ''            gpu-verify [f.lin] | run <img> <fn> [args] | roundtrip <f.lin> <fn> [args]''"

text \<open>
  The dispatch on the command name. \<open>backend\<close> stands for the commands of the native and GPU
  back-ends, \<open>arn\<close> for whether \<open>c0_arena_new\<close> succeeds.
\<close>

definition lin_c0_main :: "CliEnv \<Rightarrow> (string list \<Rightarrow> CliOut option) \<Rightarrow> bool \<Rightarrow> string list \<Rightarrow> CliOut option" where
  "lin_c0_main E backend arn args =
     (case args of
        [] \<Rightarrow> Some (complains usage_text)
      | cmd # rest \<Rightarrow>
          if cmd = ''--version'' \<or> cmd = ''version'' then Some (prints (C0_VERSION @ [NEWLINE]) 0)
          else if \<not> arn then Some (complains ''lin_c0: out of memory'')
          else if cmd = ''info'' \<or> cmd = ''vm'' then cmd_vm E False rest
          else if cmd = ''check'' then Some (cmd_check E rest)
          else if cmd = ''lint'' then Some (cmd_lint E rest)
          else if cmd = ''receipt'' then cmd_receipt E rest
          else if cmd \<in> {''jit'', ''roundtrip-jit'', ''jit-verify'', ''gpu-verify''} then backend args
          else if cmd = ''vmfull'' then cmd_vm E True rest
          else if cmd = ''image'' then cmd_image E rest
          else if cmd = ''run'' then cmd_run E rest
          else if cmd = ''roundtrip'' then map_option rt_out (cmd_roundtrip E rest)
          else Some (complains (''lin_c0: unknown command: '' @ cmd)))"

section \<open>Reading back numbers and digests\<close>

lemma strtoull_fmt:
  assumes "rest = [] \<or> \<not> is_digit (hd rest)"
  shows "strtoull (fmt_u64 x @ rest) = Some (x, rest)"
proof -
  obtain d ds where d: "dec_digits (unat x) = d # ds" "is_digit d" by (rule dec_digits_Cons)
  then have "strto_sign (dropWhile is_space (fmt_u64 x @ rest)) = (False, fmt_u64 x @ rest)"
    using digit_not_space [OF d(2)] by simp
  moreover have "int (unat x) \<le> 2 ^ 64 - 1" using unsigned_less [of x, where 'a = int] by simp
  ultimately show ?thesis
    using dec_digits_split [OF assms, of "unat x"] dec_digits_value [of "unat x", where 'a = int]
    by (simp only: strtoull_def Let_def prod.case) simp
qed

lemma hexd_char: "n < 16 \<Longrightarrow> \<not> is_space (hexd ! n) \<and> hexd ! n \<notin> {CHR ''-'', CHR ''+'', CHR ''x'', CHR ''X'', QUOT, NEWLINE, CHR 0x00}"
proof -
  assume "n < 16"
  then have "n \<in> set [0..<16]" by simp
  then show ?thesis by (simp add: upt_rec hexd_def) (elim disjE; simp add: is_space_def QUOT_def NEWLINE_def)
qed

lemma hex_chars: "c \<in> set (lin_sha256_hex d) \<Longrightarrow> \<not> is_space c \<and> c \<notin> {CHR ''-'', CHR ''+'', CHR ''x'', CHR ''X'', QUOT, NEWLINE, CHR 0x00}"
  using hexd_char nibbles by (auto simp: lin_sha256_hex_def low_nibble)

lemma scan_x2_hex:
  assumes "a < 16" "b < 16"
  shows "scan_x2 (hexd ! a # hexd ! b # s) = Some (word_of_int (16 * int a + int b))"
  using hexd_char [OF assms(1)] hexd_char [OF assms(2)] hexval_hexd [OF assms(1)] hexval_hexd [OF assms(2)]
  by (auto simp: scan_x2_def)

lemma digest_of_hex: "digest_of (length d) (lin_sha256_hex d @ s) = Some d"
proof (induction d)
  case (Cons b d)
  have "word_of_int (16 * int (unat (drop_bit 4 b)) + int (unat (b AND 0x0f))) = b"
  proof -
    have "16 * int (unat (drop_bit 4 b)) + int (unat (b AND 0x0f)) = uint b"
      using div_mult_mod_eq [of "uint b" 16] by (simp add: low_nibble take_bit_eq_mod drop_bit_eq_div uint_div_distrib uint_mod_distrib)
    then show ?thesis by simp
  qed
  with Cons scan_x2_hex [of "unat (drop_bit 4 b)" "unat (b AND 0x0f)"] nibbles [of b] show ?case
    by (simp add: lin_sha256_hex_def low_nibble)
qed simp

lemma scan_set_quoted:
  assumes "QUOT \<notin> set x" "x \<noteq> []" "length x \<le> n"
  shows "scan_set n (x @ QUOT # s) = Some x"
proof -
  have "takeWhile (\<lambda>c. c \<noteq> QUOT) (take n (x @ QUOT # s)) = x"
  proof (cases "length x = n")
    case True
    with assms(1) show ?thesis by (auto simp: takeWhile_eq_all_conv)
  next
    case False
    then obtain k where "n - length x = Suc k" using assms(3) by (cases "n - length x") auto
    then have "take n (x @ QUOT # s) = x @ QUOT # take k s" using assms(3) by simp
    moreover have "\<forall>c \<in> set x. c \<noteq> QUOT" using assms(1) by auto
    ultimately show ?thesis by simp
  qed
  with assms(2) show ?thesis by (simp add: scan_set_def)
qed

section \<open>Texts as segments between quotes\<close>

fun joinq :: "string list \<Rightarrow> string" where
  "joinq [] = []"
| "joinq [x] = x"
| "joinq (x # y # r) = x @ QUOT # joinq (y # r)"

lemma strstr_skip: "QUOT \<notin> set l \<Longrightarrow> strstr (QUOT # n) (l @ s) = strstr (QUOT # n) s"
  by (induction l) auto

lemma strstr_skip_all: "QUOT \<notin> set l \<Longrightarrow> strstr (QUOT # n) l = None"
  using strstr_skip [of l n "[]"] by simp

lemma take_segment:
  assumes "QUOT \<notin> set x" "QUOT \<notin> set k"
  shows "take (length (k @ QUOT # n)) (x @ QUOT # s) = k @ QUOT # n \<longleftrightarrow> x = k \<and> take (length n) s = n"
proof
  assume t: "take (length (k @ QUOT # n)) (x @ QUOT # s) = k @ QUOT # n"
  let ?r = "drop (length (k @ QUOT # n)) (x @ QUOT # s)"
  have e: "x @ QUOT # s = (k @ QUOT # n) @ ?r" using t append_take_drop_id by metis
  then have "takeWhile (\<lambda>c. c \<noteq> QUOT) (x @ QUOT # s) = takeWhile (\<lambda>c. c \<noteq> QUOT) (k @ QUOT # n @ ?r)" by simp
  moreover have "\<forall>c \<in> set x. c \<noteq> QUOT" "\<forall>c \<in> set k. c \<noteq> QUOT" using assms by auto
  ultimately have "x = k" by simp
  with t show "x = k \<and> take (length n) s = n" by simp
qed simp

text \<open>The search on segments: the first one that is \<open>k\<close> and is followed by \<open>n\<close> behind its quote.\<close>

fun seg_at :: "string \<Rightarrow> string \<Rightarrow> string list \<Rightarrow> string option" where
  "seg_at k n (y # z # r) =
     (if y = k \<and> take (length n) (joinq (z # r)) = n then Some (QUOT # joinq (y # z # r)) else seg_at k n (z # r))"
| "seg_at k n _ = None"

definition quote_free :: "string \<Rightarrow> bool" where
  "quote_free s = (QUOT \<notin> set s)"

lemma no_segment:
  assumes "quote_free y"
  shows "take (length (k @ QUOT # n)) y \<noteq> k @ QUOT # n"
proof -
  have "QUOT \<notin> set (take (length (k @ QUOT # n)) y)" using assms in_set_takeD unfolding quote_free_def by metis
  then show ?thesis by (metis in_set_conv_decomp)
qed

lemma strstr_segments:
  assumes "quote_free x" "list_all quote_free segs" "quote_free k"
  shows "strstr (QUOT # k @ QUOT # n) (joinq (x # segs)) = seg_at k n segs"
  using assms(1,2)
proof (induction segs arbitrary: x)
  case Nil
  then show ?case using strstr_skip_all [of x "k @ QUOT # n"] by (simp add: quote_free_def)
next
  case (Cons y segs)
  have s: "strstr (QUOT # k @ QUOT # n) (joinq (x # y # segs)) = strstr (QUOT # k @ QUOT # n) (QUOT # joinq (y # segs))"
    using strstr_skip [of x "k @ QUOT # n"] Cons.prems by (simp add: quote_free_def)
  have IH: "strstr (QUOT # k @ QUOT # n) (joinq (y # segs)) = seg_at k n segs" using Cons by simp
  show ?case
  proof (cases segs)
    case Nil
    then show ?thesis using s IH no_segment [of y k n] Cons.prems by simp
  next
    case (Cons z r)
    then show ?thesis using s IH take_segment [of y k n "joinq (z # r)"] Cons.prems assms(3) by (simp add: quote_free_def)
  qed
qed

lemma read_lines_line: "NEWLINE \<notin> set l \<Longrightarrow> read_lines v acc (l @ NEWLINE # s) = read_lines (read_line v (acc @ l)) [] s"
  by (induction l arbitrary: acc) auto

section \<open>The two forms of a receipt\<close>

definition plain :: "string \<Rightarrow> bool" where
  "plain s = (QUOT \<notin> set s \<and> NEWLINE \<notin> set s \<and> CHR 0x00 \<notin> set s)"

lemma plain_append [simp]: "plain (s @ t) \<longleftrightarrow> plain s \<and> plain t" by (auto simp: plain_def)
lemma plain_Nil [simp]: "plain []" by (simp add: plain_def)
lemma plain_Cons [simp]: "plain (c # s) \<longleftrightarrow> c \<noteq> QUOT \<and> c \<noteq> NEWLINE \<and> c \<noteq> CHR 0x00 \<and> plain s" by (auto simp: plain_def)

lemma plain_hex [simp]: "plain (lin_sha256_hex d)" using hex_chars by (auto simp: plain_def)

lemma plain_digits [simp]: "plain (dec_digits n)"
proof -
  have "\<not> is_digit c" if "c \<in> {QUOT, NEWLINE, CHR 0x00}" for c
    using that by (auto simp: is_digit_def less_eq_char_def QUOT_def NEWLINE_def)
  then show ?thesis using is_digit_dec_digits [of _ n] by (auto simp: plain_def)
qed

lemma plain_i64 [simp]: "plain (fmt_i64 v)" by (simp add: fmt_i64_def QUOT_def NEWLINE_def)

lemma plain_arch [simp]: "plain (host_arch E)"
  by (auto simp: host_arch_def Let_def QUOT_def NEWLINE_def split: option.split)

lemma host_arch_not_schema: "host_arch E \<noteq> ''schema''"
  by (auto simp: host_arch_def Let_def split: option.split)

lemma rc_root_length: "length (rc_root r) = 64" by (simp add: rc_root_def hex_length)

lemma plain_root [simp]: "plain (rc_root r)" by (simp add: rc_root_def)

definition rulel_segments :: "CliEnv \<Rightarrow> string \<Rightarrow> RcFields \<Rightarrow> string list" where
  "rulel_segments E device r =
    [''@LIN:RECEIPT:1.0.0'' @ [NEWLINE] @
     ''~R{.a=artifact .i=input .o=output .s=steps .p=sp .d=device .h=host .m=merkle .v=level}'' @ [NEWLINE] @ ''.status='',
     ''INTEGRITY_RECEIPT_LOCAL'', [NEWLINE] @ ''.level=0'' @ [NEWLINE] @ ''.a='',
     ''sha256:'' @ lin_sha256_hex (rf_digest r),
     [NEWLINE] @ ''.i='' @ fmt_i64 (rf_input r) @ [NEWLINE] @ ''.o='' @ fmt_i64 (rf_output r) @ [NEWLINE] @
       ''.s='' @ fmt_u64 (rf_steps r) @ [NEWLINE] @ ''.p='' @ fmt_u64 (rf_sp r) @ [NEWLINE] @ ''.d='',
     device, [NEWLINE] @ ''.h='', host_arch E, [NEWLINE] @ ''.m='', ''sha256:'' @ rc_root r, [NEWLINE]]"

lemma rulel_joinq: "rc_rulel E device r = joinq (rulel_segments E device r)"
  by (simp add: rc_rulel_def rulel_segments_def quoted_def)

lemma plain_quote_free [simp]: "plain s \<Longrightarrow> quote_free s" by (simp add: plain_def quote_free_def)

lemma quote_free_simps [simp]:
  "quote_free []" "quote_free (c # s) \<longleftrightarrow> c \<noteq> QUOT \<and> quote_free s" "quote_free (s @ t) \<longleftrightarrow> quote_free s \<and> quote_free t"
  by (auto simp: quote_free_def)

lemma rulel_quote_free: "plain device \<Longrightarrow> list_all quote_free (rulel_segments E device r)"
  by (simp add: rulel_segments_def) (simp add: QUOT_def NEWLINE_def)

lemma rulel_no_schema:
  assumes "plain device" "device \<noteq> ''schema''"
  shows "strstr (quoted ''schema'') (rc_rulel E device r) = None"
proof -
  have k: "quoted ''schema'' = QUOT # ''schema'' @ QUOT # []" by (simp add: quoted_def)
  have q: "quote_free ''schema''" by simp (simp add: QUOT_def)
  let ?s = "rulel_segments E device r"
  have "strstr (quoted ''schema'') (joinq (hd ?s # tl ?s)) = seg_at ''schema'' [] (tl ?s)"
    unfolding k using rulel_quote_free [OF assms(1), of E r]
    by (intro strstr_segments q) (auto simp: rulel_segments_def)
  also have "\<dots> = None" using assms(2) host_arch_not_schema by (simp add: rulel_segments_def NEWLINE_def)
  finally show ?thesis by (simp add: rulel_joinq rulel_segments_def)
qed

text \<open>What verification reads from a printed receipt.\<close>

definition rd_expected :: "RcFields \<Rightarrow> RcRead" where
  "rd_expected r = \<lparr>rd_art = lin_sha256_hex (rf_digest r), rd_root = ''sha256:'' @ rc_root r, rd_input = rf_input r,
     rd_output = rf_output r, rd_steps = rf_steps r, rd_sp = rf_sp r\<rparr>"

lemma read_lines_concat:
  "list_all (\<lambda>l. NEWLINE \<notin> set l) ls \<Longrightarrow> read_lines v [] (concat (map (\<lambda>l. l @ [NEWLINE]) ls)) = foldl read_line v ls"
proof (induction ls arbitrary: v)
  case Nil
  then show ?case by (simp add: read_line_def)
next
  case (Cons l ls)
  then show ?case using read_lines_line [of l v "[]"] by simp
qed

definition rulel_lines :: "CliEnv \<Rightarrow> string \<Rightarrow> RcFields \<Rightarrow> string list" where
  "rulel_lines E device r =
    [''@LIN:RECEIPT:1.0.0'', ''~R{.a=artifact .i=input .o=output .s=steps .p=sp .d=device .h=host .m=merkle .v=level}'',
     ''.status='' @ quoted ''INTEGRITY_RECEIPT_LOCAL'', ''.level=0'', ''.a='' @ quoted (''sha256:'' @ lin_sha256_hex (rf_digest r)),
     ''.i='' @ fmt_i64 (rf_input r), ''.o='' @ fmt_i64 (rf_output r), ''.s='' @ fmt_u64 (rf_steps r), ''.p='' @ fmt_u64 (rf_sp r),
     ''.d='' @ quoted device, ''.h='' @ quoted (host_arch E), ''.m='' @ quoted (''sha256:'' @ rc_root r)]"

lemma plain_sets:
  assumes "plain s"
  shows "QUOT \<notin> set s" "NEWLINE \<notin> set s" "CHR 0x00 \<notin> set s"
  using assms by (simp_all add: plain_def)

lemma quot_newline: "QUOT \<noteq> NEWLINE" "NEWLINE \<noteq> QUOT" "QUOT \<noteq> CHR 0x00" "NEWLINE \<noteq> CHR 0x00"
  by (simp_all add: QUOT_def NEWLINE_def)

lemma scan_lld_fmt: "scan_lld [] (fmt_i64 v) = Some v"
  using strtoll_fmt [of "[]" v] by (simp add: scan_lld_def)

lemma scan_llu_fmt: "scan_llu [] (fmt_u64 v) = Some v"
  using strtoull_fmt [of "[]" v] by (simp add: scan_llu_def)

lemma scan_sha:
  assumes "length d = 32"
  shows "scan_set 127 (''sha256:'' @ lin_sha256_hex d @ QUOT # s) = Some (''sha256:'' @ lin_sha256_hex d)"
  using assms scan_set_quoted [of "''sha256:'' @ lin_sha256_hex d" 127 s] plain_sets(1) [OF plain_hex [of d]]
  by (simp add: hex_length) (simp add: QUOT_def)

lemma read_line_fields:
  "read_line v (''.i='' @ fmt_i64 x) = v\<lparr>rd_input := x\<rparr>"
  "read_line v (''.o='' @ fmt_i64 x) = v\<lparr>rd_output := x\<rparr>"
  "read_line v (''.s='' @ fmt_u64 x) = v\<lparr>rd_steps := x\<rparr>"
  "read_line v (''.p='' @ fmt_u64 x) = v\<lparr>rd_sp := x\<rparr>"
  by (simp_all add: read_line_def is_blank_def scan_lld_fmt scan_llu_fmt opt_default_def)

lemma read_line_hex:
  assumes "length d = 32"
  shows "read_line v (''.a='' @ quoted (''sha256:'' @ lin_sha256_hex d)) = v\<lparr>rd_art := lin_sha256_hex d\<rparr>"
    "read_line v (''.m='' @ quoted (''sha256:'' @ lin_sha256_hex d)) = v\<lparr>rd_root := ''sha256:'' @ lin_sha256_hex d\<rparr>"
  using scan_sha [OF assms, of "[]"] assms
  by (simp_all add: read_line_def is_blank_def quoted_def opt_default_def strip_sha_def hex_length)

lemma read_line_other:
  "read_line v (''.d='' @ x) = v" "read_line v (''.h='' @ x) = v" "read_line v (''.status='' @ x) = v"
  "read_line v ''@LIN:RECEIPT:1.0.0'' = v" "read_line v ''.level=0'' = v"
  "read_line v ''~R{.a=artifact .i=input .o=output .s=steps .p=sp .d=device .h=host .m=merkle .v=level}'' = v"
  by (simp_all add: read_line_def is_blank_def)

lemma read_rulel:
  assumes "plain device" "length (rf_digest r) = 32"
  shows "read_lines rd_empty [] (rc_rulel E device r) = rd_expected r"
proof -
  have "rc_rulel E device r = concat (map (\<lambda>l. l @ [NEWLINE]) (rulel_lines E device r))"
    by (simp add: rc_rulel_def rulel_lines_def)
  moreover have "list_all (\<lambda>l. NEWLINE \<notin> set l) (rulel_lines E device r)"
    using plain_sets(2) [OF assms(1)] plain_sets(2) [OF plain_hex] plain_sets(2) [OF plain_i64] plain_sets(2) [OF plain_digits]
      plain_sets(2) [OF plain_root] plain_sets(2) [OF plain_arch]
    by (simp add: rulel_lines_def quoted_def quot_newline) (simp add: NEWLINE_def)
  moreover have "foldl read_line rd_empty (rulel_lines E device r) = rd_expected r"
    unfolding rulel_lines_def foldl_Cons foldl_Nil rc_root_def read_line_other read_line_fields
      read_line_hex [OF assms(2)] read_line_hex [OF length_lin_sha256]
    by (simp add: rd_empty_def rd_expected_def rc_root_def)
  ultimately show ?thesis by (simp add: read_lines_concat)
qed

definition json_segments :: "CliEnv \<Rightarrow> string \<Rightarrow> RcFields \<Rightarrow> string list" where
  "json_segments E device r =
    (let col = '': ''; sep = '','' @ [NEWLINE] @ ''  '' in
    [''{'' @ [NEWLINE] @ ''  '', ''schema'', col, ''LIN_COMPUTE_RECEIPT_1.0'', sep, ''status'', col, ''INTEGRITY_RECEIPT_LOCAL'',
     sep, ''verification_level'', '': 0'' @ sep, ''artifact'', col, ''sha256:'' @ lin_sha256_hex (rf_digest r),
     sep, ''input'', col, fmt_i64 (rf_input r), sep, ''output'', col, fmt_i64 (rf_output r),
     sep, ''steps'', col @ fmt_u64 (rf_steps r) @ sep, ''sp_at_ret'', col @ fmt_u64 (rf_sp r) @ sep,
     ''target_device'', col, device, sep, ''host_arch'', col, host_arch E, sep, ''merkle_root'', col, ''sha256:'' @ rc_root r,
     [NEWLINE] @ ''}'' @ [NEWLINE]])"

lemma json_joinq: "rc_json E device r = joinq (json_segments E device r)"
  by (simp add: rc_json_def json_segments_def Let_def quoted_def rc_key_def)

lemma json_quote_free: "plain device \<Longrightarrow> list_all quote_free (json_segments E device r)"
  by (simp add: json_segments_def Let_def) (simp add: QUOT_def NEWLINE_def)

lemma json_key_at:
  assumes "plain device" "quote_free k"
  shows "strstr (rc_key k) (rc_json E device r) = seg_at k '':'' (tl (json_segments E device r))"
proof -
  let ?s = "json_segments E device r"
  have "strstr (QUOT # k @ QUOT # '':'') (joinq (hd ?s # tl ?s)) = seg_at k '':'' (tl ?s)"
    using json_quote_free [OF assms(1), of E r] by (intro strstr_segments assms(2)) (auto simp: json_segments_def Let_def)
  moreover have "hd ?s # tl ?s = ?s" by (simp add: json_segments_def Let_def)
  ultimately show ?thesis by (simp add: rc_key_def quoted_def json_joinq)
qed

lemma json_found:
  assumes "plain device"
  shows "\<exists>s. strstr (rc_key ''artifact'') (rc_json E device r) =
      Some (rc_key ''artifact'' @ '' '' @ [QUOT] @ ''sha256:'' @ lin_sha256_hex (rf_digest r) @ QUOT # s)"
    "\<exists>s. strstr (rc_key ''input'') (rc_json E device r) = Some (rc_key ''input'' @ '' '' @ [QUOT] @ fmt_i64 (rf_input r) @ QUOT # s)"
    "\<exists>s. strstr (rc_key ''output'') (rc_json E device r) = Some (rc_key ''output'' @ '' '' @ [QUOT] @ fmt_i64 (rf_output r) @ QUOT # s)"
    "\<exists>s. strstr (rc_key ''steps'') (rc_json E device r) = Some (rc_key ''steps'' @ '' '' @ fmt_u64 (rf_steps r) @ CHR '','' # s)"
    "\<exists>s. strstr (rc_key ''sp_at_ret'') (rc_json E device r) = Some (rc_key ''sp_at_ret'' @ '' '' @ fmt_u64 (rf_sp r) @ CHR '','' # s)"
    "\<exists>s. strstr (rc_key ''merkle_root'') (rc_json E device r) =
      Some (rc_key ''merkle_root'' @ '' '' @ [QUOT] @ ''sha256:'' @ rc_root r @ QUOT # s)"
  by (subst json_key_at [OF assms]; simp add: json_segments_def Let_def NEWLINE_def rc_key_def quoted_def; simp add: QUOT_def)+

lemma scan_lit_literal: "list_all (\<lambda>c. \<not> is_space c) l \<Longrightarrow> scan_lit (l @ f) (l @ s) = scan_lit f s"
  by (induction l) auto

lemma quot_not_space: "\<not> is_space QUOT" by (simp add: is_space_def QUOT_def)

lemma scan_key:
  assumes "list_all (\<lambda>c. \<not> is_space c) k"
  shows "scan_lit (rc_key k @ '' '' @ f) (rc_key k @ '' '' @ t) = scan_lit f (dropWhile is_space t)"
proof -
  have "list_all (\<lambda>c. \<not> is_space c) (rc_key k)" using assms quot_not_space by (simp add: rc_key_def quoted_def is_space_def)
  from scan_lit_literal [OF this, of "'' '' @ f" "'' '' @ t"] show ?thesis by (simp add: is_space_def)
qed

lemma not_digit_quot: "\<not> is_digit QUOT" "\<not> is_digit (CHR '','')"
  by (simp_all add: is_digit_def less_eq_char_def QUOT_def)

lemma scan_key_number:
  assumes "list_all (\<lambda>c. \<not> is_space c) k"
  shows "scan_lld (rc_key k @ '' '' @ [QUOT]) (rc_key k @ '' '' @ [QUOT] @ fmt_i64 v @ QUOT # s) = Some v"
    "scan_llu (rc_key k @ '' '') (rc_key k @ '' '' @ fmt_u64 w @ CHR '','' # s) = Some w"
proof -
  show "scan_lld (rc_key k @ '' '' @ [QUOT]) (rc_key k @ '' '' @ [QUOT] @ fmt_i64 v @ QUOT # s) = Some v"
    unfolding scan_lld_def scan_key [OF assms] using strtoll_fmt [of "QUOT # s" v] quot_not_space not_digit_quot by simp
  obtain d ds where d: "dec_digits (unat w) = d # ds" "is_digit d" by (rule dec_digits_Cons)
  then have "dropWhile is_space (fmt_u64 w @ CHR '','' # s) = fmt_u64 w @ CHR '','' # s" using digit_not_space [OF d(2)] by simp
  then show "scan_llu (rc_key k @ '' '') (rc_key k @ '' '' @ fmt_u64 w @ CHR '','' # s) = Some w"
    unfolding scan_llu_def using scan_key [OF assms, of "[]" "fmt_u64 w @ CHR '','' # s"] strtoull_fmt [of "CHR '','' # s" w] not_digit_quot
    by simp
qed

lemma scan_key_hex:
  assumes "list_all (\<lambda>c. \<not> is_space c) k" "length d = 32"
  shows "scan_text 64 (rc_key k @ '' '' @ [QUOT] @ ''sha256:'') (rc_key k @ '' '' @ [QUOT] @ ''sha256:'' @ lin_sha256_hex d @ QUOT # s)
      = Some (lin_sha256_hex d)"
    "scan_text 127 (rc_key k @ '' '' @ [QUOT]) (rc_key k @ '' '' @ [QUOT] @ ''sha256:'' @ lin_sha256_hex d @ QUOT # s)
      = Some (''sha256:'' @ lin_sha256_hex d)"
proof -
  have "lin_sha256_hex d \<noteq> []" "length (lin_sha256_hex d) = 64" using hex_length [of d] assms(2) by auto
  then have "scan_set 64 (lin_sha256_hex d @ QUOT # s) = Some (lin_sha256_hex d)"
    by (intro scan_set_quoted) (simp_all add: plain_sets(1))
  moreover have "list_all (\<lambda>c. \<not> is_space c) ''sha256:''" by (simp add: is_space_def)
  from scan_lit_literal [OF this, of "[]"] have "scan_lit ''sha256:'' (''sha256:'' @ t) = Some t" for t by simp
  ultimately show "scan_text 64 (rc_key k @ '' '' @ [QUOT] @ ''sha256:'') (rc_key k @ '' '' @ [QUOT] @ ''sha256:'' @ lin_sha256_hex d @ QUOT # s)
      = Some (lin_sha256_hex d)"
    unfolding scan_text_def scan_key [OF assms(1)] using quot_not_space by simp
  show "scan_text 127 (rc_key k @ '' '' @ [QUOT]) (rc_key k @ '' '' @ [QUOT] @ ''sha256:'' @ lin_sha256_hex d @ QUOT # s)
      = Some (''sha256:'' @ lin_sha256_hex d)"
    unfolding scan_text_def scan_key [OF assms(1)] using quot_not_space scan_sha [OF assms(2), of s] by simp
qed

lemma keys_no_space:
  "list_all (\<lambda>c. \<not> is_space c) ''artifact''" "list_all (\<lambda>c. \<not> is_space c) ''input''" "list_all (\<lambda>c. \<not> is_space c) ''output''"
  "list_all (\<lambda>c. \<not> is_space c) ''steps''" "list_all (\<lambda>c. \<not> is_space c) ''sp_at_ret''" "list_all (\<lambda>c. \<not> is_space c) ''merkle_root''"
  by (simp_all add: is_space_def)

lemma read_json_text:
  assumes "plain device" "length (rf_digest r) = 32"
  shows "read_json (rc_json E device r) = rd_expected r"
proof -
  note f = json_found [OF assms(1), of E r]
  note n = scan_key_number [OF keys_no_space(2)] scan_key_number [OF keys_no_space(3)] scan_key_number [OF keys_no_space(4)]
    scan_key_number [OF keys_no_space(5)]
  have 1: "json_number ''input'' (rc_json E device r) = rf_input r" "json_number ''output'' (rc_json E device r) = rf_output r"
    using f(2,3) n by (auto simp: json_number_def json_field_def or_else_def opt_default_def)
  have 2: "json_field ''steps'' 0 (scan_llu (rc_key ''steps'' @ '' '')) (rc_json E device r) = rf_steps r"
    "json_field ''sp_at_ret'' 0 (scan_llu (rc_key ''sp_at_ret'' @ '' '')) (rc_json E device r) = rf_sp r"
    using f(4,5) n by (auto simp: json_field_def opt_default_def)
  have 3: "json_field ''merkle_root'' [] (scan_text 127 (rc_key ''merkle_root'' @ '' '' @ [QUOT])) (rc_json E device r) = ''sha256:'' @ rc_root r"
    using f(6) scan_key_hex(2) [OF keys_no_space(6) length_lin_sha256] by (auto simp: json_field_def opt_default_def rc_root_def)
  have 4: "json_field ''artifact'' []
        (\<lambda>p. or_else (scan_text 64 (rc_key ''artifact'' @ '' '' @ [QUOT] @ ''sha256:'') p)
                     (scan_text 64 (rc_key ''artifact'' @ '' '' @ [QUOT]) p)) (rc_json E device r) = lin_sha256_hex (rf_digest r)"
    using f(1) scan_key_hex(1) [OF keys_no_space(1) assms(2)] by (auto simp: json_field_def or_else_def opt_default_def)
  show ?thesis unfolding read_json_def 1 2 3 4 rd_expected_def ..
qed

lemma text_nul_free:
  assumes "plain device"
  shows "cstr (rc_text E json device r) = rc_text E json device r"
proof -
  have "CHR 0x00 \<notin> set (rc_text E json device r)"
    using plain_sets(3) [OF assms] plain_sets(3) [OF plain_hex] plain_sets(3) [OF plain_i64] plain_sets(3) [OF plain_digits]
      plain_sets(3) [OF plain_root] plain_sets(3) [OF plain_arch] quot_newline
    by (simp add: rc_text_def rc_json_def rc_rulel_def rc_key_def quoted_def)
  then show ?thesis unfolding cstr_def by (auto simp: takeWhile_eq_all_conv)
qed

lemma read_receipt_text:
  assumes "plain device" "json \<or> device \<noteq> ''schema''" "length (rf_digest r) = 32"
  shows "read_receipt (rc_text E json device r) = rd_expected r"
proof (cases json)
  case True
  have "hd (rc_json E device r) = CHR ''{''" "rc_json E device r \<noteq> []" by (simp_all add: rc_json_def)
  with True show ?thesis using read_json_text [OF assms(1,3)] text_nul_free [OF assms(1), of E True r]
    by (simp add: read_receipt_def rc_text_def)
next
  case False
  have "hd (rc_rulel E device r) \<noteq> CHR ''{''" by (simp add: rc_rulel_def)
  with False show ?thesis
    using assms read_rulel [OF assms(1,3)] rulel_no_schema [OF assms(1)] text_nul_free [OF assms(1), of E False r]
    by (simp add: read_receipt_def rc_text_def)
qed

section \<open>The value of a receipt\<close>

lemma compute_digest: "rc_compute E source input = Some (Inr r) \<Longrightarrow> length (rf_digest r) = 32"
  by (auto simp: rc_compute_def Let_def split: option.splits sum.splits prod.splits vm_stop.splits)

lemma root_of_fields:
  assumes "length (rf_digest r) = 32"
  shows "rc_fields (rd_expected r) = Some r"
  using digest_of_hex [of "rf_digest r" "[]"] assms by (simp add: rc_fields_def rd_expected_def)

text \<open>The code depends on the names of the variables only, and the machine not on the name of a function.\<close>

lemma env_index_names: "map bind_name env = map bind_name env' \<Longrightarrow> env_index x env = env_index x env'"
proof (induction env arbitrary: env')
  case (Cons b env)
  then obtain b' bs where "env' = b' # bs" "bind_name b' = bind_name b" "map bind_name env = map bind_name bs" by (cases env') auto
  with Cons.IH show ?case by simp
qed simp

lemma gen_names: "map bind_name env = map bind_name env' \<Longrightarrow> gen t env = gen t env'"
  by (induction t rule: nodes.induct) (auto simp: env_index_names [of env env'])

lemma lower_names: "repr a root t \<Longrightarrow> lower_arena a root (x_env v) = lower_arena a root (x_env w)"
proof -
  assume "repr a root t"
  moreover have "gen t (x_env v) = gen t (x_env w)" by (rule gen_names) (simp add: x_env_def)
  ultimately show ?thesis by (simp add: lower_arena_repr)
qed

interpretation renamed: module_view "\<lambda>f. f\<lparr>fn_name := ''entry''\<rparr>"
  by unfold_locales simp_all

lemma entry_exec: "vm_exec m (Some [entry_fn c]) fi args dep steps = vm_exec m (Some [expr_fn (x_env v) c]) fi args dep steps"
  using renamed.exec_view [of m "[expr_fn (x_env v) c]"] by (simp add: entry_fn_def expr_fn_def x_env_def)

lemma x_env_sel [simp]: "map bind_val (x_env v) = [v]" "length (x_env v) = 1"
  by (simp_all add: x_env_def)

text \<open>What \<open>create\<close> computes for an expression that parses.\<close>

lemma rc_compute_parsed:
  assumes "parse_expression (parse_fuel (clean_expr source)) (parser_init (clean_expr source)) 0 = Some (Inr (root, p))" "env_frames E"
  obtains (ok) v n where "ast_arena_eval (arena p) root (x_env input) = Some (Inr v)"
      "rc_compute E source input = Some (Inr \<lparr>rf_digest = lin_sha256 (bytes_of_string source), rf_input = input, rf_output = v,
         rf_steps = n, rf_sp = 1\<rparr>)"
    | (err) e out where "ast_arena_eval (arena p) root (x_env input) = Some (Inl e)" "rc_compute E source input = Some (Inl out)"
proof -
  obtain ts t where t: "repr (arena p) root t" "nodes t \<le> LIN_ARENA_CAP"
    using parse_expression_tree [OF assms(1)] by (auto simp: arena_ok_def)
  have "length (x_env input) \<le> LIN_VM_MAX_LOCALS" by (simp add: lin_limits)
  note runs = tree_code_runs [OF t this]
  note c = rc_compute_def Let_def assms lower_names [OF t(1), of 0 input] entry_exec [where v = input]
  from runs show thesis
  proof (elim disjE exE conjE)
    fix v c assume "ast_arena_eval (arena p) root (x_env input) = Some (Inr v)" "lower_arena (arena p) root (x_env input) = Some (Inr c)"
      "vm_exec True (Some [expr_fn (x_env input) c]) 0 (map bind_val (x_env input)) 0 (Some 0)
        = Some (Inr (\<lparr>res_val = v, sp_at_ret = 1\<rparr>, None, of_nat (length c)))"
    then show thesis by (intro ok [of v "of_nat (length c)"]) (simp_all add: c)
  qed (auto simp: c intro: err)
qed

definition is_x :: "nat \<times> Parser \<Rightarrow> bool" where
  "is_x rp = (let (root, p) = rp in
     root < len (arena p) \<and> tags (arena p) ! root = TAG_VAR_REF \<and> names (arena p) ! root = ''x'')"

lemma computes:
  assumes "map_option (map_sum id is_x)
     (parse_expression (parse_fuel (clean_expr source)) (parser_init (clean_expr source)) 0) = Some (Inr True)" "env_frames E"
  shows "\<exists>r. rc_compute E source input = Some (Inr r)"
proof -
  obtain rp where rp: "parse_expression (parse_fuel (clean_expr source)) (parser_init (clean_expr source)) 0 = Some (Inr rp)" "is_x rp"
    using assms(1)
    by (cases "parse_expression (parse_fuel (clean_expr source)) (parser_init (clean_expr source)) 0";
      cases "the (parse_expression (parse_fuel (clean_expr source)) (parser_init (clean_expr source)) 0)") auto
  obtain root p where p: "rp = (root, p)" by (cases rp)
  have "ast_arena_eval (arena p) root (x_env input) = Some (Inr input)"
    using rp(2) unfolding p by (subst ast_arena_eval.simps) (simp add: is_x_def x_env_def lin_str_eq_cstr_def)
  with rp(1) [unfolded p] assms(2) show ?thesis by (cases rule: rc_compute_parsed [where input = input and E = E]) auto
qed

lemma x_computes: "\<exists>r. rc_compute ident_env ''x'' 9 = Some (Inr r)"
  by (rule computes) (code_simp, simp add: ident_env_def)

lemma prefix_computes: "\<exists>r. rc_compute ident_env ''return x 1;'' 9 = Some (Inr r)"
  by (rule computes) (code_simp, simp add: ident_env_def)

lemma digest_of_length: "digest_of n s = Some d \<Longrightarrow> length d = n"
  by (induction n s arbitrary: d rule: digest_of.induct) (auto split: option.splits)

lemma leaf_inject:
  assumes "rc_leaf r = rc_leaf r'" "length (rf_digest r) = length (rf_digest r')"
  shows "r = r'"
proof -
  have w: "v = w" if "le_bytes 8 v = le_bytes 8 w" for v w :: u64
    using that le_value_bytes [of 8 v "[]"] le_value_bytes [of 8 w "[]"] by simp
  from assms have "rf_digest r = rf_digest r'" "le_bytes 8 (rf_output r) = le_bytes 8 (rf_output r')"
    "le_bytes 8 (rf_steps r) = le_bytes 8 (rf_steps r')" "le_bytes 8 (rf_sp r) = le_bytes 8 (rf_sp r')"
    "le_bytes 8 (rf_input r) = le_bytes 8 (rf_input r')"
    unfolding rc_leaf_def by (simp_all only: append_eq_append_conv length_le_bytes simp_thms)
  from this(1) w [OF this(2)] w [OF this(3)] w [OF this(4)] w [OF this(5)] show ?thesis
    by (intro RcFields.equality) simp_all
qed

lemma hex_inject: "lin_sha256_hex d = lin_sha256_hex d' \<Longrightarrow> d = d'"
  by (metis hex_bytes_hex option.inject)

section \<open>Properties\<close>

text \<open>
  C13: every receipt that is created verifies. If \<open>receipt create\<close> computes a result, then the
  text it prints, in either form, stored in a file, passes \<open>receipt verify\<close>; for every source,
  input and device name without quotes, newlines and NULs, where the line form needs a device
  other than \<open>schema\<close>, which makes the reader take the text for the other form.
\<close>
theorem receipt_create_verifies:
  assumes "o1 = rc_args args rc_defaults" "rc_compute E (opt_source o1) (opt_input o1) = Some (Inr r)"
    "plain (opt_device o1)" "opt_json o1 \<or> opt_device o1 \<noteq> ''schema''"
  shows "\<exists>text. cmd_receipt E (''create'' # args) = Some (prints text 0) \<and>
    (\<forall>E' path. env_read E' path = Some text \<longrightarrow>
       cmd_receipt E' [''verify'', ''--receipt'', path] = Some (prints (''PASS: Compute Receipt '' @ quoted path @
         '' cryptographically verified! Merkle root valid: sha256:'' @ rc_root r @ [NEWLINE]) 0))"
proof (intro exI conjI allI impI)
  let ?t = "rc_text E (opt_json o1) (opt_device o1) r"
  show "cmd_receipt E (''create'' # args) = Some (prints ?t 0)"
    using assms(1,2) by (simp add: cmd_receipt_def receipt_create_def Let_def)
  fix E' :: CliEnv and path assume f: "env_read E' path = Some ?t"
  note d = compute_digest [OF assms(2)]
  have "verify_text path ?t = prints (''PASS: Compute Receipt '' @ quoted path @
      '' cryptographically verified! Merkle root valid: sha256:'' @ rc_root r @ [NEWLINE]) 0"
    unfolding verify_text_def read_receipt_text [OF assms(3,4) d] Let_def root_of_fields [OF d]
    by (simp add: rd_expected_def strip_sha_def)
  with f show "cmd_receipt E' [''verify'', ''--receipt'', path] = Some (prints (''PASS: Compute Receipt '' @ quoted path @
      '' cryptographically verified! Merkle root valid: sha256:'' @ rc_root r @ [NEWLINE]) 0)"
    by (simp add: cmd_receipt_def receipt_verify_def)
qed

theorem receipt_create_verifies_witness:
  "\<exists>text. cmd_receipt ident_env [''create'', ''--source'', ''x''] = Some (prints text 0) \<and>
     (\<exists>r. cmd_receipt (ident_env\<lparr>env_read := (\<lambda>_. Some text)\<rparr>) [''verify'', ''--receipt'', ''r'']
        = Some (prints (''PASS: Compute Receipt '' @ quoted ''r'' @
            '' cryptographically verified! Merkle root valid: sha256:'' @ rc_root r @ [NEWLINE]) 0))"
proof -
  let ?o = "rc_args [''--source'', ''x''] rc_defaults"
  obtain r where "rc_compute ident_env (opt_source ?o) (opt_input ?o) = Some (Inr r)"
    using x_computes by (auto simp: rc_defaults_def)
  from receipt_create_verifies [OF refl this] show ?thesis
    by (fastforce simp: rc_defaults_def QUOT_def NEWLINE_def)
qed

text \<open>
  C14: what a receipt certifies. The output of a receipt is the value, at the input for \<open>x\<close>, of an
  expression of the grammar whose tokens begin the token stream of the cleaned source; the rest
  of the tokens is not looked at. The artifact is the hash of the whole source.
\<close>
theorem receipt_certifies_prefix:
  assumes "rc_compute E source input = Some (Inr r)" "env_frames E"
  shows "\<exists>ts rest t. token_stream (clean_expr source) 0 = ts @ rest \<and> gexpr 0 ts t \<and>
    eval_expr t (x_env input) = Inr (rf_output r) \<and> rf_input r = input \<and> rf_sp r = 1 \<and>
    rf_digest r = lin_sha256 (bytes_of_string source)"
proof -
  let ?e = "clean_expr source"
  obtain root p where p: "parse_expression (parse_fuel ?e) (parser_init ?e) 0 = Some (Inr (root, p))"
    using assms(1) by (auto simp: rc_compute_def Let_def split: option.splits sum.splits)
  obtain ts t where t: "token_stream ?e 0 = ts @ stream p" "gexpr 0 ts t" "repr (arena p) root t"
    using parse_expression_tree [OF p] by blast
  from p assms(2) show ?thesis
  proof (cases rule: rc_compute_parsed [where input = input and E = E])
    case (ok v n)
    with assms(1) arena_eval_repr [OF t(3), of "x_env input"] t show ?thesis by (intro exI) auto
  next
    case (err e out)
    with assms(1) show ?thesis by simp
  qed
qed

theorem receipt_certifies_prefix_witness:
  "\<exists>r. rc_compute ident_env ''return x 1;'' 9 = Some (Inr r) \<and> parse_full (clean_expr ''return x 1;'') = Inl LIN_ERR_TRAILING_TOKENS \<and>
     rf_digest r = lin_sha256 (bytes_of_string ''return x 1;'')"
proof -
  obtain r where r: "rc_compute ident_env ''return x 1;'' 9 = Some (Inr r)" using prefix_computes by blast
  moreover have "parse_full (clean_expr ''return x 1;'') = Inl LIN_ERR_TRAILING_TOKENS" by code_simp
  ultimately show ?thesis using receipt_certifies_prefix [OF r] by (auto simp: ident_env_def)
qed

text \<open>
  A stored root binds the fields. Two texts that both pass verification and store the same root
  carry the same artifact, input, output, steps and depth, unless their leaves are a SHA-256
  collision.
\<close>
theorem passing_receipts_agree:
  assumes "rc_fields (read_receipt c) = Some r" "rc_fields (read_receipt c') = Some r'"
    "rc_root r = strip_sha (rd_root (read_receipt c))" "rc_root r' = strip_sha (rd_root (read_receipt c'))"
    "rd_root (read_receipt c) = rd_root (read_receipt c')"
  shows "r = r' \<or> rc_leaf r \<noteq> rc_leaf r' \<and> lin_sha256 (rc_leaf r) = lin_sha256 (rc_leaf r')"
proof -
  have "length (rf_digest r) = 32" "length (rf_digest r') = 32"
    using assms(1,2) digest_of_length by (auto simp: rc_fields_def)
  then have "rc_leaf r = rc_leaf r' \<Longrightarrow> r = r'" by (simp add: leaf_inject)
  moreover have "lin_sha256 (rc_leaf r) = lin_sha256 (rc_leaf r')"
    using assms(3-5) hex_inject unfolding rc_root_def by metis
  ultimately show ?thesis by blast
qed

end
