(* ===== verification/C0_Jit_Cli.thy ===== *)
theory C0_Jit_Cli
  imports C0_Jit_Run C0_Receipt
begin

text \<open>
  Running native code: \<open>c0_jit_exec\<close>, \<open>c0_jit_roundtrip\<close> and \<open>c0_jit_verify_module\<close> of
  \<open>transpile/c/tool/lin_c0_jit.c\<close>, the loader of \<open>lin_tcc_dyn.h\<close>, and the commands \<open>jit\<close>,
  \<open>roundtrip-jit\<close> and \<open>jit-verify\<close> of \<open>lin_c0.c\<close>.

  \<open>libtcc\<close> is not part of the repository. It is a record of functions: which libraries open and
  which symbols they have, whether a text compiles and links with a library path, and what a
  symbol of the compiled text computes (\<open>None\<close> when the call does not come back). What the
  round trip relies on is that the library compiles a valid C program to code that computes
  what the program means.
\<close>

section \<open>The library\<close>

record TccEnv =
  tcc_getenv :: "string \<Rightarrow> string option"
  tcc_access :: "string \<Rightarrow> bool"
  tcc_dlopen :: "string \<Rightarrow> bool"
  tcc_dlsym :: "string \<Rightarrow> string \<Rightarrow> bool"
  tcc_new :: bool
  tcc_compile_string :: "string \<Rightarrow> string \<Rightarrow> bool"
  tcc_relocate :: "string \<Rightarrow> string \<Rightarrow> bool"
  tcc_get_symbol :: "string \<Rightarrow> string \<Rightarrow> string \<Rightarrow> (i64 list \<Rightarrow> i64 option) option"
  tcc_compile_ms :: string
  tcc_exec_us :: string

definition tcc_candidates :: "TccEnv \<Rightarrow> string list" where
  "tcc_candidates T =
     (case tcc_getenv T ''LIN_TCC_LIB'' of None \<Rightarrow> [] | Some path \<Rightarrow> [path]) @
     [''/tmp/tinycc/libtcc.so'', ''./libtcc.so'', ''libtcc.so.1'', ''libtcc.so'',
      ''/usr/local/lib/libtcc.so'', ''/usr/lib/libtcc.so'']"

definition lin_tcc_dyn_load :: "TccEnv \<Rightarrow> string option" where
  "lin_tcc_dyn_load T =
     (case find (tcc_dlopen T) (tcc_candidates T) of
        None \<Rightarrow> None
      | Some lib \<Rightarrow>
          if list_all (tcc_dlsym T lib)
               [''tcc_new'', ''tcc_delete'', ''tcc_set_output_type'', ''tcc_compile_string'', ''tcc_relocate'', ''tcc_get_symbol'']
          then Some lib else None)"

definition c0_jit_is_available :: "TccEnv \<Rightarrow> bool" where
  "c0_jit_is_available T = (lin_tcc_dyn_load T \<noteq> None)"

definition tcc_lib_dir :: "TccEnv \<Rightarrow> string" where
  "tcc_lib_dir T =
     (case tcc_getenv T ''LIN_TCC_DIR'' of
        Some dir \<Rightarrow> dir
      | None \<Rightarrow> if tcc_access T ''/tmp/tinycc/libtcc1.a'' then ''/tmp/tinycc'' else ''/usr/local/lib/tcc'')"

section \<open>Compiling and running\<close>

text \<open>
  \<open>JitNull\<close> is the call of \<open>tcc_set_lib_path\<close> when the library does not have it, which the loader
  does not check; \<open>JitLost\<close> is native code that does not return.
\<close>

datatype JitOut = JitErr string | JitNull | JitLost | JitVal i64

definition c0_jit_exec :: "TccEnv \<Rightarrow> VmModule option \<Rightarrow> string option \<Rightarrow> i64 list \<Rightarrow> JitOut" where
  "c0_jit_exec T omd onm args =
     (case (omd, onm) of
        (Some md, Some nm) \<Rightarrow>
          (case lin_tcc_dyn_load T of
             None \<Rightarrow> JitErr ''LIBTCC_UNAVAILABLE''
           | Some lib \<Rightarrow>
               (case c0_jit_emit_c11 md of
                  None \<Rightarrow> JitErr ''C11_EMIT_FAILED''
                | Some text \<Rightarrow>
                    if \<not> tcc_new T then JitErr ''TCC_NEW_FAILED''
                    else if \<not> tcc_dlsym T lib ''tcc_set_lib_path'' then JitNull
                    else let dir = tcc_lib_dir T in
                    if \<not> tcc_compile_string T dir text then JitErr ''TCC_COMPILE_FAILED''
                    else if \<not> tcc_relocate T dir text then JitErr ''TCC_RELOCATE_FAILED''
                    else case tcc_get_symbol T dir text (''lin_fn_'' @ sanitize_fn_name nm 128) of
                        None \<Rightarrow> JitErr ''SYMBOL_NOT_FOUND''
                      | Some native \<Rightarrow>
                          (case native (arg_cells args) of None \<Rightarrow> JitLost | Some v \<Rightarrow> JitVal v)))
      | _ \<Rightarrow> JitErr ''NULL_MODULE_OR_FN'')"

text \<open>What \<open>c0_jit_roundtrip\<close> prints and whether it reports success; \<open>None\<close>: it does not come back.\<close>

datatype JitRt = JitPrint string bool | JitFault vm_array

definition jit_verdict :: "string \<Rightarrow> string \<Rightarrow> string" where
  "jit_verdict status rest = rulel ''LIN_JIT_ROUNDTRIP'' @ ''.verdict{ status='' @ quoted status @ rest @ '' }'' @ [NEWLINE]"

definition jit_consensus :: "TccEnv \<Rightarrow> string \<Rightarrow> i64 \<Rightarrow> u64 \<Rightarrow> string" where
  "jit_consensus T nm v steps = jit_verdict ''CONSENSUS''
     ('' fn='' @ quoted nm @ '' value='' @ fmt_i64 v @ '' vm_steps='' @ fmt_u64 steps @
      '' jit_compile_ms='' @ tcc_compile_ms T @ '' jit_exec_us='' @ tcc_exec_us T)"

fun jit_compare :: "TccEnv \<Rightarrow> string \<Rightarrow> VmExecResult \<Rightarrow> u64 \<Rightarrow> JitOut \<Rightarrow> JitRt option" where
  "jit_compare T nm r steps (JitErr e) =
     Some (JitPrint (jit_verdict ''DIVERGENCE'' ('' why='' @ quoted ''jit_error'' @ '' code='' @ quoted e)) False)"
| "jit_compare T nm r steps JitNull = None"
| "jit_compare T nm r steps JitLost = None"
| "jit_compare T nm r steps (JitVal v) = Some
     (if res_val r = v then JitPrint (jit_consensus T nm v steps) True
      else JitPrint (jit_verdict ''DIVERGENCE'' ('' fn='' @ quoted nm @ '' vm_value='' @ fmt_i64 (res_val r) @
        '' jit_value='' @ fmt_i64 v)) False)"

definition c0_jit_roundtrip :: "TccEnv \<Rightarrow> bool \<Rightarrow> VmModule \<Rightarrow> string \<Rightarrow> i64 list \<Rightarrow> JitRt option" where
  "c0_jit_roundtrip T fm md nm args =
     (case find_fn md nm of
        None \<Rightarrow> Some (JitPrint (jit_verdict ''DIVERGENCE'' ('' why='' @ quoted ''fn_not_found'')) False)
      | Some fi \<Rightarrow>
          (case vm_exec fm (Some md) fi args 0 (Some 0) of
             None \<Rightarrow> None
           | Some (Inl (VmErr e, _)) \<Rightarrow>
               Some (JitPrint (jit_verdict ''DIVERGENCE'' ('' why='' @ quoted ''vm_error'' @ '' code='' @ quoted (lin_err_name e))) False)
           | Some (Inl (VmFault x, _)) \<Rightarrow> Some (JitFault x)
           | Some (Inr (r, _, steps)) \<Rightarrow> jit_compare T nm r steps (c0_jit_exec T (Some md) (Some nm) args)))"

text \<open>
  \<open>c0_jit_verify_module\<close> compiles the whole module again for each executable function and calls
  it on zeros; \<open>None\<close>: a call does not come back.
\<close>

fun jit_verify_fns :: "TccEnv \<Rightarrow> VmModule \<Rightarrow> VmFn list \<Rightarrow> nat \<times> nat \<Rightarrow> (nat \<times> nat) option" where
  "jit_verify_fns T md [] (passed, count) = Some (passed, count)"
| "jit_verify_fns T md (f # fs) (passed, count) =
     (if \<not> fn_ok f then jit_verify_fns T md fs (passed, count)
      else case c0_jit_exec T (Some md) (Some (fn_name f)) (replicate (nparams f) 0) of
          JitErr _ \<Rightarrow> jit_verify_fns T md fs (passed, count + 1)
        | JitVal _ \<Rightarrow> jit_verify_fns T md fs (passed + 1, count + 1)
        | _ \<Rightarrow> None)"

definition c0_jit_verify_module :: "TccEnv \<Rightarrow> VmModule \<Rightarrow> (string \<times> bool) option" where
  "c0_jit_verify_module T md =
     map_option (\<lambda>(passed, count).
         (rulel ''LIN_JIT_VERIFY'' @ ''.summary{ total='' @ dec_digits count @ '' compiled_and_run='' @ dec_digits passed @
          '' }'' @ [NEWLINE], passed = count))
       (jit_verify_fns T md md (0, 0))"

section \<open>The commands\<close>

fun jit_run_out :: "TccEnv \<Rightarrow> string \<Rightarrow> JitOut \<Rightarrow> CliOut option" where
  "jit_run_out T nm (JitErr e) =
     Some (prints (rulel ''LIN_JIT_RUN'' @ ''.error{ fn='' @ quoted nm @ '' reason='' @ quoted e @ '' }'' @ [NEWLINE]) 1)"
| "jit_run_out T nm JitNull = None"
| "jit_run_out T nm JitLost = None"
| "jit_run_out T nm (JitVal v) =
     Some (prints (rulel ''LIN_JIT_RUN'' @ ''.result{ fn='' @ quoted nm @ '' value='' @ fmt_i64 v @
       '' compile_ms='' @ tcc_compile_ms T @ '' exec_us='' @ tcc_exec_us T @ '' }'' @ [NEWLINE]) 0)"

text \<open>The part the three commands share: read the source and build it.\<close>

definition jit_build :: "CliEnv \<Rightarrow> string \<Rightarrow> string \<Rightarrow> (VmModule \<Rightarrow> CliOut option) \<Rightarrow> CliOut option" where
  "jit_build E cmd path k =
     (case env_read E path of
        None \<Rightarrow> Some (complains (cmd @ '': cannot read '' @ path))
      | Some source \<Rightarrow>
          (case c0_build (env_build E) source of
             None \<Rightarrow> None
           | Some (Inl _) \<Rightarrow> Some (complains (cmd @ '': build failed for '' @ path))
           | Some (Inr md) \<Rightarrow> k md))"

definition cmd_jit :: "CliEnv \<Rightarrow> TccEnv \<Rightarrow> string list \<Rightarrow> CliOut option" where
  "cmd_jit E T args =
     (case args of
        [] \<Rightarrow> Some (complains ''usage: lin_c0 jit <file.lin> [fn] [int args...]'')
      | path # rest \<Rightarrow>
          jit_build E ''jit'' path (\<lambda>md.
            let nm = (case rest of [] \<Rightarrow> ''main'' | a # _ \<Rightarrow> a) in
            case cli_parse_args 64 (drop 1 rest) of
              None \<Rightarrow> Some (complains ''jit: bad integer argument'')
            | Some as \<Rightarrow> jit_run_out T nm (c0_jit_exec T (Some md) (Some nm) as)))"

fun jit_rt_out :: "JitRt \<Rightarrow> CliOut" where
  "jit_rt_out (JitPrint s ok) = prints s (if ok then 0 else 1)"
| "jit_rt_out (JitFault x) = CliFault x"

definition cmd_roundtrip_jit :: "CliEnv \<Rightarrow> TccEnv \<Rightarrow> string list \<Rightarrow> CliOut option" where
  "cmd_roundtrip_jit E T args =
     (case args of
        path # nm # rest \<Rightarrow>
          jit_build E ''roundtrip-jit'' path (\<lambda>md.
            case cli_parse_args 64 rest of
              None \<Rightarrow> Some (complains ''roundtrip-jit: bad integer argument'')
            | Some as \<Rightarrow> map_option jit_rt_out (c0_jit_roundtrip T (env_frames E) md nm as))
      | _ \<Rightarrow> Some (complains ''usage: lin_c0 roundtrip-jit <file.lin> <fn> [int args...]''))"

definition cmd_jit_verify :: "CliEnv \<Rightarrow> TccEnv \<Rightarrow> string list \<Rightarrow> CliOut option" where
  "cmd_jit_verify E T args =
     (case args of
        [] \<Rightarrow> Some (complains ''usage: lin_c0 jit-verify <file.lin>'')
      | path # _ \<Rightarrow>
          jit_build E ''jit-verify'' path (\<lambda>md.
            map_option (\<lambda>(s, ok). prints s (if ok then 0 else 1)) (c0_jit_verify_module T md)))"

section \<open>A conforming compiler\<close>

text \<open>
  A valid C program compiles and links, each of its functions is a symbol, and calling a symbol
  gives the value the program returns, where its behaviour is defined.
\<close>

definition tcc_conforms :: "TccEnv \<Rightarrow> CFun list \<Rightarrow> bool" where
  "tcc_conforms T P =
     (c_valid P \<longrightarrow>
        tcc_compile_string T (tcc_lib_dir T) (c_text P) \<and> tcc_relocate T (tcc_lib_dir T) (c_text P) \<and>
        (\<forall>f \<in> set P. \<exists>native. tcc_get_symbol T (tcc_lib_dir T) (c_text P) (''lin_fn_'' @ cf_name f) = Some native \<and>
           (\<forall>n args v. c_call n P (cf_name f) args = Some (Value v) \<longrightarrow> native args = Some v)))"

definition tcc_usable :: "TccEnv \<Rightarrow> bool" where
  "tcc_usable T = (case lin_tcc_dyn_load T of None \<Rightarrow> False | Some lib \<Rightarrow> tcc_new T \<and> tcc_dlsym T lib ''tcc_set_lib_path'')"

text \<open>The modules whose program the compiler accepts and that do not shift.\<close>

definition jit_sound :: "VmModule \<Rightarrow> bool" where
  "jit_sound md = (jit_names_distinct md \<and> shift_free md \<and> no_least_literal md \<and> list_all (\<lambda>f. length (code f) < 2 ^ 63) md)"

lemma jit_exec_value:
  assumes "c0_build mem source = Some (Inr md)" "jit_sound md" "tcc_usable T" "tcc_conforms T (jit_prog md)"
    "vm_exec fm (Some md) fi args 0 (Some 0) = Some (Inr (r, x, steps))" "fn_name (md ! fi) = nm"
  shows "c0_jit_exec T (Some md) (Some nm) args = JitVal (res_val r)"
proof -
  let ?P = "jit_prog md"
  have s: "jit_names_distinct md" "shift_free md" "no_least_literal md" "list_all (\<lambda>f. length (code f) < 2 ^ 63) md"
    using assms(2) by (simp_all add: jit_sound_def)
  have ready: "jit_ready md" using s(1,2) built_closed [OF assms(1) [unfolded c0_build_def]] by (simp add: jit_ready_def)
  from assms(5) obtain n ctx frs frs' where c: "vm_abi ctx = None" "store_ok frs"
    "vm_call n ctx md fi args 0 (frs, 0) = Some (Inr (r, frs', steps))" by (rule vm_exec_call)
  from c(3) have ok: "fn_ok (md ! fi)" by (cases rule: vm_call_cases) (auto simp: vm_enter_def split: if_splits)
  have run: "fi < length md" "c_call n ?P (sanitize_fn_name nm 128) (arg_cells args) = Some (Value (res_val r))"
    using jit_call [OF ready c] assms(6) by simp_all
  have "jit_fn md (md ! fi) \<in> set ?P" "cf_name (jit_fn md (md ! fi)) = sanitize_fn_name nm 128"
    using ok run(1) assms(6) by (auto simp: jit_prog_def jit_fn_def)
  then obtain native where "tcc_compile_string T (tcc_lib_dir T) (c_text ?P)" "tcc_relocate T (tcc_lib_dir T) (c_text ?P)"
    "tcc_get_symbol T (tcc_lib_dir T) (c_text ?P) (''lin_fn_'' @ sanitize_fn_name nm 128) = Some native"
    "native (arg_cells args) = Some (res_val r)"
    using assms(4) built_c_valid [OF assms(1) s(1,3,4)] run(2) unfolding tcc_conforms_def by metis
  moreover have "c0_jit_emit_c11 md = Some (c_text ?P)" using run(1) jit_buffer(2) [of md] by (auto simp: c0_jit_emit_c11_def)
  ultimately show ?thesis using assms(3) by (auto simp: c0_jit_exec_def tcc_usable_def Let_def split: option.splits)
qed

section \<open>Properties\<close>

text \<open>
  C5: the native round trip agrees. Let the front-end build a module without shifts whose C
  program is valid, and let the C compiler be usable and conforming on that program. Whenever
  the machine returns a value for a function and arguments, \<open>roundtrip-jit\<close> prints the consensus
  verdict with that value and those steps and exits with 0, and \<open>jit\<close> prints that value.
\<close>
theorem jit_roundtrip_consensus:
  assumes "env_read E path = Some source" "c0_build (env_build E) source = Some (Inr md)" "jit_sound md"
    "tcc_usable T" "tcc_conforms T (jit_prog md)" "find_fn md nm = Some fi" "cli_parse_args 64 rest = Some args"
    "vm_exec (env_frames E) (Some md) fi args 0 (Some 0) = Some (Inr (r, x, steps))"
  shows "cmd_roundtrip_jit E T (path # nm # rest) = Some (prints (jit_consensus T nm (res_val r) steps) 0) \<and>
    cmd_jit E T (path # nm # rest) = jit_run_out T nm (JitVal (res_val r))"
proof -
  have "c0_jit_exec T (Some md) (Some nm) args = JitVal (res_val r)"
    using assms find_fn_Some(2) [OF assms(6)] by (intro jit_exec_value)
  with assms show ?thesis by (simp add: cmd_roundtrip_jit_def cmd_jit_def jit_build_def c0_jit_roundtrip_def)
qed

definition ident_tcc :: TccEnv where
  "ident_tcc = \<lparr>tcc_getenv = \<lambda>_. None, tcc_access = \<lambda>_. False, tcc_dlopen = \<lambda>_. True, tcc_dlsym = \<lambda>_ _. True, tcc_new = True,
     tcc_compile_string = \<lambda>_ _. True, tcc_relocate = \<lambda>_ _. True,
     tcc_get_symbol = \<lambda>_ _ s. if s = ''lin_fn_f'' then Some (\<lambda>args. case args of [] \<Rightarrow> None | v # _ \<Rightarrow> Some v) else None,
     tcc_compile_ms = ''0.20'', tcc_exec_us = ''0.10''\<rparr>"

lemma ident_conforms: "tcc_conforms ident_tcc (jit_prog [ident_fn])"
proof -
  have "(case args of [] \<Rightarrow> None | v # _ \<Rightarrow> Some v) = Some v" if "c_call n (jit_prog [ident_fn]) ''f'' args = Some (Value v)" for n args v
    using cprog.deterministic [of n "jit_prog [ident_fn]" "(''f'', args)", unfolded prod.case, OF that ident_native]
    by (cases args) simp_all
  then show ?thesis
    by (simp add: tcc_conforms_def ident_tcc_def jit_prog_def jit_fn_def ident_fn_def sanitize_fn_name_def cstr_def)
qed

theorem jit_roundtrip_consensus_witness:
  "cmd_roundtrip_jit ident_env ident_tcc [''f.lin'', ''f'', ''7'']
     = Some (prints (jit_consensus ident_tcc ''f'' 7 2) 0)"
proof -
  have b: "c0_build (env_build ident_env) ident_src = Some (Inr [ident_fn])" using ident_build by (simp add: ident_env_def c0_build_def)
  have r: "env_read ident_env ''f.lin'' = Some ident_src" by (simp add: ident_env_def)
  have s: "jit_sound [ident_fn]"
    by (simp add: jit_sound_def jit_names_distinct_def shift_free_def shift_op_def no_least_literal_def INT64_MIN_def ident_fn_def)
  have t: "tcc_usable ident_tcc" by (simp add: tcc_usable_def lin_tcc_dyn_load_def tcc_candidates_def ident_tcc_def)
  have f: "find_fn [ident_fn] ''f'' = Some 0" by (simp add: find_fn_def ident_fn_def)
  have a: "cli_parse_args 64 [''7''] = Some [7]" by code_simp
  have x: "vm_exec (env_frames ident_env) (Some [ident_fn]) 0 [7] 0 (Some 0) = Some (Inr (\<lparr>res_val = 7, sp_at_ret = 1\<rparr>, None, 2))"
    using ident_exec [of 7] by (simp add: ident_env_def)
  from jit_roundtrip_consensus [OF r b s t ident_conforms f a x] show ?thesis by simp
qed

end
