(* ===== verification/C0_Gpu.thy ===== *)
theory C0_Gpu
  imports C0_Jit_Cli
begin

text \<open>
  \<open>transpile/c/tool/lin_c0_gpu.c\<close>: the lowering of a function of one parameter to the text of an
  OpenCL kernel, and \<open>gpu-verify\<close>, which runs the kernels of a module on seven buffer sizes and
  compares them with the machine.

  The OpenCL library is not part of the repository: it is a record that says what it finds
  (platforms, devices, whether the creating calls succeed) and what a run of a kernel leaves in
  the output buffer. The buffers of the host are taken to be allocated.
\<close>

section \<open>Inputs\<close>

definition fibonacci_prng :: "nat \<Rightarrow> u32" where
  "fibonacci_prng i = of_nat ((i + 1) * 0x9e3779b9)"

definition SIZES :: "nat list" where
  "SIZES = [1, 2, 7, 31, 1024, 65536, 1000000]"

section \<open>Lowering\<close>

text \<open>The two digests: \<open>op\<close> has four bytes and \<open>a\<close> eight, on a little-endian host.\<close>

definition gpu_sem_hash :: "VmFn \<Rightarrow> bytes" where
  "gpu_sem_hash f = lin_sha256_final (foldl lin_sha256_update (lin_sha256_init raw_ctx)
     (bytes_of_string (cstr (fn_name f)) #
      concat (map (\<lambda>i. [le_bytes 4 (of_nat (vm_op_ord (op i)) :: u32), le_bytes 8 (opa i)]) (code f))))"

definition gpu_low_hash :: "bytes \<Rightarrow> bytes" where
  "gpu_low_hash sem = lin_sha256_final (foldl lin_sha256_update (lin_sha256_init raw_ctx)
     [bytes_of_string ''LIN:GPU_LOWERING:1.0.0'', bytes_of_string ''opencl_c_2.0'',
      bytes_of_string ''opencl_relaxed_i32'', bytes_of_string ''global_contiguous'', sem])"

definition gpu_header :: "string \<Rightarrow> string" where
  "gpu_header nm = out_lines
    [''/* LIN-GPU-004: Auto-lowered from LIN function '' @ [CHR 0x27] @ nm @ [CHR 0x27] @ '' (Sovereign Zero-Zig) */'',
     ''__kernel void lin_gpu_kernel('',
     ''    __global const int* input,'',
     ''    __global int* output,'',
     ''    const int n)'',
     ''{'',
     ''    int gid = get_global_id(0);'',
     ''    if (gid >= n) return;'',
     ''    long locals[32];'',
     ''    for (int i = 0; i < 32; i++) locals[i] = 0;'',
     ''    locals[0] = (long)input[gid];'',
     ''    long s[32];'',
     ''    int sp = 0;'']"

text \<open>The switch on the opcode; the opcodes without a case print nothing.\<close>

definition gpu_ins :: "VmIns \<Rightarrow> string option" where
  "gpu_ins i =
     (let a = fmt_i64 (opa i) in
      case op i of
        OP_LOAD_LOCAL \<Rightarrow> Some (out_lines [''    s[sp++] = locals['' @ a @ ''];''])
      | OP_STORE_LOCAL \<Rightarrow> Some (out_lines [''    locals['' @ a @ ''] = s[--sp];''])
      | OP_PUSH_CONST \<Rightarrow> Some (out_lines [''    s[sp++] = '' @ a @ ''L;''])
      | OP_ADD \<Rightarrow> Some (out_lines [''    s[sp-2] = s[sp-2] + s[sp-1]; sp--;''])
      | OP_SUB \<Rightarrow> Some (out_lines [''    s[sp-2] = s[sp-2] - s[sp-1]; sp--;''])
      | OP_MUL \<Rightarrow> Some (out_lines [''    s[sp-2] = s[sp-2] * s[sp-1]; sp--;''])
      | OP_DIV \<Rightarrow> Some (out_lines [''    s[sp-2] = (s[sp-1] != 0L) ? (s[sp-2] / s[sp-1]) : 0L; sp--;''])
      | OP_MOD \<Rightarrow> Some (out_lines [''    s[sp-2] = (s[sp-1] != 0L) ? (s[sp-2] % s[sp-1]) : 0L; sp--;''])
      | OP_BIT_AND \<Rightarrow> Some (out_lines [''    s[sp-2] = s[sp-2] & s[sp-1]; sp--;''])
      | OP_BIT_OR \<Rightarrow> Some (out_lines [''    s[sp-2] = s[sp-2] | s[sp-1]; sp--;''])
      | OP_BIT_XOR \<Rightarrow> Some (out_lines [''    s[sp-2] = s[sp-2] ^ s[sp-1]; sp--;''])
      | OP_BIT_NOT \<Rightarrow> Some (out_lines [''    s[sp-1] = ~s[sp-1];''])
      | OP_NEG \<Rightarrow> Some (out_lines [''    s[sp-1] = -s[sp-1];''])
      | OP_SHL \<Rightarrow> Some (out_lines [''    s[sp-2] = s[sp-2] << (s[sp-1] & 63L); sp--;''])
      | OP_SHR \<Rightarrow> Some (out_lines [''    s[sp-2] = s[sp-2] >> (s[sp-1] & 63L); sp--;''])
      | OP_USHR \<Rightarrow> Some (out_lines [''    s[sp-2] = (long)((ulong)s[sp-2] >> (s[sp-1] & 63L)); sp--;''])
      | OP_CMP_EQ \<Rightarrow> Some (out_lines [''    s[sp-2] = (s[sp-2] == s[sp-1]) ? 1L : 0L; sp--;''])
      | OP_CMP_NE \<Rightarrow> Some (out_lines [''    s[sp-2] = (s[sp-2] != s[sp-1]) ? 1L : 0L; sp--;''])
      | OP_CMP_LT \<Rightarrow> Some (out_lines [''    s[sp-2] = (s[sp-2] < s[sp-1]) ? 1L : 0L; sp--;''])
      | OP_CMP_GT \<Rightarrow> Some (out_lines [''    s[sp-2] = (s[sp-2] > s[sp-1]) ? 1L : 0L; sp--;''])
      | OP_CMP_LE \<Rightarrow> Some (out_lines [''    s[sp-2] = (s[sp-2] <= s[sp-1]) ? 1L : 0L; sp--;''])
      | OP_CMP_GE \<Rightarrow> Some (out_lines [''    s[sp-2] = (s[sp-2] >= s[sp-1]) ? 1L : 0L; sp--;''])
      | OP_LOG_NOT \<Rightarrow> Some (out_lines [''    s[sp-1] = (s[sp-1] == 0L) ? 1L : 0L;''])
      | OP_POP \<Rightarrow> Some (out_lines [''    sp--;''])
      | OP_RET \<Rightarrow> Some (out_lines [''    output[gid] = (int)s[sp-1];'', ''    return;''])
      | _ \<Rightarrow> None)"

text \<open>
  The fixed buffer: its text, and \<open>off\<close>, which counts what \<open>snprintf\<close> would have written. With
  \<open>off\<close> past the buffer the remaining size wraps around and the write leaves the buffer.
\<close>

datatype GpuBuf = GBuf string nat | GOver

fun gpu_snprintf :: "nat \<Rightarrow> string \<Rightarrow> GpuBuf \<Rightarrow> GpuBuf" where
  "gpu_snprintf cap s GOver = GOver"
| "gpu_snprintf cap s (GBuf t off) = (if cap < off then GOver else GBuf (t @ take (cap - 1 - off) s) (off + length s))"

datatype GpuLow = LowOver | LowFull | LowText string

fun gpu_code :: "nat \<Rightarrow> VmIns list \<Rightarrow> GpuBuf \<Rightarrow> GpuLow" where
  "gpu_code cap is GOver = LowOver"
| "gpu_code cap [] (GBuf t off) =
     (case gpu_snprintf cap (out_lines [''}'']) (GBuf t off) of GOver \<Rightarrow> LowOver | GBuf t' _ \<Rightarrow> LowText t')"
| "gpu_code cap (i # is) (GBuf t off) =
     (case (case gpu_ins i of None \<Rightarrow> GBuf t off | Some s \<Rightarrow> gpu_snprintf cap s (GBuf t off)) of
        GOver \<Rightarrow> LowOver
      | GBuf t' off' \<Rightarrow> if off' \<ge> cap - 100 then LowFull else gpu_code cap is (GBuf t' off'))"

definition lower_unary_fn_to_opencl :: "VmFn \<Rightarrow> nat \<Rightarrow> GpuLow \<times> bytes \<times> bytes" where
  "lower_unary_fn_to_opencl f cap =
     (let sem = gpu_sem_hash f; low = gpu_low_hash sem in
      (gpu_code cap (code f) (gpu_snprintf cap (gpu_header (cstr (fn_name f))) (GBuf [] 0)), sem, low))"

section \<open>The verifier\<close>

text \<open>
  Errors of OpenCL are its numbers, 0 for success. A context or a queue is an error number and
  whether there is one; a queue is made by the call of OpenCL 2 or by the older one, and the
  library may have only one of them or none. \<open>cl_run\<close> is the output cell of a kernel text on an input buffer, and
  \<open>cl_junk\<close> what the uninitialised result holds when the machine reports an error, which the
  code does not look at.
\<close>

record ClEnv =
  cl_fread :: bool
  cl_dlopen :: "string \<Rightarrow> bool"
  cl_dlsym :: "string \<Rightarrow> string \<Rightarrow> bool"
  cl_platforms :: "string list"
  cl_gpu :: "nat \<Rightarrow> bool"
  cl_any :: "nat \<Rightarrow> bool"
  cl_device :: "nat \<Rightarrow> string"
  cl_context :: "int \<times> bool"
  cl_queue2 :: "int \<times> bool"
  cl_queue1 :: "int \<times> bool"
  cl_source :: "string \<Rightarrow> int"
  cl_build :: "string \<Rightarrow> int"
  cl_log :: "string \<Rightarrow> string"
  cl_kernel :: "string \<Rightarrow> int"
  cl_run :: "string \<Rightarrow> nat \<Rightarrow> (nat \<Rightarrow> u32) \<Rightarrow> nat \<Rightarrow> u32"
  cl_junk :: "nat \<Rightarrow> nat \<Rightarrow> nat \<Rightarrow> u32"

definition opencl_load :: "ClEnv \<Rightarrow> string option" where
  "opencl_load C =
     (case find (cl_dlopen C) [''libOpenCL.so'', ''libOpenCL.so.1''] of
        None \<Rightarrow> None
      | Some lib \<Rightarrow>
          if list_all (cl_dlsym C lib)
               [''clGetPlatformIDs'', ''clGetPlatformInfo'', ''clGetDeviceIDs'', ''clGetDeviceInfo'', ''clCreateContext'',
                ''clReleaseContext'', ''clReleaseCommandQueue'', ''clCreateProgramWithSource'', ''clBuildProgram'',
                ''clGetProgramBuildInfo'', ''clReleaseProgram'', ''clCreateKernel'', ''clReleaseKernel'', ''clCreateBuffer'',
                ''clReleaseMemObject'', ''clEnqueueWriteBuffer'', ''clSetKernelArg'', ''clEnqueueNDRangeKernel'',
                ''clWaitForEvents'', ''clReleaseEvent'', ''clEnqueueReadBuffer'', ''clFinish'']
          then Some lib else None)"

definition fmt_int :: "int \<Rightarrow> string" where
  "fmt_int n = (if n < 0 then ''-'' else []) @ dec_digits (nat \<bar>n\<bar>)"

definition fmt_left8 :: "nat \<Rightarrow> string" where
  "fmt_left8 n = (let d = dec_digits n in d @ replicate (8 - length d) (CHR '' ''))"

fun contains :: "string \<Rightarrow> string \<Rightarrow> bool" where
  "contains pat [] = (pat = [])"
| "contains pat (c # s) = (take (length pat) (c # s) = pat \<or> contains pat s)"

text \<open>
  The first platform with one of three names, else the first one. \<open>clGetPlatformIDs\<close> fills at
  most 8 cells but reports all platforms, and the search runs over all of them: \<open>None\<close> is a
  read behind the array.
\<close>

definition gpu_platform :: "string list \<Rightarrow> nat option" where
  "gpu_platform ps =
     (case index_from 0 (\<lambda>p. contains ''AMD'' p \<or> contains ''ROCm'' p \<or> contains ''rusticl'' p) ps of
        None \<Rightarrow> if 8 < length ps then None else Some 0
      | Some i \<Rightarrow> if 8 \<le> i then None else Some i)"

definition gpu_queue :: "ClEnv \<Rightarrow> string \<Rightarrow> int \<times> bool" where
  "gpu_queue C lib =
     (let q = (if cl_dlsym C lib ''clCreateCommandQueueWithProperties'' then cl_queue2 C else (fst (cl_context C), False)) in
      if \<not> snd q \<and> cl_dlsym C lib ''clCreateCommandQueue'' then cl_queue1 C else q)"

text \<open>The outputs of the machine on the inputs from \<open>i\<close> on, \<open>k\<close> of them.\<close>

fun gpu_oracle :: "bool \<Rightarrow> ClEnv \<Rightarrow> VmModule \<Rightarrow> nat \<Rightarrow> nat \<Rightarrow> nat \<Rightarrow> nat \<Rightarrow> (vm_array + u32 list) option" where
  "gpu_oracle fm C md fi n i 0 = Some (Inr [])"
| "gpu_oracle fm C md fi n i (Suc k) =
     (case vm_exec fm (Some md) fi [scast (fibonacci_prng i)] 0 (Some 0) of
        None \<Rightarrow> None
      | Some (Inl (VmFault x, _)) \<Rightarrow> Some (Inl x)
      | Some res \<Rightarrow>
          opt_then (gpu_oracle fm C md fi n (Suc i) k) (\<lambda>vs.
            Some (Inr ((case res of Inl _ \<Rightarrow> cl_junk C fi n i | Inr (r, _) \<Rightarrow> ucast (res_val r)) # vs))))"

definition gpu_line :: "nat \<Rightarrow> string" where
  "gpu_line s = ''  [GPU-004 '' @ dec_digits (s + 1) @ ''/7] N=''"

text \<open>One buffer size: what it prints, and whether the kernel and the machine agree.\<close>

definition gpu_size :: "bool \<Rightarrow> ClEnv \<Rightarrow> VmModule \<Rightarrow> nat \<Rightarrow> string \<Rightarrow> nat \<Rightarrow> (vm_array + (string \<times> bool)) option" where
  "gpu_size fm C md fi text s =
     (let n = SIZES ! s in
      opt_then (gpu_oracle fm C md fi n 0 n) (\<lambda>vm.
        Some (Inr (case find (\<lambda>i. cl_run C text n fibonacci_prng i \<noteq> vm ! i) [0..<n] of
            Some i \<Rightarrow> (gpu_line s @ dec_digits n @ '' DIVERGENCE @ i='' @ dec_digits i @ '': gpu='' @
               fmt_int (sint (cl_run C text n fibonacci_prng i)) @ '' vm='' @ fmt_int (sint (vm ! i)) @ [NEWLINE], False)
          | None \<Rightarrow> (gpu_line s @ fmt_left8 n @ '' LIN_VM=OK  GPU_SILICON=OK  BIT_EXACT'' @ [NEWLINE], True)))))"

fun gpu_sizes :: "bool \<Rightarrow> ClEnv \<Rightarrow> VmModule \<Rightarrow> nat \<Rightarrow> string \<Rightarrow> nat list \<Rightarrow> (vm_array + (string \<times> nat)) option" where
  "gpu_sizes fm C md fi text [] = Some (Inr ([], 0))"
| "gpu_sizes fm C md fi text (s # ss) =
     opt_then (gpu_size fm C md fi text s) (\<lambda>(out, match).
       opt_then (gpu_sizes fm C md fi text ss) (\<lambda>(out', k). Some (Inr (out @ out', (if match then 1 else 0) + k))))"

definition gpu_report :: "string \<Rightarrow> string \<Rightarrow> bytes \<Rightarrow> bytes \<Rightarrow> nat \<Rightarrow> string" where
  "gpu_report path nm sem low k = [NEWLINE] @ out_lines
    [''  @LIN:GPU_KERNEL_CONFORMANCE:1.0.0'',
     ''  .kernel='' @ quoted nm,
     ''  .source='' @ path,
     ''  .mir_semantic_hash='' @ quoted (''sha256:'' @ lin_sha256_hex sem),
     ''  .lowering_hash='' @ quoted (''sha256:'' @ lin_sha256_hex low),
     ''  .targets=7 .confirmed='' @ dec_digits k @ '' .refuted='' @ dec_digits (7 - k),
     '''']"

definition gpu_rule :: string where "gpu_rule = [CHR 0xE2, CHR 0x94, CHR 0x80]"

text \<open>What a kernel of the module prints on both streams, and how many sizes it confirms.\<close>

datatype GpuStop = StopFault vm_array | StopOver

definition gpu_fn_head :: "string \<Rightarrow> string" where
  "gpu_fn_head nm = gpu_rule @ gpu_rule @ '' LIN Kernel: '' @ nm @ '' '' @ concat (replicate 41 gpu_rule) @ [NEWLINE]"

definition gpu_hash_lines :: "bytes \<Rightarrow> bytes \<Rightarrow> string" where
  "gpu_hash_lines sem low = out_lines
    [''  [LOWERER] mir_semantic_hash = sha256:'' @ lin_sha256_hex sem,
     ''  [LOWERER] lowering_hash     = sha256:'' @ lin_sha256_hex low]"

definition gpu_cl_failed :: "string \<Rightarrow> int \<Rightarrow> string" where
  "gpu_cl_failed call err = ''  [OPENCL] '' @ call @ '' failed (err='' @ fmt_int err @ '')'' @ [NEWLINE]"

definition gpu_run_fn ::
  "bool \<Rightarrow> ClEnv \<Rightarrow> VmModule \<Rightarrow> nat \<Rightarrow> string \<Rightarrow> string \<Rightarrow> (nat \<Rightarrow> string) \<Rightarrow> (GpuStop + (string \<times> string \<times> nat)) option" where
  "gpu_run_fn fm C md fi text head report =
     (if cl_source C text \<noteq> 0 then Some (Inr (head, gpu_cl_failed ''clCreateProgramWithSource'' (cl_source C text), 0))
      else if cl_build C text \<noteq> 0 then Some (Inr (head, out_lines [''  [BUILD ERROR]'', cl_log C text], 0))
      else if cl_kernel C text \<noteq> 0 then Some (Inr (head, gpu_cl_failed ''clCreateKernel'' (cl_kernel C text), 0))
      else (case gpu_sizes fm C md fi text [0..<7] of
          None \<Rightarrow> None
        | Some (Inl x) \<Rightarrow> Some (Inl (StopFault x))
        | Some (Inr (out, k)) \<Rightarrow> Some (Inr (head @ out @ report k, [], k))))"

definition gpu_fn :: "bool \<Rightarrow> ClEnv \<Rightarrow> string \<Rightarrow> VmModule \<Rightarrow> nat \<Rightarrow> (GpuStop + (string \<times> string \<times> nat)) option" where
  "gpu_fn fm C path md fi =
     (let nm = fn_name (md ! fi); (low_text, sem, low) = lower_unary_fn_to_opencl (md ! fi) 8192 in
      case low_text of
        LowOver \<Rightarrow> Some (Inl StopOver)
      | LowFull \<Rightarrow> Some (Inr (gpu_fn_head nm, ''  [LOWERER] failed to lower '' @ nm @ '' to OpenCL C'' @ [NEWLINE], 0))
      | LowText text \<Rightarrow>
          gpu_run_fn fm C md fi text (gpu_fn_head nm @ gpu_hash_lines sem low) (gpu_report path nm sem low))"

definition gpu_unary :: "VmFn \<Rightarrow> bool" where
  "gpu_unary f = (fn_ok f \<and> nparams f = 1 \<and> take 5 (fn_name f) \<noteq> ''test_'')"

fun gpu_fns :: "bool \<Rightarrow> ClEnv \<Rightarrow> string \<Rightarrow> VmModule \<Rightarrow> nat list \<Rightarrow> (GpuStop + (string \<times> string \<times> nat)) option" where
  "gpu_fns fm C path md [] = Some (Inr ([], [], 0))"
| "gpu_fns fm C path md (fi # fis) =
     opt_then (gpu_fn fm C path md fi) (\<lambda>(out, err, k).
       opt_then (gpu_fns fm C path md fis) (\<lambda>(out', err', k').
         Some (Inr (out @ out', err @ err', k + k'))))"

text \<open>
  \<open>GpuDone\<close> is what the command prints on both streams and its exit code; \<open>GpuOver\<close> is a write
  behind the text buffer or a read behind the platforms.
\<close>

datatype GpuOut = GpuDone string string nat | GpuFault vm_array | GpuOver

definition gpu_banner :: "string \<Rightarrow> string \<Rightarrow> string" where
  "gpu_banner plat dev = [NEWLINE] @ out_lines
    [replicate 80 (CHR ''=''),
     ''=== LINVM C0 SOVEREIGN GPU PIPELINE (LIN -> LinVM C0 -> ROCm/GPU)            ==='',
     replicate 80 (CHR ''=''),
     ''[GPU PIPELINE] Platform : '' @ plat,
     ''[GPU PIPELINE] Device   : '' @ dev,
     '''']"

definition gpu_kernels :: "bool \<Rightarrow> ClEnv \<Rightarrow> string \<Rightarrow> VmModule \<Rightarrow> string \<Rightarrow> GpuOut option" where
  "gpu_kernels fm C path md banner =
     (let unary = filter (\<lambda>fi. gpu_unary (md ! fi)) [0..<length md] in
      case gpu_fns fm C path md unary of
        None \<Rightarrow> None
      | Some (Inl (StopFault x)) \<Rightarrow> Some (GpuFault x)
      | Some (Inl StopOver) \<Rightarrow> Some GpuOver
      | Some (Inr (out, err, confirmed)) \<Rightarrow>
          Some (if unary = []
            then GpuDone (banner @ out @ ''gpu-verify: no valid unary kernels found in '' @ path @ [NEWLINE]) err 1
            else GpuDone (banner @ out) err (if confirmed = length unary * 7 then 0 else 1)))"

definition gpu_device :: "bool \<Rightarrow> ClEnv \<Rightarrow> string \<Rightarrow> string \<Rightarrow> VmModule \<Rightarrow> nat \<Rightarrow> GpuOut option" where
  "gpu_device fm C lib path md p =
     (if \<not> cl_gpu C p \<and> \<not> cl_any C p then Some (GpuDone (''gpu-verify: no OpenCL device found'' @ [NEWLINE]) [] 0)
      else let (err, ctx) = cl_context C in
      if err \<noteq> 0 \<or> \<not> ctx
      then Some (GpuDone [] (''gpu-verify: clCreateContext failed (err='' @ fmt_int err @ '')'' @ [NEWLINE]) 1)
      else let (err, queue) = gpu_queue C lib in
      if err \<noteq> 0 \<or> \<not> queue
      then Some (GpuDone [] (''gpu-verify: clCreateCommandQueue failed (err='' @ fmt_int err @ '')'' @ [NEWLINE]) 1)
      else gpu_kernels fm C path md (gpu_banner (cl_platforms C ! p) (cl_device C p)))"

definition c0_gpu_verify :: "CliEnv \<Rightarrow> ClEnv \<Rightarrow> string \<Rightarrow> GpuOut option" where
  "c0_gpu_verify E C path =
     (case env_read E path of
        None \<Rightarrow> Some (GpuDone [] (''gpu-verify: cannot open file '' @ path @ [NEWLINE]) 1)
      | Some source \<Rightarrow>
          if \<not> cl_fread C then Some (GpuDone [] (''gpu-verify: failed to read '' @ path @ [NEWLINE]) 1)
          else case c0_build (env_build E) source of
              None \<Rightarrow> None
            | Some (Inl _) \<Rightarrow> Some (GpuDone [] (''gpu-verify: failed to compile module '' @ path @ [NEWLINE]) 1)
            | Some (Inr md) \<Rightarrow>
                (case opencl_load C of
                   None \<Rightarrow>
                     Some (GpuDone (''gpu-verify: no OpenCL library found (skipping physical GPU execution)'' @ [NEWLINE]) [] 0)
                 | Some lib \<Rightarrow>
                     if cl_platforms C = [] then Some (GpuDone (''gpu-verify: no OpenCL platforms found'' @ [NEWLINE]) [] 0)
                     else case gpu_platform (cl_platforms C) of
                         None \<Rightarrow> Some GpuOver
                       | Some p \<Rightarrow> gpu_device (env_frames E) C lib path md p))"

text \<open>
  The dispatch of \<open>main\<close> on the back-end commands, and the whole program. A write or read outside
  the buffers of the verifier has no result.
\<close>

fun gpu_out :: "GpuOut \<Rightarrow> CliOut option" where
  "gpu_out (GpuDone out err rc) = Some (CliDone out err rc None)"
| "gpu_out (GpuFault x) = Some (CliFault x)"
| "gpu_out GpuOver = None"

definition lin_c0_backend :: "CliEnv \<Rightarrow> TccEnv \<Rightarrow> ClEnv \<Rightarrow> string list \<Rightarrow> CliOut option" where
  "lin_c0_backend E T C args =
     (case args of
        [] \<Rightarrow> None
      | cmd # rest \<Rightarrow>
          if cmd = ''jit'' then cmd_jit E T rest
          else if cmd = ''roundtrip-jit'' then cmd_roundtrip_jit E T rest
          else if cmd = ''jit-verify'' then cmd_jit_verify E T rest
          else Option.bind (c0_gpu_verify E C (case rest of [] \<Rightarrow> ''examples/map_kernels.lin'' | path # _ \<Rightarrow> path)) gpu_out)"

definition lin_c0 :: "CliEnv \<Rightarrow> TccEnv \<Rightarrow> ClEnv \<Rightarrow> bool \<Rightarrow> string list \<Rightarrow> CliOut option" where
  "lin_c0 E T C arn args = lin_c0_main E (lin_c0_backend E T C) arn args"

section \<open>The text buffer of a kernel\<close>

definition gpu_text :: "VmIns list \<Rightarrow> string" where
  "gpu_text is = concat (map (\<lambda>i. case gpu_ins i of None \<Rightarrow> [] | Some s \<Rightarrow> s) is)"

lemma gpu_ins_short: "gpu_ins i = Some s \<Longrightarrow> length s < 100"
  by (cases "op i") (auto simp: gpu_ins_def Let_def length_out_lines fmt_short)

lemma gpu_code_exact:
  assumes "length t < 8092"
  shows "gpu_code 8192 is (GBuf t (length t)) =
    (if is = [] \<or> length (t @ gpu_text is) < 8092 then LowText (t @ gpu_text is @ out_lines [''}'']) else LowFull)"
  using assms
proof (induction "is" arbitrary: t)
  case Nil
  then show ?case by (simp add: gpu_text_def out_lines_def)
next
  case (Cons i "is")
  define s where "s = (case gpu_ins i of None \<Rightarrow> [] | Some s \<Rightarrow> s)"
  have s: "length s < 100" using gpu_ins_short [of i] by (auto simp: s_def split: option.split)
  have step: "(case gpu_ins i of None \<Rightarrow> GBuf t (length t) | Some s \<Rightarrow> gpu_snprintf 8192 s (GBuf t (length t)))
      = GBuf (t @ s) (length (t @ s))"
    using Cons.prems s by (auto simp: s_def split: option.split)
  have tx: "gpu_text (i # is) = s @ gpu_text is" by (simp add: gpu_text_def s_def)
  show ?case
  proof (cases "length (t @ s) < 8092")
    case True
    then show ?thesis using Cons.IH [OF True] by (simp add: step [simplified] tx) (auto simp: gpu_text_def)
  qed (simp add: step [simplified] tx)
qed

lemma gpu_header_buffer: "length (gpu_header nm) < 8192 \<Longrightarrow> gpu_snprintf 8192 (gpu_header nm) (GBuf [] 0) = GBuf (gpu_header nm) (length (gpu_header nm))"
  by simp

section \<open>What an exit code of 0 says\<close>

lemma vm_exec_some: "\<exists>res. vm_exec fm (Some md) fi args 0 (Some 0) = Some res"
  by (rule exec_returns)

lemma gpu_oracle_nth:
  assumes "gpu_oracle fm C md fi n i k = Some (Inr vs)" "j < k"
    "vm_exec fm (Some md) fi [scast (fibonacci_prng (i + j))] 0 (Some 0) = Some (Inr (r, y, t))"
  shows "vs ! j = ucast (res_val r)"
  using assms
proof (induction k arbitrary: i j vs)
  case (Suc k)
  from Suc.prems(1) obtain v vs' where vs: "vs = v # vs'" "gpu_oracle fm C md fi n (Suc i) k = Some (Inr vs')"
    "\<And>r y t. vm_exec fm (Some md) fi [scast (fibonacci_prng i)] 0 (Some 0) = Some (Inr (r, y, t)) \<Longrightarrow> v = ucast (res_val r)"
    by (fastforce split: option.splits sum.splits vm_stop.splits)
  show ?case
  proof (cases j)
    case 0
    with vs Suc.prems(3) show ?thesis by simp
  next
    case (Suc j')
    with vs Suc.IH [OF vs(2), of j'] Suc.prems show ?thesis by simp
  qed
qed simp

definition gpu_agrees :: "bool \<Rightarrow> ClEnv \<Rightarrow> VmModule \<Rightarrow> nat \<Rightarrow> string \<Rightarrow> nat \<Rightarrow> bool" where
  "gpu_agrees fm C md fi text n =
     (\<forall>i < n. \<forall>r y t. vm_exec fm (Some md) fi [scast (fibonacci_prng i)] 0 (Some 0) = Some (Inr (r, y, t)) \<longrightarrow>
        cl_run C text n fibonacci_prng i = ucast (res_val r))"

lemma gpu_size_agrees:
  assumes "gpu_size fm C md fi text s = Some (Inr (out, True))"
  shows "gpu_agrees fm C md fi text (SIZES ! s)"
proof -
  let ?n = "SIZES ! s"
  from assms obtain vm where vm: "gpu_oracle fm C md fi ?n 0 ?n = Some (Inr vm)"
    "find (\<lambda>i. cl_run C text ?n fibonacci_prng i \<noteq> vm ! i) [0..<?n] = None"
    by (auto simp: gpu_size_def Let_def split: option.splits)
  then have "cl_run C text ?n fibonacci_prng i = vm ! i" if "i < ?n" for i using that by (auto simp: find_None_iff)
  with gpu_oracle_nth [OF vm(1)] show ?thesis by (simp add: gpu_agrees_def)
qed

lemma gpu_sizes_agree:
  "gpu_sizes fm C md fi text ss = Some (Inr (out, k)) \<Longrightarrow>
   k \<le> length ss \<and> (k = length ss \<longrightarrow> (\<forall>s \<in> set ss. gpu_agrees fm C md fi text (SIZES ! s)))"
proof (induction ss arbitrary: out k)
  case (Cons s ss)
  from Cons.prems obtain o1 m o2 k' where "gpu_size fm C md fi text s = Some (Inr (o1, m))"
    "gpu_sizes fm C md fi text ss = Some (Inr (o2, k'))" "k = (if m then 1 else 0) + k'" by auto
  with Cons.IH [of o2 k'] gpu_size_agrees [of fm C md fi _ s o1] show ?case by (cases m) auto
qed simp

text \<open>A kernel with its text, confirmed on all sizes.\<close>

definition gpu_confirmed :: "bool \<Rightarrow> ClEnv \<Rightarrow> VmModule \<Rightarrow> nat \<Rightarrow> bool" where
  "gpu_confirmed fm C md fi = (\<exists>text. fst (lower_unary_fn_to_opencl (md ! fi) 8192) = LowText text \<and>
     cl_source C text = 0 \<and> cl_build C text = 0 \<and> cl_kernel C text = 0 \<and>
     (\<forall>n \<in> set SIZES. gpu_agrees fm C md fi text n))"

lemma gpu_run_fn_confirmed:
  assumes "gpu_run_fn fm C md fi tx head report = Some (Inr (out, err, k))"
  shows "k \<le> 7 \<and> (k = 7 \<longrightarrow> cl_source C tx = 0 \<and> cl_build C tx = 0 \<and> cl_kernel C tx = 0 \<and>
    (\<forall>n \<in> set SIZES. gpu_agrees fm C md fi tx n))"
proof (cases "cl_source C tx \<noteq> 0 \<or> cl_build C tx \<noteq> 0 \<or> cl_kernel C tx \<noteq> 0")
  case False
  with assms obtain o1 where "gpu_sizes fm C md fi tx [0..<7] = Some (Inr (o1, k))"
    by (auto simp: gpu_run_fn_def split: option.splits sum.splits)
  from gpu_sizes_agree [OF this] have k: "k \<le> 7" "k = 7 \<Longrightarrow> s < 7 \<Longrightarrow> gpu_agrees fm C md fi tx (SIZES ! s)" for s by simp_all
  have "length SIZES = 7" by (simp add: SIZES_def)
  with k False show ?thesis by (auto simp: in_set_conv_nth)
qed (use assms in \<open>auto simp: gpu_run_fn_def split: if_splits\<close>)

lemma gpu_fn_confirmed:
  assumes "gpu_fn fm C path md fi = Some (Inr (out, err, k))"
  shows "k \<le> 7 \<and> (k = 7 \<longrightarrow> gpu_confirmed fm C md fi)"
proof -
  obtain lt sem low where l: "lower_unary_fn_to_opencl (md ! fi) 8192 = (lt, sem, low)" by (metis prod_cases3)
  show ?thesis
  proof (cases lt)
    case (LowText tx)
    with assms l have "gpu_run_fn fm C md fi tx (gpu_fn_head (fn_name (md ! fi)) @ gpu_hash_lines sem low)
        (gpu_report path (fn_name (md ! fi)) sem low) = Some (Inr (out, err, k))" by (simp add: gpu_fn_def Let_def)
    from gpu_run_fn_confirmed [OF this] l LowText show ?thesis by (auto simp: gpu_confirmed_def)
  qed (use assms l in \<open>auto simp: gpu_fn_def Let_def\<close>)
qed

lemma gpu_fns_confirmed:
  "gpu_fns fm C path md fis = Some (Inr (out, err, k)) \<Longrightarrow>
   k \<le> length fis * 7 \<and> (k = length fis * 7 \<longrightarrow> (\<forall>fi \<in> set fis. gpu_confirmed fm C md fi))"
proof (induction fis arbitrary: out err k)
  case (Cons fi fis)
  from Cons.prems obtain o1 e1 k1 o2 e2 k2 where f: "gpu_fn fm C path md fi = Some (Inr (o1, e1, k1))"
    "gpu_fns fm C path md fis = Some (Inr (o2, e2, k2))" "k = k1 + k2" by auto
  from Cons.IH [OF f(2)] gpu_fn_confirmed [OF f(1)] f(3) show ?case by auto
qed simp

section \<open>Two functions with one kernel\<close>

definition and_src :: string where "and_src = ''!f(n:int)->int{^(n&&5)}''"
definition or_src :: string where "or_src = ''!f(n:int)->int{^(n||5)}''"

definition branch_fn :: "VmOp \<Rightarrow> VmFn" where
  "branch_fn o1 = ident_fn\<lparr>code := [\<lparr>op = OP_LOAD_LOCAL, opa = 0\<rparr>, \<lparr>op = o1, opa = 4\<rparr>, \<lparr>op = OP_POP, opa = 0\<rparr>,
     \<lparr>op = OP_PUSH_CONST, opa = 5\<rparr>, \<lparr>op = OP_RET, opa = 0\<rparr>, \<lparr>op = OP_PUSH_CONST, opa = 0\<rparr>, \<lparr>op = OP_RET, opa = 0\<rparr>]\<rparr>"

lemma branch_builds:
  "c0_build all_mem and_src = Some (Inr [branch_fn OP_JUMP_IF_FALSE_KEEP])"
  "c0_build all_mem or_src = Some (Inr [branch_fn OP_JUMP_IF_TRUE_KEEP])"
  by code_simp+

lemma branch_exec:
  assumes "o1 = OP_JUMP_IF_FALSE_KEEP \<and> (jump \<longleftrightarrow> v = 0) \<or> o1 = OP_JUMP_IF_TRUE_KEEP \<and> (jump \<longleftrightarrow> v \<noteq> 0)"
  shows "vm_exec True (Some [branch_fn o1]) 0 [v] 0 (Some 0) =
    Some (Inr (\<lparr>res_val = (if jump then v else 5), sp_at_ret = 1\<rparr>, None, if jump then 3 else 5))"
proof (rule vm_exec_small [where n = "Suc (Suc (Suc (Suc (Suc 0))))"])
  fix ctx :: LinVmContext and x assume a: "step_limit ctx = LIN_VM_STEP_LIMIT" "store_ok x"
  have l: "length x = 193" "length (stack (x ! 0)) = 256" "(5 :: u64) \<le> step_limit ctx"
    using a store_ok_nth [OF a(2), of 0] small_steps [of 5] by (simp_all add: store_ok_def frame_ok_def lin_limits)
  show "\<exists>y. vm_call (Suc (Suc (Suc (Suc (Suc 0))))) ctx [branch_fn o1] 0 [v] 0 (x, 0) =
      Some (Inr (\<lparr>res_val = (if jump then v else 5), sp_at_ret = 1\<rparr>, y, if jump then 3 else 5))"
    using limit_steps [OF a(1)] l assms
    by (elim disjE conjE; cases jump; simp add: vm_call_def vm_call_with_def vm_enter_def vm_init_frame_def branch_fn_def ident_fn_def
        vm_loop_ins vm_ins_def vm_push_def vm_need_def vm_local_def lin_limits)
qed simp

section \<open>Properties\<close>

text \<open>
  C25: the kernel text and its buffer. While the comment line with the name of the function
  leaves room, the lowering never writes outside its buffer of 8192 bytes and never cuts the
  text: it succeeds with the header, the text of every instruction and the closing brace, or,
  when header and instructions reach 8092 bytes, it fails. A function whose name fills the
  buffer makes it write behind the buffer at its first instruction.
\<close>
theorem gpu_lowering_bounds:
  assumes "nm = cstr (fn_name f)" "header = gpu_header nm" "body = gpu_text (code f)" "code f \<noteq> []"
  shows "(length header < 8092 \<longrightarrow>
      fst (lower_unary_fn_to_opencl f 8192) =
        (if length (header @ body) < 8092 then LowText (header @ body @ out_lines [''}'']) else LowFull)) \<and>
    (8192 \<le> length nm \<and> gpu_ins (hd (code f)) \<noteq> None \<longrightarrow> fst (lower_unary_fn_to_opencl f 8192) = LowOver)"
proof (intro conjI impI)
  assume "length header < 8092"
  then show "fst (lower_unary_fn_to_opencl f 8192) =
      (if length (header @ body) < 8092 then LowText (header @ body @ out_lines [''}'']) else LowFull)"
    using gpu_code_exact [of header "code f"] gpu_header_buffer [of nm] assms
    by (simp add: lower_unary_fn_to_opencl_def Let_def del: gpu_snprintf.simps)
next
  assume n: "8192 \<le> length nm \<and> gpu_ins (hd (code f)) \<noteq> None"
  then have "8192 < length header" by (simp add: assms(2) gpu_header_def length_out_lines)
  moreover obtain i "is" s where "code f = i # is" "gpu_ins i = Some s" using n assms(4) by (cases "code f") auto
  ultimately show "fst (lower_unary_fn_to_opencl f 8192) = LowOver"
    using assms(1,2) by (simp add: lower_unary_fn_to_opencl_def Let_def)
qed

theorem gpu_lowering_bounds_witness:
  "fst (lower_unary_fn_to_opencl ident_fn 8192) =
     LowText (gpu_header ''f'' @ gpu_text (code ident_fn) @ out_lines [''}''])"
proof -
  have "length (gpu_header ''f'') < 8092" "length (gpu_header ''f'' @ gpu_text (code ident_fn)) < 8092" by code_simp+
  with gpu_lowering_bounds [of "''f''" ident_fn, OF _ refl refl] show ?thesis by (simp add: ident_fn_def cstr_def)
qed

text \<open>
  C36: the lowering drops control flow. The front-end accepts \<open>n && 5\<close> and \<open>n || 5\<close> as functions
  of one parameter; their code differs in the jump only, which has no case in the lowering, so
  both get the same kernel text, reported as lowered. The machine gives \<open>n\<close> where the jump is
  taken and 5 elsewhere, so the two functions differ on every \<open>n\<close> but 5: at least one of the two
  kernels is wrong there, whatever the device does.
\<close>
theorem gpu_lowering_drops_jumps:
  "c0_build all_mem and_src = Some (Inr [branch_fn OP_JUMP_IF_FALSE_KEEP]) \<and>
   c0_build all_mem or_src = Some (Inr [branch_fn OP_JUMP_IF_TRUE_KEEP]) \<and>
   fst (lower_unary_fn_to_opencl (branch_fn OP_JUMP_IF_FALSE_KEEP) cap) = fst (lower_unary_fn_to_opencl (branch_fn OP_JUMP_IF_TRUE_KEEP) cap) \<and>
   vm_exec True (Some [branch_fn OP_JUMP_IF_FALSE_KEEP]) 0 [v] 0 (Some 0) =
     Some (Inr (\<lparr>res_val = (if v = 0 then v else 5), sp_at_ret = 1\<rparr>, None, if v = 0 then 3 else 5)) \<and>
   vm_exec True (Some [branch_fn OP_JUMP_IF_TRUE_KEEP]) 0 [v] 0 (Some 0) =
     Some (Inr (\<lparr>res_val = (if v \<noteq> 0 then v else 5), sp_at_ret = 1\<rparr>, None, if v \<noteq> 0 then 3 else 5))"
proof (intro conjI branch_builds)
  let ?j = "\<lambda>o1. \<lparr>op = o1, opa = 4\<rparr>"
  have drop: "gpu_code cap (i1 # ?j OP_JUMP_IF_FALSE_KEEP # is) b = gpu_code cap (i1 # ?j OP_JUMP_IF_TRUE_KEEP # is) b" for i1 "is" b
    by (cases b) (simp_all add: gpu_ins_def split: option.split GpuBuf.split)
  show "fst (lower_unary_fn_to_opencl (branch_fn OP_JUMP_IF_FALSE_KEEP) cap) =
      fst (lower_unary_fn_to_opencl (branch_fn OP_JUMP_IF_TRUE_KEEP) cap)"
    unfolding lower_unary_fn_to_opencl_def Let_def fst_conv branch_fn_def by (simp add: drop del: gpu_code.simps gpu_snprintf.simps)
qed (rule branch_exec, simp)+

text \<open>
  C12: what success of \<open>gpu-verify\<close> means. If it exits with 0, then either nothing was run, because
  there is no OpenCL library, platform or device, or the module has a kernel and every kernel
  was lowered, built and agrees with the machine on all seven buffer sizes, on every input for
  which the machine gives a value.
\<close>
theorem gpu_verify_success:
  assumes "env_read E path = Some source" "c0_build (env_build E) source = Some (Inr md)"
    "c0_gpu_verify E C path = Some (GpuDone out err 0)"
  shows "opencl_load C = None \<or> cl_platforms C = [] \<or> (\<exists>p. gpu_platform (cl_platforms C) = Some p \<and> \<not> cl_gpu C p \<and> \<not> cl_any C p) \<or>
    (\<exists>fi < length md. gpu_unary (md ! fi)) \<and>
    (\<forall>fi < length md. gpu_unary (md ! fi) \<longrightarrow> gpu_confirmed (env_frames E) C md fi)"
proof (cases "opencl_load C \<noteq> None \<and> cl_platforms C \<noteq> []")
  case True
  with assms obtain lib p where p: "gpu_platform (cl_platforms C) = Some p"
    "gpu_device (env_frames E) C lib path md p = Some (GpuDone out err 0)"
    by (auto simp: c0_gpu_verify_def split: if_splits option.splits)
  show ?thesis
  proof (cases "\<not> cl_gpu C p \<and> \<not> cl_any C p")
    case False
    let ?u = "filter (\<lambda>fi. gpu_unary (md ! fi)) [0..<length md]"
    from p(2) False obtain banner where "gpu_kernels (env_frames E) C path md banner = Some (GpuDone out err 0)"
      by (auto simp: gpu_device_def split: if_splits prod.splits)
    then obtain o1 k where k: "gpu_fns (env_frames E) C path md ?u = Some (Inr (o1, err, k))" "?u \<noteq> []" "k = length ?u * 7"
      by (auto simp: gpu_kernels_def Let_def split: option.splits sum.splits GpuStop.splits if_splits)
    from gpu_fns_confirmed [OF k(1)] k(3) have "\<forall>fi \<in> set ?u. gpu_confirmed (env_frames E) C md fi" by simp
    with k(2) show ?thesis by (auto simp: filter_empty_conv)
  qed (use p in auto)
qed (use assms in auto)

text \<open>A device that copies its input runs the kernel of the identity.\<close>

definition copy_cl :: ClEnv where
  "copy_cl = \<lparr>cl_fread = True, cl_dlopen = \<lambda>_. True, cl_dlsym = \<lambda>_ _. True, cl_platforms = [''AMD''], cl_gpu = \<lambda>_. True, cl_any = \<lambda>_. True, cl_device = \<lambda>_. ''gfx'',
     cl_context = (0, True), cl_queue2 = (-30, False), cl_queue1 = (0, True), cl_source = \<lambda>_. 0, cl_build = \<lambda>_. 0, cl_log = \<lambda>_. [],
     cl_kernel = \<lambda>_. 0, cl_run = \<lambda>_ _ inp. inp, cl_junk = \<lambda>_ _ _. 0\<rparr>"

lemma ucast_scast_32: "(ucast (scast x :: i64) :: u32) = x"
  by (rule bit_word_eqI) (auto simp: bit_simps)

lemma ident_oracle: "gpu_oracle True C [ident_fn] 0 n i k = Some (Inr (map fibonacci_prng [i..<i + k]))"
proof (induction k arbitrary: i)
  case (Suc k)
  have "[i..<i + Suc k] = i # [Suc i..<Suc i + k]" by (simp add: upt_conv_Cons del: upt_Suc)
  with Suc [of "Suc i"] show ?case by (simp add: ident_exec ucast_scast_32 del: upt_Suc)
qed simp

lemma ident_sizes: "\<exists>out. gpu_sizes True copy_cl [ident_fn] 0 tx ss = Some (Inr (out, length ss))"
proof (induction ss)
  case (Cons s ss)
  have "find (\<lambda>i. cl_run copy_cl tx n fibonacci_prng i \<noteq> map fibonacci_prng [0..<n] ! i) [0..<n] = None" for n
    by (simp add: find_None_iff copy_cl_def)
  with Cons show ?case by (auto simp: gpu_size_def Let_def ident_oracle)
qed simp

theorem gpu_verify_success_witness:
  "gpu_confirmed True copy_cl [ident_fn] 0"
proof -
  have b: "c0_build (env_build ident_env) ident_src = Some (Inr [ident_fn])" using ident_build by (simp add: ident_env_def c0_build_def)
  have r: "env_read ident_env ''f.lin'' = Some ident_src" by (simp add: ident_env_def)
  have len: "length (gpu_header ''f'') < 8092" "length (gpu_header ''f'' @ gpu_text (code ident_fn)) < 8092" by code_simp+
  let ?tx = "gpu_header ''f'' @ gpu_text (code ident_fn) @ out_lines [''}'']"
  have "gpu_code 8192 (code ident_fn) (gpu_snprintf 8192 (gpu_header ''f'') (GBuf [] 0)) = LowText ?tx"
    using gpu_code_exact [OF len(1), of "code ident_fn"] gpu_header_buffer [of "''f''"] len by (simp del: gpu_snprintf.simps)
  then obtain sem low where low: "lower_unary_fn_to_opencl ident_fn 8192 = (LowText ?tx, sem, low)"
    by (simp add: lower_unary_fn_to_opencl_def Let_def ident_fn_def cstr_def del: gpu_snprintf.simps)
  obtain out where sz: "gpu_sizes True copy_cl [ident_fn] 0 ?tx [0..<7] = Some (Inr (out, 7))" using ident_sizes [of ?tx "[0..<7]"] by auto
  have u: "gpu_unary ident_fn" by (simp add: gpu_unary_def ident_fn_def)
  have c: "cl_source copy_cl ?tx = 0" "cl_build copy_cl ?tx = 0" "cl_kernel copy_cl ?tx = 0" by (simp_all add: copy_cl_def)
  have "\<exists>out err. gpu_fn True copy_cl ''f.lin'' [ident_fn] 0 = Some (Inr (out, err, 7))"
    using low sz c by (simp add: gpu_fn_def gpu_run_fn_def Let_def)
  then obtain o1 e1 where "gpu_fn True copy_cl ''f.lin'' [ident_fn] 0 = Some (Inr (o1, e1, 7))" by blast
  then have k: "\<exists>out err. gpu_kernels True copy_cl ''f.lin'' [ident_fn] banner = Some (GpuDone out err 0)" for banner
    using u by (simp add: gpu_kernels_def)
  have dev: "gpu_device True copy_cl lib ''f.lin'' [ident_fn] 0 = gpu_kernels True copy_cl ''f.lin'' [ident_fn] (gpu_banner ''AMD'' ''gfx'')" for lib
    by (simp add: gpu_device_def copy_cl_def gpu_queue_def)
  have o: "opencl_load copy_cl = Some ''libOpenCL.so''" by (simp add: opencl_load_def copy_cl_def)
  have p: "gpu_platform (cl_platforms copy_cl) = Some 0" by (simp add: gpu_platform_def copy_cl_def)
  have "\<exists>out err. c0_gpu_verify ident_env copy_cl ''f.lin'' = Some (GpuDone out err 0)"
    using r b k p dev o by (simp add: c0_gpu_verify_def) (simp add: ident_env_def copy_cl_def)
  then obtain o2 e2 where "c0_gpu_verify ident_env copy_cl ''f.lin'' = Some (GpuDone o2 e2 0)" by blast
  from gpu_verify_success [OF r b this] u p o show ?thesis by (auto simp: copy_cl_def ident_env_def)
qed

end
