(* ===== verification/Store_Table.thy ===== *)
theory Store_Table
  imports Lin_Common "HOL-Library.List_Lexorder"
begin

text \<open>
  The sorted table of \<open>transpile/c/store_c0/store_c0.c\<close>: result codes, limits,
  \<open>key_compare\<close> and the \<open>memtable_*\<close> functions on a strictly sorted array of entries.

  \<^item> A key with its length is a byte list; \<open>memcmp\<close> is the sign of the first difference.
  \<^item> A call that allocates takes a flag that says whether all its allocations succeed; the
    capacity of the array has no other effect.
  \<^item> \<open>kv_table\<close> is what the log and the store rely on: a table with an invariant and its
    finite map; it is interpreted on the \<open>memtable_*\<close> functions.
\<close>

section \<open>Results and limits\<close>

datatype StoreResult =
    STORE_OK | STORE_ERR_INVALID_ARG | STORE_ERR_NOT_FOUND | STORE_ERR_LIMIT_KEY | STORE_ERR_LIMIT_VAL
  | STORE_ERR_LIMIT_WAL | STORE_ERR_IO | STORE_ERR_LOCKED | STORE_ERR_CORRUPT | STORE_ERR_CHK_MISMATCH
  | STORE_ERR_NOMEM

definition STORE_PAGE_SIZE :: u32 where "STORE_PAGE_SIZE = 4096"
definition STORE_MAX_KEY_LEN :: nat where "STORE_MAX_KEY_LEN = 1024"
definition STORE_MAX_VAL_LEN :: nat where "STORE_MAX_VAL_LEN = 1024 * 1024"
definition STORE_MAX_WAL_SIZE :: nat where "STORE_MAX_WAL_SIZE = 1024 * 1024 * 1024"
definition STORE_OP_PUT :: u8 where "STORE_OP_PUT = 1"
definition STORE_OP_DEL :: u8 where "STORE_OP_DEL = 2"

lemmas store_limits = STORE_PAGE_SIZE_def STORE_MAX_KEY_LEN_def STORE_MAX_VAL_LEN_def STORE_MAX_WAL_SIZE_def
lemmas store_ops = STORE_OP_PUT_def STORE_OP_DEL_def

section \<open>Keys\<close>

fun memcmp :: "bytes \<Rightarrow> bytes \<Rightarrow> int" where
  "memcmp (a # as) (b # bs) = (if a < b then -1 else if b < a then 1 else memcmp as bs)"
| "memcmp _ _ = 0"

definition key_compare :: "bytes \<Rightarrow> bytes \<Rightarrow> int" where
  "key_compare k1 k2 =
     (let min_len = min (length k1) (length k2);
          cmp = memcmp (take min_len k1) (take min_len k2) in
      if cmp \<noteq> 0 then cmp
      else if length k1 < length k2 then -1
      else if length k1 > length k2 then 1
      else 0)"

text \<open>\<open>memcmp\<close> and the length tests decide the lexicographic order of the bytes.\<close>

lemma key_compare_Cons:
  "key_compare (a # as) (b # bs) = (if a < b then -1 else if b < a then 1 else key_compare as bs)"
  by (auto simp: key_compare_def Let_def)

lemma key_compare_order:
  "key_compare k1 k2 = (if k1 < k2 then -1 else if k1 = k2 then 0 else 1)"
proof (induction k1 arbitrary: k2)
  case Nil
  then show ?case by (cases k2) (auto simp: key_compare_def)
next
  case (Cons a k1)
  show ?case
  proof (cases k2)
    case Nil
    then show ?thesis by (simp add: key_compare_def)
  next
    case (Cons b k)
    with Cons.IH [of k] show ?thesis by (auto simp: key_compare_Cons)
  qed
qed

section \<open>The table\<close>

record MemEntry =
  me_key :: bytes
  me_val :: bytes

type_synonym MemTable = "MemEntry list"

definition memtable_init :: MemTable where
  "memtable_init = []"

function find_between :: "MemTable \<Rightarrow> bytes \<Rightarrow> nat \<Rightarrow> nat \<Rightarrow> bool \<times> nat" where
  "find_between mt key low high =
     (if low < high then
        let mid = low + (high - low) div 2; cmp = key_compare (me_key (mt ! mid)) key in
        if cmp = 0 then (True, mid)
        else if cmp < 0 then find_between mt key (mid + 1) high
        else find_between mt key low mid
      else (False, low))"
  by pat_completeness auto
termination
  by (relation "measure (\<lambda>(mt, key, low, high). high - low)") auto

declare find_between.simps [simp del]

definition memtable_find :: "MemTable \<Rightarrow> bytes \<Rightarrow> bool \<times> nat" where
  "memtable_find mt key = find_between mt key 0 (length mt)"

definition memtable_put :: "bool \<Rightarrow> MemTable \<Rightarrow> bytes \<Rightarrow> bytes \<Rightarrow> StoreResult \<times> MemTable" where
  "memtable_put mem mt key v =
     (let (found, idx) = memtable_find mt key in
      if \<not> mem then (STORE_ERR_NOMEM, mt)
      else if found then (STORE_OK, mt[idx := (mt ! idx)\<lparr>me_val := v\<rparr>])
      else (STORE_OK, take idx mt @ \<lparr>me_key = key, me_val = v\<rparr> # drop idx mt))"

definition memtable_del :: "MemTable \<Rightarrow> bytes \<Rightarrow> StoreResult \<times> MemTable" where
  "memtable_del mt key =
     (let (found, idx) = memtable_find mt key in
      if \<not> found then (STORE_ERR_NOT_FOUND, mt)
      else (STORE_OK, take idx mt @ drop (idx + 1) mt))"

section \<open>Binary search\<close>

definition table_ok :: "MemTable \<Rightarrow> bool" where
  "table_ok mt = sorted_wrt (<) (map me_key mt)"

lemma table_okD: "table_ok mt \<Longrightarrow> i < j \<Longrightarrow> j < length mt \<Longrightarrow> me_key (mt ! i) < me_key (mt ! j)"
  by (simp add: table_ok_def sorted_wrt_iff_nth_less)

lemma find_between_correct:
  "table_ok mt \<Longrightarrow> low \<le> high \<Longrightarrow> high \<le> length mt \<Longrightarrow>
   (\<And>i. i < low \<Longrightarrow> me_key (mt ! i) < key) \<Longrightarrow> (\<And>i. high \<le> i \<Longrightarrow> i < length mt \<Longrightarrow> key < me_key (mt ! i)) \<Longrightarrow>
   find_between mt key low high = (found, idx) \<Longrightarrow>
   if found then idx < length mt \<and> me_key (mt ! idx) = key
   else idx \<le> length mt \<and> (\<forall>i < idx. me_key (mt ! i) < key) \<and> (\<forall>i. idx \<le> i \<longrightarrow> i < length mt \<longrightarrow> key < me_key (mt ! i))"
proof (induction mt key low high rule: find_between.induct)
  case (1 mt key low high)
  show ?case
  proof (cases "low < high")
    case False
    then have "found = False" "idx = low" "low = high" using 1(4,8) find_between.simps [of mt key low high] by auto
    then show ?thesis using 1(5-7) by simp
  next
    case True
    let ?mid = "low + (high - low) div 2"
    have mid: "low \<le> ?mid" "?mid < high" "?mid < length mt" using True 1(5) by auto
    consider "me_key (mt ! ?mid) = key" | "me_key (mt ! ?mid) < key" | "key < me_key (mt ! ?mid)"
      using less_linear by blast
    then show ?thesis
    proof cases
      assume "me_key (mt ! ?mid) = key"
      then show ?thesis using 1(8) True mid
        by (auto simp: find_between.simps [of mt key low high] key_compare_order Let_def)
    next
      assume l: "me_key (mt ! ?mid) < key"
      have "find_between mt key (?mid + 1) high = (found, idx)"
        using 1(8) True l by (simp add: find_between.simps [of mt key low high] key_compare_order Let_def)
      moreover have "me_key (mt ! i) < key" if "i < ?mid + 1" for i
        using that l table_okD [OF 1(3), of i ?mid] mid(3) by (cases "i = ?mid") auto
      ultimately show ?thesis using True l mid 1(3,5,7)
        by (intro 1(1) [OF True refl refl]) (auto simp: key_compare_order)
    next
      assume g: "key < me_key (mt ! ?mid)"
      then have ng: "\<not> me_key (mt ! ?mid) < key" "me_key (mt ! ?mid) \<noteq> key" by (auto dest: less_not_sym)
      have "find_between mt key low ?mid = (found, idx)"
        using 1(8) True ng by (simp add: find_between.simps [of mt key low high] key_compare_order Let_def)
      moreover have "key < me_key (mt ! i)" if "?mid \<le> i" "i < length mt" for i
        using that g table_okD [OF 1(3), of ?mid i] by (cases "i = ?mid") auto
      ultimately show ?thesis using True ng mid 1(3,6)
        by (intro 1(2) [OF True refl refl]) (auto simp: key_compare_order)
    qed
  qed
qed

lemma memtable_find_correct:
  assumes "table_ok mt" "memtable_find mt key = (found, idx)"
  shows "found \<Longrightarrow> idx < length mt \<and> me_key (mt ! idx) = key"
    "\<not> found \<Longrightarrow> list_all (\<lambda>e. me_key e < key) (take idx mt) \<and> list_all (\<lambda>e. key < me_key e) (drop idx mt)"
  using find_between_correct [OF assms(1) _ _ _ _ assms(2) [unfolded memtable_find_def]]
  by (auto simp: list_all_length split: if_splits)

section \<open>The finite map of a table\<close>

definition table_map :: "MemTable \<Rightarrow> (bytes \<rightharpoonup> bytes)" where
  "table_map mt = map_of (map (\<lambda>e. (me_key e, me_val e)) mt)"

lemma table_map_append: "table_map (xs @ ys) = table_map ys ++ table_map xs"
  by (simp add: table_map_def)

lemma table_map_None: "table_map mt k = None \<longleftrightarrow> k \<notin> me_key ` set mt"
  by (auto simp: table_map_def map_of_eq_None_iff image_iff)

lemma table_map_middle:
  assumes "k \<notin> me_key ` set xs" "me_key e = k"
  shows "table_map (xs @ e # ys) = (table_map (xs @ ys))(k \<mapsto> me_val e)"
proof -
  have "table_map xs k = None" using assms(1) by (simp add: table_map_None)
  then show ?thesis unfolding table_map_append
    by (auto simp: table_map_def assms(2) map_add_def fun_eq_iff split: option.split)
qed

lemma table_ok_append:
  "table_ok (xs @ ys) \<longleftrightarrow> table_ok xs \<and> table_ok ys \<and> (\<forall>x \<in> set xs. \<forall>y \<in> set ys. me_key x < me_key y)"
  by (auto simp: table_ok_def sorted_wrt_append)

lemma table_ok_Cons: "table_ok (e # ys) \<longleftrightarrow> table_ok ys \<and> (\<forall>y \<in> set ys. me_key e < me_key y)"
  by (auto simp: table_ok_def)

lemma table_ok_middle:
  "table_ok (xs @ e # ys) \<Longrightarrow> table_ok (xs @ ys) \<and> me_key e \<notin> me_key ` set xs \<and> me_key e \<notin> me_key ` set ys"
  by (auto simp: table_ok_append table_ok_Cons)

lemma split_found:
  assumes "table_ok mt" "memtable_find mt key = (True, idx)"
  obtains xs e ys where "mt = xs @ e # ys" "idx = length xs" "me_key e = key"
proof -
  have "idx < length mt" "me_key (mt ! idx) = key" using memtable_find_correct(1) [OF assms] by simp_all
  then show ?thesis using that [of "take idx mt" "mt ! idx" "drop (Suc idx) mt"] by (simp add: id_take_nth_drop [symmetric])
qed

lemma memtable_get:
  assumes "table_ok mt" "memtable_find mt key = (found, idx)"
  shows "table_map mt key = (if found then Some (me_val (mt ! idx)) else None)"
proof (cases found)
  case True
  with assms obtain xs e ys where m: "mt = xs @ e # ys" "idx = length xs" "me_key e = key"
    using split_found [OF assms(1), of key idx] by auto
  then show ?thesis using True table_ok_middle [of xs e ys] assms(1) table_map_middle [of key xs e ys] by simp
next
  case False
  from memtable_find_correct(2) [OF assms False] have "key \<notin> me_key ` set (take idx mt @ drop idx mt)"
    unfolding set_append list_all_iff by auto
  then have "key \<notin> me_key ` set mt" by simp
  with False show ?thesis using table_map_None [of mt key] by simp
qed

lemma memtable_put_result: "fst (memtable_put mem mt key v) = (if mem then STORE_OK else STORE_ERR_NOMEM)"
  by (simp add: memtable_put_def split: prod.split)

lemma memtable_put_correct:
  assumes "table_ok mt"
  shows "table_ok (snd (memtable_put True mt key v))" "table_map (snd (memtable_put True mt key v)) = (table_map mt)(key \<mapsto> v)"
proof -
  obtain found idx where f: "memtable_find mt key = (found, idx)" by fastforce
  have "table_ok (snd (memtable_put True mt key v)) \<and> table_map (snd (memtable_put True mt key v)) = (table_map mt)(key \<mapsto> v)"
  proof (cases found)
    case True
    with assms f obtain xs e ys where m: "mt = xs @ e # ys" "idx = length xs" "me_key e = key"
      using split_found [OF assms, of key idx] by auto
    have p: "snd (memtable_put True mt key v) = xs @ e\<lparr>me_val := v\<rparr> # ys"
      using True f m by (simp add: memtable_put_def list_update_append)
    have "key \<notin> me_key ` set xs" using table_ok_middle [of xs e ys] assms m by simp
    then show ?thesis unfolding p using assms m
      by (simp add: table_map_middle table_ok_append table_ok_Cons)
  next
    case False
    let ?e = "\<lparr>me_key = key, me_val = v\<rparr>"
    note c = memtable_find_correct(2) [OF assms f False]
    have p: "snd (memtable_put True mt key v) = take idx mt @ ?e # drop idx mt"
      using False f by (simp add: memtable_put_def)
    have "table_ok (take idx mt @ drop idx mt)" using assms by simp
    then have "table_ok (take idx mt @ ?e # drop idx mt)"
      using c unfolding table_ok_append table_ok_Cons by (auto simp: list_all_iff)
    moreover have "key \<notin> me_key ` set (take idx mt)" using c by (auto simp: list_all_iff)
    ultimately show ?thesis unfolding p by (simp add: table_map_middle)
  qed
  then show "table_ok (snd (memtable_put True mt key v))" "table_map (snd (memtable_put True mt key v)) = (table_map mt)(key \<mapsto> v)"
    by simp_all
qed

lemma memtable_del_correct:
  assumes "table_ok mt"
  shows "table_ok (snd (memtable_del mt key))" "table_map (snd (memtable_del mt key)) = (table_map mt)(key := None)"
    "fst (memtable_del mt key) = (if table_map mt key = None then STORE_ERR_NOT_FOUND else STORE_OK)"
proof -
  obtain found idx where f: "memtable_find mt key = (found, idx)" by fastforce
  have "table_ok (snd (memtable_del mt key)) \<and> table_map (snd (memtable_del mt key)) = (table_map mt)(key := None) \<and>
    fst (memtable_del mt key) = (if table_map mt key = None then STORE_ERR_NOT_FOUND else STORE_OK)"
  proof (cases found)
    case True
    with assms f obtain xs e ys where m: "mt = xs @ e # ys" "idx = length xs" "me_key e = key"
      using split_found [OF assms, of key idx] by auto
    have p: "memtable_del mt key = (STORE_OK, xs @ ys)" using True f m by (simp add: memtable_del_def)
    note k = table_ok_middle [of xs e ys]
    have "table_map (xs @ ys) key = None" using k assms m by (auto simp: table_map_None)
    then show ?thesis unfolding p using assms m k table_map_middle [of key xs e ys] by (simp add: fun_upd_idem)
  next
    case False
    then have "table_map mt key = None" using memtable_get [OF assms f] by simp
    then show ?thesis using False f assms by (simp add: memtable_del_def fun_upd_idem)
  qed
  then show "table_ok (snd (memtable_del mt key))" "table_map (snd (memtable_del mt key)) = (table_map mt)(key := None)"
    "fst (memtable_del mt key) = (if table_map mt key = None then STORE_ERR_NOT_FOUND else STORE_OK)" by simp_all
qed

lemma table_canonical:
  assumes "table_ok mt" "table_ok mt'" "table_map mt = table_map mt'"
  shows "mt = mt'"
proof -
  have "k \<in> set (map me_key mt) \<longleftrightarrow> k \<in> set (map me_key mt')" for k
    using table_map_None [of mt k] table_map_None [of mt' k] assms(3) by simp
  then have k: "map me_key mt = map me_key mt'"
    using assms(1,2) by (intro strict_sorted_equal) (auto simp: table_ok_def)
  have v: "table_map t (me_key (t ! i)) = Some (me_val (t ! i))" if "table_ok t" "i < length t" for t i
  proof -
    have "distinct (map me_key t)" using that(1) by (simp add: table_ok_def strict_sorted_iff)
    moreover have "(me_key (t ! i), me_val (t ! i)) \<in> set (map (\<lambda>e. (me_key e, me_val e)) t)" using that(2) by auto
    ultimately show ?thesis unfolding table_map_def by (intro map_of_is_SomeI) (simp_all add: comp_def)
  qed
  show ?thesis
  proof (rule nth_equalityI)
    show l: "length mt = length mt'" using arg_cong [OF k, of length] by simp
    fix i assume i: "i < length mt"
    with k l have "me_key (mt ! i) = me_key (mt' ! i)" by (metis nth_map)
    moreover from this have "me_val (mt ! i) = me_val (mt' ! i)"
      using v [OF assms(1) i] v [of mt' i] assms(2,3) i l by simp
    ultimately show "mt ! i = mt' ! i" by simp
  qed
qed

section \<open>The interface of the table\<close>

text \<open>
  A table of keys and values that is determined by its finite map. An operation is a key
  with the value it gets, or \<open>None\<close> when it is deleted.
\<close>

locale kv_table =
  fixes put :: "'t \<Rightarrow> bytes \<Rightarrow> bytes \<Rightarrow> 't" and del :: "'t \<Rightarrow> bytes \<Rightarrow> 't"
    and ok :: "'t \<Rightarrow> bool" and abs :: "'t \<Rightarrow> (bytes \<rightharpoonup> bytes)" and init :: 't
  assumes init_ok: "ok init" and init_abs: "abs init = Map.empty"
    and put_ok: "ok t \<Longrightarrow> ok (put t k v)" and put_abs: "ok t \<Longrightarrow> abs (put t k v) = (abs t)(k \<mapsto> v)"
    and del_ok: "ok t \<Longrightarrow> ok (del t k)" and del_abs: "ok t \<Longrightarrow> abs (del t k) = (abs t)(k := None)"
    and canonical: "ok t \<Longrightarrow> ok t' \<Longrightarrow> abs t = abs t' \<Longrightarrow> t = t'"
begin

definition step :: "bytes \<times> bytes option \<Rightarrow> 't \<Rightarrow> 't" where
  "step x t = (case snd x of Some v \<Rightarrow> put t (fst x) v | None \<Rightarrow> del t (fst x))"

lemma step_ok: "ok t \<Longrightarrow> ok (step x t)"
  by (simp add: step_def put_ok del_ok split: option.split)

lemma step_abs: "ok t \<Longrightarrow> abs (step x t) = (abs t)(fst x := snd x)"
  by (simp add: step_def put_abs del_abs split: option.split)

lemma run_ok: "ok t \<Longrightarrow> ok (fold step xs t)"
  by (induction xs arbitrary: t) (simp_all add: step_ok)

lemma run_abs: "ok t \<Longrightarrow> abs (fold step xs t) = fold (\<lambda>x m. m(fst x := snd x)) xs (abs t)"
  by (induction xs arbitrary: t) (simp_all add: step_ok step_abs)

lemma run_unique:
  "fold (\<lambda>x m. m(fst x := snd x)) xs Map.empty = fold (\<lambda>x m. m(fst x := snd x)) ys Map.empty \<Longrightarrow>
   fold step xs init = fold step ys init"
  by (intro canonical run_ok init_ok) (simp add: run_abs init_ok init_abs)

end

lemma memtable_init_correct: "table_ok memtable_init" "table_map memtable_init = Map.empty"
  by (simp_all add: memtable_init_def table_ok_def table_map_def)

interpretation mt: kv_table "\<lambda>t k v. snd (memtable_put True t k v)" "\<lambda>t k. snd (memtable_del t k)" table_ok table_map memtable_init
  by unfold_locales (simp_all add: memtable_init_correct memtable_put_correct memtable_del_correct table_canonical)

section \<open>Properties\<close>

text \<open>
  C29: the table implements a finite map. On a strictly sorted table the binary search finds
  exactly the keys of the map with their values; a put and a delete keep it strictly sorted
  and update the map at that key only, a delete reporting whether the key was there; a put
  without memory changes nothing; and a table is determined by its map.
\<close>
theorem memtable_refines_map:
  assumes "table_ok mt"
  shows "(case memtable_find mt key of (found, idx) \<Rightarrow> table_map mt key = (if found then Some (me_val (mt ! idx)) else None)) \<and>
    (\<exists>mt'. memtable_put True mt key v = (STORE_OK, mt') \<and> table_ok mt' \<and> table_map mt' = (table_map mt)(key \<mapsto> v)) \<and>
    memtable_put False mt key v = (STORE_ERR_NOMEM, mt) \<and>
    (\<exists>mt'. memtable_del mt key = (if table_map mt key = None then STORE_ERR_NOT_FOUND else STORE_OK, mt') \<and>
       table_ok mt' \<and> table_map mt' = (table_map mt)(key := None)) \<and>
    (\<forall>mt'. table_ok mt' \<and> table_map mt' = table_map mt \<longrightarrow> mt' = mt)"
proof (intro conjI allI impI)
  show "case memtable_find mt key of (found, idx) \<Rightarrow> table_map mt key = (if found then Some (me_val (mt ! idx)) else None)"
    using memtable_get [OF assms, of key] by (auto split: prod.split)
  show "\<exists>mt'. memtable_put True mt key v = (STORE_OK, mt') \<and> table_ok mt' \<and> table_map mt' = (table_map mt)(key \<mapsto> v)"
    using memtable_put_correct [OF assms, of key v] memtable_put_result [of True mt key v]
    by (intro exI [of _ "snd (memtable_put True mt key v)"]) (simp add: prod_eq_iff)
  show "memtable_put False mt key v = (STORE_ERR_NOMEM, mt)" by (simp add: memtable_put_def split: prod.split)
  show "\<exists>mt'. memtable_del mt key = (if table_map mt key = None then STORE_ERR_NOT_FOUND else STORE_OK, mt') \<and>
       table_ok mt' \<and> table_map mt' = (table_map mt)(key := None)"
    using memtable_del_correct [OF assms, of key]
    by (intro exI [of _ "snd (memtable_del mt key)"]) (simp add: prod_eq_iff)
  show "mt' = mt" if "table_ok mt' \<and> table_map mt' = table_map mt" for mt'
    using that assms table_canonical by blast
qed

theorem memtable_refines_map_witness:
  "memtable_put False [\<lparr>me_key = [1], me_val = [2]\<rparr>] [3] [4] = (STORE_ERR_NOMEM, [\<lparr>me_key = [1], me_val = [2]\<rparr>])"
proof -
  have "table_ok [\<lparr>me_key = [1], me_val = [2]\<rparr>]" by (simp add: table_ok_def)
  from memtable_refines_map [OF this, of "[3]" "[4]"] show ?thesis by blast
qed

end
