(* ===== verification/Store_Wal.thy ===== *)
theory Store_Wal
  imports Store_Table Lin_Codec Lin_Sha256
begin

text \<open>
  The write-ahead log of \<open>transpile/c/store_c0/store_c0.c\<close>: the little-endian fields, the
  header, the frame of an operation as \<open>store_commit\<close> writes it, and
  \<open>recover_and_replay_wal\<close> with every check of a frame and the truncation of a bad tail.

  \<^item> The log is the list of its bytes; the part still to be read is a suffix of it.
  \<^item> \<open>WalIo\<close> says which system calls succeed. A \<open>pread\<close> returns all bytes there are, or
    fails with \<open>-1\<close>, which the code does not tell from a short read.
  \<^item> Sizes and offsets stay below 1 GiB and are natural numbers; the fields of a frame and the sum
    that is compared with its length are words of the width they have in C.
\<close>

section \<open>Fields\<close>

definition write_u16_le :: "u16 \<Rightarrow> bytes" where "write_u16_le v = le_bytes 2 v"
definition write_u32_le :: "u32 \<Rightarrow> bytes" where "write_u32_le v = le_bytes 4 v"
definition write_u64_le :: "u64 \<Rightarrow> bytes" where "write_u64_le v = le_bytes 8 v"
definition read_u16_le :: "bytes \<Rightarrow> u16" where "read_u16_le p = le_value 2 p"
definition read_u32_le :: "bytes \<Rightarrow> u32" where "read_u32_le p = le_value 4 p"
definition read_u64_le :: "bytes \<Rightarrow> u64" where "read_u64_le p = le_value 8 p"

lemma read_write_le [simp]:
  "read_u16_le (write_u16_le a @ bs) = a" "read_u32_le (write_u32_le b @ bs) = b" "read_u64_le (write_u64_le c @ bs) = c"
  by (simp_all add: read_u16_le_def write_u16_le_def read_u32_le_def write_u32_le_def read_u64_le_def write_u64_le_def le_value_bytes)

lemma length_write_le [simp]:
  "length (write_u16_le a) = 2" "length (write_u32_le b) = 4" "length (write_u64_le c) = 8"
  by (simp_all add: write_u16_le_def write_u32_le_def write_u64_le_def)

definition STORE_MAGIC_WAL :: bytes where "STORE_MAGIC_WAL = bytes_of_string ''STRW''"

definition wal_header :: bytes where
  "wal_header = STORE_MAGIC_WAL @ write_u16_le 1 @ write_u32_le STORE_PAGE_SIZE @ write_u16_le 0"

section \<open>Frames\<close>

record StagedOp =
  so_op :: u8
  so_key :: bytes
  so_val :: bytes

definition frame_sum :: "bytes \<Rightarrow> bytes" where
  "frame_sum body = lin_sha256_final (lin_sha256_update (lin_sha256_init raw_ctx) body)"

definition frame_len :: "StagedOp \<Rightarrow> u32" where
  "frame_len sop = 1 + 2 + 4 + of_nat (length (so_key sop)) + of_nat (length (so_val sop)) + 32"

definition frame_body :: "StagedOp \<Rightarrow> bytes" where
  "frame_body sop = [so_op sop] @ write_u16_le (of_nat (length (so_key sop))) @ write_u32_le (of_nat (length (so_val sop))) @
     so_key sop @ so_val sop"

definition frame_bytes :: "StagedOp \<Rightarrow> bytes" where
  "frame_bytes sop = write_u32_le (frame_len sop) @ frame_body sop @ frame_sum (frame_body sop)"

text \<open>
  The checks of a frame body of \<open>flen\<close> bytes, in the order of the code; each failure truncates
  the log at the start of the frame.
\<close>

definition parse_frame :: "bytes \<Rightarrow> u32 \<Rightarrow> StagedOp option" where
  "parse_frame buf1 flen =
     (let op1 = buf1 ! 0; klen = read_u16_le (drop 1 buf1); vlen = read_u32_le (drop 3 buf1);
          nk = unat klen; nv = unat vlen in
      if 7 + ucast klen + vlen + 32 \<noteq> flen then None
      else if op1 \<noteq> STORE_OP_PUT \<and> op1 \<noteq> STORE_OP_DEL then None
      else if klen = 0 \<or> nk > STORE_MAX_KEY_LEN \<or> nv > STORE_MAX_VAL_LEN then None
      else if op1 = STORE_OP_DEL \<and> vlen \<noteq> 0 then None
      else if frame_sum (take (7 + nk + nv) buf1) \<noteq> take 32 (drop (7 + nk + nv) buf1) then None
      else Some \<lparr>so_op = op1, so_key = take nk (drop 7 buf1), so_val = take nv (drop (7 + nk) buf1)\<rparr>)"

section \<open>Replay\<close>

text \<open>Which calls succeed: \<open>io_len k\<close> .. \<open>io_put k\<close> are those for the frame with index
  \<open>k\<close>, \<open>io_head_write\<close> the number of header bytes written.\<close>

record WalIo =
  io_stat :: bool
  io_head_write :: nat
  io_head_sync :: bool
  io_head_read :: bool
  io_len :: "nat \<Rightarrow> bool"
  io_buf :: "nat \<Rightarrow> bool"
  io_body :: "nat \<Rightarrow> bool"
  io_put :: "nat \<Rightarrow> bool"
  io_truncate :: bool

text \<open>
  The loop from the frame \<open>k\<close> at \<open>off\<close>: an error, or the table, the end of the last good
  frame, the number of frames and whether the log is truncated there.
\<close>

function replay_from :: "WalIo \<Rightarrow> nat \<Rightarrow> bytes \<Rightarrow> MemTable \<Rightarrow> nat \<Rightarrow> StoreResult + (MemTable \<times> nat \<times> nat \<times> bool)" where
  "replay_from io k rest mt off =
     (if rest = [] then Inr (mt, off, k, False)
      else if \<not> io_len io k \<or> length rest < 4 then Inr (mt, off, k, True)
      else let flen = read_u32_le rest; n = unat flen; buf1 = take n (drop 4 rest) in
      if n < 39 \<or> n > STORE_MAX_KEY_LEN + STORE_MAX_VAL_LEN + 39 then Inr (mt, off, k, True)
      else if \<not> io_buf io k then Inl STORE_ERR_NOMEM
      else if \<not> io_body io k \<or> length buf1 < n then Inr (mt, off, k, True)
      else case parse_frame buf1 flen of
        None \<Rightarrow> Inr (mt, off, k, True)
      | Some sop \<Rightarrow>
        if so_op sop = STORE_OP_PUT then
          let (res, mt') = memtable_put (io_put io k) mt (so_key sop) (so_val sop) in
          if res \<noteq> STORE_OK then Inl res else replay_from io (Suc k) (drop (4 + n) rest) mt' (off + 4 + n)
        else replay_from io (Suc k) (drop (4 + n) rest) (snd (memtable_del mt (so_key sop))) (off + 4 + n))"
  by pat_completeness auto
termination
  by (relation "measure (\<lambda>(io, k, rest, mt, off). length rest)") auto

declare replay_from.simps [simp del]

text \<open>The header of a new log; a failing \<open>pwrite\<close> may leave the first bytes of it.\<close>

definition write_wal_header :: "WalIo \<Rightarrow> (StoreResult + (MemTable \<times> nat \<times> nat)) \<times> bytes" where
  "write_wal_header io =
     (let wal = take (io_head_write io) wal_header in
      if length wal \<noteq> 12 \<or> \<not> io_head_sync io then (Inl STORE_ERR_IO, wal)
      else (Inr (memtable_init, 12, 0), wal))"

text \<open>\<open>recover_and_replay_wal\<close>: an error, or table, size and number of frames; and the log.\<close>

definition recover_and_replay_wal :: "WalIo \<Rightarrow> bytes \<Rightarrow> (StoreResult + (MemTable \<times> nat \<times> nat)) \<times> bytes" where
  "recover_and_replay_wal io wal =
     (if \<not> io_stat io then (Inl STORE_ERR_IO, wal)
      else if wal = [] then write_wal_header io
      else if length wal < 12 then (Inl STORE_ERR_CORRUPT, wal)
      else if \<not> io_head_read io then (Inl STORE_ERR_IO, wal)
      else if take 4 wal \<noteq> STORE_MAGIC_WAL then (Inl STORE_ERR_CORRUPT, wal)
      else if read_u16_le (drop 4 wal) \<noteq> 1 \<or> read_u32_le (drop 6 wal) \<noteq> STORE_PAGE_SIZE \<or> read_u16_le (drop 10 wal) \<noteq> 0
        then (Inl STORE_ERR_CORRUPT, wal)
      else case replay_from io 0 (drop 12 wal) memtable_init 12 of
        Inl e \<Rightarrow> (Inl e, wal)
      | Inr (mt, off, n, torn) \<Rightarrow>
        if torn \<and> \<not> io_truncate io then (Inl STORE_ERR_IO, wal)
        else (Inr (mt, off, n), if torn then take off wal else wal))"

section \<open>Reading back a frame\<close>

text \<open>The operations \<open>store_put\<close> and \<open>store_del\<close> stage.\<close>

definition op_ok :: "StagedOp \<Rightarrow> bool" where
  "op_ok sop = ((so_op sop = STORE_OP_PUT \<or> so_op sop = STORE_OP_DEL \<and> so_val sop = []) \<and>
     so_key sop \<noteq> [] \<and> length (so_key sop) \<le> STORE_MAX_KEY_LEN \<and> length (so_val sop) \<le> STORE_MAX_VAL_LEN)"

lemma frame_sum_eq: "frame_sum body = lin_sha256 body"
  unfolding frame_sum_def by (rule sha.one_piece)

lemma length_frame_sum [simp]: "length (frame_sum body) = 32"
  by (simp add: frame_sum_eq)

lemma length_frame_body: "length (frame_body sop) = 7 + length (so_key sop) + length (so_val sop)"
  by (simp add: frame_body_def)

lemma op_ok_unat:
  assumes "op_ok sop"
  shows "unat (of_nat (length (so_key sop)) :: u16) = length (so_key sop)"
    "unat (of_nat (length (so_val sop)) :: u32) = length (so_val sop)"
    "unat (frame_len sop) = 39 + length (so_key sop) + length (so_val sop)"
proof -
  have k: "length (so_key sop) \<le> 1024" "length (so_val sop) \<le> 1048576" using assms by (simp_all add: op_ok_def store_limits)
  then show "unat (of_nat (length (so_key sop)) :: u16) = length (so_key sop)"
    "unat (of_nat (length (so_val sop)) :: u32) = length (so_val sop)"
    by (simp_all add: unsigned_of_nat take_bit_nat_eq_self)
  have "frame_len sop = of_nat (39 + length (so_key sop) + length (so_val sop))" by (simp add: frame_len_def)
  then show "unat (frame_len sop) = 39 + length (so_key sop) + length (so_val sop)"
    using k by (simp only: unsigned_of_nat) (simp add: take_bit_nat_eq_self)
qed

lemma length_frame_bytes: "op_ok sop \<Longrightarrow> length (frame_bytes sop) = 4 + unat (frame_len sop)"
  by (simp add: frame_bytes_def length_frame_body op_ok_unat)

lemma parse_frame_bytes:
  assumes "op_ok sop"
  shows "parse_frame (frame_body sop @ frame_sum (frame_body sop)) (frame_len sop) = Some sop"
proof -
  let ?b = "frame_body sop @ frame_sum (frame_body sop)"
  note u = op_ok_unat [OF assms]
  have b: "?b = so_op sop # write_u16_le (of_nat (length (so_key sop))) @ write_u32_le (of_nat (length (so_val sop))) @
      so_key sop @ so_val sop @ frame_sum (frame_body sop)" by (simp add: frame_body_def)
  have f: "?b ! 0 = so_op sop" "read_u16_le (drop 1 ?b) = of_nat (length (so_key sop))"
    "read_u32_le (drop 3 ?b) = of_nat (length (so_val sop))" "drop 7 ?b = so_key sop @ so_val sop @ frame_sum (frame_body sop)"
    unfolding b by (simp_all add: numeral_eq_Suc)
  have h: "take (7 + length (so_key sop) + length (so_val sop)) ?b = frame_body sop"
    "drop (7 + length (so_key sop) + length (so_val sop)) ?b = frame_sum (frame_body sop)"
    by (simp_all add: length_frame_body)
  have v: "drop (7 + length (so_key sop)) ?b = so_val sop @ frame_sum (frame_body sop)"
    using f(4) drop_drop [of "length (so_key sop)" 7 ?b] by (simp add: add.commute)
  have "(ucast (of_nat (length (so_key sop)) :: u16) :: u32) = of_nat (unat (of_nat (length (so_key sop)) :: u16))"
    by simp
  then have "(7 + ucast (of_nat (length (so_key sop)) :: u16) + of_nat (length (so_val sop)) + 32 :: u32) = frame_len sop"
    unfolding u(1) frame_len_def by simp
  moreover have "(of_nat (length (so_key sop)) :: u16) \<noteq> 0"
    using u(1) assms by (metis length_0_conv op_ok_def unsigned_0)
  ultimately show ?thesis
    unfolding parse_frame_def Let_def f u h v using assms by (auto simp: op_ok_def store_ops)
qed

section \<open>Replaying what was written\<close>

definition io_ok :: "WalIo \<Rightarrow> bool" where
  "io_ok io = (io_stat io \<and> 12 \<le> io_head_write io \<and> io_head_sync io \<and> io_head_read io \<and> io_truncate io \<and>
     (\<forall>k. io_len io k \<and> io_buf io k \<and> io_body io k \<and> io_put io k))"

lemma io_okD: "io_ok io \<Longrightarrow> io_stat io" "io_ok io \<Longrightarrow> io_head_read io" "io_ok io \<Longrightarrow> io_truncate io"
  by (simp_all add: io_ok_def)

text \<open>The effect of an operation: the key and what it is bound to.\<close>

definition op_effect :: "StagedOp \<Rightarrow> bytes \<times> bytes option" where
  "op_effect sop = (so_key sop, if so_op sop = STORE_OP_PUT then Some (so_val sop) else None)"

definition apply_ops :: "StagedOp list \<Rightarrow> MemTable \<Rightarrow> MemTable" where
  "apply_ops ops = fold mt.step (map op_effect ops)"

definition ops_map :: "StagedOp list \<Rightarrow> (bytes \<rightharpoonup> bytes)" where
  "ops_map ops = fold (\<lambda>x m. m(fst x := snd x)) (map op_effect ops) Map.empty"

definition wal_of :: "StagedOp list \<Rightarrow> bytes" where
  "wal_of ops = wal_header @ concat (map frame_bytes ops)"

lemma apply_ops_map: "table_map (apply_ops ops memtable_init) = ops_map ops" "table_ok (apply_ops ops memtable_init)"
  using mt.run_abs [OF memtable_init_correct(1), of "map op_effect ops"] mt.run_ok [OF memtable_init_correct(1), of "map op_effect ops"]
  by (simp_all add: apply_ops_def ops_map_def memtable_init_correct(2))

lemma replay_one:
  assumes "io_ok io" "op_ok sop"
  shows "replay_from io k (frame_bytes sop @ rest) mt off =
    replay_from io (Suc k) rest (apply_ops [sop] mt) (off + length (frame_bytes sop))"
proof -
  let ?b = "frame_body sop @ frame_sum (frame_body sop)" and ?n = "unat (frame_len sop)"
  define R where "R = frame_bytes sop @ rest"
  note u = op_ok_unat [OF assms(2)]
  have l: "length ?b = ?n" by (simp add: length_frame_body u)
  have r: "R = write_u32_le (frame_len sop) @ ?b @ rest" by (simp add: R_def frame_bytes_def)
  have d: "take ?n (drop 4 R) = ?b" "drop (4 + ?n) R = rest" "read_u32_le R = frame_len sop" "\<not> length R < 4" "R \<noteq> []"
    unfolding r using l by (simp_all flip: length_0_conv)
  have n: "\<not> ?n < 39" "\<not> ?n > STORE_MAX_KEY_LEN + STORE_MAX_VAL_LEN + 39"
    using assms(2) by (simp_all add: u op_ok_def)
  have io: "io_len io k" "io_buf io k" "io_body io k" "io_put io k" using assms(1) by (simp_all add: io_ok_def)
  obtain q where p: "memtable_put True mt (so_key sop) (so_val sop) = (STORE_OK, q)"
    using memtable_put_result [of True mt "so_key sop" "so_val sop"] by (cases "memtable_put True mt (so_key sop) (so_val sop)") simp
  have "replay_from io k R mt off = replay_from io (Suc k) rest (apply_ops [sop] mt) (off + length (frame_bytes sop))"
    unfolding replay_from.simps [of io k R] Let_def d if_not_P [OF d(5)] using d(4) n io l
    by (simp add: parse_frame_bytes [OF assms(2)] p apply_ops_def mt.step_def op_effect_def length_frame_bytes [OF assms(2)] add.assoc)
  then show ?thesis by (simp add: R_def)
qed

lemma replay_frames:
  assumes "io_ok io"
  shows "list_all op_ok ops \<Longrightarrow> replay_from io k (concat (map frame_bytes ops) @ rest) mt off =
    replay_from io (k + length ops) rest (apply_ops ops mt) (off + length (concat (map frame_bytes ops)))"
proof (induction ops arbitrary: k mt off)
  case (Cons sop ops)
  then show ?case using replay_one [OF assms, of sop k "concat (map frame_bytes ops) @ rest" mt off]
    by (simp add: apply_ops_def add.assoc)
qed (simp add: apply_ops_def)

text \<open>A frame of which only a part was written is cut off.\<close>

lemma replay_torn:
  assumes "io_ok io" "op_ok sop" "n < length (frame_bytes sop)"
  shows "replay_from io k (take n (frame_bytes sop)) mt off = Inr (mt, off, k, n \<noteq> 0)"
proof -
  let ?t = "take n (frame_bytes sop)"
  have io: "io_len io k" "io_buf io k" "io_body io k" using assms(1) by (simp_all add: io_ok_def)
  have l: "length ?t = n" using assms(3) by simp
  show ?thesis
  proof (cases "n < 4")
    case True
    then show ?thesis using l by (subst replay_from.simps) (auto simp flip: length_0_conv)
  next
    case False
    then have t: "?t = write_u32_le (frame_len sop) @ take (n - 4) (frame_body sop @ frame_sum (frame_body sop))"
      by (simp add: frame_bytes_def)
    then have r: "read_u32_le ?t = frame_len sop" by simp
    have "length (drop 4 ?t) < unat (frame_len sop)" using l assms(3) False length_frame_bytes [OF assms(2)] by simp
    then show ?thesis using False l r io by (subst replay_from.simps) (auto simp: Let_def simp flip: length_0_conv)
  qed
qed

lemma replay_end: "replay_from io k [] mt off = Inr (mt, off, k, False)"
  by (simp add: replay_from.simps)

lemma wal_header_length: "length wal_header = 12"
  by (simp add: wal_header_def STORE_MAGIC_WAL_def)

lemma wal_header_fields:
  "take 4 (wal_header @ bs) = STORE_MAGIC_WAL" "read_u16_le (drop 4 (wal_header @ bs)) = 1"
  "read_u32_le (drop 6 (wal_header @ bs)) = STORE_PAGE_SIZE" "read_u16_le (drop 10 (wal_header @ bs)) = 0"
proof -
  have m: "length STORE_MAGIC_WAL = 4" by (simp add: STORE_MAGIC_WAL_def)
  show "take 4 (wal_header @ bs) = STORE_MAGIC_WAL" "read_u16_le (drop 4 (wal_header @ bs)) = 1"
    using m by (simp_all add: wal_header_def)
  have "drop 6 (wal_header @ bs) = write_u32_le STORE_PAGE_SIZE @ write_u16_le 0 @ bs"
    "drop 10 (wal_header @ bs) = write_u16_le 0 @ bs" using m by (simp_all add: wal_header_def)
  then show "read_u32_le (drop 6 (wal_header @ bs)) = STORE_PAGE_SIZE" "read_u16_le (drop 10 (wal_header @ bs)) = 0" by simp_all
qed

lemma recover_from_frames:
  assumes "io_stat io" "io_head_read io" "io_truncate io"
  shows "recover_and_replay_wal io (wal_header @ rest) =
    (case replay_from io 0 rest memtable_init 12 of Inl e \<Rightarrow> (Inl e, wal_header @ rest)
     | Inr (mt, off, n, torn) \<Rightarrow> (Inr (mt, off, n), if torn then take off (wal_header @ rest) else wal_header @ rest))"
proof -
  define W where "W = wal_header @ rest"
  have w: "W \<noteq> []" "\<not> length W < 12" "drop 12 W = rest"
    using wal_header_length by (auto simp: W_def simp flip: length_0_conv)
  note f = wal_header_fields [of rest, folded W_def]
  show ?thesis using assms w f unfolding W_def [symmetric]
    by (auto simp: recover_and_replay_wal_def split: sum.split)
qed

text \<open>A prefix of the frames of some operations: whole frames and the start of the next.\<close>

lemma prefix_of_frames:
  "n < length (concat (map frame_bytes ops)) \<Longrightarrow>
   \<exists>done sop later m. ops = done @ sop # later \<and> m < length (frame_bytes sop) \<and>
     take n (concat (map frame_bytes ops)) = concat (map frame_bytes done) @ take m (frame_bytes sop) \<and>
     n = length (concat (map frame_bytes done)) + m"
proof (induction ops arbitrary: n)
  case (Cons x ops)
  show ?case
  proof (cases "n < length (frame_bytes x)")
    case True
    then show ?thesis by (intro exI [of _ "[]"] exI [of _ x] exI [of _ ops] exI [of _ n]) simp
  next
    case False
    with Cons.prems have "n - length (frame_bytes x) < length (concat (map frame_bytes ops))" by simp
    from Cons.IH [OF this] obtain as sop later m where i: "ops = as @ sop # later" "m < length (frame_bytes sop)"
      "take (n - length (frame_bytes x)) (concat (map frame_bytes ops)) = concat (map frame_bytes as) @ take m (frame_bytes sop)"
      "n - length (frame_bytes x) = length (concat (map frame_bytes as)) + m" by blast
    then show ?thesis using False by (intro exI [of _ "x # as"] exI [of _ sop] exI [of _ later] exI [of _ m]) simp
  qed
qed simp

lemma recover_wal_of:
  assumes "io_ok io" "list_all op_ok ops"
  shows "recover_and_replay_wal io (wal_of ops) = (Inr (apply_ops ops memtable_init, length (wal_of ops), length ops), wal_of ops)"
  unfolding wal_of_def recover_from_frames [OF io_okD [OF assms(1)]]
  using replay_frames [OF assms, of 0 "[]" memtable_init 12] by (simp add: replay_end wal_header_length)

lemma recover_torn:
  assumes "io_ok io" "list_all op_ok (as @ [sop])" "m < length (frame_bytes sop)"
  shows "recover_and_replay_wal io (wal_of as @ take m (frame_bytes sop)) =
    (Inr (apply_ops as memtable_init, length (wal_of as), length as), wal_of as)"
proof -
  have a: "list_all op_ok as" "op_ok sop" using assms(2) by simp_all
  have "replay_from io 0 (concat (map frame_bytes as) @ take m (frame_bytes sop)) memtable_init 12 =
      Inr (apply_ops as memtable_init, length (wal_of as), length as, m \<noteq> 0)"
    unfolding replay_frames [OF assms(1) a(1)] using replay_torn [OF assms(1) a(2) assms(3)]
    by (simp add: wal_of_def wal_header_length)
  then show ?thesis unfolding wal_of_def append_assoc recover_from_frames [OF io_okD [OF assms(1)]]
    using wal_header_length by (simp add: wal_of_def)
qed

lemma recover_take:
  assumes "io_ok io" "list_all op_ok ops" "12 \<le> n" "n \<le> length (wal_of ops)"
  shows "\<exists>as later. ops = as @ later \<and> length (wal_of as) \<le> n \<and> (later \<noteq> [] \<longrightarrow> n < length (wal_of (as @ [hd later]))) \<and>
    recover_and_replay_wal io (take n (wal_of ops)) = (Inr (apply_ops as memtable_init, length (wal_of as), length as), wal_of as)"
proof (cases "n = length (wal_of ops)")
  case True
  then show ?thesis using recover_wal_of [OF assms(1,2)]
    by (intro exI [of _ ops] exI [of _ "[]"]) simp
next
  case False
  with assms(3,4) have "n - 12 < length (concat (map frame_bytes ops))" by (simp add: wal_of_def wal_header_length)
  from prefix_of_frames [OF this] obtain as sop later m where p: "ops = as @ sop # later" "m < length (frame_bytes sop)"
    "take (n - 12) (concat (map frame_bytes ops)) = concat (map frame_bytes as) @ take m (frame_bytes sop)"
    "n - 12 = length (concat (map frame_bytes as)) + m" by blast
  have "take n (wal_of ops) = wal_of as @ take m (frame_bytes sop)"
    using p(3) assms(3) by (simp add: wal_of_def wal_header_length)
  moreover have "list_all op_ok (as @ [sop])" using assms(2) p(1) by simp
  ultimately show ?thesis using recover_torn [OF assms(1) _ p(2), of as] p assms(3)
    by (intro exI [of _ as] exI [of _ "sop # later"]) (auto simp: wal_of_def wal_header_length)
qed

section \<open>Properties\<close>

text \<open>
  C30: crash recovery. Cut the log of any operations anywhere behind its header, as a crash
  during a write does: recovery succeeds, rebuilds exactly the table of the operations
  whose frames are complete, and leaves a log of exactly those frames.
\<close>
theorem torn_wal_recovers_prefix:
  assumes "io_ok io" "list_all op_ok ops" "12 \<le> n" "n \<le> length (wal_of ops)"
  shows "\<exists>done later. ops = done @ later \<and> length (wal_of done) \<le> n \<and>
    (later \<noteq> [] \<longrightarrow> n < length (wal_of (done @ [hd later]))) \<and>
    recover_and_replay_wal io (take n (wal_of ops)) =
      (Inr (apply_ops done memtable_init, length (wal_of done), length done), wal_of done) \<and>
    table_map (apply_ops done memtable_init) = ops_map done"
  using recover_take [OF assms] apply_ops_map(1) by blast

definition good_io :: WalIo where
  "good_io = \<lparr>io_stat = True, io_head_write = 12, io_head_sync = True, io_head_read = True, io_len = \<lambda>_. True,
     io_buf = \<lambda>_. True, io_body = \<lambda>_. True, io_put = \<lambda>_. True, io_truncate = True\<rparr>"

definition one_put :: StagedOp where
  "one_put = \<lparr>so_op = STORE_OP_PUT, so_key = [107], so_val = [118]\<rparr>"

lemma good_io_ok: "io_ok good_io"
  by (simp add: io_ok_def good_io_def)

lemma one_put_ok: "op_ok one_put"
  by (simp add: op_ok_def one_put_def store_limits)

lemma one_put_length: "length (wal_of [one_put]) = 57"
  using op_ok_unat(3) [OF one_put_ok] length_frame_bytes [OF one_put_ok] by (simp add: wal_of_def wal_header_length one_put_def)

theorem torn_wal_recovers_prefix_witness:
  "\<exists>done later. [one_put] = done @ later \<and> length (wal_of done) \<le> 20 \<and>
    recover_and_replay_wal good_io (take 20 (wal_of [one_put])) =
      (Inr (apply_ops done memtable_init, length (wal_of done), length done), wal_of done)"
  using torn_wal_recovers_prefix [OF good_io_ok, of "[one_put]" 20] one_put_ok one_put_length by auto

text \<open>
  A read error is taken for a torn write. When reading the first frame of a log of
  committed operations fails, recovery does not report an I/O error: it truncates the log to
  its header and opens an empty store.
\<close>
theorem read_error_erases_wal:
  assumes "io_ok io" "list_all op_ok ops" "ops \<noteq> []"
  shows "recover_and_replay_wal (io\<lparr>io_len := \<lambda>_. False\<rparr>) (wal_of ops) = (Inr (memtable_init, 12, 0), wal_of [])"
proof -
  let ?io = "io\<lparr>io_len := \<lambda>_. False\<rparr>"
  obtain x xs where "ops = x # xs" using assms(3) by (cases ops) auto
  then have "concat (map frame_bytes ops) \<noteq> []" using assms(2) length_frame_bytes [of x] by auto
  then have r: "replay_from ?io 0 (concat (map frame_bytes ops)) memtable_init 12 = Inr (memtable_init, 12, 0, True)"
    by (simp add: replay_from.simps)
  have io: "io_stat ?io" "io_head_read ?io" "io_truncate ?io" using io_okD [OF assms(1)] by simp_all
  show ?thesis unfolding wal_of_def recover_from_frames [OF io] r using wal_header_length by simp
qed

theorem read_error_erases_wal_witness:
  "recover_and_replay_wal (good_io\<lparr>io_len := \<lambda>_. False\<rparr>) (wal_of [one_put]) = (Inr (memtable_init, 12, 0), wal_of [])"
  by (rule read_error_erases_wal [OF good_io_ok]) (simp_all add: one_put_ok)

end
