(* ===== verification/Store_C0.thy ===== *)
theory Store_C0
  imports Store_Wal
begin

text \<open>
  The store of \<open>transpile/c/store_c0/store_c0.c\<close>: its state, the public operations
  \<open>store_open\<close>, \<open>store_put\<close>, \<open>store_del\<close>, \<open>store_commit\<close>, \<open>store_get\<close>,
  \<open>store_get_merkle_root\<close>, \<open>store_checkpoint\<close> and \<open>store_close\<close>, on a directory with
  a log, a checkpoint and a lock.

  \<^item> \<open>st_freed\<close> counts the staged operations whose key and value are already freed while
    they are still in the queue; an operation that touches them is \<open>None\<close>.
  \<^item> What the system calls and allocations of an operation do is one of its arguments. A failing
    \<open>pwrite\<close> may have written a part of its buffer.
  \<^item> The handle is not \<open>NULL\<close>; a \<open>NULL\<close> value of length \<open>n\<close> is \<open>Inl n\<close>.
\<close>

section \<open>State\<close>

record Store =
  st_table :: MemTable
  st_staged :: "StagedOp list"
  st_freed :: nat
  st_frames :: u64
  st_wal_size :: nat

record Disk =
  dk_wal :: bytes
  dk_chk :: "bytes option"
  dk_locked :: bool

section \<open>Staging\<close>

definition val_len :: "nat + bytes \<Rightarrow> nat" where
  "val_len v = (case v of Inl n \<Rightarrow> n | Inr bs \<Rightarrow> length bs)"

definition val_bytes :: "nat + bytes \<Rightarrow> bytes" where
  "val_bytes v = (case v of Inl _ \<Rightarrow> [] | Inr bs \<Rightarrow> bs)"

definition stage :: "StagedOp \<Rightarrow> MemTable \<Rightarrow> Store \<Rightarrow> Store" where
  "stage sop mt s = s\<lparr>st_table := mt, st_staged := st_staged s @ [sop]\<rparr>"

definition store_put :: "bool \<Rightarrow> bool \<Rightarrow> Store \<Rightarrow> bytes option \<Rightarrow> nat + bytes \<Rightarrow> StoreResult \<times> Store" where
  "store_put stage_mem table_mem s okey v =
     (case okey of
        None \<Rightarrow> (STORE_ERR_INVALID_ARG, s)
      | Some key \<Rightarrow>
        if key = [] then (STORE_ERR_INVALID_ARG, s)
        else if length key > STORE_MAX_KEY_LEN then (STORE_ERR_LIMIT_KEY, s)
        else if val_len v > STORE_MAX_VAL_LEN then (STORE_ERR_LIMIT_VAL, s)
        else if isl v \<and> val_len v > 0 then (STORE_ERR_INVALID_ARG, s)
        else if \<not> stage_mem then (STORE_ERR_NOMEM, s)
        else let (res, mt) = memtable_put table_mem (st_table s) key (val_bytes v) in
          if res \<noteq> STORE_OK then (res, s)
          else (STORE_OK, stage \<lparr>so_op = STORE_OP_PUT, so_key = key, so_val = val_bytes v\<rparr> mt s))"

definition store_del :: "bool \<Rightarrow> Store \<Rightarrow> bytes option \<Rightarrow> StoreResult \<times> Store" where
  "store_del stage_mem s okey =
     (case okey of
        None \<Rightarrow> (STORE_ERR_INVALID_ARG, s)
      | Some key \<Rightarrow>
        if key = [] then (STORE_ERR_INVALID_ARG, s)
        else if length key > STORE_MAX_KEY_LEN then (STORE_ERR_LIMIT_KEY, s)
        else if \<not> fst (memtable_find (st_table s) key) then (STORE_ERR_NOT_FOUND, s)
        else if \<not> stage_mem then (STORE_ERR_NOMEM, s)
        else let (res, mt) = memtable_del (st_table s) key in
          if res \<noteq> STORE_OK then (res, s)
          else (STORE_OK, stage \<lparr>so_op = STORE_OP_DEL, so_key = key, so_val = []\<rparr> mt s))"

section \<open>Commit\<close>

record CommitIo =
  ci_buf :: "nat \<Rightarrow> bool"
  ci_write :: "nat \<Rightarrow> nat"
  ci_sync :: bool

definition pwrite_at :: "nat \<Rightarrow> bytes \<Rightarrow> bytes \<Rightarrow> bytes" where
  "pwrite_at off bs f = take off f @ replicate (off - length f) 0 @ bs @ drop (off + length bs) f"

fun commit_frames :: "CommitIo \<Rightarrow> nat \<Rightarrow> StagedOp list \<Rightarrow> nat \<Rightarrow> bytes \<Rightarrow> (StoreResult + nat) \<times> bytes" where
  "commit_frames ci i [] cursor f = (Inr cursor, f)"
| "commit_frames ci i (sop # ops) cursor f =
     (if \<not> ci_buf ci i then (Inl STORE_ERR_NOMEM, f)
      else let buf1 = frame_bytes sop; done = take (ci_write ci i) buf1; f1 = pwrite_at cursor done f in
        if length done \<noteq> length buf1 then (Inl STORE_ERR_IO, f1)
        else commit_frames ci (Suc i) ops (cursor + length buf1) f1)"

definition total_bytes :: "StagedOp list \<Rightarrow> nat" where
  "total_bytes ops = sum_list (map (\<lambda>sop. 4 + unat (frame_len sop)) ops)"

definition store_commit :: "CommitIo \<Rightarrow> Store \<Rightarrow> bytes \<Rightarrow> (StoreResult \<times> Store \<times> bytes) option" where
  "store_commit ci s f =
     (if st_staged s = [] then Some (STORE_OK, s, f)
      else if st_wal_size s + total_bytes (st_staged s) > STORE_MAX_WAL_SIZE then Some (STORE_ERR_LIMIT_WAL, s, f)
      else if st_freed s > 0 then None
      else case commit_frames ci 0 (st_staged s) (st_wal_size s) f of
        (Inl e, f1) \<Rightarrow> Some (e, s, f1)
      | (Inr cursor, f1) \<Rightarrow>
        let s1 = s\<lparr>st_wal_size := cursor, st_frames := st_frames s + of_nat (length (st_staged s))\<rparr> in
        if \<not> ci_sync ci then Some (STORE_ERR_IO, s1\<lparr>st_freed := length (st_staged s)\<rparr>, f1)
        else Some (STORE_OK, s1\<lparr>st_staged := []\<rparr>, f1))"

section \<open>Lookup\<close>

text \<open>The result, \<open>*out_vlen\<close> when it is set and the bytes copied to \<open>out_val\<close>.\<close>

definition store_get :: "Store \<Rightarrow> bytes option \<Rightarrow> bool \<Rightarrow> nat \<Rightarrow> bool \<Rightarrow> StoreResult \<times> nat option \<times> bytes" where
  "store_get s okey has_out cap has_vlen =
     (case okey of
        None \<Rightarrow> (STORE_ERR_INVALID_ARG, None, [])
      | Some key \<Rightarrow>
        if key = [] \<or> \<not> has_vlen then (STORE_ERR_INVALID_ARG, None, [])
        else let (found, idx) = memtable_find (st_table s) key in
          if \<not> found then (STORE_ERR_NOT_FOUND, Some 0, [])
          else let v = me_val (st_table s ! idx) in
            if cap < length v then (STORE_ERR_LIMIT_VAL, Some (length v), [])
            else (STORE_OK, Some (length v), if has_out then v else []))"

section \<open>The Merkle root\<close>

definition merkle_leaf :: "MemEntry \<Rightarrow> bytes" where
  "merkle_leaf e =
     (let c1 = lin_sha256_update (lin_sha256_init raw_ctx) [0];
          c2 = lin_sha256_update c1 (write_u16_le (of_nat (length (me_key e))));
          c3 = lin_sha256_update c2 (me_key e);
          c4 = lin_sha256_update c3 (write_u32_le (of_nat (length (me_val e)))) in
      lin_sha256_final (if length (me_val e) > 0 then lin_sha256_update c4 (me_val e) else c4))"

definition merkle_parent :: "bytes \<Rightarrow> bytes \<Rightarrow> bytes" where
  "merkle_parent l r = lin_sha256 ([1] @ l @ r)"

fun merkle_level :: "bytes list \<Rightarrow> bytes list" where
  "merkle_level [] = []"
| "merkle_level [h] = [merkle_parent h h]"
| "merkle_level (l # r # hs) = merkle_parent l r # merkle_level hs"

lemma length_merkle_level [simp]: "length (merkle_level hs) = (length hs + 1) div 2"
  by (induction hs rule: merkle_level.induct) auto

function merkle_reduce :: "bytes list \<Rightarrow> bytes" where
  "merkle_reduce hs = (if length hs > 1 then merkle_reduce (merkle_level hs) else hs ! 0)"
  by pat_completeness auto
termination
  by (relation "measure length") auto

declare merkle_reduce.simps [simp del]

definition store_get_merkle_root :: "bool \<Rightarrow> MemTable \<Rightarrow> StoreResult + bytes" where
  "store_get_merkle_root mem mt =
     (if mt = [] then Inr (lin_sha256 (bytes_of_string ''STR_EMPTY_v1''))
      else if \<not> mem then Inl STORE_ERR_NOMEM
      else Inr (merkle_reduce (map merkle_leaf mt)))"

section \<open>Checkpoint, open and close\<close>

definition STORE_MAGIC_CHK :: bytes where "STORE_MAGIC_CHK = bytes_of_string ''STRCHK''"

definition chk_bytes :: "u64 \<Rightarrow> bytes \<Rightarrow> bytes" where
  "chk_bytes frames1 root =
     (let raw = STORE_MAGIC_CHK @ write_u16_le 1 @ write_u64_le frames1 @ root in raw @ lin_sha256 raw)"

text \<open>\<open>ck_tmp\<close>: the temporary file is opened, written, synchronised and renamed.\<close>

record ChkIo =
  ck_sync :: bool
  ck_mem :: bool
  ck_tmp :: bool

definition store_checkpoint :: "ChkIo \<Rightarrow> Store \<Rightarrow> Disk \<Rightarrow> StoreResult \<times> Disk" where
  "store_checkpoint ck s dk =
     (if \<not> ck_sync ck then (STORE_ERR_IO, dk)
      else case store_get_merkle_root (ck_mem ck) (st_table s) of
        Inl e \<Rightarrow> (e, dk)
      | Inr root \<Rightarrow>
        if \<not> ck_tmp ck then (STORE_ERR_IO, dk)
        else (STORE_OK, dk\<lparr>dk_chk := Some (chk_bytes (st_frames s) root)\<rparr>))"

record OpenIo =
  op_dir :: bool
  op_mem :: bool
  op_lock :: bool
  op_wal :: bool
  op_chk :: bool
  op_chk_read :: bool
  op_root_mem :: bool
  op_replay :: WalIo

definition verify_checkpoint_on_open :: "OpenIo \<Rightarrow> Store \<Rightarrow> bytes option \<Rightarrow> StoreResult" where
  "verify_checkpoint_on_open oi s chk =
     (case chk of
        None \<Rightarrow> STORE_OK
      | Some raw \<Rightarrow>
        if \<not> op_chk oi then STORE_ERR_IO
        else if length raw \<noteq> 80 \<or> \<not> op_chk_read oi then STORE_OK
        else if take 6 raw \<noteq> STORE_MAGIC_CHK then STORE_OK
        else if read_u16_le (drop 6 raw) \<noteq> 1 then STORE_OK
        else if lin_sha256 (take 48 raw) \<noteq> drop 48 raw then STORE_OK
        else let chk_frames = read_u64_le (drop 8 raw) in
          if chk_frames > st_frames s then STORE_OK
          else if chk_frames = st_frames s then
            (case store_get_merkle_root (op_root_mem oi) (st_table s) of
               Inl e \<Rightarrow> e
             | Inr root \<Rightarrow> if root \<noteq> take 32 (drop 16 raw) then STORE_ERR_CHK_MISMATCH else STORE_OK)
          else STORE_OK)"

definition store_open :: "OpenIo \<Rightarrow> Disk \<Rightarrow> (StoreResult + Store) \<times> Disk" where
  "store_open oi dk =
     (if \<not> op_dir oi then (Inl STORE_ERR_IO, dk)
      else if \<not> op_mem oi then (Inl STORE_ERR_NOMEM, dk)
      else if \<not> op_lock oi then (Inl STORE_ERR_IO, dk)
      else if dk_locked dk then (Inl STORE_ERR_LOCKED, dk)
      else if \<not> op_wal oi then (Inl STORE_ERR_IO, dk)
      else case recover_and_replay_wal (op_replay oi) (dk_wal dk) of
        (Inl e, wal) \<Rightarrow> (Inl e, dk\<lparr>dk_wal := wal\<rparr>)
      | (Inr (mt, size1, n), wal) \<Rightarrow>
        let s = \<lparr>st_table = mt, st_staged = [], st_freed = 0, st_frames = of_nat n, st_wal_size = size1\<rparr>;
            res = verify_checkpoint_on_open oi s (dk_chk dk) in
        if res \<noteq> STORE_OK then (Inl res, dk\<lparr>dk_wal := wal\<rparr>)
        else (Inr s, dk\<lparr>dk_wal := wal, dk_locked := True\<rparr>))"

definition store_close :: "Store \<Rightarrow> Disk \<Rightarrow> (StoreResult \<times> Disk) option" where
  "store_close s dk = (if st_freed s > 0 then None else Some (STORE_OK, dk\<lparr>dk_locked := False\<rparr>))"

text \<open>The statistics.\<close>

definition store_get_frame_count :: "Store \<Rightarrow> u64" where
  "store_get_frame_count s = st_frames s"

definition store_get_active_keys_count :: "Store \<Rightarrow> nat" where
  "store_get_active_keys_count s = length (st_table s)"

definition store_get_wal_size :: "Store \<Rightarrow> nat" where
  "store_get_wal_size s = st_wal_size s"

section \<open>Writing frames\<close>

lemma pwrite_end:
  "pwrite_at (length pre) (take k b) (pre @ take m (b @ rest)) = pre @ take (max m (min k (length b))) (b @ rest)"
proof -
  let ?k = "min k (length b)"
  have w: "take k b = take ?k (b @ rest)" "length (take k b) = ?k" by (simp_all add: min_def)
  have "take j X @ drop j (take m X) = take (max m j) X" for X :: bytes and j
    using append_take_drop_id [of j "take m X"] by (cases "j \<le> m") (simp_all add: max_def min_def)
  note j = this [of ?k "b @ rest"]
  have "pwrite_at (length pre) x (pre @ y) = pre @ x @ drop (length x) y" for x y :: bytes by (simp add: pwrite_at_def)
  then show ?thesis using w j by metis
qed

text \<open>
  A commit over a log that ends in a part of the frames to be written, the rest of an
  earlier attempt, writes them all or leaves a part of them.
\<close>

lemma commit_frames_writes:
  "(case commit_frames ci i ops (length pre) (pre @ take m (concat (map frame_bytes ops))) of
      (Inr cursor, f) \<Rightarrow> cursor = length pre + length (concat (map frame_bytes ops)) \<and> f = pre @ concat (map frame_bytes ops)
    | (Inl e, f) \<Rightarrow> e \<noteq> STORE_OK \<and> (\<exists>n. f = pre @ take n (concat (map frame_bytes ops))))"
proof (induction ops arbitrary: i pre m)
  case (Cons sop ops)
  let ?b = "frame_bytes sop" and ?r = "concat (map frame_bytes ops)"
  let ?w = "take (ci_write ci i) ?b"
  note w = pwrite_end [of pre "ci_write ci i" ?b m ?r]
  show ?case
  proof (cases "ci_buf ci i \<and> length ?w = length ?b")
    case False
    then show ?thesis using w by (auto simp: Let_def)
  next
    case True
    then have k: "min (ci_write ci i) (length ?b) = length ?b" "?w = ?b" by auto
    have "take (max m (length ?b)) (?b @ ?r) = ?b @ take (m - length ?b) ?r" by (simp add: max_def)
    then have f: "pwrite_at (length pre) ?b (pre @ take m (?b @ ?r)) = (pre @ ?b) @ take (m - length ?b) ?r"
      using w k by simp
    obtain r f1 where c: "commit_frames ci (Suc i) ops (length pre + length ?b) ((pre @ ?b) @ take (m - length ?b) ?r) = (r, f1)" by fastforce
    note IH = Cons.IH [where i = "Suc i" and pre = "pre @ ?b" and m = "m - length ?b", unfolded length_append c prod.case]
    have e: "commit_frames ci i (sop # ops) (length pre) (pre @ take m (?b @ ?r)) = (r, f1)"
      using True k(2) f c by (simp add: Let_def)
    show ?thesis
    proof (cases r)
      case (Inl x)
      with IH obtain n where "x \<noteq> STORE_OK" "f1 = pre @ ?b @ take n ?r" by auto
      then have "x \<noteq> STORE_OK \<and> f1 = pre @ take (length ?b + n) (?b @ ?r)" by simp
      then show ?thesis using e Inl by (auto simp del: take_append)
    qed (use e IH in simp)
  qed
qed simp

section \<open>The invariant of an open store\<close>

text \<open>
  \<open>comm\<close> are the committed operations: the log holds their frames and perhaps a part of those
  being committed, and the table is what all operations so far, committed and staged, give.
\<close>

definition store_inv :: "StagedOp list \<Rightarrow> Store \<Rightarrow> bytes \<Rightarrow> bool" where
  "store_inv comm s f = (st_freed s = 0 \<and> list_all op_ok (comm @ st_staged s) \<and>
     st_table s = apply_ops (comm @ st_staged s) memtable_init \<and> st_frames s = of_nat (length comm) \<and>
     st_wal_size s = length (wal_of comm) \<and> (\<exists>m. f = wal_of comm @ take m (concat (map frame_bytes (st_staged s)))))"

lemma inv_table: "store_inv comm s f \<Longrightarrow> table_ok (st_table s) \<and> table_map (st_table s) = ops_map (comm @ st_staged s)"
  using apply_ops_map [of "comm @ st_staged s"] by (simp add: store_inv_def)

lemma apply_ops_snoc: "apply_ops (ops @ [sop]) mt = mt.step (op_effect sop) (apply_ops ops mt)"
  by (simp add: apply_ops_def)

lemma inv_stage:
  assumes "store_inv comm s f" "op_ok sop" "mt = mt.step (op_effect sop) (st_table s)"
  shows "store_inv comm (stage sop mt s) f"
proof -
  from assms(1) obtain m where f: "f = wal_of comm @ take m (concat (map frame_bytes (st_staged s)))"
    by (auto simp: store_inv_def)
  then have "f = wal_of comm @ take (min m (length (concat (map frame_bytes (st_staged s))))) (concat (map frame_bytes (st_staged s @ [sop])))"
    by (simp add: min_def)
  then have "\<exists>m. f = wal_of comm @ take m (concat (map frame_bytes (st_staged (stage sop mt s))))"
    by (intro exI [of _ "min m (length (concat (map frame_bytes (st_staged s))))"]) (simp add: stage_def)
  then show ?thesis using assms apply_ops_snoc [of "comm @ st_staged s" sop memtable_init]
    unfolding store_inv_def [of comm "stage sop mt s"] by (simp add: store_inv_def stage_def)
qed

lemma put_inv:
  assumes "store_inv comm s f" "store_put stage_mem table_mem s okey v = (res, s')"
  shows "store_inv comm s' f"
proof (cases "s' = s")
  case False
  then obtain key mt where k: "okey = Some key" "key \<noteq> []" "length key \<le> STORE_MAX_KEY_LEN" "val_len v \<le> STORE_MAX_VAL_LEN"
    "memtable_put table_mem (st_table s) key (val_bytes v) = (STORE_OK, mt)"
    "s' = stage \<lparr>so_op = STORE_OP_PUT, so_key = key, so_val = val_bytes v\<rparr> mt s"
    using assms(2) by (auto simp: store_put_def Let_def split: option.splits if_splits prod.splits)
  then have "table_mem" using memtable_put_result [of table_mem "st_table s" key "val_bytes v"] by (auto split: if_splits)
  moreover have "length (val_bytes v) \<le> val_len v" by (cases v) (simp_all add: val_bytes_def val_len_def)
  ultimately show ?thesis unfolding k(6) using k
    by (intro inv_stage [OF assms(1)]) (auto simp: op_ok_def store_ops mt.step_def op_effect_def)
qed (use assms in simp)

lemma del_inv:
  assumes "store_inv comm s f" "store_del stage_mem s okey = (res, s')"
  shows "store_inv comm s' f"
proof (cases "s' = s")
  case False
  then obtain key mt where k: "okey = Some key" "key \<noteq> []" "length key \<le> STORE_MAX_KEY_LEN"
    "memtable_del (st_table s) key = (STORE_OK, mt)"
    "s' = stage \<lparr>so_op = STORE_OP_DEL, so_key = key, so_val = []\<rparr> mt s"
    using assms(2) by (auto simp: store_del_def Let_def split: option.splits if_splits prod.splits)
  then show ?thesis unfolding k(5)
    by (intro inv_stage [OF assms(1)]) (auto simp: op_ok_def store_ops mt.step_def op_effect_def)
qed (use assms in simp)

lemma wal_of_append: "wal_of (xs @ ys) = wal_of xs @ concat (map frame_bytes ys)"
  by (simp add: wal_of_def)

text \<open>A commit whose synchronisation succeeds: everything is committed, or nothing is.\<close>

lemma commit_inv:
  assumes "store_inv comm s f" "ci_sync ci" "store_commit ci s f = Some (res, s', f')"
  shows "if res = STORE_OK then store_inv (comm @ st_staged s) s' f' \<and> st_staged s' = [] \<and> f' = wal_of (comm @ st_staged s) \<or> st_staged s = [] \<and> s' = s \<and> f' = f
    else s' = s \<and> store_inv comm s f'"
proof -
  let ?fr = "concat (map frame_bytes (st_staged s))"
  from assms(1) obtain m where m: "f = wal_of comm @ take m ?fr" "st_freed s = 0" "st_wal_size s = length (wal_of comm)"
    by (auto simp: store_inv_def)
  obtain r f1 where c: "commit_frames ci 0 (st_staged s) (st_wal_size s) f = (r, f1)" by fastforce
  note w = commit_frames_writes [where ci = ci and i = 0 and ops = "st_staged s" and pre = "wal_of comm" and m = m, folded m(1) m(3), unfolded c prod.case]
  consider "st_staged s = []" | "st_staged s \<noteq> []" "st_wal_size s + total_bytes (st_staged s) > STORE_MAX_WAL_SIZE"
    | "st_staged s \<noteq> []" "\<not> st_wal_size s + total_bytes (st_staged s) > STORE_MAX_WAL_SIZE" by blast
  then show ?thesis
  proof cases
    case 3
    show ?thesis
    proof (cases r)
      case (Inl e)
      then have e: "res = e" "s' = s" "f' = f1" using assms(3) 3 m(2) c by (auto simp: store_commit_def)
      with w Inl assms(1) show ?thesis by (auto simp: store_inv_def)
    next
      case (Inr cursor)
      then have e: "res = STORE_OK" "f' = f1"
        "s' = s\<lparr>st_wal_size := cursor, st_frames := st_frames s + of_nat (length (st_staged s)), st_staged := []\<rparr>"
        using assms(2,3) 3 m(2) c by (auto simp: store_commit_def Let_def)
      then show ?thesis using w Inr assms(1) m(3) by (auto simp: store_inv_def wal_of_append)
    qed
  qed (use assms(1,3) in \<open>auto simp: store_commit_def\<close>)
qed

section \<open>Reachable stores\<close>

text \<open>
  A store is opened on an empty directory, used, and may crash at any time: a cut of the log
  behind the committed part survives, the lock does not, and the store is opened again.
  Commits that fail to synchronise are left out: they leave freed memory in the queue
  (\<open>commit_sync_failure_dangles\<close>).
\<close>

inductive reach :: "Store \<Rightarrow> Disk \<Rightarrow> bool" where
  fresh: "io_ok (op_replay oi) \<Longrightarrow> store_open oi \<lparr>dk_wal = [], dk_chk = None, dk_locked = False\<rparr> = (Inr s, dk) \<Longrightarrow> reach s dk"
| put: "reach s dk \<Longrightarrow> store_put stage_mem table_mem s okey v = (res, s') \<Longrightarrow> reach s' dk"
| del: "reach s dk \<Longrightarrow> store_del stage_mem s okey = (res, s') \<Longrightarrow> reach s' dk"
| commit: "reach s dk \<Longrightarrow> ci_sync ci \<Longrightarrow> store_commit ci s (dk_wal dk) = Some (res, s', f) \<Longrightarrow> reach s' (dk\<lparr>dk_wal := f\<rparr>)"
| checkpoint: "reach s dk \<Longrightarrow> store_checkpoint ck s dk = (res, dk') \<Longrightarrow> reach s dk'"
| crash: "reach s dk \<Longrightarrow> st_wal_size s \<le> n \<Longrightarrow> io_ok (op_replay oi) \<Longrightarrow>
    store_open oi (dk\<lparr>dk_wal := take n (dk_wal dk), dk_locked := False\<rparr>) = (Inr s', dk') \<Longrightarrow> reach s' dk'"

inductive_cases reach_elim: "reach s dk"

lemma recover_cut:
  assumes "store_inv comm s f" "st_wal_size s \<le> n" "io_ok io"
  shows "\<exists>j. recover_and_replay_wal io (take n f) =
    (Inr (apply_ops (comm @ take j (st_staged s)) memtable_init, length (wal_of (comm @ take j (st_staged s))),
       length (comm @ take j (st_staged s))), wal_of (comm @ take j (st_staged s)))"
proof -
  let ?ops = "comm @ st_staged s"
  from assms(1) obtain m where f: "f = wal_of comm @ take m (concat (map frame_bytes (st_staged s)))"
    and i: "list_all op_ok ?ops" "st_wal_size s = length (wal_of comm)" by (auto simp: store_inv_def)
  define k where "k = min (length (wal_of ?ops)) (min n (length (wal_of comm) + m))"
  have f': "f = take (length (wal_of comm) + m) (wal_of ?ops)" unfolding f wal_of_append by simp
  have "take (min (length X) j) X = take j X" for X :: bytes and j by (simp add: min_def)
  then have "take n f = take k (wal_of ?ops)" unfolding f' k_def take_take by simp
  moreover have "12 \<le> length (wal_of comm)" using wal_header_length by (simp add: wal_of_def)
  then have b: "length (wal_of comm) \<le> k" "k \<le> length (wal_of ?ops)" "12 \<le> k"
    using assms(2) i(2) by (auto simp: k_def wal_of_append)
  ultimately obtain as later where a: "?ops = as @ later" "later \<noteq> [] \<longrightarrow> k < length (wal_of (as @ [hd later]))"
    "recover_and_replay_wal io (take n f) = (Inr (apply_ops as memtable_init, length (wal_of as), length as), wal_of as)"
    using recover_take [OF assms(3) i(1) b(3,2)] by metis
  have "length comm \<le> length as"
  proof (rule ccontr)
    assume l: "\<not> length comm \<le> length as"
    then have "as @ [hd later] = take (Suc (length as)) comm" "later \<noteq> []"
      using a(1) by (auto simp: append_eq_append_conv_if hd_drop_conv_nth take_Suc_conv_app_nth)
    then have "length (wal_of (as @ [hd later])) \<le> length (wal_of comm)"
      using wal_of_append [of "take (Suc (length as)) comm" "drop (Suc (length as)) comm"] by simp
    then show False using a(2) \<open>later \<noteq> []\<close> b(1) by simp
  qed
  then have "as = comm @ take (length as - length comm) (st_staged s)"
    using arg_cong [OF a(1), of "take (length as)"] by simp
  with a(3) show ?thesis by metis
qed

lemma open_inv:
  assumes "store_open oi dk = (Inr s, dk')" "recover_and_replay_wal (op_replay oi) (dk_wal dk) =
      (Inr (apply_ops ops memtable_init, length (wal_of ops), length ops), wal_of ops)" "list_all op_ok ops"
  shows "store_inv ops s (dk_wal dk') \<and> st_staged s = []"
  using assms by (auto simp: store_open_def Let_def store_inv_def split: if_splits)

lemma reach_inv: "reach s dk \<Longrightarrow> \<exists>comm. store_inv comm s (dk_wal dk)"
proof (induction rule: reach.induct)
  case (fresh oi s dk)
  have "recover_and_replay_wal (op_replay oi) [] = (Inr (apply_ops [] memtable_init, length (wal_of []), length []), wal_of [])"
    using fresh(1) wal_header_length by (simp add: recover_and_replay_wal_def write_wal_header_def io_ok_def apply_ops_def wal_of_def)
  with open_inv [OF fresh(2), of "[]"] show ?case by auto
next
  case (commit s dk ci res s' f)
  then obtain comm where "store_inv comm s (dk_wal dk)" by blast
  from commit_inv [OF this commit(2,3)] this show ?case by (auto split: if_splits)
next
  case (checkpoint s dk ck res dk')
  then have "dk_wal dk' = dk_wal dk" by (auto simp: store_checkpoint_def split: if_splits sum.splits)
  with checkpoint show ?case by simp
next
  case (crash s dk n oi s' dk')
  then obtain comm where c: "store_inv comm s (dk_wal dk)" by blast
  obtain j where r: "recover_and_replay_wal (op_replay oi) (take n (dk_wal dk)) =
    (Inr (apply_ops (comm @ take j (st_staged s)) memtable_init, length (wal_of (comm @ take j (st_staged s))),
       length (comm @ take j (st_staged s))), wal_of (comm @ take j (st_staged s)))"
    using recover_cut [OF c crash(2,3)] by blast
  have "list_all op_ok (comm @ take j (st_staged s))"
    using c by (auto simp: store_inv_def list_all_iff dest: in_set_takeD)
  with open_inv [OF crash(4), of "comm @ take j (st_staged s)"] r show ?case by auto
qed (blast intro: put_inv del_inv)+

section \<open>Checkpoints\<close>

definition open_ok :: "OpenIo \<Rightarrow> bool" where
  "open_ok oi = (op_dir oi \<and> op_mem oi \<and> op_lock oi \<and> op_wal oi \<and> op_chk oi \<and> op_chk_read oi \<and> op_root_mem oi \<and> io_ok (op_replay oi))"

lemma length_merkle_parent [simp]: "length (merkle_parent l r) = 32"
  by (simp add: merkle_parent_def)

lemma length_merkle_leaf [simp]: "length (merkle_leaf e) = 32"
  using sha.finish_length [of "[[0], write_u16_le (of_nat (length (me_key e))), me_key e, write_u32_le (of_nat (length (me_val e))), me_val e]"]
    sha.finish_length [of "[[0], write_u16_le (of_nat (length (me_key e))), me_key e, write_u32_le (of_nat (length (me_val e)))]"]
  by (cases "me_val e = []") (simp_all add: merkle_leaf_def Let_def)

lemma level_lengths: "list_all (\<lambda>h. length h = 32) hs \<Longrightarrow> list_all (\<lambda>h. length h = 32) (merkle_level hs)"
  by (induction hs rule: merkle_level.induct) auto

lemma reduce_length: "list_all (\<lambda>h. length h = 32) hs \<Longrightarrow> hs \<noteq> [] \<Longrightarrow> length (merkle_reduce hs) = 32"
proof (induction hs rule: merkle_reduce.induct)
  case (1 hs)
  show ?case
  proof (cases "length hs > 1")
    case True
    then have "merkle_level hs \<noteq> []" by (auto simp flip: length_0_conv)
    with 1 True level_lengths show ?thesis by (simp add: merkle_reduce.simps [of hs])
  next
    case False
    then have "merkle_reduce hs = hs ! 0" by (simp add: merkle_reduce.simps [of hs])
    with 1(2,3) show ?thesis by (cases hs) auto
  qed
qed

lemma root_length: "store_get_merkle_root mem mt = Inr root \<Longrightarrow> length root = 32"
  by (auto simp: store_get_merkle_root_def list_all_iff intro!: reduce_length split: if_splits)

lemma chk_fields:
  assumes "length root = 32"
  shows "length (chk_bytes n root) = 80" "take 6 (chk_bytes n root) = STORE_MAGIC_CHK" "read_u16_le (drop 6 (chk_bytes n root)) = 1"
    "read_u64_le (drop 8 (chk_bytes n root)) = n" "take 32 (drop 16 (chk_bytes n root)) = root"
    "lin_sha256 (take 48 (chk_bytes n root)) = drop 48 (chk_bytes n root)"
proof -
  let ?raw = "STORE_MAGIC_CHK @ write_u16_le 1 @ write_u64_le n @ root"
  have m: "length STORE_MAGIC_CHK = 6" by (simp add: STORE_MAGIC_CHK_def)
  then have l: "length ?raw = 48" using assms by simp
  have c: "chk_bytes n root = ?raw @ lin_sha256 ?raw" by (simp add: chk_bytes_def Let_def)
  show "length (chk_bytes n root) = 80" unfolding c using l by simp
  show "lin_sha256 (take 48 (chk_bytes n root)) = drop 48 (chk_bytes n root)"
    unfolding c using l by (simp only: take_append drop_append) simp
  have d: "drop 6 (chk_bytes n root) = write_u16_le 1 @ write_u64_le n @ root @ lin_sha256 ?raw"
    "drop 8 (chk_bytes n root) = write_u64_le n @ root @ lin_sha256 ?raw" "drop 16 (chk_bytes n root) = root @ lin_sha256 ?raw"
    unfolding c using m by simp_all
  show "take 6 (chk_bytes n root) = STORE_MAGIC_CHK" unfolding c using m by simp
  show "read_u16_le (drop 6 (chk_bytes n root)) = 1" "read_u64_le (drop 8 (chk_bytes n root)) = n"
    "take 32 (drop 16 (chk_bytes n root)) = root" unfolding d using assms by simp_all
qed

text \<open>
  Opening again after a checkpoint: the root in the checkpoint is that of the whole table,
  the one it is compared with that of the committed operations.
\<close>

lemma reopen_checkpoint:
  assumes "store_inv comm s (wal_of comm)" "dk_wal dk = wal_of comm" "store_checkpoint ck s dk = (STORE_OK, dk')" "open_ok oi"
  shows "fst (store_open oi (dk'\<lparr>dk_locked := False\<rparr>)) =
    (if store_get_merkle_root True (apply_ops comm memtable_init) = store_get_merkle_root True (st_table s)
     then Inr \<lparr>st_table = apply_ops comm memtable_init, st_staged = [], st_freed = 0, st_frames = st_frames s, st_wal_size = st_wal_size s\<rparr>
     else Inl STORE_ERR_CHK_MISMATCH)"
proof -
  let ?s = "\<lparr>st_table = apply_ops comm memtable_init, st_staged = [], st_freed = 0, st_frames = st_frames s, st_wal_size = st_wal_size s\<rparr>"
  from assms(1) have i: "list_all op_ok comm" "st_frames s = of_nat (length comm)" "st_wal_size s = length (wal_of comm)"
    by (simp_all add: store_inv_def)
  obtain root where r: "store_get_merkle_root True (st_table s) = Inr root" "dk' = dk\<lparr>dk_chk := Some (chk_bytes (st_frames s) root)\<rparr>"
    using assms(3) by (auto simp: store_checkpoint_def store_get_merkle_root_def split: if_splits sum.splits)
  obtain root' where r': "store_get_merkle_root True (apply_ops comm memtable_init) = Inr root'"
    by (cases "store_get_merkle_root True (apply_ops comm memtable_init)") (auto simp: store_get_merkle_root_def split: if_splits)
  note c = chk_fields [OF root_length [OF r(1)], of "st_frames s"]
  have v: "verify_checkpoint_on_open oi ?s (Some (chk_bytes (st_frames s) root)) =
      (if root' = root then STORE_OK else STORE_ERR_CHK_MISMATCH)"
    using assms(4) r' by (simp add: verify_checkpoint_on_open_def c open_ok_def)
  have w: "recover_and_replay_wal (op_replay oi) (wal_of comm) =
      (Inr (apply_ops comm memtable_init, length (wal_of comm), length comm), wal_of comm)"
    using assms(4) i(1) by (intro recover_wal_of) (simp_all add: open_ok_def)
  show ?thesis using assms(2,4) w v r r' i by (simp add: store_open_def open_ok_def Let_def)
qed

section \<open>A concrete store\<close>

definition good_open :: OpenIo where
  "good_open = \<lparr>op_dir = True, op_mem = True, op_lock = True, op_wal = True, op_chk = True, op_chk_read = True,
     op_root_mem = True, op_replay = good_io\<rparr>"

definition new_store :: Store where
  "new_store = \<lparr>st_table = [], st_staged = [], st_freed = 0, st_frames = 0, st_wal_size = 12\<rparr>"

definition new_disk :: Disk where
  "new_disk = \<lparr>dk_wal = wal_of [], dk_chk = None, dk_locked = True\<rparr>"

definition put_store :: Store where
  "put_store = new_store\<lparr>st_table := [\<lparr>me_key = [107], me_val = [118]\<rparr>], st_staged := [one_put]\<rparr>"

definition commit_io :: "bool \<Rightarrow> CommitIo" where
  "commit_io sync = \<lparr>ci_buf = \<lambda>_. True, ci_write = \<lambda>_. 45, ci_sync = sync\<rparr>"

lemma good_open_ok: "open_ok good_open"
  by (simp add: open_ok_def good_open_def good_io_ok)

lemma new_reach: "reach new_store new_disk"
proof (rule reach.fresh [of good_open])
  show "io_ok (op_replay good_open)" by (simp add: good_open_def good_io_ok)
  show "store_open good_open \<lparr>dk_wal = [], dk_chk = None, dk_locked = False\<rparr> = (Inr new_store, new_disk)"
    using wal_header_length
    by (simp add: store_open_def good_open_def recover_and_replay_wal_def write_wal_header_def good_io_def Let_def
        verify_checkpoint_on_open_def new_store_def new_disk_def wal_of_def memtable_init_def)
qed

lemma put_reach: "reach put_store new_disk"
proof (rule reach.put [OF new_reach, of True True "Some [107]" "Inr [118]" STORE_OK])
  show "store_put True True new_store (Some [107]) (Inr [118]) = (STORE_OK, put_store)"
    by (simp add: store_put_def new_store_def put_store_def one_put_def stage_def val_len_def val_bytes_def store_limits
        memtable_put_def memtable_find_def find_between.simps)
qed

lemma one_put_table: "apply_ops [one_put] memtable_init = [\<lparr>me_key = [107], me_val = [118]\<rparr>]"
proof -
  have "apply_ops [one_put] memtable_init = snd (memtable_put True [] [107] [118])"
    by (simp add: apply_ops_def mt.step_def op_effect_def one_put_def memtable_init_def)
  then show ?thesis by (simp add: memtable_put_def memtable_find_def find_between.simps)
qed

lemma one_put_frame: "length (frame_bytes one_put) = 45"
  using one_put_length wal_header_length by (simp add: wal_of_def)

lemma put_commits:
  "store_commit (commit_io sync) put_store (dk_wal new_disk) = Some (if sync
     then (STORE_OK, put_store\<lparr>st_wal_size := 57, st_frames := 1, st_staged := []\<rparr>, wal_of [one_put])
     else (STORE_ERR_IO, put_store\<lparr>st_wal_size := 57, st_frames := 1, st_freed := 1\<rparr>, wal_of [one_put]))"
proof -
  have t: "total_bytes [one_put] = 45" using one_put_frame length_frame_bytes [OF one_put_ok] by (simp add: total_bytes_def)
  have w: "pwrite_at 12 (frame_bytes one_put) wal_header = wal_of [one_put]"
    using wal_header_length by (simp add: pwrite_at_def wal_of_def)
  show ?thesis
    using one_put_frame t w by (simp add: store_commit_def put_store_def new_store_def new_disk_def commit_io_def store_limits wal_of_def)
qed

section \<open>Properties\<close>

text \<open>
  C16: crash consistency of every reachable store. In a store that has been opened, used and
  perhaps recovered any number of times, the table is that of the committed operations
  followed by the staged ones; and if the process dies and only a cut of the log behind the
  committed part survives, recovery gives all committed operations and a prefix of the
  staged ones, in order, and nothing else.
\<close>
theorem store_crash_consistent:
  assumes "reach s dk" "st_wal_size s \<le> n" "io_ok io"
  shows "\<exists>comm j. table_map (st_table s) = ops_map (comm @ st_staged s) \<and> st_frames s = of_nat (length comm) \<and>
    recover_and_replay_wal io (take n (dk_wal dk)) =
      (Inr (apply_ops (comm @ take j (st_staged s)) memtable_init, length (wal_of (comm @ take j (st_staged s))),
         length (comm @ take j (st_staged s))), wal_of (comm @ take j (st_staged s)))"
proof -
  obtain comm where c: "store_inv comm s (dk_wal dk)" using reach_inv [OF assms(1)] by blast
  from recover_cut [OF c assms(2,3)] inv_table [OF c] c show ?thesis by (auto simp: store_inv_def)
qed

theorem store_crash_consistent_witness:
  "\<exists>comm. table_map (st_table put_store) = ops_map (comm @ [one_put])"
  using store_crash_consistent [OF put_reach, of 12 good_io] good_io_ok by (auto simp: put_store_def new_store_def)

text \<open>
  C18: commits are durable. After a successful commit of a reachable store, recovering the log
  gives exactly the table, the size and the number of frames the store has in memory.
\<close>
theorem store_commit_durable:
  assumes "reach s dk" "ci_sync ci" "store_commit ci s (dk_wal dk) = Some (STORE_OK, s', f)" "io_ok io"
  shows "\<exists>n. recover_and_replay_wal io f = (Inr (st_table s', st_wal_size s', n), f) \<and> st_frames s' = of_nat n \<and>
    st_table s' = st_table s \<and> st_staged s' = []"
proof -
  obtain comm where c: "store_inv comm s (dk_wal dk)" using reach_inv [OF assms(1)] by blast
  from commit_inv [OF c assms(2,3)] c have i: "store_inv (comm @ st_staged s) s' f" "st_staged s' = []" by auto
  then have "f = wal_of (comm @ st_staged s)" by (auto simp: store_inv_def)
  moreover have "list_all op_ok (comm @ st_staged s)" using i(1) by (simp add: store_inv_def)
  ultimately show ?thesis using recover_wal_of [OF assms(4)] i c by (auto simp: store_inv_def)
qed

theorem store_commit_durable_witness:
  "\<exists>n. recover_and_replay_wal good_io (wal_of [one_put]) = (Inr ([\<lparr>me_key = [107], me_val = [118]\<rparr>], 57, n), wal_of [one_put])"
proof -
  have "ci_sync (commit_io True)" by (simp add: commit_io_def)
  from store_commit_durable [OF put_reach this _ good_io_ok] put_commits [of True] show ?thesis
    by (fastforce simp: put_store_def)
qed

text \<open>
  C33: lookups. On a reachable store, \<open>store_get\<close> with a non-empty key returns what the last
  operation on the key, committed or staged, left: not found with length 0, the length and
  the bytes, or, when the buffer is too small, the length only.
\<close>
theorem store_get_reads_last_write:
  assumes "reach s dk" "key \<noteq> []"
  shows "\<exists>comm. store_inv comm s (dk_wal dk) \<and> store_get s (Some key) True cap True =
    (case ops_map (comm @ st_staged s) key of
       None \<Rightarrow> (STORE_ERR_NOT_FOUND, Some 0, [])
     | Some v \<Rightarrow> if cap < length v then (STORE_ERR_LIMIT_VAL, Some (length v), []) else (STORE_OK, Some (length v), v))"
proof -
  obtain comm where c: "store_inv comm s (dk_wal dk)" using reach_inv [OF assms(1)] by blast
  obtain found idx where f: "memtable_find (st_table s) key = (found, idx)" by fastforce
  have "ops_map (comm @ st_staged s) key = (if found then Some (me_val (st_table s ! idx)) else None)"
    using memtable_get [OF _ f] inv_table [OF c] by simp
  then show ?thesis using c f assms(2) by (intro exI [of _ comm]) (simp add: store_get_def Let_def)
qed

theorem store_get_reads_last_write_witness:
  "\<exists>comm. store_inv comm put_store (dk_wal new_disk) \<and> store_get put_store (Some [107]) True 9 True =
    (case ops_map (comm @ [one_put]) [107] of
       None \<Rightarrow> (STORE_ERR_NOT_FOUND, Some 0, [])
     | Some v \<Rightarrow> if 9 < length v then (STORE_ERR_LIMIT_VAL, Some (length v), []) else (STORE_OK, Some (length v), v))"
  using store_get_reads_last_write [OF put_reach, of "[107]" 9] by (simp add: put_store_def)

text \<open>
  The root does not depend on the history. Two sequences of operations that leave the same
  keys with the same values give the same Merkle root.
\<close>
theorem merkle_root_history_independent:
  assumes "ops_map xs = ops_map ys"
  shows "store_get_merkle_root mem (apply_ops xs memtable_init) = store_get_merkle_root mem (apply_ops ys memtable_init)"
  using mt.run_unique [of "map op_effect xs" "map op_effect ys"] assms by (simp add: apply_ops_def ops_map_def)

theorem merkle_root_history_independent_witness:
  "store_get_merkle_root True (apply_ops [one_put\<lparr>so_val := [1]\<rparr>, one_put] memtable_init) =
     store_get_merkle_root True (apply_ops [one_put] memtable_init)"
  by (rule merkle_root_history_independent) (simp add: ops_map_def op_effect_def one_put_def)

text \<open>
  C34: a checkpoint covers operations that are not committed. Opened again after a checkpoint and
  a clean end, a store whose log holds its committed operations only is rejected with
  \<open>STORE_ERR_CHK_MISMATCH\<close> exactly when the root of the table with the staged operations
  differs from the root of the committed ones; with nothing staged it opens as it was.
\<close>
theorem checkpoint_covers_staged:
  assumes "store_inv comm s (wal_of comm)" "dk_wal dk = wal_of comm" "store_checkpoint ck s dk = (STORE_OK, dk')" "open_ok oi"
  shows "(fst (store_open oi (dk'\<lparr>dk_locked := False\<rparr>)) = Inl STORE_ERR_CHK_MISMATCH \<longleftrightarrow>
      store_get_merkle_root True (apply_ops comm memtable_init) \<noteq> store_get_merkle_root True (apply_ops (comm @ st_staged s) memtable_init)) \<and>
    (st_staged s = [] \<longrightarrow> fst (store_open oi (dk'\<lparr>dk_locked := False\<rparr>)) = Inr s)"
  using reopen_checkpoint [OF assms] assms(1) by (auto simp: store_inv_def)

theorem checkpoint_covers_staged_witness:
  "\<exists>dk'. store_checkpoint \<lparr>ck_sync = True, ck_mem = True, ck_tmp = True\<rparr> put_store new_disk = (STORE_OK, dk') \<and>
    (fst (store_open good_open (dk'\<lparr>dk_locked := False\<rparr>)) = Inl STORE_ERR_CHK_MISMATCH \<longleftrightarrow>
      store_get_merkle_root True (apply_ops [] memtable_init) \<noteq> store_get_merkle_root True (apply_ops [one_put] memtable_init))"
proof -
  have i: "store_inv [] put_store (wal_of [])"
    using one_put_ok wal_header_length one_put_table
    by (auto simp: store_inv_def put_store_def new_store_def wal_of_def intro: exI [of _ 0])
  have w: "dk_wal new_disk = wal_of []" by (simp add: new_disk_def)
  obtain dk' where c: "store_checkpoint \<lparr>ck_sync = True, ck_mem = True, ck_tmp = True\<rparr> put_store new_disk = (STORE_OK, dk')"
    by (simp add: store_checkpoint_def store_get_merkle_root_def put_store_def)
  from checkpoint_covers_staged [OF i w c good_open_ok] c show ?thesis by (auto simp: put_store_def)
qed

text \<open>
  A commit whose \<open>fsync\<close> fails frees what it leaves in the queue. It reports an I/O error
  and the operations stay staged with their keys and values freed, so that the next commit
  and the close of the store touch freed memory.
\<close>
theorem commit_sync_failure_dangles:
  "\<exists>s f. reach put_store new_disk \<and> store_commit (commit_io False) put_store (dk_wal new_disk) = Some (STORE_ERR_IO, s, f) \<and>
     st_staged s \<noteq> [] \<and> store_commit (commit_io True) s f = None \<and> store_close s (new_disk\<lparr>dk_wal := f\<rparr>) = None"
proof -
  have "total_bytes [one_put] = 45" using one_put_frame length_frame_bytes [OF one_put_ok] by (simp add: total_bytes_def)
  then show ?thesis using put_commits [of False] put_reach
    by (simp add: store_commit_def [of "commit_io True"] store_close_def put_store_def new_store_def store_limits)
qed



end
