(* ===== verification/Spec2Isabelle.thy ===== *)
theory Spec2Isabelle
  imports Lin_Grammar Lin_Str Lint_C0 Linp_C0 C0_Arena C0_Gpu Lin_Receipt Store_C0
begin

text \<open>
  A verification library for the C11 host of LIN, the directory \<open>transpile/c\<close> of the
  repository. Paths below are relative to that directory.

  \<^bold>\<open>The program and its parts.\<close> LIN is a small integer language whose programs are run by a
  fail-closed virtual machine. The C host has two ways into the machine. An expression goes
  through the tokenizer, the Pratt parser, a flat arena of syntax nodes and the lowerer
  (\<open>lin_c/lin_token.c\<close>, \<open>lin_parse.c\<close>, \<open>lin_ast.c\<close>, \<open>lin_vm.c\<close>). A program text goes through
  the one-pass compiler 0 (\<open>tool/lin_c0_front.c\<close>), whose module is run directly or written as
  a LINBC1 image that a host loads again (\<open>lin_c/lin_linbc1.c\<close>). A running program reaches
  its inputs through regions and the HOST-ABI-2 intrinsics (\<open>lin_region.c\<close>, \<open>lin_abi.c\<close>);
  strings of the HOST-ABI-1 are \<open>lin_str.c\<close>. Every receipt, image and checkpoint is bound by
  the SHA-256 of \<open>lin_sha256.c\<close>. Results are kept in the embedded key-value store of
  \<open>store_c0/store_c0.c\<close>, a sorted table behind a write-ahead log. Around them stand four
  tools: the receipt of one expression (\<open>tool/lin_c_receipt.c\<close>), the driver of images
  (\<open>tool/lin_bc1_run.c\<close>), the layout compiler \<open>lint_c0/lint_c0.c\<close> and the packer
  \<open>linp_c0/linp_c0.c\<close>. Compiler 0 also has two back-ends that print a module as C and a function
  as an OpenCL kernel and compare what they compute with the machine (\<open>tool/lin_c0_jit.c\<close>,
  \<open>tool/lin_c0_gpu.c\<close>).

  \<^bold>\<open>The theories.\<close>
  \<^item> \<open>Lin_Prelude\<close>: machine integers as words, results as sums with \<open>and_then\<close> and
    \<open>opt_then\<close>, list and byte lemmas, and the locale \<open>fuelled\<close> of functions that return the
    same result with more fuel, interpreted for the parser, the machine
    and the emitted C programs.
  \<^item> \<open>Lin_Common\<close>: \<open>lin_common.c\<close>, the error codes, limits and the wrapping arithmetic.
  \<^item> \<open>Lin_Token\<close>, \<open>Lin_Ast\<close>, \<open>Lin_Parse\<close>, \<open>Lin_Grammar\<close>: the expression pipeline.
    \<open>Lin_Token\<close> proves print and re-tokenize, \<open>Lin_Ast\<close> relates the arrays of the arena to
    trees (\<open>repr\<close>) and the index-based evaluator to the value of the tree, \<open>Lin_Parse\<close> shows
    that the parser returns on every text, \<open>Lin_Grammar\<close> that what it accepts is a sentence
    of a stratified grammar whose tree the arena holds.
  \<^item> \<open>Lin_Vm\<close>, \<open>Lin_Vm_Safety\<close>, \<open>Lin_Lower\<close>: the interpreter with its frames, its safety
    (termination, bounds, isolation of frames) and the lowerer with the proof that lowered
    code computes the value of the arena. An access outside an array of a frame is a value of
    its own (\<open>VmFault\<close>), so that memory safety is a statement and not an assumption.
  \<^item> \<open>Lin_Region\<close>, \<open>Lin_Abi\<close>, \<open>Lin_Str\<close>: regions, the dispatch of intrinsics, byte strings.
  \<^item> \<open>Lin_Sha256\<close>: the streaming hash against a textbook definition, with the locale
    \<open>streaming_hash\<close> for what clients rely on.
  \<^item> \<open>Lin_Codec\<close>, \<open>Lin_Linbc1\<close>, \<open>C0_Image\<close>: the fixed-width fields of the image as a locale
    \<open>fixed_field\<close> interpreted for the four widths, the loader, the encoder and their round trip.
  \<^item> \<open>C0_Arena\<close>, \<open>C0_Scan\<close>, \<open>C0_Comp\<close>, \<open>C0_Comp_Safety\<close>, \<open>C0_Stmt_Safety\<close>, \<open>C0_Build\<close>,
    \<open>C0_Pipeline\<close>: compiler 0, that is the chunked arena, the declaration scanner and the
    tokenizer, expressions and statements, the invariant of the compiler state with the
    termination of the descent, dependency resolution and the module builder, and what the
    loader and the machine make of a built module.
  \<^item> \<open>Store_Table\<close>, \<open>Store_Wal\<close>, \<open>Store_C0\<close>: the store, that is the sorted table as an
    interpretation of the map interface \<open>kv_table\<close>, the log and its recovery, the operations
    with an inductive relation of the reachable stores and disks and their invariant.
  \<^item> \<open>Lin_Stdlib\<close>: what the tools use of the C library on text, \<open>strtoll\<close>, the decimal
    conversions and \<open>strchr\<close>, with the fact that a printed number is read back.
  \<^item> \<open>Lin_Receipt\<close>: \<open>tool/lin_c_receipt.c\<close>, the cross-version receipt. The arena evaluator and
    the machine agree on every expression, and the Merkle root commits to what it covers.
  \<^item> \<open>Lin_Bc1_Run\<close>: \<open>tool/lin_bc1_run.c\<close>, the driver of images, up to the line it prints; with
    compiler 0, the encoder, the loader and the machine it closes the path from a source text.
  \<^item> \<open>Lint_C0\<close>: \<open>lint_c0/lint_c0.c\<close>, the layout compiler: the invariant of its node arena and of
    the stack of open nodes, and a decoder of its images as their specification.
  \<^item> \<open>Linp_C0\<close>: \<open>linp_c0/linp_c0.c\<close>, the packer: plans, disks that carry the payload, and
    manifests whose two ways of quoting interpret the locale \<open>quoting\<close>.
  \<^item> \<open>C0_Check\<close>: the checker of \<open>tool/lin_c0_check.c\<close>. The syntax check is the grammar of nested
    braces, and the type check decides the typing rules stated without its order of search.
  \<^item> \<open>C0_Lint\<close>: the linter of the same file; the summary counts the diagnostics it printed.
  \<^item> \<open>C0_Cli\<close>: the commands of \<open>tool/lin_c0.c\<close> with what they print. The round trip between the
    source route and the image route never diverges, and \<open>run\<close> prints what \<open>vm\<close> prints.
  \<^item> \<open>C0_Receipt\<close>: the command \<open>receipt\<close> and \<open>main\<close>. A created receipt verifies in both forms; it
    certifies the value of the expression at the start of the source.
  \<^item> \<open>C0_Jit\<close>, \<open>C0_Jit_Run\<close>, \<open>C0_Jit_Cli\<close>: \<open>tool/lin_c0_jit.c\<close>. The C program of a module and its
    text, the meaning of the emitted statements with undefined behaviour as a value of its own,
    a simulation of the machine by the C functions, and the commands \<open>jit\<close>, \<open>roundtrip-jit\<close> and
    \<open>jit-verify\<close> over an arbitrary C compiler; the round trip assumes that it conforms.
  \<^item> \<open>C0_Gpu\<close>: \<open>tool/lin_c0_gpu.c\<close>, the lowering to OpenCL with its text buffer and the verifier,
    over an arbitrary device, and the whole command line \<open>lin_c0\<close>.
  \<^item> This theory: the properties of the tool chain from the source text to an execution.

  \<^bold>\<open>How code is modelled.\<close> A C struct is a record, an enumeration a datatype with the names of
  the source, an integer a word of its width; \<open>size_t\<close> is a \<open>nat\<close> where it counts objects in
  memory. A function that fails returns a sum with the error code on the left. What the code
  cannot decide itself is a parameter: the success of an allocation (\<open>mem\<close>), the outcome of
  each file operation of the store (\<open>WalIo\<close> and its companions), the bytes of an
  uninitialised context, the contents of the files a tool reads. A property quantifies over
  them. A collision of SHA-256 is never assumed away: a property that needs one names the two
  messages.

  \<^bold>\<open>Fuel and bounds.\<close> The parser takes \<open>parse_fuel\<close>, linear in the length of the text, and
  \<open>parse_full_total\<close> shows that this is enough. The descent of compiler 0 takes the number of
  tokens of the body, and \<open>c0_build_total\<close> shows that it returns. The machine takes the step
  limit of the source; \<open>vm_exec_total\<close> shows that no run needs more, because every
  instruction counts as a step. The C programs of the native back-end take fuel without a bound;
  \<open>jit_agrees_with_vm\<close> shows that the fuel of the machine is enough for them. The limits of the source
  (stack, locals, arrays, depth, image sections) are definitions with the values of the headers.

  \<^bold>\<open>Not modelled.\<close> The libraries the back-ends load, \<open>libtcc\<close> and OpenCL, which are parameters;
  what a device makes of a kernel text; test programs, examples, stubs and fixtures; the Zig, Go,
  Python and LIN parts of the repository.
\<close>

section \<open>The tool chain\<close>

text \<open>
  From source to execution. The image the encoder writes for a module the front-end built is
  accepted by the loader if the module fits its two size limits, holds the same functions,
  and the machine gives the same result, error or value and step count, on the loaded module
  as on the built one, for every function, arguments and depth.
\<close>
theorem compiled_image_runs_like_module:
  assumes "c0_build_impl mem source dv sh = Some (Inr md)" "c0_image_encode mem' md = Inr img"
    "sum_list (map (\<lambda>f. length (code f)) md) \<le> LIN_BC1_MAX_INS_TOTAL"
    "sum_list (map (\<lambda>f. length (fn_name f)) md) \<le> LIN_BC1_MAX_STR_BYTES"
  shows "\<exists>vm. lin_bc1_load (Some img) True = Inr vm \<and> map fn_name (bc1_mod vm) = map fn_name md \<and>
    (\<forall>m fi args dep steps. vm_exec m (Some (bc1_mod vm)) fi args dep steps = vm_exec m (Some md) fi args dep steps)"
proof -
  obtain vm where "lin_bc1_load (Some img) True = Inr vm" "bc1_mod vm = map loaded md"
    using encoded_loads [OF assms] by blast
  then show ?thesis by (auto simp: exec_loaded)
qed

theorem compiled_image_runs_like_module_witness:
  "\<exists>img vm. c0_image_encode (\<lambda>_. True) [ident_fn] = Inr img \<and> lin_bc1_load (Some img) True = Inr vm \<and>
     vm_exec True (Some (bc1_mod vm)) 0 [7] 0 (Some 0) = vm_exec True (Some [ident_fn]) 0 [7] 0 (Some 0)"
proof -
  obtain img where i: "c0_image_encode (\<lambda>_. True) [ident_fn] = Inr img" using ident_encodes by blast
  from compiled_image_runs_like_module [OF ident_build i] i show ?thesis
    by (auto simp: ident_fn_def bc1_limits)
qed

text \<open>
  C17: untrusted images are memory safe. Whatever bytes \<open>lin_bc1_load\<close> accepts, no execution of
  the module leaves the arrays of its frame, the push of a call result on a full stack
  excepted, and that one needs a function without parameters.
\<close>
theorem loaded_image_memory_safe:
  assumes "lin_bc1_load oimg has_out = Inr vm"
  shows "vm_exec mem (Some (bc1_mod vm)) fi args dep (Some steps) = Some (Inl (VmFault x, s)) \<longrightarrow>
    x = CallResult \<and> list_ex (\<lambda>f. nparams f = 0) (bc1_mod vm)"
  using vm_exec_faults [OF _ module_valid_safe [OF load_module_valid [OF assms]]] by (auto simp: list_ex_iff)

theorem loaded_image_memory_safe_witness:
  "\<exists>vm :: LinBc1Vm. bc1_mod vm = identity_module \<and>
     \<not> (\<exists>x s. vm_exec True (Some (bc1_mod vm)) 0 [5] 0 (Some 0) = Some (Inl (VmFault x, s)))"
proof -
  obtain oimg vm where vm: "lin_bc1_load oimg True = Inr vm" "bc1_mod vm = identity_module" using identity_loads by blast
  from loaded_image_memory_safe [OF vm(1), of True 0 "[5]" 0 0] vm(2) show ?thesis
    by (intro exI [of _ vm]) (auto simp: identity_module_def)
qed

end
